(* ===== verification/Prelude.thy ===== *)
theory Prelude
  imports Main "HOL-Library.Word" "HOL-Library.Char_ord" "HOL-Library.List_Lexorder"
begin

text \<open>
  What the components share: the Go types they use and the library functions they call.

  A Go \<open>string\<close> and a \<open>[]byte\<close> are lists of bytes (\<open>char list\<close>); \<open>len\<close> is \<open>length\<close> and
  \<open>sort.Strings\<close> is \<open>sort\<close> in the byte-wise lexicographic order. The functions of package
  \<open>strings\<close> are written out for ASCII: on a string of ASCII bytes they are \<open>ToLower\<close>,
  \<open>ToUpper\<close>, \<open>TrimSpace\<close>, \<open>EqualFold\<close>; bytes from 128 on, where Go consults the Unicode
  tables, are left as they are. A \<open>time.Time\<close> is a number of nanoseconds whose zero is Go's
  zero time, a \<open>time.Duration\<close> an integer of nanoseconds. A Go \<open>int\<close> is an integer, with
  \<open>wrap64\<close> written at the operations that can leave the 64-bit range. A function that returns
  an error returns a sum whose \<open>Inl\<close> is the error.
\<close>

section \<open>Types and hint collections\<close>

type_synonym bytes = "char list"
type_synonym time = int
type_synonym duration = int
type_synonym u64 = "64 word"
type_synonym u32 = "32 word"

named_theorems wf_intros "introduction rules for the components' invariants"
named_theorems err_simps "the error branches of the components' operations"

section \<open>Strings\<close>

definition lower_char :: "char \<Rightarrow> char" where
  "lower_char c = (if 65 \<le> (of_char c :: nat) \<and> (of_char c :: nat) \<le> 90
                   then char_of ((of_char c :: nat) + 32) else c)"

definition upper_char :: "char \<Rightarrow> char" where
  "upper_char c = (if 97 \<le> (of_char c :: nat) \<and> (of_char c :: nat) \<le> 122
                   then char_of ((of_char c :: nat) - 32) else c)"

definition is_space :: "char \<Rightarrow> bool" where
  "is_space c \<longleftrightarrow> (9 \<le> (of_char c :: nat) \<and> (of_char c :: nat) \<le> 13) \<or> (of_char c :: nat) = 32"

definition to_lower :: "string \<Rightarrow> string" where
  "to_lower s = map lower_char s"

definition to_upper :: "string \<Rightarrow> string" where
  "to_upper s = map upper_char s"

definition trim_space :: "string \<Rightarrow> string" where
  "trim_space s = rev (dropWhile is_space (rev (dropWhile is_space s)))"

definition equal_fold :: "string \<Rightarrow> string \<Rightarrow> bool" where
  "equal_fold s t \<longleftrightarrow> to_lower s = to_lower t"

fun has_prefix :: "string \<Rightarrow> string \<Rightarrow> bool" where
  "has_prefix s [] = True"
| "has_prefix [] (p # ps) = False"
| "has_prefix (c # s) (p # ps) = (c = p \<and> has_prefix s ps)"

fun contains_str :: "string \<Rightarrow> string \<Rightarrow> bool" where
  "contains_str [] p = (p = [])"
| "contains_str (c # s) p = (has_prefix (c # s) p \<or> contains_str s p)"

definition trim_prefix :: "string \<Rightarrow> string \<Rightarrow> string" where
  "trim_prefix s p = (if has_prefix s p then drop (length p) s else s)"

definition trim_suffix :: "string \<Rightarrow> string \<Rightarrow> string" where
  "trim_suffix s p = (if has_prefix (rev s) (rev p) then take (length s - length p) s else s)"

text \<open>What follows the first occurrence of \<open>p\<close>.\<close>

fun after_first :: "string \<Rightarrow> string \<Rightarrow> string" where
  "after_first [] p = []"
| "after_first (c # s) p = (if has_prefix (c # s) p then drop (length p) (c # s) else after_first s p)"

text \<open>The part of a string after its last occurrence of a byte, if it has one.\<close>

definition after_last :: "char \<Rightarrow> string \<Rightarrow> string option" where
  "after_last c s = (if c \<in> set s then Some (rev (takeWhile (\<lambda>x. x \<noteq> c) (rev s))) else None)"

definition before_last :: "char \<Rightarrow> string \<Rightarrow> string option" where
  "before_last c s =
     (if c \<in> set s then Some (rev (tl (dropWhile (\<lambda>x. x \<noteq> c) (rev s)))) else None)"

fun join :: "string \<Rightarrow> string list \<Rightarrow> string" where
  "join sep [] = []"
| "join sep [x] = x"
| "join sep (x # y # zs) = x @ sep @ join sep (y # zs)"

lemma of_char_lt_256: "(of_char c :: nat) < 256"
  by (metis nat_of_char_less_256)

lemma lower_char_idem [simp]: "lower_char (lower_char c) = lower_char c"
  using of_char_lt_256 [of c] by (auto simp: lower_char_def take_bit_eq_mod)

lemma to_lower_idem [simp]: "to_lower (to_lower s) = to_lower s"
  by (simp add: to_lower_def comp_def)

lemma is_space_lower [simp]: "is_space (lower_char c) = is_space c"
  using of_char_lt_256 [of c] by (auto simp: lower_char_def is_space_def take_bit_eq_mod)

lemma dropWhile_map_lower: "dropWhile is_space (map lower_char s) = map lower_char (dropWhile is_space s)"
  by (induction s) auto

lemma trim_space_to_lower: "trim_space (to_lower s) = to_lower (trim_space s)"
  by (simp add: trim_space_def to_lower_def dropWhile_map_lower rev_map)

lemma dropWhile_idem [simp]: "dropWhile P (dropWhile P xs) = dropWhile P xs"
  by (induction xs) auto

lemma dropWhile_rev_dropWhile:
  "dropWhile P (rev (dropWhile P (rev (dropWhile P xs)))) = rev (dropWhile P (rev (dropWhile P xs)))"
proof -
  define zs where "zs = dropWhile P xs"
  define ws where "ws = rev (dropWhile P (rev zs))"
  have suff: "ws @ rev (takeWhile P (rev zs)) = zs"
    unfolding ws_def by (metis rev_append rev_rev_ident takeWhile_dropWhile_id)
  have "dropWhile P ws = ws"
  proof (cases ws)
    case (Cons y ys)
    with suff obtain us where zs: "zs = y # us" by (metis append_Cons)
    have "\<not> P y" using hd_dropWhile [of P xs] zs zs_def by (metis list.distinct(1) list.sel(1))
    with Cons show ?thesis by simp
  qed simp
  then show ?thesis by (simp add: ws_def zs_def)
qed

lemma trim_space_idem [simp]: "trim_space (trim_space s) = trim_space s"
  by (simp add: trim_space_def dropWhile_rev_dropWhile)

lemma trim_space_Nil [simp]: "trim_space [] = []"
  by (simp add: trim_space_def)

lemma to_lower_Nil_iff [simp]: "to_lower s = [] \<longleftrightarrow> s = []"
  by (simp add: to_lower_def)

lemma equal_fold_refl [simp]: "equal_fold s s"
  by (simp add: equal_fold_def)

lemma has_prefix_iff: "has_prefix s p \<longleftrightarrow> (\<exists>t. s = p @ t)"
  by (induction s p rule: has_prefix.induct) auto

lemma has_prefix_append [simp]: "has_prefix (p @ t) p"
  by (auto simp: has_prefix_iff)

lemma contains_str_iff: "contains_str s p \<longleftrightarrow> (\<exists>a b. s = a @ p @ b)"
proof (induction s)
  case Nil
  then show ?case by auto
next
  case (Cons c s)
  show ?case
  proof
    assume "contains_str (c # s) p"
    then consider "has_prefix (c # s) p" | "contains_str s p" by auto
    then show "\<exists>a b. c # s = a @ p @ b"
    proof cases
      case 1
      then show ?thesis by (metis append_Nil has_prefix_iff)
    next
      case 2
      then show ?thesis using Cons.IH by (metis append_Cons)
    qed
  next
    assume "\<exists>a b. c # s = a @ p @ b"
    then obtain a b where ab: "c # s = a @ p @ b" by blast
    show "contains_str (c # s) p"
    proof (cases a)
      case Nil
      then have "has_prefix (c # s) p" using ab by (auto simp: has_prefix_iff)
      then show ?thesis by simp
    next
      case (Cons d a')
      then have "s = a' @ p @ b" using ab by simp
      then have "contains_str s p" using Cons.IH by blast
      then show ?thesis by simp
    qed
  qed
qed

lemma has_prefix_short: "length p \<le> length s \<Longrightarrow> has_prefix (s @ t) p \<longleftrightarrow> has_prefix s p"
  by (induction s p rule: has_prefix.induct) auto

lemma contains_str_length: "contains_str s p \<Longrightarrow> length p \<le> length s"
  by (auto simp: contains_str_iff)

lemma after_first_append: "contains_str s p \<Longrightarrow> after_first (s @ t) p = after_first s p @ t"
proof (induction s)
  case Nil
  then show ?case by (cases t) auto
next
  case (Cons c s)
  have l: "length p \<le> length (c # s)" using contains_str_length [OF Cons.prems] .
  have hp: "has_prefix (c # (s @ t)) p = has_prefix (c # s) p"
    using has_prefix_short [OF l, of t] by simp
  show ?case
  proof (cases "has_prefix (c # s) p")
    case True
    then have "after_first (c # s @ t) p = drop (length p) ((c # s) @ t)" using hp by simp
    also have "\<dots> = drop (length p) (c # s) @ t" using l by (simp only: drop_append) simp
    finally show ?thesis using True by simp
  next
    case False
    then show ?thesis using Cons hp by simp
  qed
qed

section \<open>Decimal numbers\<close>

text \<open>\<open>strconv.FormatUint(n, 10)\<close> and \<open>strconv.ParseUint(s, 10, bits)\<close>.\<close>

fun fmt_uint :: "nat \<Rightarrow> string" where
  "fmt_uint n = (if n < 10 then [char_of (48 + n)]
                 else fmt_uint (n div 10) @ [char_of (48 + n mod 10)])"

declare fmt_uint.simps [simp del]

definition is_digit :: "char \<Rightarrow> bool" where
  "is_digit c \<longleftrightarrow> 48 \<le> (of_char c :: nat) \<and> (of_char c :: nat) \<le> 57"

definition digits_val :: "string \<Rightarrow> nat" where
  "digits_val s = foldl (\<lambda>a c. 10 * a + (of_char c - 48)) 0 s"

definition parse_uint :: "nat \<Rightarrow> string \<Rightarrow> nat option" where
  "parse_uint bits s =
     (if s \<noteq> [] \<and> list_all is_digit s \<and> digits_val s < 2 ^ bits then Some (digits_val s) else None)"

lemma of_char_digit: "n < 10 \<Longrightarrow> (of_char (char_of (48 + n) :: char) :: nat) = 48 + n"
  by (simp add: take_bit_eq_mod)

lemma digits_val_snoc: "digits_val (s @ [c]) = 10 * digits_val s + (of_char c - 48)"
  by (simp add: digits_val_def)

lemma digits_val_fmt [simp]: "digits_val (fmt_uint n) = n"
proof (induction n rule: fmt_uint.induct)
  case (1 n)
  show ?case
  proof (cases "n < 10")
    case True
    then show ?thesis
      using of_char_digit [of n] by (subst fmt_uint.simps) (simp add: digits_val_def)
  next
    case False
    have d: "(of_char (char_of (48 + n mod 10) :: char) :: nat) = 48 + n mod 10"
      by (rule of_char_digit) simp
    have "digits_val (fmt_uint n) = digits_val (fmt_uint (n div 10) @ [char_of (48 + n mod 10)])"
      using False by (subst fmt_uint.simps) simp
    also have "\<dots> = 10 * (n div 10) + n mod 10"
      using 1 False d by (simp add: digits_val_snoc)
    finally show ?thesis by simp
  qed
qed

lemma fmt_uint_ne [simp]: "fmt_uint n \<noteq> []"
  by (subst fmt_uint.simps) simp

lemma fmt_uint_digits: "list_all is_digit (fmt_uint n)"
proof (induction n rule: fmt_uint.induct)
  case (1 n)
  show ?case
  proof (cases "n < 10")
    case True
    then show ?thesis using of_char_digit [of n] by (subst fmt_uint.simps) (simp add: is_digit_def)
  next
    case False
    have v: "(of_char (char_of (48 + n mod 10) :: char) :: nat) = 48 + n mod 10"
      by (rule of_char_digit) simp
    have "n mod 10 < 10" by simp
    with v have "is_digit (char_of (48 + n mod 10) :: char)"
      unfolding is_digit_def v by linarith
    with 1 False show ?thesis by (subst fmt_uint.simps) simp
  qed
qed

lemma fmt_uint_no_dot: "CHR ''.'' \<notin> set (fmt_uint n)"
  using fmt_uint_digits [of n] by (auto simp: list_all_iff is_digit_def)

lemma parse_fmt_uint: "n < 2 ^ bits \<Longrightarrow> parse_uint bits (fmt_uint n) = Some n"
  by (simp add: parse_uint_def fmt_uint_digits)

lemma fmt_uint_inj [simp]: "fmt_uint m = fmt_uint n \<longleftrightarrow> m = n"
  by (metis digits_val_fmt)

lemma parse_uint_bound: "parse_uint bits s = Some n \<Longrightarrow> n < 2 ^ bits"
  by (auto simp: parse_uint_def split: if_splits)

section \<open>Machine integers and durations\<close>

text \<open>The value a 64-bit \<open>int\<close> holds after an arithmetic operation with exact result \<open>n\<close>.\<close>

definition wrap64 :: "int \<Rightarrow> int" where
  "wrap64 n = (n + 2 ^ 63) mod 2 ^ 64 - 2 ^ 63"

definition in_int64 :: "int \<Rightarrow> bool" where
  "in_int64 n \<longleftrightarrow> - (2 ^ 63) \<le> n \<and> n < 2 ^ 63"

lemma wrap64_id: "in_int64 n \<Longrightarrow> wrap64 n = n"
  by (simp add: wrap64_def in_int64_def mod_pos_pos_trivial)

lemma wrap64_range: "in_int64 (wrap64 n)"
proof -
  have "0 \<le> (n + 2 ^ 63) mod 2 ^ 64" and "(n + 2 ^ 63) mod 2 ^ 64 < (2 ^ 64 :: int)"
    by simp_all
  then show ?thesis by (simp add: wrap64_def in_int64_def)
qed

text \<open>\<open>Time.Sub\<close> saturates at the largest and smallest duration.\<close>

definition time_sub :: "time \<Rightarrow> time \<Rightarrow> duration" where
  "time_sub t u = max (- (2 ^ 63)) (min (2 ^ 63 - 1) (t - u))"

lemma time_sub_exact: "in_int64 (t - u) \<Longrightarrow> time_sub t u = t - u"
  by (simp add: time_sub_def in_int64_def)

section \<open>Lists\<close>

lemma list_all_set: "list_all P xs \<longleftrightarrow> (\<forall>x \<in> set xs. P x)"
  by (simp add: list_all_iff)

lemma find_Some_set: "find P xs = Some x \<Longrightarrow> x \<in> set xs \<and> P x"
  by (induction xs) (auto split: if_splits)

section \<open>Floating point\<close>

text \<open>A \<open>float64\<close>: not a number, an infinity with its sign, or \<open>m / 2 ^ e\<close>. Comparisons with not a number are
  false. The product with a small integer is exact, then rounded to 53 bits, to even on a tie.\<close>

datatype f64 = NaN | Infinite bool | Finite int nat

fun f64_less :: "f64 \<Rightarrow> f64 \<Rightarrow> bool" where
  "f64_less NaN y = False"
| "f64_less x NaN = False"
| "f64_less (Finite m e) (Finite m' e') = (m * 2 ^ e' < m' * 2 ^ e)"
| "f64_less (Infinite neg) (Infinite neg') = (neg \<and> \<not> neg')"
| "f64_less (Infinite neg) (Finite m e) = neg"
| "f64_less (Finite m e) (Infinite neg) = (\<not> neg)"

definition f64_zero :: "f64 \<Rightarrow> bool" where
  "f64_zero x = (case x of Finite m e \<Rightarrow> m = 0 | _ \<Rightarrow> False)"

fun excess_bits :: "nat \<Rightarrow> nat" where
  "excess_bits n = (if n < 2 ^ 53 then 0 else Suc (excess_bits (n div 2)))"

declare excess_bits.simps [simp del]

definition round53 :: "nat \<Rightarrow> nat" where
  "round53 n = (let k = excess_bits n; q = n div 2 ^ k; r = n mod 2 ^ k
     in (if 2 * r > 2 ^ k \<or> 2 * r = 2 ^ k \<and> odd q then q + 1 else q) * 2 ^ k)"

definition f64_times :: "f64 \<Rightarrow> nat \<Rightarrow> f64" where
  "f64_times x c = (case x of
       Finite m e \<Rightarrow> Finite (sgn m * int (round53 (nat \<bar>m\<bar> * c))) e
     | Infinite neg \<Rightarrow> if c = 0 then NaN else Infinite neg
     | NaN \<Rightarrow> NaN)"

lemma round53_small: "n < 2 ^ 53 \<Longrightarrow> round53 n = n"
  by (simp add: round53_def excess_bits.simps [of n])

end
