(* ===== verification/Seqkey.thy ===== *)
theory Seqkey
  imports Prelude "HOL-Library.Char_ord" "HOL-Library.List_Lexorder"
begin

text \<open>Model of \<open>internal/seqkey/seqkey.go\<close>: sequence numbers as 8-byte big-endian keys.

  A byte is a \<open>char\<close> and a key is a list of bytes. The order on keys is the lexicographic order of
  \<^theory_text>\<open>List_Lexorder\<close>, the order a bbolt cursor walks its keys in. The section on digits proves
  the generic facts on base-256 digits from which the round trip and the order of the keys
  follow.\<close>

section \<open>The code\<close>

definition byte_of :: "u64 \<Rightarrow> char" where
  "byte_of w = char_of (unat w mod 256)"

definition seqkey_encode :: "u64 \<Rightarrow> bytes" where
  "seqkey_encode w = map (\<lambda>i. byte_of (drop_bit (8 * i) w)) [7, 6, 5, 4, 3, 2, 1, 0]"

definition be_value :: "bytes \<Rightarrow> nat" where
  "be_value b = foldl (\<lambda>a c. a * 256 + of_char c) 0 b"

definition seqkey_decode :: "bytes \<Rightarrow> u64" where
  "seqkey_decode key = (if length key \<noteq> 8 then 0 else word_of_nat (be_value key))"

section \<open>Base-256 digits\<close>

fun be_digits :: "nat \<Rightarrow> nat \<Rightarrow> bytes" where
  "be_digits 0 n = []"
| "be_digits (Suc k) n = be_digits k (n div 256) @ [char_of (n mod 256)]"

lemma length_be_digits [simp]: "length (be_digits k n) = k"
  by (induction k arbitrary: n) auto

lemma be_value_snoc: "be_value (b @ [c]) = be_value b * 256 + of_char c"
  by (simp add: be_value_def)

lemma be_value_digits: "n < 256 ^ k \<Longrightarrow> be_value (be_digits k n) = n"
proof (induction k arbitrary: n)
  case 0
  then show ?case by (simp add: be_value_def)
next
  case (Suc k)
  then have "n div 256 < 256 ^ k" by (simp add: less_mult_imp_div_less mult.commute)
  with Suc.IH show ?case by (simp add: be_value_snoc)
qed

lemma be_value_bound: "be_value b < 256 ^ length b"
proof (induction b rule: rev_induct)
  case Nil
  then show ?case by (simp add: be_value_def)
next
  case (snoc c b)
  have "(of_char c :: nat) < 256" by (rule of_char_lt_256)
  with snoc have "be_value b * 256 + of_char c < (be_value b + 1) * 256" "be_value b + 1 \<le> 256 ^ length b"
    by simp_all
  then have "be_value b * 256 + of_char c < 256 ^ length b * 256"
    by (meson less_le_trans mult_le_mono1)
  then show ?case by (simp add: be_value_snoc mult.commute)
qed

lemma be_digits_value: "be_digits (length b) (be_value b) = b"
proof (induction b rule: rev_induct)
  case Nil
  then show ?case by simp
next
  case (snoc c b)
  have "(of_char c :: nat) < 256" by (rule of_char_lt_256)
  then have "(be_value b * 256 + of_char c) div 256 = be_value b" by simp
  moreover have "(be_value b * 256 + of_char c) mod 256 = of_char c"
    using \<open>(of_char c :: nat) < 256\<close> by simp
  ultimately show ?case using snoc by (simp add: be_value_snoc)
qed

lemma char_of_less: "a < 256 \<Longrightarrow> b < 256 \<Longrightarrow> (char_of a < char_of b) = (a < (b :: nat))"
  by (simp add: less_char_def)

lemma snoc_less_snoc:
  "length xs = length ys \<Longrightarrow> xs @ [a] < ys @ [b] \<longleftrightarrow> xs < ys \<or> xs = ys \<and> a < (b :: char)"
  by (induction xs ys rule: list_induct2) auto

lemma div_mod_less_iff:
  "m < n \<longleftrightarrow> m div k < n div k \<or> m div k = n div k \<and> m mod k < n mod (k :: nat)"
proof -
  have "m div k < n div k \<Longrightarrow> m < n" by (meson div_le_mono leD not_le_imp_less)
  moreover have "m < n \<Longrightarrow> m div k \<le> n div k" by (simp add: div_le_mono)
  moreover have "m div k = n div k \<Longrightarrow> m < n \<longleftrightarrow> m mod k < n mod k"
    by (metis add_less_cancel_left div_mult_mod_eq)
  ultimately show ?thesis by (metis le_neq_implies_less)
qed

lemma be_digits_less:
  "m < 256 ^ k \<Longrightarrow> n < 256 ^ k \<Longrightarrow> be_digits k m < be_digits k n \<longleftrightarrow> m < n"
proof (induction k arbitrary: m n)
  case 0
  then show ?case by simp
next
  case (Suc k)
  have b: "m div 256 < 256 ^ k" "n div 256 < 256 ^ k"
    using Suc.prems by (simp_all add: less_mult_imp_div_less mult.commute)
  have inj: "be_digits k (m div 256) = be_digits k (n div 256) \<longleftrightarrow> m div 256 = n div 256"
    using b be_value_digits by metis
  have dm: "m < n \<longleftrightarrow> m div 256 < n div 256 \<or> m div 256 = n div 256 \<and> m mod 256 < n mod 256"
    by (rule div_mod_less_iff)
  have c: "char_of (m mod 256) < (char_of (n mod 256) :: char) \<longleftrightarrow> m mod 256 < n mod 256"
    by (rule char_of_less) simp_all
  show ?case
    by (simp only: be_digits.simps snoc_less_snoc length_be_digits Suc.IH [OF b] inj dm c)
qed

lemma be_digits_unfold: "be_digits k n = map (\<lambda>i. char_of (n div 256 ^ i mod 256)) (rev [0..<k])"
proof (induction k arbitrary: n)
  case (Suc k)
  have "rev [0..<Suc k] = map Suc (rev [0..<k]) @ [0]"
    by (metis map_Suc_upt rev.simps(2) rev_map upt_conv_Cons zero_less_Suc)
  then show ?case by (simp add: Suc comp_def div_mult2_eq)
qed simp

section \<open>The keys\<close>

lemma seqkey_encode_digits: "seqkey_encode w = be_digits 8 (unat w)"
proof -
  have r: "rev [0..<8] = [7, 6, 5, 4, 3, 2, 1, 0 :: nat]" by (simp add: upt_rec)
  have d: "unat (drop_bit (8 * i) w) = unat w div 256 ^ i" for i
  proof -
    have "(2 :: nat) ^ (8 * i) = 256 ^ i" by (simp add: power_mult)
    then show ?thesis by (simp only: unat_drop_bit_eq) (simp only: drop_bit_eq_div)
  qed
  show ?thesis
    by (simp add: seqkey_encode_def be_digits_unfold r byte_of_def d)
qed

lemma unat_lt_256_8: "unat (w :: u64) < 256 ^ 8"
  using unsigned_less [of w] by simp

lemma unat_lt64: "unat (w :: u64) < 2 ^ 64"
  using unat_lt_256_8 [of w] by simp

lemma length_seqkey_encode [simp]: "length (seqkey_encode w) = 8"
  by (simp add: seqkey_encode_digits)

lemma seqkey_decode_encode [simp]: "seqkey_decode (seqkey_encode w) = w"
  using be_value_digits [OF unat_lt_256_8]
  by (simp add: seqkey_decode_def) (simp add: seqkey_encode_digits)

lemma seqkey_encode_inj [simp]: "seqkey_encode v = seqkey_encode w \<longleftrightarrow> v = w"
  by (metis seqkey_decode_encode)

lemma seqkey_encode_decode: "length k = 8 \<Longrightarrow> seqkey_encode (seqkey_decode k) = k"
proof -
  assume l: "length k = 8"
  have "be_value k < 2 ^ 64" using be_value_bound [of k] l by simp
  then have "unat (word_of_nat (be_value k) :: u64) = be_value k"
    by (simp add: unat_of_nat take_bit_nat_eq_self)
  then show ?thesis
    using l be_digits_value [of k] by (simp add: seqkey_decode_def seqkey_encode_digits)
qed

lemma seqkey_less [simp]: "seqkey_encode v < seqkey_encode w \<longleftrightarrow> v < w"
  using be_digits_less [OF unat_lt_256_8 unat_lt_256_8]
  by (simp add: seqkey_encode_digits word_less_nat_alt)

end
