(* ===== verification/Bucket.thy ===== *)
theory Bucket
  imports Seqkey
begin

text \<open>The contents of an ordered key/value store, and the contracts the components share.

  The message stores and the audit log keep their records in a bbolt bucket. Of the database
  only the contents of the bucket are modelled: the records under their byte keys, in key order,
  and the bucket's sequence counter. The code reads and writes those contents with \<open>Get\<close>,
  \<open>Put\<close>, \<open>Delete\<close>, \<open>NextSequence\<close> and cursors, whose effect on the contents is that of the
  functions below; a transaction that does not commit leaves the contents as they were, and each
  store operation takes whether its transaction commits as an argument. The same lists model a
  directory, whose entries \<open>os.ReadDir\<close> also returns in name order.

  The locale \<open>kv_store\<close> is what a client of such a store relies on and \<open>machine\<close> lifts the
  invariants of single operations to runs of operations.\<close>

section \<open>Sorted association lists\<close>

type_synonym 'v entries = "(bytes \<times> 'v) list"

fun kv_put :: "bytes \<Rightarrow> 'v \<Rightarrow> 'v entries \<Rightarrow> 'v entries" where
  "kv_put k v [] = [(k, v)]"
| "kv_put k v ((k', v') # es) =
     (if k < k' then (k, v) # (k', v') # es
      else if k = k' then (k, v) # es
      else (k', v') # kv_put k v es)"

definition kv_del :: "bytes \<Rightarrow> 'v entries \<Rightarrow> 'v entries" where
  "kv_del k es = filter (\<lambda>e. fst e \<noteq> k) es"

definition kv_get :: "'v entries \<Rightarrow> bytes \<Rightarrow> 'v option" where
  "kv_get es k = map_of es k"

text \<open>\<open>Cursor.Seek\<close>: the entries from the first key that is not below \<open>k\<close>.\<close>

definition kv_seek :: "bytes \<Rightarrow> 'v entries \<Rightarrow> 'v entries" where
  "kv_seek k es = dropWhile (\<lambda>e. fst e < k) es"

definition kv_ok :: "'v entries \<Rightarrow> bool" where
  "kv_ok es \<longleftrightarrow> sorted_wrt (\<lambda>a b. fst a < fst b) es"

lemma kv_get_put: "kv_get (kv_put k v es) = (kv_get es)(k \<mapsto> v)"
  by (rule ext, induction es) (auto simp: kv_get_def)

lemma kv_get_del: "kv_get (kv_del k es) = (kv_get es)(k := None)"
  by (rule ext, induction es) (auto simp: kv_get_def kv_del_def)

lemma set_kv_put_subset: "set (kv_put k v es) \<subseteq> insert (k, v) (set es)"
  by (induction es) (auto split: if_splits)

lemma keys_kv_put: "fst ` set (kv_put k v es) = insert k (fst ` set es)"
proof (induction es)
  case (Cons e es)
  then show ?case by (cases e) auto
qed simp

lemma kv_ok_Nil [simp]: "kv_ok []"
  by (simp add: kv_ok_def)

lemma kv_ok_put [intro, wf_intros]: "kv_ok es \<Longrightarrow> kv_ok (kv_put k v es)"
proof (induction es)
  case Nil
  then show ?case by (simp add: kv_ok_def)
next
  case (Cons e es)
  obtain k' v' where e: "e = (k', v')" by (cases e)
  have tl: "kv_ok es" and hd: "\<forall>x \<in> set es. k' < fst x" using Cons.prems e by (auto simp: kv_ok_def)
  consider "k < k'" | "k = k'" | "k' < k" by (rule linorder_cases)
  then show ?case
  proof cases
    case 1
    then show ?thesis using Cons.prems hd e by (auto simp: kv_ok_def)
  next
    case 2
    then show ?thesis using Cons.prems hd e by (auto simp: kv_ok_def)
  next
    case 3
    have "\<forall>x \<in> set (kv_put k v es). k' < fst x"
      using hd 3 set_kv_put_subset [of k v es] by fastforce
    moreover have "kv_ok (kv_put k v es)" using Cons.IH tl by blast
    ultimately show ?thesis using 3 e by (auto simp: kv_ok_def)
  qed
qed

lemma kv_ok_del [intro, wf_intros]: "kv_ok es \<Longrightarrow> kv_ok (kv_del k es)"
  by (simp add: kv_ok_def kv_del_def sorted_wrt_filter)

lemma kv_ok_distinct: "kv_ok es \<Longrightarrow> distinct (map fst es)"
  by (induction es) (auto simp: kv_ok_def)

lemma kv_get_iff: "kv_ok es \<Longrightarrow> kv_get es k = Some v \<longleftrightarrow> (k, v) \<in> set es"
  by (simp add: kv_get_def kv_ok_distinct)

lemma kv_get_None_iff: "kv_get es k = None \<longleftrightarrow> k \<notin> fst ` set es"
  by (simp add: kv_get_def map_of_eq_None_iff)

lemma kv_get_in: "kv_get es k = Some v \<Longrightarrow> (k, v) \<in> set es"
  by (simp add: kv_get_def map_of_SomeD)

lemma kv_put_new_last: "\<forall>e \<in> set es. fst e < k \<Longrightarrow> kv_put k v es = es @ [(k, v)]"
  by (induction es) auto

lemma kv_seek_filter: "kv_ok es \<Longrightarrow> kv_seek k es = filter (\<lambda>e. k \<le> fst e) es"
proof (induction es)
  case (Cons e es)
  show ?case
  proof (cases "fst e < k")
    case True
    then show ?thesis using Cons by (simp add: kv_ok_def kv_seek_def not_le)
  next
    case False
    then have "\<forall>x \<in> set es. k \<le> fst x" using Cons.prems by (force simp: kv_ok_def)
    then show ?thesis using False by (simp add: kv_seek_def)
  qed
qed (simp add: kv_seek_def)

lemma kv_ok_eq:
  assumes "kv_ok es" "kv_ok fs" "kv_get es = kv_get fs"
  shows "es = fs"
proof -
  have s: "set es = set fs" using assms kv_get_iff by (metis subsetI subset_antisym surj_pair)
  have srt: "sorted (map fst es)" "sorted (map fst fs)"
    using assms(1,2) unfolding kv_ok_def sorted_map
    by (auto elim: sorted_wrt_mono_rel [rotated])
  have "inj_on fst (set es \<union> set fs)"
    using kv_ok_distinct [OF assms(1)] s by (simp add: distinct_map)
  with srt kv_ok_distinct [OF assms(1)] kv_ok_distinct [OF assms(2)] s show ?thesis
    by (intro map_sorted_distinct_set_unique)
qed

section \<open>Buckets\<close>

record 'v bucket =
  items :: "'v entries"
  bseq :: u64

definition bucket_new :: "'v bucket" where
  "bucket_new = \<lparr>items = [], bseq = 0\<rparr>"

definition b_get :: "'v bucket \<Rightarrow> bytes \<Rightarrow> 'v option" where
  "b_get b k = kv_get (items b) k"

definition b_put :: "bytes \<Rightarrow> 'v \<Rightarrow> 'v bucket \<Rightarrow> 'v bucket" where
  "b_put k v b = b\<lparr>items := kv_put k v (items b)\<rparr>"

definition b_del :: "bytes \<Rightarrow> 'v bucket \<Rightarrow> 'v bucket" where
  "b_del k b = b\<lparr>items := kv_del k (items b)\<rparr>"

text \<open>\<open>NextSequence\<close>: the counter advances and its new value is handed out.\<close>

definition b_next :: "'v bucket \<Rightarrow> u64 \<times> 'v bucket" where
  "b_next b = (bseq b + 1, b\<lparr>bseq := bseq b + 1\<rparr>)"

lemma b_get_put [simp]: "b_get (b_put k v b) = (b_get b)(k \<mapsto> v)"
  by (rule ext) (simp add: b_get_def b_put_def kv_get_put)

lemma b_get_del [simp]: "b_get (b_del k b) = (b_get b)(k := None)"
  by (rule ext) (simp add: b_get_def b_del_def kv_get_del)

lemma b_get_seq [simp]: "b_get (b\<lparr>bseq := n\<rparr>) = b_get b"
  by (rule ext) (simp add: b_get_def)

lemma bseq_put [simp]: "bseq (b_put k v b) = bseq b"
  by (simp add: b_put_def)

lemma bseq_del [simp]: "bseq (b_del k b) = bseq b"
  by (simp add: b_del_def)

lemma b_get_new [simp]: "b_get bucket_new k = None"
  by (simp add: b_get_def bucket_new_def kv_get_def)

section \<open>The contract of a key/value store\<close>

locale kv_store =
  fixes get :: "'s \<Rightarrow> 'k \<Rightarrow> 'v option"
    and put :: "'k \<Rightarrow> 'v \<Rightarrow> 's \<Rightarrow> 's"
    and del :: "'k \<Rightarrow> 's \<Rightarrow> 's"
  assumes get_put: "get (put k v s) = (get s)(k \<mapsto> v)"
    and get_del: "get (del k s) = (get s)(k := None)"
begin

lemma get_put_same: "get (put k v s) k = Some v"
  by (simp add: get_put)

lemma get_put_other: "k' \<noteq> k \<Longrightarrow> get (put k v s) k' = get s k'"
  by (simp add: get_put)

lemma get_del_same: "get (del k s) k = None"
  by (simp add: get_del)

lemma put_all:
  "\<lbrakk>\<And>k v. get s k = Some v \<Longrightarrow> P k v; P k v; get (put k v s) k' = Some v'\<rbrakk> \<Longrightarrow> P k' v'"
  by (auto simp: get_put split: if_splits)

lemma del_all:
  "\<lbrakk>\<And>k v. get s k = Some v \<Longrightarrow> P k v; get (del k s) k' = Some v'\<rbrakk> \<Longrightarrow> P k' v'"
  by (auto simp: get_del split: if_splits)

lemma put_put_same: "get (put k v (put k w s)) = get (put k v s)"
  by (simp add: get_put)

lemma del_put: "get (del k (put k v s)) = get (del k s)"
  by (simp add: get_put get_del)

end

interpretation kv: kv_store kv_get kv_put kv_del
  by unfold_locales (simp_all add: kv_get_put kv_get_del)

interpretation bk: kv_store b_get b_put b_del
  by unfold_locales simp_all

section \<open>Runs of operations\<close>

fun run_ops :: "('s \<Rightarrow> 'op \<Rightarrow> 's) \<Rightarrow> 's \<Rightarrow> 'op list \<Rightarrow> 's" where
  "run_ops step s [] = s"
| "run_ops step s (x # xs) = run_ops step (step s x) xs"

lemma run_ops_append: "run_ops step s (xs @ ys) = run_ops step (run_ops step s xs) ys"
  by (induction xs arbitrary: s) auto

text \<open>An operation may need a sequence number, and the counter has 2^64 of them: the invariant of a
  machine says of a state that it is well formed and that at least so many operations more will
  not exhaust the counter.\<close>

locale machine =
  fixes step :: "'s \<Rightarrow> 'op \<Rightarrow> 's" and inv :: "nat \<Rightarrow> 's \<Rightarrow> bool"
  assumes step_inv: "inv (Suc n) s \<Longrightarrow> inv n (step s x)"
begin

lemma run_inv: "inv (length xs + n) s \<Longrightarrow> inv n (run_ops step s xs)"
  by (induction xs arbitrary: s) (auto simp: step_inv)

end

locale machine_rel = machine step inv
  for step :: "'s \<Rightarrow> 'op \<Rightarrow> 's" and inv :: "nat \<Rightarrow> 's \<Rightarrow> bool" +
  fixes rel :: "'s \<Rightarrow> 's \<Rightarrow> bool"
  assumes rel_refl: "rel s s"
    and rel_trans: "rel s t \<Longrightarrow> rel t u \<Longrightarrow> rel s u"
    and step_rel: "inv (Suc n) s \<Longrightarrow> rel s (step s x)"
begin

lemma run_rel: "inv (length xs + n) s \<Longrightarrow> rel s (run_ops step s xs)"
proof (induction xs arbitrary: s)
  case Nil
  show ?case by (simp add: rel_refl)
next
  case (Cons x xs)
  then have "rel s (step s x)" "rel (step s x) (run_ops step (step s x) xs)"
    using step_rel step_inv by auto
  then show ?case using rel_trans by simp
qed

end

end
