(* ===== verification/Blobstore.thy ===== *)
theory Blobstore
  imports Bucket
begin

text \<open>Model of \<open>internal/blobstore/blobstore.go\<close>: one file per key under a directory.

  The directory is the list of its entries in name order, a file with its bytes or a
  subdirectory. \<open>Put\<close> is a sequence of system calls; its model returns the directory after each
  of them, so that a crash between two calls is a state of the list, and takes as arguments the
  call that fails, if any, and the random suffix \<open>os.CreateTemp\<close> picks.\<close>

section \<open>The directory\<close>

datatype node = File bytes | Subdir

type_synonym dir = "node entries"

datatype blob_err = EmptyDirectory | MkdirFailed | InvalidKey string | CreateTempFailed | WriteFailed
  | FsyncFailed | CloseFailed | RenameFailed | DirSyncFailed | ReadFailed string | DeleteFailed string
  | ReadDirFailed

definition validKey :: "string \<Rightarrow> bool" where
  "validKey key \<longleftrightarrow> \<not> (key = [] \<or> key = ''.'' \<or> key = ''..'' \<or> CHR ''/'' \<in> set key \<or> char_of (92 :: nat) \<in> set key)"

definition blob_New :: "bool \<Rightarrow> string \<Rightarrow> blob_err + string" where
  "blob_New mkdir_ok dir = (if dir = [] then Inl EmptyDirectory
     else if \<not> mkdir_ok then Inl MkdirFailed else Inr dir)"

section \<open>Put, step by step\<close>

datatype put_fault = NoFault | FailCreate | FailWrite nat | FailSync | FailClose | FailRename | FailDirSync

definition temp_name :: "string \<Rightarrow> string \<Rightarrow> string" where
  "temp_name key sfx = key @ ''.tmp-'' @ sfx"

text \<open>The error, if any, and the states of the directory from the first to the last. A failing
  \<open>Write\<close> has written some of the bytes; a rename onto a subdirectory fails.\<close>

definition blob_Put :: "put_fault \<Rightarrow> string \<Rightarrow> string \<Rightarrow> bytes \<Rightarrow> dir \<Rightarrow> blob_err option \<times> dir list" where
  "blob_Put fl sfx key data d = (
     let tmp = temp_name key sfx;
         created = kv_put tmp (File []) d;
         written = kv_put tmp (File data) d;
         cleaned = kv_del tmp d;
         renamed = kv_put key (File data) (kv_del tmp d)
     in if \<not> validKey key then (Some (InvalidKey key), [d])
        else if fl = FailCreate then (Some CreateTempFailed, [d])
        else case fl of
            FailWrite n \<Rightarrow> (Some WriteFailed, [d, created, kv_put tmp (File (take n data)) d, cleaned])
          | FailSync \<Rightarrow> (Some FsyncFailed, [d, created, written, cleaned])
          | FailClose \<Rightarrow> (Some CloseFailed, [d, created, written, cleaned])
          | _ \<Rightarrow>
              if fl = FailRename \<or> kv_get d key = Some Subdir
              then (Some RenameFailed, [d, created, written, cleaned])
              else if fl = FailDirSync then (Some DirSyncFailed, [d, created, written, renamed])
              else (None, [d, created, written, renamed]))"

definition blob_Get :: "string \<Rightarrow> dir \<Rightarrow> blob_err + bytes" where
  "blob_Get key d = (if \<not> validKey key then Inl (InvalidKey key)
     else case kv_get d key of Some (File data) \<Rightarrow> Inr data | _ \<Rightarrow> Inl (ReadFailed key))"

text \<open>\<open>rm_ok\<close> says whether the operating system removes an entry that exists.\<close>

definition blob_Delete :: "(string \<Rightarrow> bool) \<Rightarrow> string \<Rightarrow> dir \<Rightarrow> blob_err option \<times> dir" where
  "blob_Delete rm_ok key d = (if \<not> validKey key then (Some (InvalidKey key), d)
     else if kv_get d key = None then (None, d)
     else if rm_ok key then (None, kv_del key d)
     else (Some (DeleteFailed key), d))"

fun sweep_loop :: "(string \<Rightarrow> bool) \<Rightarrow> (string \<Rightarrow> bool) \<Rightarrow> dir \<Rightarrow> nat \<Rightarrow> dir \<Rightarrow> nat \<times> blob_err option \<times> dir" where
  "sweep_loop rm_ok live [] n d = (n, None, d)"
| "sweep_loop rm_ok live ((name, e) # es) n d =
     (if e = Subdir \<or> contains_str name ''.tmp-'' then sweep_loop rm_ok live es n d
      else if live name then sweep_loop rm_ok live es n d
      else case blob_Delete rm_ok name d of
          (Some err, d') \<Rightarrow> (n, Some err, d')
        | (None, d') \<Rightarrow> sweep_loop rm_ok live es (n + 1) d')"

definition blob_SweepOrphans :: "bool \<Rightarrow> (string \<Rightarrow> bool) \<Rightarrow> (string \<Rightarrow> bool) \<Rightarrow> dir \<Rightarrow> nat \<times> blob_err option \<times> dir" where
  "blob_SweepOrphans readdir_ok rm_ok live d =
     (if \<not> readdir_ok then (0, Some ReadDirFailed, d) else sweep_loop rm_ok live d 0 d)"

section \<open>Put\<close>

lemma temp_name_ne [simp]: "temp_name key sfx \<noteq> key" "key \<noteq> temp_name key sfx"
  by (auto simp: temp_name_def)

lemma blob_Put_result:
  assumes "fst (blob_Put fl sfx key data d) = None"
  shows "last (snd (blob_Put fl sfx key data d)) = kv_put key (File data) (kv_del (temp_name key sfx) d)"
    and "validKey key"
  using assms by (auto simp: blob_Put_def Let_def split: put_fault.splits if_splits)

lemma blob_Put_states:
  assumes "d' \<in> set (snd (blob_Put fl sfx key data d))" and "name \<noteq> temp_name key sfx"
  shows "kv_get d' name = kv_get d name \<or> name = key \<and> kv_get d' name = Some (File data)"
  using assms
  by (auto simp: blob_Put_def Let_def kv_get_put kv_get_del split: put_fault.splits if_splits)

lemma blob_Put_error:
  assumes "fst (blob_Put fl sfx key data d) = Some e" and "e \<noteq> DirSyncFailed"
    and "kv_get d (temp_name key sfx) = None"
  shows "kv_get (last (snd (blob_Put fl sfx key data d))) = kv_get d"
  using assms
  by (auto simp: blob_Put_def Let_def kv_get_del fun_eq_iff split: put_fault.splits if_splits)

lemma blob_Put_states_ne [simp]: "snd (blob_Put fl sfx key data d) \<noteq> []"
  by (simp add: blob_Put_def Let_def split: put_fault.split)

lemma blob_Put_kv_ok [wf_intros]: "kv_ok d \<Longrightarrow> d' \<in> set (snd (blob_Put fl sfx key data d)) \<Longrightarrow> kv_ok d'"
  by (auto simp: blob_Put_def Let_def split: put_fault.splits if_splits)

lemma blob_Get_Put:
  assumes "fst (blob_Put fl sfx key data d) = None"
  shows "blob_Get key (last (snd (blob_Put fl sfx key data d))) = Inr data"
  using blob_Put_result [OF assms] by (simp add: blob_Get_def kv_get_put)

section \<open>Deleting and sweeping\<close>

definition is_orphan :: "(string \<Rightarrow> bool) \<Rightarrow> string \<times> node \<Rightarrow> bool" where
  "is_orphan live e \<longleftrightarrow> snd e \<noteq> Subdir \<and> \<not> contains_str (fst e) ''.tmp-'' \<and> \<not> live (fst e)"

lemma blob_Delete_keeps: "name \<noteq> key \<Longrightarrow> kv_get (snd (blob_Delete rm_ok key d)) name = kv_get d name"
  by (simp add: blob_Delete_def kv_get_del)

lemma blob_Delete_ok: "fst (blob_Delete rm_ok key d) = None \<Longrightarrow> kv_get (snd (blob_Delete rm_ok key d)) key = None"
  by (auto simp: blob_Delete_def kv_get_del split: if_splits)

lemma sweep_loop_keeps:
  "\<forall>e \<in> set es. is_orphan live e \<longrightarrow> fst e \<noteq> name \<Longrightarrow>
   kv_get (snd (snd (sweep_loop rm_ok live es n d))) name = kv_get d name"
proof (induction es arbitrary: n d)
  case Nil
  then show ?case by simp
next
  case (Cons e es)
  obtain k v where e: "e = (k, v)" by (cases e)
  show ?case
  proof (cases "is_orphan live e")
    case False
    then show ?thesis using Cons e by (auto simp: is_orphan_def)
  next
    case True
    then have "k \<noteq> name" using Cons.prems e by auto
    then have "kv_get (snd (blob_Delete rm_ok k d)) name = kv_get d name"
      using blob_Delete_keeps by metis
    then show ?thesis
      using True Cons e by (auto simp: is_orphan_def split: prod.splits option.splits)
  qed
qed

lemma blob_Delete_kv_ok [wf_intros]: "kv_ok d \<Longrightarrow> blob_Delete rm_ok k d = (x, d') \<Longrightarrow> kv_ok d'"
  by (auto simp: blob_Delete_def split: if_splits)

lemma sweep_loop_kv_ok: "kv_ok d \<Longrightarrow> kv_ok (snd (snd (sweep_loop rm_ok live es n d)))"
  by (induction rm_ok live es n d rule: sweep_loop.induct)
    (auto split: prod.splits option.splits dest: blob_Delete_kv_ok)

lemma SweepOrphans_kv_ok: "kv_ok d \<Longrightarrow> kv_ok (snd (snd (blob_SweepOrphans rd rm_ok live d)))"
  by (simp add: blob_SweepOrphans_def sweep_loop_kv_ok)

lemma SweepOrphans_keeps:
  "live name \<Longrightarrow> kv_get (snd (snd (blob_SweepOrphans rd rm_ok live d))) name = kv_get d name"
  using sweep_loop_keeps [of d live name rm_ok 0 d] by (auto simp: blob_SweepOrphans_def is_orphan_def)

lemma sweep_loop_all:
  assumes "\<And>k. rm_ok k" "\<forall>e \<in> set es. validKey (fst e)" "distinct (map fst es)"
    "\<forall>e \<in> set es. kv_get d (fst e) \<noteq> None"
  shows "sweep_loop rm_ok live es n d =
    (n + length (filter (is_orphan live) es), None,
     fold (\<lambda>e d. kv_del (fst e) d) (filter (is_orphan live) es) d)"
  using assms(2-)
proof (induction es arbitrary: n d)
  case Nil
  then show ?case by simp
next
  case (Cons e es)
  obtain k v where e: "e = (k, v)" by (cases e)
  show ?case
  proof (cases "is_orphan live e")
    case False
    then have "sweep_loop rm_ok live (e # es) n d = sweep_loop rm_ok live es n d"
      using e by (auto simp: is_orphan_def)
    then show ?thesis using Cons False by simp
  next
    case True
    have del: "blob_Delete rm_ok k d = (None, kv_del k d)"
      using Cons.prems assms(1) e by (auto simp: blob_Delete_def)
    have "\<forall>f \<in> set es. kv_get (kv_del k d) (fst f) \<noteq> None"
      using Cons.prems e by (auto simp: kv_get_del)
    then have "sweep_loop rm_ok live es (n + 1) (kv_del k d) =
      (n + 1 + length (filter (is_orphan live) es), None,
       fold (\<lambda>e d. kv_del (fst e) d) (filter (is_orphan live) es) (kv_del k d))"
      using Cons by simp
    moreover have "sweep_loop rm_ok live (e # es) n d = sweep_loop rm_ok live es (n + 1) (kv_del k d)"
      using True e del by (simp add: is_orphan_def)
    ultimately show ?thesis using True e by simp
  qed
qed

lemma fold_kv_del: "fold (\<lambda>e d. kv_del (fst e) d) xs d = filter (\<lambda>e. fst e \<notin> fst ` set xs) d"
  by (induction xs arbitrary: d) (auto simp: kv_del_def intro!: filter_cong)

lemma sweep_exact:
  assumes "kv_ok d" "\<And>k. rm_ok k" "\<forall>e \<in> set d. validKey (fst e)"
  shows "blob_SweepOrphans True rm_ok live d =
    (length (filter (is_orphan live) d), None, filter (\<lambda>e. \<not> is_orphan live e) d)"
proof -
  have dist: "distinct (map fst d)" using assms(1) by (rule kv_ok_distinct)
  have "fst e \<in> fst ` set (filter (is_orphan live) d) \<longleftrightarrow> is_orphan live e" if "e \<in> set d" for e
    using that dist by (force simp: distinct_map inj_on_def)
  then have "fold (\<lambda>e d. kv_del (fst e) d) (filter (is_orphan live) d) d = filter (\<lambda>e. \<not> is_orphan live e) d"
    unfolding fold_kv_del by (intro filter_cong) auto
  moreover have "\<forall>e \<in> set d. kv_get d (fst e) \<noteq> None"
    using kv_get_None_iff by (metis imageI)
  ultimately show ?thesis
    using sweep_loop_all [OF assms(2) assms(3) dist] by (simp add: blob_SweepOrphans_def)
qed

end
