(* ===== verification/AuditLog.thy ===== *)
theory AuditLog
  imports Bucket
begin

text \<open>Model of \<open>internal/audit\<close>: the hash-chained log of \<open>bbolt.go\<close> and the sink that records
  nothing of \<open>null.go\<close>.

  A value of the bucket is the entry its JSON decodes to, or \<open>None\<close> where it does not decode.
  The chain hash is SHA-256 of the previous hash followed by the JSON of the payload: both
  functions are arguments, \<open>sha\<close> (bytes to the hexadecimal digest) and \<open>enc\<close> (payload to
  JSON), and what the theorems need of them, that no collision occurs, is stated where it is
  used.\<close>

section \<open>Entries\<close>

record arec =
  ar_event :: string
  ar_agent :: string
  ar_inbox :: string
  ar_actor :: string
  ar_message_id :: string
  ar_detail :: string
  ar_retryable :: "bool option"

record aentry =
  ae_seq :: u64
  ae_time :: string
  ae_record :: arec
  ae_prev :: string
  ae_hash :: string

type_synonym payload = "u64 \<times> string \<times> arec"
type_synonym alog = "aentry option bucket"

datatype audit_err = AuditDecode | AuditCommit
  | KeyMismatch u64 u64 | SeqGap u64 u64 | PrevMismatch u64 | HashMismatch u64 | TailTruncated u64 u64

definition ae_payload :: "aentry \<Rightarrow> payload" where
  "ae_payload e = (ae_seq e, ae_time e, ae_record e)"

definition computeHash :: "(bytes \<Rightarrow> string) \<Rightarrow> (payload \<Rightarrow> bytes) \<Rightarrow> string \<Rightarrow> aentry \<Rightarrow> string" where
  "computeHash sha enc prev e = sha (prev @ enc (ae_payload e))"

section \<open>Append\<close>

text \<open>\<open>now\<close> is the formatted time; \<open>commit\<close> says whether the transaction commits. A transaction
  that fails changes nothing, the sequence counter included.\<close>

definition audit_Append ::
    "(bytes \<Rightarrow> string) \<Rightarrow> (payload \<Rightarrow> bytes) \<Rightarrow> bool \<Rightarrow> string \<Rightarrow> arec \<Rightarrow> alog \<Rightarrow> audit_err option \<times> alog" where
  "audit_Append sha enc commit now rec b =
     (case (if items b = [] then Some '''' else map_option ae_hash (snd (last (items b)))) of
        None \<Rightarrow> (Some AuditDecode, b)
      | Some prev \<Rightarrow>
          let (s, b') = b_next b;
              e0 = \<lparr>ae_seq = s, ae_time = now, ae_record = rec, ae_prev = prev, ae_hash = ''''\<rparr>;
              e = e0\<lparr>ae_hash := computeHash sha enc prev e0\<rparr>
          in if commit then (None, b_put (seqkey_encode s) (Some e) b') else (Some AuditCommit, b))"

section \<open>Verify\<close>

fun verify_loop ::
    "(bytes \<Rightarrow> string) \<Rightarrow> (payload \<Rightarrow> bytes) \<Rightarrow> string \<Rightarrow> u64 \<Rightarrow> u64 \<Rightarrow> aentry option entries \<Rightarrow> audit_err + u64" where
  "verify_loop sha enc prev want lst [] = Inr lst"
| "verify_loop sha enc prev want lst ((k, None) # es) = Inl AuditDecode"
| "verify_loop sha enc prev want lst ((k, Some e) # es) =
     (if seqkey_decode k \<noteq> ae_seq e then Inl (KeyMismatch (seqkey_decode k) (ae_seq e))
      else if ae_seq e \<noteq> want then Inl (SeqGap (ae_seq e) want)
      else if ae_prev e \<noteq> prev then Inl (PrevMismatch (ae_seq e))
      else if computeHash sha enc prev e \<noteq> ae_hash e then Inl (HashMismatch (ae_seq e))
      else verify_loop sha enc (ae_hash e) (want + 1) (ae_seq e) es)"

definition audit_Verify :: "(bytes \<Rightarrow> string) \<Rightarrow> (payload \<Rightarrow> bytes) \<Rightarrow> alog \<Rightarrow> audit_err option" where
  "audit_Verify sha enc b = (case verify_loop sha enc '''' 1 0 (items b) of
       Inl err \<Rightarrow> Some err
     | Inr lst \<Rightarrow> if bseq b \<noteq> lst then Some (TailTruncated lst (bseq b)) else None)"

section \<open>Page\<close>

fun page_loop :: "nat \<Rightarrow> aentry option entries \<Rightarrow> audit_err + aentry list" where
  "page_loop n [] = Inr []"
| "page_loop 0 es = Inr []"
| "page_loop (Suc n) ((k, None) # es) = Inl AuditDecode"
| "page_loop (Suc n) ((k, Some e) # es) =
     (case page_loop n es of Inl err \<Rightarrow> Inl err | Inr out \<Rightarrow> Inr (e # out))"

definition audit_Page :: "u64 \<Rightarrow> int \<Rightarrow> alog \<Rightarrow> audit_err + aentry list" where
  "audit_Page after limit b = (if limit \<le> 0 then Inr []
     else page_loop (nat limit) (kv_seek (seqkey_encode (after + 1)) (items b)))"

section \<open>The null sink and the registry of backends\<close>

definition null_Append :: "arec \<Rightarrow> audit_err option" where
  "null_Append rec = None"

definition null_Verify :: "audit_err option" where
  "null_Verify = None"

text \<open>\<open>registry\<close> maps a backend's name to its factory, which takes the database path.\<close>

datatype 'l new_result = NewOk 'l | UnknownType string "string list" | FactoryFailed

definition audit_Registered :: "(string \<times> 'f) list \<Rightarrow> string list" where
  "audit_Registered registry = sort (map fst registry)"

definition audit_New :: "(string \<times> (string \<Rightarrow> 'l option)) list \<Rightarrow> string \<Rightarrow> string \<Rightarrow> 'l new_result" where
  "audit_New registry ty path = (case map_of registry ty of
       None \<Rightarrow> UnknownType ty (audit_Registered registry)
     | Some f \<Rightarrow> (case f path of Some l \<Rightarrow> NewOk l | None \<Rightarrow> FactoryFailed))"

section \<open>What an intact chain is\<close>

text \<open>The specification of the log: the entries of the list are in slots 1, 2, ... and each
  carries its predecessor's hash and its own.\<close>

fun chain_from :: "(bytes \<Rightarrow> string) \<Rightarrow> (payload \<Rightarrow> bytes) \<Rightarrow> string \<Rightarrow> nat \<Rightarrow> aentry list \<Rightarrow> bool" where
  "chain_from sha enc prev n [] = True"
| "chain_from sha enc prev n (e # es) =
     (ae_seq e = word_of_nat n \<and> ae_prev e = prev \<and> ae_hash e = computeHash sha enc prev e
      \<and> chain_from sha enc (ae_hash e) (n + 1) es)"

definition slot_of :: "aentry \<Rightarrow> bytes \<times> aentry option" where
  "slot_of e = (seqkey_encode (ae_seq e), Some e)"

definition chain_ok :: "(bytes \<Rightarrow> string) \<Rightarrow> (payload \<Rightarrow> bytes) \<Rightarrow> aentry list \<Rightarrow> alog \<Rightarrow> bool" where
  "chain_ok sha enc es b \<longleftrightarrow> items b = map slot_of es \<and> chain_from sha enc '''' 1 es
     \<and> bseq b = word_of_nat (length es) \<and> length es < 2 ^ 64"

definition head_hash :: "string \<Rightarrow> aentry list \<Rightarrow> string" where
  "head_hash prev es = (if es = [] then prev else ae_hash (last es))"

lemma chain_from_append:
  "chain_from sha enc prev n (es @ fs) \<longleftrightarrow>
     chain_from sha enc prev n es \<and> chain_from sha enc (head_hash prev es) (n + length es) fs"
  by (induction es arbitrary: prev n) (auto simp: head_hash_def)

lemma chain_from_seq:
  "chain_from sha enc prev n es \<Longrightarrow> i < length es \<Longrightarrow> ae_seq (es ! i) = word_of_nat (n + i)"
proof (induction es arbitrary: prev n i)
  case (Cons e es)
  then show ?case by (cases i) auto
qed simp

lemma chain_from_last_seq:
  "chain_from sha enc prev n es \<Longrightarrow> es \<noteq> [] \<Longrightarrow> ae_seq (last es) = word_of_nat (n + length es - 1)"
  using chain_from_seq [of sha enc prev n es "length es - 1"]
  by (simp add: last_conv_nth del: of_nat_add) (metis add_diff_assoc length_greater_0_conv less_eq_Suc_le One_nat_def)

lemma word_small_ne0: "0 < n \<Longrightarrow> n < 2 ^ 64 \<Longrightarrow> (word_of_nat n :: u64) \<noteq> 0"
  by (simp add: word_of_nat_eq_0_iff nat_dvd_not_less)

lemma unat_word_small: "n < 2 ^ 64 \<Longrightarrow> unat (word_of_nat n :: u64) = n"
  by (simp add: unat_of_nat take_bit_nat_eq_self)

lemma unat_succ: "unat w + 1 < 2 ^ 64 \<Longrightarrow> unat (w + 1 :: u64) = unat w + 1"
proof -
  assume "unat w + 1 < 2 ^ 64"
  moreover have "w + 1 = word_of_nat (unat w + 1)" by simp
  ultimately show ?thesis using unat_word_small by metis
qed

lemma seqkey_encode_of_decode: "seqkey_decode k = w \<Longrightarrow> w \<noteq> 0 \<Longrightarrow> k = seqkey_encode w"
proof -
  assume d: "seqkey_decode k = w" "w \<noteq> 0"
  then have "length k = 8" by (auto simp: seqkey_decode_def split: if_splits)
  with d show ?thesis using seqkey_encode_decode by force
qed

lemma verify_loop_chain:
  "chain_from sha enc prev n es \<Longrightarrow> verify_loop sha enc prev (word_of_nat n) lst (map slot_of es)
     = Inr (if es = [] then lst else ae_seq (last es))"
proof (induction es arbitrary: prev n lst)
  case (Cons e es)
  then show ?case using Cons.IH [of "ae_hash e" "n + 1" "ae_seq e"]
    by (auto simp: slot_of_def add.commute)
qed simp

lemma verify_loop_sound:
  "verify_loop sha enc prev (word_of_nat n) lst its = Inr r \<Longrightarrow> 0 < n \<Longrightarrow> n + length its \<le> 2 ^ 64 \<Longrightarrow>
   \<exists>es. its = map slot_of es \<and> chain_from sha enc prev n es"
proof (induction its arbitrary: prev n lst)
  case Nil
  then show ?case by simp
next
  case (Cons x its)
  obtain k v where x: "x = (k, v)" by (cases x)
  from Cons.prems x obtain e where v: "v = Some e" by (cases v) auto
  have checks: "seqkey_decode k = ae_seq e" "ae_seq e = word_of_nat n" "ae_prev e = prev"
    "computeHash sha enc prev e = ae_hash e"
    and rest: "verify_loop sha enc (ae_hash e) (word_of_nat (n + 1)) (ae_seq e) its = Inr r"
    using Cons.prems(1) x v by (auto simp: add.commute split: if_splits)
  have "ae_seq e \<noteq> 0" using checks(2) Cons.prems word_small_ne0 by simp
  then have k: "x = slot_of e"
    using seqkey_encode_of_decode [OF checks(1)] x v by (simp add: slot_of_def)
  from Cons.IH [OF rest] Cons.prems obtain es where "its = map slot_of es" "chain_from sha enc (ae_hash e) (n + 1) es"
    by auto
  with k checks show ?case by (intro exI [of _ "e # es"]) simp
qed

lemma Verify_chain_ok: "chain_ok sha enc es b \<Longrightarrow> audit_Verify sha enc b = None"
  using verify_loop_chain [of sha enc "''''" 1 es 0] chain_from_last_seq [of sha enc "''''" 1 es]
  by (auto simp: audit_Verify_def chain_ok_def)

lemma Verify_sound:
  assumes "audit_Verify sha enc b = None" "length (items b) < 2 ^ 64"
  shows "\<exists>es. chain_ok sha enc es b"
proof -
  obtain r where r: "verify_loop sha enc '''' 1 0 (items b) = Inr r" and q: "bseq b = r"
    using assms(1) by (auto simp: audit_Verify_def split: sum.splits if_splits)
  with assms(2) verify_loop_sound [of sha enc "''''" 1 0 "items b" r] obtain es
    where es: "items b = map slot_of es" "chain_from sha enc '''' 1 es" by auto
  have "r = word_of_nat (length es)"
    using verify_loop_chain [OF es(2), of 0] r es chain_from_last_seq [OF es(2)] by auto
  with es q assms(2) show ?thesis by (auto simp: chain_ok_def)
qed

text \<open>C7: on a log of fewer than 2^64 entries \<open>Verify\<close> reports no violation exactly when the bucket
  holds an unbroken chain: entry number i in slot i, linked by the hashes, none missing at the end.\<close>

theorem audit_verify_iff_chain:
  assumes "length (items b) < 2 ^ 64"
  shows "audit_Verify sha enc b = None \<longleftrightarrow> (\<exists>es. chain_ok sha enc es b)"
  using Verify_sound [OF _ assms] Verify_chain_ok by blast

theorem audit_verify_iff_chain_witness:
  "audit_Verify (\<lambda>x. x) (\<lambda>p. ''{}'') bucket_new = None \<longleftrightarrow> (\<exists>es. chain_ok (\<lambda>x. x) (\<lambda>p. ''{}'') es bucket_new)"
  by (rule audit_verify_iff_chain) (simp add: bucket_new_def)

section \<open>Appending\<close>

lemma chain_ok_keys_below:
  assumes "chain_ok sha enc es b" "length es + 1 < 2 ^ 64"
  shows "\<forall>x \<in> set (items b). fst x < seqkey_encode (word_of_nat (length es + 1))"
proof
  fix x assume "x \<in> set (items b)"
  with assms(1) obtain i where i: "i < length es" "x = slot_of (es ! i)"
    by (auto simp: chain_ok_def in_set_conv_nth)
  have "ae_seq (es ! i) = word_of_nat (1 + i)"
    using assms(1) i chain_from_seq unfolding chain_ok_def by blast
  moreover have "(word_of_nat (1 + i) :: u64) < word_of_nat (length es + 1)"
    using i assms(2) unat_word_small [of "1 + i"] unat_word_small [of "length es + 1"]
    unfolding word_less_nat_alt by linarith
  ultimately show "fst x < seqkey_encode (word_of_nat (length es + 1))"
    using i by (simp add: slot_of_def)
qed

lemma append_chain:
  assumes "chain_ok sha enc es b" "length es + 1 < 2 ^ 64"
  shows "\<exists>e. fst (audit_Append sha enc True now rec b) = None
    \<and> chain_ok sha enc (es @ [e]) (snd (audit_Append sha enc True now rec b))
    \<and> ae_record e = rec \<and> ae_time e = now"
proof -
  define sq :: u64 where "sq = word_of_nat (length es + 1)"
  define e0 where "e0 = \<lparr>ae_seq = sq, ae_time = now, ae_record = rec,
    ae_prev = head_hash '''' es, ae_hash = ''''\<rparr>"
  define e where "e = e0\<lparr>ae_hash := computeHash sha enc (head_hash '''' es) e0\<rparr>"
  have e_full: "e = \<lparr>ae_seq = sq, ae_time = now, ae_record = rec, ae_prev = head_hash '''' es,
    ae_hash = computeHash sha enc (head_hash '''' es) e0\<rparr>"
    by (simp add: e_def e0_def)
  have prev: "(if items b = [] then Some '''' else map_option ae_hash (snd (last (items b)))) = Some (head_hash '''' es)"
    using assms(1) by (auto simp: chain_ok_def head_hash_def slot_of_def last_map)
  have seq: "bseq b + 1 = sq"
    using assms(1) by (simp add: chain_ok_def sq_def)
  have "slot_of e = (seqkey_encode sq, Some e)" by (simp add: slot_of_def e_def e0_def)
  then have put: "kv_put (seqkey_encode sq) (Some e) (items b) = items b @ [slot_of e]"
    using kv_put_new_last [OF chain_ok_keys_below [OF assms]] by (simp only: sq_def)
  have app: "audit_Append sha enc True now rec b = (None, b\<lparr>bseq := sq, items := items b @ [slot_of e]\<rparr>)"
    unfolding audit_Append_def prev b_next_def seq
    using put by (simp add: b_put_def e_full [symmetric] e0_def [symmetric])
  have "chain_from sha enc '''' 1 (es @ [e])"
    using assms(1) by (simp add: chain_ok_def chain_from_append e_def e0_def computeHash_def ae_payload_def sq_def)
  with app assms show ?thesis
    by (intro exI [of _ e]) (auto simp: chain_ok_def e_def e0_def sq_def)
qed

lemma append_not_committed: "fst (audit_Append sha enc False now rec b) \<noteq> None
    \<and> snd (audit_Append sha enc False now rec b) = b"
  by (simp add: audit_Append_def b_next_def split: option.splits)

text \<open>One append request: the record, the time and whether its transaction commits.\<close>

type_synonym append_req = "arec \<times> string \<times> bool"

definition append_step :: "(bytes \<Rightarrow> string) \<Rightarrow> (payload \<Rightarrow> bytes) \<Rightarrow> alog \<Rightarrow> append_req \<Rightarrow> alog" where
  "append_step sha enc b r = snd (audit_Append sha enc (snd (snd r)) (fst (snd r)) (fst r) b)"

lemma append_step_chain:
  assumes "chain_ok sha enc es b" "length es + 1 < 2 ^ 64"
  shows "\<exists>fs. chain_ok sha enc (es @ fs) (append_step sha enc b r)
    \<and> map ae_record fs = (if snd (snd r) then [fst r] else [])"
proof (cases "snd (snd r)")
  case True
  obtain e where "chain_ok sha enc (es @ [e]) (append_step sha enc b r)" "ae_record e = fst r"
    using append_chain [OF assms, of "fst (snd r)" "fst r"] True by (auto simp: append_step_def)
  with True show ?thesis by (intro exI [of _ "[e]"]) simp
next
  case False
  then show ?thesis
    using assms append_not_committed by (intro exI [of _ "[]"]) (simp add: append_step_def)
qed


definition sample_rec :: arec where
  "sample_rec = \<lparr>ar_event = ''enqueue'', ar_agent = ''a'', ar_inbox = ''i'', ar_actor = '''',
     ar_message_id = ''1'', ar_detail = '''', ar_retryable = None\<rparr>"

lemma chain_ok_new: "chain_ok sha enc [] bucket_new"
  by (simp add: chain_ok_def bucket_new_def)


section \<open>Truncation and tampering\<close>

definition short_log :: "alog \<Rightarrow> bool" where
  "short_log b \<longleftrightarrow> length (items b) < unat (bseq b)"

lemma short_log_verify: "short_log b \<Longrightarrow> audit_Verify sha enc b \<noteq> None"
proof
  assume s: "short_log b" and v: "audit_Verify sha enc b = None"
  have "unat (bseq b) < 2 ^ 64" using unsigned_less [of "bseq b"] by simp
  with s have "length (items b) < 2 ^ 64" by (simp add: short_log_def)
  from Verify_sound [OF v this] s show False
    by (auto simp: chain_ok_def short_log_def unat_word_small)
qed

lemma length_kv_put: "length (kv_put k v es) \<le> length es + 1"
  by (induction es) auto

lemma append_step_short:
  assumes "short_log b" "unat (bseq b) + 1 < 2 ^ 64"
  shows "short_log (append_step sha enc b r) \<and> unat (bseq (append_step sha enc b r)) \<le> unat (bseq b) + 1"
proof -
  have n: "unat (bseq b + 1) = unat (bseq b) + 1"
    using assms(2) by (rule unat_succ)
  show ?thesis
    using assms(1) n
    by (auto simp: append_step_def audit_Append_def b_next_def b_put_def short_log_def Let_def
        intro: le_less_trans [OF length_kv_put] split: option.split)
qed

definition short_with :: "nat \<Rightarrow> alog \<Rightarrow> bool" where
  "short_with n b \<longleftrightarrow> short_log b \<and> unat (bseq b) + n < 2 ^ 64"

interpretation short: machine "append_step sha enc" short_with for sha enc
proof
  fix n b r
  assume s: "short_with (Suc n) b"
  then have "unat (bseq b) + 1 < 2 ^ 64" by (simp add: short_with_def)
  with s append_step_short [of b sha enc r] show "short_with n (append_step sha enc b r)"
    by (auto simp: short_with_def)
qed

text \<open>If an intact log loses entries, wherever they stood and whatever the remaining slots are
  made to hold, \<open>Verify\<close> reports a violation, and still does after any further appends: the counter
  of the bucket stays ahead of the entries.\<close>

lemma audit_truncation_evident:
  assumes "chain_ok sha enc es b" "length its < length es" "length es + length rs < 2 ^ 64"
  shows "audit_Verify sha enc (run_ops (append_step sha enc) (b\<lparr>items := its\<rparr>) rs) \<noteq> None"
proof -
  have "unat (bseq b) = length es" using assms(1,3) by (simp add: chain_ok_def unat_word_small)
  with assms have "short_with (length rs + 0) (b\<lparr>items := its\<rparr>)"
    by (simp add: short_with_def short_log_def)
  then have "short_with 0 (run_ops (append_step sha enc) (b\<lparr>items := its\<rparr>) rs)"
    by (rule short.run_inv)
  then show ?thesis unfolding short_with_def using short_log_verify by blast
qed

definition sample_log :: "(bytes \<Rightarrow> string) \<Rightarrow> (payload \<Rightarrow> bytes) \<Rightarrow> alog" where
  "sample_log sha enc = append_step sha enc bucket_new (sample_rec, ''t'', True)"

lemma sample_log_chain: "\<exists>es. chain_ok sha enc es (sample_log sha enc) \<and> length es = 1"
proof -
  have "length ([] :: aentry list) + 1 < 2 ^ 64" by simp
  from append_step_chain [OF chain_ok_new this, of sha enc "(sample_rec, ''t'', True)"]
  show ?thesis unfolding sample_log_def by (auto dest: arg_cong [of _ _ length])
qed

lemma audit_truncation_evident_witness:
  "audit_Verify (\<lambda>x. x) (\<lambda>p. ''{}'')
     (run_ops (append_step (\<lambda>x. x) (\<lambda>p. ''{}'')) ((sample_log (\<lambda>x. x) (\<lambda>p. ''{}''))\<lparr>items := []\<rparr>)
        [(sample_rec, ''u'', True)]) \<noteq> None"
proof -
  obtain es where "chain_ok (\<lambda>x. x) (\<lambda>p. ''{}'') es (sample_log (\<lambda>x. x) (\<lambda>p. ''{}''))" "length es = 1"
    using sample_log_chain by blast
  note c = this
  show ?thesis
  proof (rule audit_truncation_evident [OF c(1)])
    show "length [] < length es" using c(2) by simp
    show "length es + length [(sample_rec, ''u'', True)] < 2 ^ 64" unfolding c(2) by simp
  qed
qed

definition hashed :: "aentry list \<Rightarrow> (string \<times> payload) list" where
  "hashed es = map (\<lambda>e. (ae_prev e, ae_payload e)) es"

text \<open>No two of the listed inputs have the same digest.\<close>

definition no_collision :: "(bytes \<Rightarrow> string) \<Rightarrow> (payload \<Rightarrow> bytes) \<Rightarrow> (string \<times> payload) list \<Rightarrow> bool" where
  "no_collision sha enc X \<longleftrightarrow>
     (\<forall>x \<in> set X. \<forall>y \<in> set X. sha (fst x @ enc (snd x)) = sha (fst y @ enc (snd y)) \<longrightarrow> x = y)"

lemma no_collisionD:
  assumes "no_collision sha enc (hashed es @ hashed fs)" "e \<in> set es" "f \<in> set fs"
    "sha (ae_prev e @ enc (ae_payload e)) = sha (ae_prev f @ enc (ae_payload f))"
  shows "(ae_prev e, ae_payload e) = (ae_prev f, ae_payload f)"
proof -
  have "(ae_prev e, ae_payload e) \<in> set (hashed es @ hashed fs)"
    "(ae_prev f, ae_payload f) \<in> set (hashed es @ hashed fs)"
    using assms(2,3) by (simp_all add: hashed_def)
  with assms(1,4) show ?thesis unfolding no_collision_def by (metis fst_conv snd_conv)
qed

lemma no_collision_mono: "no_collision sha enc X \<Longrightarrow> set Y \<subseteq> set X \<Longrightarrow> no_collision sha enc Y"
  unfolding no_collision_def by blast

lemma chains_same_head:
  assumes "length es = length fs" "chain_from sha enc '''' 1 es" "chain_from sha enc '''' 1 fs"
    "head_hash '''' es = head_hash '''' fs" "no_collision sha enc (hashed es @ hashed fs)"
  shows "es = fs"
  using assms
proof (induction es arbitrary: fs rule: rev_induct)
  case Nil
  then show ?case by simp
next
  case (snoc e es)
  obtain f fs' where fs: "fs = fs' @ [f]" using snoc.prems(1) by (cases fs rule: rev_cases) auto
  have e: "chain_from sha enc '''' 1 es" "ae_prev e = head_hash '''' es" "ae_hash e = computeHash sha enc (ae_prev e) e"
    using snoc.prems(2) by (auto simp: chain_from_append)
  have f: "chain_from sha enc '''' 1 fs'" "ae_prev f = head_hash '''' fs'" "ae_hash f = computeHash sha enc (ae_prev f) f"
    using snoc.prems(3) fs by (auto simp: chain_from_append)
  have "ae_hash e = ae_hash f" using snoc.prems(4) fs by (simp add: head_hash_def)
  then have "sha (ae_prev e @ enc (ae_payload e)) = sha (ae_prev f @ enc (ae_payload f))"
    using e(3) f(3) by (simp add: computeHash_def)
  then have "(ae_prev e, ae_payload e) = (ae_prev f, ae_payload f)"
    using no_collisionD [OF snoc.prems(5), of e f] fs by simp
  with \<open>ae_hash e = ae_hash f\<close> have ef: "e = f" by (cases e, cases f) (simp add: ae_payload_def)
  have "no_collision sha enc (hashed es @ hashed fs')"
    by (rule no_collision_mono [OF snoc.prems(5)]) (auto simp: hashed_def fs)
  then have "es = fs'"
    using snoc.IH [of fs'] e(1,2) f(1,2) ef snoc.prems(1) fs by simp
  with ef fs show ?case by simp
qed

text \<open>C12: the head hash binds the whole log. Two logs that both verify and end in the same hash are
  the same log, entry for entry, unless two of their payloads collide under the digest: editing,
  reordering or replacing any entry changes the hash the log ends in.\<close>

theorem audit_head_binds_log:
  assumes "chain_ok sha enc es b" "chain_ok sha enc fs c" "es \<noteq> []" "fs \<noteq> []"
    and "ae_hash (last es) = ae_hash (last fs)" "no_collision sha enc (hashed es @ hashed fs)"
  shows "b = c"
proof -
  have ch: "chain_from sha enc '''' 1 es" "chain_from sha enc '''' 1 fs"
    using assms by (simp_all add: chain_ok_def)
  have h: "last es \<in> set es" "last fs \<in> set fs" using assms by simp_all
  have comp: "ae_hash (last es) = computeHash sha enc (ae_prev (last es)) (last es)"
    "ae_hash (last fs) = computeHash sha enc (ae_prev (last fs)) (last fs)"
    using ch assms(3,4)
    by (metis append_butlast_last_id chain_from.simps(2) chain_from_append)+
  have "(ae_prev (last es), ae_payload (last es)) = (ae_prev (last fs), ae_payload (last fs))"
    using no_collisionD [OF assms(6) h] assms(5) comp by (simp add: computeHash_def)
  then have "ae_seq (last es) = ae_seq (last fs)" by (simp add: ae_payload_def)
  then have "(word_of_nat (length es) :: u64) = word_of_nat (length fs)"
    using chain_from_last_seq [OF ch(1) assms(3)] chain_from_last_seq [OF ch(2) assms(4)] by simp
  moreover have "length es < 2 ^ 64" "length fs < 2 ^ 64" using assms(1,2) by (simp_all add: chain_ok_def)
  ultimately have "length es = length fs" by (metis unat_word_small)
  then have "es = fs"
    using chains_same_head ch assms(3-6) by (simp add: head_hash_def)
  then show "b = c" using assms(1,2) by (cases b, cases c) (simp add: chain_ok_def)
qed

theorem audit_head_binds_log_witness:
  "\<exists>es. chain_ok (\<lambda>x. x) (\<lambda>p. ''{}'') es (sample_log (\<lambda>x. x) (\<lambda>p. ''{}''))
     \<and> no_collision (\<lambda>x. x) (\<lambda>p. ''{}'') (hashed es @ hashed es) \<and> es \<noteq> []
     \<and> sample_log (\<lambda>x. x) (\<lambda>p. ''{}'') = append_step (\<lambda>x. x) (\<lambda>p. ''{}'') bucket_new (sample_rec, ''t'', True)"
proof -
  obtain es where es: "chain_ok (\<lambda>x. x) (\<lambda>p. ''{}'') es (sample_log (\<lambda>x. x) (\<lambda>p. ''{}''))" and "length es = 1"
    using sample_log_chain by blast
  then obtain e where e: "es = [e]" by (auto simp: length_Suc_conv)
  have nc: "no_collision (\<lambda>x. x) (\<lambda>p. ''{}'') (hashed es @ hashed es)"
    by (simp add: e no_collision_def hashed_def)
  have es': "chain_ok (\<lambda>x. x) (\<lambda>p. ''{}'') es
    (append_step (\<lambda>x. x) (\<lambda>p. ''{}'') bucket_new (sample_rec, ''t'', True))"
    using es by (simp add: sample_log_def)
  from audit_head_binds_log [OF es es' _ _ refl nc] es nc e show ?thesis by blast
qed

section \<open>Paging\<close>

lemma page_loop_chain: "page_loop n (map slot_of es) = Inr (take n es)"
  by (induction n "map slot_of es" arbitrary: es rule: page_loop.induct) (auto simp: slot_of_def)

lemma dropWhile_chain:
  "chain_from sha enc prev n es \<Longrightarrow> n + length es \<le> 2 ^ 64 \<Longrightarrow> n \<le> m \<Longrightarrow> m < 2 ^ 64 \<Longrightarrow>
   dropWhile (\<lambda>x. fst x < seqkey_encode (word_of_nat m)) (map slot_of es) = map slot_of (drop (m - n) es)"
proof (induction es arbitrary: prev n)
  case (Cons e es)
  have s: "ae_seq e = word_of_nat n" using Cons.prems(1) by simp
  have n: "n < 2 ^ 64" using Cons.prems(2) by simp
  have lt: "ae_seq e < word_of_nat m \<longleftrightarrow> n < m"
    using n Cons.prems(4) unat_word_small unfolding s word_less_nat_alt by simp
  show ?case
  proof (cases "n = m")
    case True
    then show ?thesis using lt by (simp add: slot_of_def)
  next
    case False
    then have "n < m" using Cons.prems(3) by simp
    moreover have "m - n = Suc (m - (n + 1))" using \<open>n < m\<close> by simp
    moreover have "dropWhile (\<lambda>x. fst x < seqkey_encode (word_of_nat m)) (map slot_of es)
      = map slot_of (drop (m - (n + 1)) es)"
      by (rule Cons.IH [of "ae_hash e" "n + 1"]) (use Cons.prems \<open>n < m\<close> in auto)
    moreover have "fst (slot_of e) < seqkey_encode (word_of_nat m)"
      using lt \<open>n < m\<close> by (simp add: slot_of_def)
    ultimately show ?thesis by simp
  qed
qed simp

text \<open>A page is the next entries in sequence order: on an intact log \<open>Page\<close> returns the first
  \<open>limit\<close> entries behind position \<open>after\<close>, and nothing for a limit that is not positive.\<close>

lemma audit_page_spec:
  assumes "chain_ok sha enc es b" "unat after + 1 < 2 ^ 64"
  shows "audit_Page after limit b = Inr (take (nat limit) (drop (unat after) es))"
proof -
  have a: "after + 1 = word_of_nat (unat after + 1)" by simp
  have "kv_seek (seqkey_encode (after + 1)) (items b) = map slot_of (drop (unat after) es)"
    unfolding a kv_seek_def
    using dropWhile_chain [of sha enc "''''" 1 es "unat after + 1"] assms
    by (simp add: chain_ok_def del: of_nat_add)
  then show ?thesis by (simp add: audit_Page_def page_loop_chain)
qed

lemma audit_page_spec_witness:
  "audit_Page 0 5 (bucket_new :: alog) = Inr []"
  using audit_page_spec [OF chain_ok_new, of 0 5] by simp

text \<open>The resume position 2^64 - 1, behind which no entry can stand, wraps: \<open>after + 1\<close> is 0 and
  \<open>Page\<close> answers with the entries from the start of the log.\<close>

lemma audit_page_wraps:
  assumes "chain_ok sha enc es b"
  shows "audit_Page (- 1) limit b = Inr (take (nat limit) es)"
proof -
  have "kv_seek (seqkey_encode 0) (map slot_of es) = map slot_of es"
    by (cases es) (simp_all add: kv_seek_def slot_of_def)
  then show ?thesis using assms by (simp add: audit_Page_def page_loop_chain chain_ok_def)
qed

lemma audit_page_wraps_witness:
  "\<exists>es. audit_Page (- 1) 5 (sample_log (\<lambda>x. x) (\<lambda>p. ''{}'')) = Inr es \<and> length es = 1"
proof -
  obtain es where es: "chain_ok (\<lambda>x. x) (\<lambda>p. ''{}'') es (sample_log (\<lambda>x. x) (\<lambda>p. ''{}''))" "length es = 1"
    using sample_log_chain by blast
  from audit_page_wraps [OF es(1), of 5] es(2) show ?thesis by simp
qed

end
