(* ===== verification/Sluice.thy ===== *)
theory Sluice
  imports Blobstore AuditLog
begin

text \<open>Model of \<open>internal/sluice\<close>: the durable hold queue of outbound messages (\<open>sluice.go\<close>, its
  bbolt implementation \<open>bbolt.go\<close>).

  The state is the metadata bucket, the blob directory and the audit records that reached the
  log. Each operation takes an \<open>io\<close> record that says how its system calls end: the blob write
  (\<open>io_put\<close>), the commit of its transaction (\<open>io_commit\<close>) and the best-effort audit append
  (\<open>io_audit\<close>). A crash inside an operation leaves the state of one of these cases: before the
  commit that of a failed commit, between commit and audit that of a failed append. The current
  time, the Subject of a raw message (the header parser is a third-party package) and the RFC 3339
  form of a time are arguments.\<close>

section \<open>Data\<close>

datatype status = Pending | Approved | Rejected | Sent

record submission =
  sub_agent :: string
  sub_inbox :: string
  sub_from :: string
  sub_rcpt :: "string list"
  sub_raw :: bytes

record resend_claim =
  rc_since :: time
  rc_actor :: string

record message =
  m_id :: string
  m_agent :: string
  m_inbox :: string
  m_from :: string
  m_rcpt :: "string list"
  m_raw :: bytes
  m_received_at :: time
  m_status :: status
  m_decided_by :: string
  m_reason :: string
  m_retryable :: bool
  m_released :: "bytes option"
  m_send_err :: string
  m_as_inbox :: string
  m_claim :: "resend_claim option"

record stored =
  st_msg :: message
  st_subject :: string
  st_size :: int
  st_blobbed :: bool

record meta =
  mt_id :: string
  mt_agent :: string
  mt_inbox :: string
  mt_from :: string
  mt_rcpt :: "string list"
  mt_subject :: string
  mt_size :: int
  mt_received_at :: time
  mt_status :: status
  mt_send_err :: string
  mt_outcome_unknown :: bool
  mt_resend_in_progress :: bool

text \<open>What the code can see of a send error: its text and the answers of \<open>errors.Is\<close> and
  \<open>errors.As\<close> for the errors it asks about.\<close>

record send_error =
  se_text :: string
  se_unknown :: bool
  se_pending :: bool
  se_nosender :: bool
  se_smtp_code :: "int option"

datatype sluice_err = ErrNotFound | ErrNotPending string status | ErrNotApproved string status
  | ErrNotResendable string status | ErrResendInProgress | ErrAckRequired
  | SlContent blob_err | SlCommit | SlOpen | SlNoPath | SlPanic

record io =
  io_put :: put_fault
  io_sfx :: string
  io_commit :: bool
  io_audit :: bool

record sluice =
  sl_bucket :: "stored bucket"
  sl_blobs :: dir
  sl_audit :: "arec list"

definition OutcomeUnknownPrefix :: string where
  "OutcomeUnknownPrefix = ''outcome unknown: ''"

definition ReasonResendInterrupted :: string where
  "ReasonResendInterrupted = ''re-send interrupted''"

definition ReasonNoFinalReply :: string where
  "ReasonNoFinalReply = ''no final reply from the server''"

definition OutcomeUnknown :: "string \<Rightarrow> string" where
  "OutcomeUnknown reason = OutcomeUnknownPrefix @ reason"

definition IsOutcomeUnknown :: "string \<Rightarrow> bool" where
  "IsOutcomeUnknown send_err = has_prefix send_err OutcomeUnknownPrefix"

section \<open>Records and blobs\<close>

definition writeAudit :: "io \<Rightarrow> arec \<Rightarrow> sluice \<Rightarrow> sluice" where
  "writeAudit io r s = (if io_audit io then s\<lparr>sl_audit := sl_audit s @ [r]\<rparr> else s)"

definition storedFrom :: "(bytes \<Rightarrow> string) \<Rightarrow> message \<Rightarrow> stored" where
  "storedFrom subjectFromRaw m = \<lparr>st_msg = m\<lparr>m_raw := []\<rparr>, st_subject = subjectFromRaw (m_raw m),
     st_size = int (length (m_raw m)), st_blobbed = True\<rparr>"

definition loadStored :: "sluice \<Rightarrow> string \<Rightarrow> sluice_err + stored \<times> bytes" where
  "loadStored s mid = (case parse_uint 64 mid of
       None \<Rightarrow> Inl ErrNotFound
     | Some n \<Rightarrow>
         let key = seqkey_encode (word_of_nat n)
         in case b_get (sl_bucket s) key of None \<Rightarrow> Inl ErrNotFound | Some rec \<Rightarrow> Inr (rec, key))"

definition putStored :: "bytes \<Rightarrow> stored \<Rightarrow> sluice \<Rightarrow> sluice" where
  "putStored key rec s = s\<lparr>sl_bucket := b_put key rec (sl_bucket s)\<rparr>"

definition withRaw :: "sluice \<Rightarrow> stored \<Rightarrow> sluice_err + message" where
  "withRaw s rec = (if st_blobbed rec
     then (case blob_Get (m_id (st_msg rec)) (sl_blobs s) of
             Inl e \<Rightarrow> Inl (SlContent e)
           | Inr raw \<Rightarrow> Inr ((st_msg rec)\<lparr>m_raw := raw\<rparr>))
     else Inr (st_msg rec))"

section \<open>Operations\<close>

definition new_message :: "time \<Rightarrow> submission \<Rightarrow> u64 \<Rightarrow> message" where
  "new_message now sub n = \<lparr>m_id = fmt_uint (unat n), m_agent = sub_agent sub, m_inbox = sub_inbox sub,
     m_from = sub_from sub, m_rcpt = sub_rcpt sub, m_raw = sub_raw sub, m_received_at = now,
     m_status = Pending, m_decided_by = '''', m_reason = '''', m_retryable = False,
     m_released = None, m_send_err = '''', m_as_inbox = '''', m_claim = None\<rparr>"

definition sluice_Enqueue ::
    "(bytes \<Rightarrow> string) \<Rightarrow> io \<Rightarrow> time \<Rightarrow> submission \<Rightarrow> sluice \<Rightarrow> (sluice_err + message) \<times> sluice" where
  "sluice_Enqueue subjectFromRaw io now sub s = (
     let (seq, b') = b_next (sl_bucket s);
         msg = new_message now sub seq;
         (err, dirs) = blob_Put (io_put io) (io_sfx io) (m_id msg) (sub_raw sub) (sl_blobs s);
         s1 = s\<lparr>sl_blobs := last dirs\<rparr>
     in case err of
          Some e \<Rightarrow> (Inl (SlContent e), s1)
        | None \<Rightarrow>
            if \<not> io_commit io then (Inl SlCommit, s1)
            else (Inr msg,
                  writeAudit io \<lparr>ar_event = ''enqueue'', ar_agent = m_agent msg, ar_inbox = m_inbox msg,
                      ar_actor = '''', ar_message_id = m_id msg, ar_detail = '''', ar_retryable = None\<rparr>
                    (putStored (seqkey_encode seq) (storedFrom subjectFromRaw msg) (s1\<lparr>sl_bucket := b'\<rparr>))))"

definition meta_of :: "(bytes \<Rightarrow> string) \<Rightarrow> stored \<Rightarrow> meta" where
  "meta_of subjectFromRaw rec = (
     let m = st_msg rec in
     \<lparr>mt_id = m_id m, mt_agent = m_agent m, mt_inbox = m_inbox m, mt_from = m_from m, mt_rcpt = m_rcpt m,
      mt_subject = (if \<not> st_blobbed rec then subjectFromRaw (m_raw m) else st_subject rec),
      mt_size = (if \<not> st_blobbed rec then int (length (m_raw m)) else st_size rec),
      mt_received_at = m_received_at m, mt_status = m_status m, mt_send_err = m_send_err m,
      mt_outcome_unknown = IsOutcomeUnknown (m_send_err m),
      mt_resend_in_progress = (m_claim m \<noteq> None)\<rparr>)"

definition sluice_List :: "(bytes \<Rightarrow> string) \<Rightarrow> sluice \<Rightarrow> meta list" where
  "sluice_List subjectFromRaw s = map (\<lambda>e. meta_of subjectFromRaw (snd e)) (items (sl_bucket s))"

definition sluice_Get :: "sluice \<Rightarrow> string \<Rightarrow> sluice_err + message" where
  "sluice_Get s mid = (case loadStored s mid of Inl e \<Rightarrow> Inl e | Inr (rec, _) \<Rightarrow> withRaw s rec)"

definition transitionFromPending ::
    "io \<Rightarrow> string \<Rightarrow> string \<Rightarrow> string \<Rightarrow> string \<Rightarrow> bool option \<Rightarrow> (message \<Rightarrow> message) \<Rightarrow> sluice \<Rightarrow>
     (sluice_err + message) \<times> sluice" where
  "transitionFromPending io mid event detail actor retryable mutate s =
     (case loadStored s mid of
        Inl e \<Rightarrow> (Inl e, s)
      | Inr (r, key) \<Rightarrow>
          if m_status (st_msg r) \<noteq> Pending then (Inl (ErrNotPending mid (m_status (st_msg r))), s)
          else let rec = r\<lparr>st_msg := mutate (st_msg r)\<rparr> in
            if \<not> io_commit io then (Inl SlCommit, s)
            else let s1 = putStored key rec s in
              case withRaw s1 rec of
                Inl e \<Rightarrow> (Inl e, s1)
              | Inr out \<Rightarrow> (Inr out,
                  writeAudit io \<lparr>ar_event = event, ar_agent = m_agent out, ar_inbox = m_inbox out,
                     ar_actor = actor, ar_message_id = mid, ar_detail = detail, ar_retryable = retryable\<rparr> s1))"

definition approve_mutate :: "string \<Rightarrow> bytes option \<Rightarrow> string \<Rightarrow> message \<Rightarrow> message" where
  "approve_mutate decidedBy released asInbox m = m\<lparr>
     m_status := Approved, m_decided_by := decidedBy,
     m_released := (case released of Some (c # cs) \<Rightarrow> released | _ \<Rightarrow> m_released m),
     m_as_inbox := asInbox\<rparr>"

definition reject_mutate :: "string \<Rightarrow> string \<Rightarrow> bool \<Rightarrow> message \<Rightarrow> message" where
  "reject_mutate decidedBy reason retryable m = m\<lparr>
     m_status := Rejected, m_decided_by := decidedBy, m_reason := reason, m_retryable := retryable\<rparr>"

definition sluice_Approve ::
    "io \<Rightarrow> string \<Rightarrow> string \<Rightarrow> bytes option \<Rightarrow> string \<Rightarrow> string \<Rightarrow> sluice \<Rightarrow> (sluice_err + message) \<times> sluice" where
  "sluice_Approve io mid decidedBy released asInbox actor s =
     transitionFromPending io mid ''approve'' decidedBy actor None (approve_mutate decidedBy released asInbox) s"

definition sluice_Reject ::
    "io \<Rightarrow> string \<Rightarrow> string \<Rightarrow> string \<Rightarrow> bool \<Rightarrow> string \<Rightarrow> sluice \<Rightarrow> (sluice_err + message) \<times> sluice" where
  "sluice_Reject io mid decidedBy reason retryable actor s =
     transitionFromPending io mid ''reject'' reason actor (Some retryable) (reject_mutate decidedBy reason retryable) s"

definition record_outcome :: "send_error option \<Rightarrow> message \<Rightarrow> message" where
  "record_outcome sendErr m = (
     case sendErr of
       Some e \<Rightarrow> m\<lparr>m_send_err := (if se_unknown e then OutcomeUnknown ReasonNoFinalReply else se_text e),
                  m_claim := None\<rparr>
     | None \<Rightarrow> m\<lparr>m_status := Sent, m_send_err := '''', m_claim := None\<rparr>)"

definition send_detail :: "send_error option \<Rightarrow> string \<Rightarrow> string" where
  "send_detail sendErr asIdentity = (case sendErr of
       None \<Rightarrow> if asIdentity \<noteq> '''' then ''sent as '' @ asIdentity else ''sent''
     | Some e \<Rightarrow> if asIdentity \<noteq> '''' then se_text e @ '' (as '' @ asIdentity @ '')'' else se_text e)"

definition send_event :: "send_error option \<Rightarrow> bool \<Rightarrow> string" where
  "send_event sendErr resend =
     (if (case sendErr of Some e \<Rightarrow> se_unknown e | None \<Rightarrow> False)
      then (if resend then ''resend_outcome_unknown'' else ''send_outcome_unknown'')
      else (if resend then ''resend_attempt'' else ''send_attempt''))"

definition sluice_RecordSendAttempt ::
    "io \<Rightarrow> string \<Rightarrow> send_error option \<Rightarrow> bool \<Rightarrow> string \<Rightarrow> string \<Rightarrow> sluice \<Rightarrow> (sluice_err + message) \<times> sluice" where
  "sluice_RecordSendAttempt io mid sendErr resend actor asIdentity s =
     (case loadStored s mid of
        Inl e \<Rightarrow> (Inl e, s)
      | Inr (rec, key) \<Rightarrow>
          let st = m_status (st_msg rec) in
          if \<not> (st = Approved \<or> st = Sent \<and> sendErr = None) then (Inl (ErrNotApproved mid st), s)
          else let out = record_outcome sendErr (st_msg rec) in
            if \<not> io_commit io then (Inl SlCommit, s)
            else (Inr out,
              writeAudit io \<lparr>ar_event = send_event sendErr resend, ar_agent = m_agent out, ar_inbox = m_inbox out,
                 ar_actor = actor, ar_message_id = mid, ar_detail = send_detail sendErr asIdentity,
                 ar_retryable = None\<rparr>
                (putStored key (rec\<lparr>st_msg := out\<rparr>) s)))"

definition sluice_ClaimResend ::
    "io \<Rightarrow> time \<Rightarrow> string \<Rightarrow> string \<Rightarrow> bool \<Rightarrow> sluice \<Rightarrow> (sluice_err + message) \<times> sluice" where
  "sluice_ClaimResend io now mid actor ackOutcomeUnknown s =
     (case loadStored s mid of
        Inl e \<Rightarrow> (Inl e, s)
      | Inr (rec, key) \<Rightarrow>
          let m = st_msg rec in
          if m_status m \<noteq> Approved \<or> m_send_err m = '''' then (Inl (ErrNotResendable mid (m_status m)), s)
          else if m_claim m \<noteq> None then (Inl ErrResendInProgress, s)
          else if IsOutcomeUnknown (m_send_err m) \<and> \<not> ackOutcomeUnknown then (Inl ErrAckRequired, s)
          else let out = m\<lparr>m_claim := Some \<lparr>rc_since = now, rc_actor = actor\<rparr>\<rparr> in
            if \<not> io_commit io then (Inl SlCommit, s)
            else (Inr out, putStored key (rec\<lparr>st_msg := out\<rparr>) s))"

section \<open>Opening the store\<close>

definition interrupted_audit :: "(time \<Rightarrow> string) \<Rightarrow> string \<Rightarrow> message \<Rightarrow> resend_claim \<Rightarrow> arec" where
  "interrupted_audit rfc3339 mid out claim = \<lparr>ar_event = ''resend_interrupted'', ar_agent = m_agent out,
     ar_inbox = m_inbox out, ar_actor = rc_actor claim, ar_message_id = mid,
     ar_detail = ''re-send started '' @ rfc3339 (rc_since claim) @ '' did not record an outcome'',
     ar_retryable = None\<rparr>"

fun reconcile_loop :: "(time \<Rightarrow> string) \<Rightarrow> (string \<Rightarrow> io) \<Rightarrow> string list \<Rightarrow> sluice \<Rightarrow> sluice_err option \<times> sluice" where
  "reconcile_loop rfc3339 ios [] s = (None, s)"
| "reconcile_loop rfc3339 ios (mid # ids) s =
     (case loadStored s mid of
        Inl e \<Rightarrow> (Some e, s)
      | Inr (rec, key) \<Rightarrow>
          (case m_claim (st_msg rec) of
             None \<Rightarrow> (Some SlPanic, s)
           | Some claim \<Rightarrow>
               let out = (st_msg rec)\<lparr>m_claim := None, m_send_err := OutcomeUnknown ReasonResendInterrupted\<rparr> in
               if \<not> io_commit (ios mid) then (Some SlCommit, s)
               else reconcile_loop rfc3339 ios ids
                 (writeAudit (ios mid) (interrupted_audit rfc3339 mid out claim)
                   (putStored key (rec\<lparr>st_msg := out\<rparr>) s))))"

definition claimed_ids :: "sluice \<Rightarrow> string list" where
  "claimed_ids s = map (\<lambda>e. m_id (st_msg (snd e)))
     (filter (\<lambda>e. m_claim (st_msg (snd e)) \<noteq> None) (items (sl_bucket s)))"

definition reconcileClaims :: "(time \<Rightarrow> string) \<Rightarrow> (string \<Rightarrow> io) \<Rightarrow> sluice \<Rightarrow> sluice_err option \<times> sluice" where
  "reconcileClaims rfc3339 ios s = reconcile_loop rfc3339 ios (claimed_ids s) s"

definition live_ids :: "sluice \<Rightarrow> string \<Rightarrow> bool" where
  "live_ids s mid \<longleftrightarrow> mid \<in> (\<lambda>e. m_id (st_msg (snd e))) ` set (items (sl_bucket s))"

definition sluice_sweepOrphans :: "bool \<Rightarrow> (string \<Rightarrow> bool) \<Rightarrow> sluice \<Rightarrow> sluice_err option \<times> sluice" where
  "sluice_sweepOrphans readdir_ok rm_ok s =
     (case blob_SweepOrphans readdir_ok rm_ok (live_ids s) (sl_blobs s) of
        (n, err, d) \<Rightarrow> (map_option SlContent err, s\<lparr>sl_blobs := d\<rparr>))"

text \<open>\<open>newBbolt\<close> on a database that holds the state \<open>s\<close>; \<open>db_ok\<close> and \<open>mkdir_ok\<close> say whether the
  database opens and the blob directory can be made.\<close>

definition sluice_open ::
    "(time \<Rightarrow> string) \<Rightarrow> (string \<Rightarrow> io) \<Rightarrow> bool \<Rightarrow> bool \<Rightarrow> bool \<Rightarrow> (string \<Rightarrow> bool) \<Rightarrow> string \<Rightarrow> sluice \<Rightarrow>
     sluice_err option \<times> sluice" where
  "sluice_open rfc3339 ios db_ok mkdir_ok readdir_ok rm_ok path s =
     (if path = [] then (Some SlNoPath, s)
      else if \<not> db_ok then (Some SlOpen, s)
      else if \<not> mkdir_ok then (Some (SlContent MkdirFailed), s)
      else case sluice_sweepOrphans readdir_ok rm_ok s of
          (Some e, s1) \<Rightarrow> (Some e, s1)
        | (None, s1) \<Rightarrow> reconcileClaims rfc3339 ios s1)"

definition sluice_empty :: sluice where
  "sluice_empty = \<lparr>sl_bucket = bucket_new, sl_blobs = [], sl_audit = []\<rparr>"

section \<open>The life of a message\<close>

text \<open>The abstract state machine of one message. Every operation of the store leaves a record as it
  is or moves its message along one of these steps.\<close>

inductive msg_step :: "message \<Rightarrow> message \<Rightarrow> bool" where
  approve: "m_status m = Pending \<Longrightarrow> msg_step m (approve_mutate decidedBy released asInbox m)"
| reject: "m_status m = Pending \<Longrightarrow> msg_step m (reject_mutate decidedBy reason retryable m)"
| delivered: "m_status m = Approved \<Longrightarrow> msg_step m (record_outcome None m)"
| again: "m_status m = Sent \<Longrightarrow> msg_step m (record_outcome None m)"
| failed: "m_status m = Approved \<Longrightarrow> msg_step m (record_outcome (Some e) m)"
| claim: "m_status m = Approved \<Longrightarrow> m_send_err m \<noteq> '''' \<Longrightarrow> m_claim m = None \<Longrightarrow> msg_step m (m\<lparr>m_claim := Some c\<rparr>)"
| interrupted: "m_claim m = Some c \<Longrightarrow>
    msg_step m (m\<lparr>m_claim := None, m_send_err := OutcomeUnknown ReasonResendInterrupted\<rparr>)"

inductive_cases msg_stepE: "msg_step m m'"

definition msg_ok :: "message \<Rightarrow> bool" where
  "msg_ok m \<longleftrightarrow> (m_status m \<noteq> Approved \<longrightarrow> m_send_err m = '''' \<and> m_claim m = None)
     \<and> (m_claim m \<noteq> None \<longrightarrow> m_send_err m \<noteq> '''')
     \<and> (m_status m = Pending \<longrightarrow> m_decided_by m = '''' \<and> m_reason m = '''' \<and> m_released m = None \<and> m_as_inbox m = '''')"

text \<open>What was submitted, and what was decided.\<close>

definition submitted :: "message \<Rightarrow> string \<times> string \<times> string \<times> string \<times> string list \<times> bytes \<times> time" where
  "submitted m = (m_id m, m_agent m, m_inbox m, m_from m, m_rcpt m, m_raw m, m_received_at m)"

definition decision :: "message \<Rightarrow> string \<times> string \<times> bool \<times> bytes option \<times> string" where
  "decision m = (m_decided_by m, m_reason m, m_retryable m, m_released m, m_as_inbox m)"

lemmas mutate_defs = approve_mutate_def reject_mutate_def record_outcome_def

lemma OutcomeUnknown_ne [simp]: "OutcomeUnknown r \<noteq> ''''"
  by (simp add: OutcomeUnknown_def OutcomeUnknownPrefix_def)


lemma IsOutcomeUnknown_OutcomeUnknown [simp]: "IsOutcomeUnknown (OutcomeUnknown r)"
  by (simp add: IsOutcomeUnknown_def OutcomeUnknown_def)

lemma msg_step_ok: "msg_step m m' \<Longrightarrow> msg_ok m \<Longrightarrow> msg_ok m'"
  by (erule msg_stepE) (auto simp: msg_ok_def mutate_defs split: option.splits list.splits)

lemma msg_step_submitted: "msg_step m m' \<Longrightarrow> submitted m' = submitted m"
  by (erule msg_stepE) (auto simp: submitted_def mutate_defs split: option.splits)

lemma msg_step_decision: "msg_step m m' \<Longrightarrow> m_status m \<noteq> Pending \<Longrightarrow> decision m' = decision m"
  by (erule msg_stepE) (auto simp: decision_def mutate_defs split: option.splits)

lemma msg_step_not_pending: "msg_step m m' \<Longrightarrow> msg_ok m \<Longrightarrow> m_status m' \<noteq> Pending"
  by (erule msg_stepE) (auto simp: msg_ok_def mutate_defs split: option.splits)

lemma msg_step_final:
  "msg_step m m' \<Longrightarrow> msg_ok m \<Longrightarrow> m_status m = Rejected \<or> m_status m = Sent \<Longrightarrow> m' = m"
  by (erule msg_stepE) (auto simp: msg_ok_def mutate_defs)

lemma msg_steps_ok: "msg_step\<^sup>*\<^sup>* m m' \<Longrightarrow> msg_ok m \<Longrightarrow> msg_ok m'"
  by (induction rule: rtranclp_induct) (auto dest: msg_step_ok)

lemma msg_steps_submitted: "msg_step\<^sup>*\<^sup>* m m' \<Longrightarrow> submitted m' = submitted m"
  by (induction rule: rtranclp_induct) (auto dest: msg_step_submitted)

lemma msg_steps_not_pending: "msg_step\<^sup>*\<^sup>* m m' \<Longrightarrow> msg_ok m \<Longrightarrow> m_status m \<noteq> Pending \<Longrightarrow> m_status m' \<noteq> Pending"
  by (induction rule: rtranclp_induct) (auto dest: msg_steps_ok msg_step_not_pending)

lemma msg_steps_decision:
  "msg_step\<^sup>*\<^sup>* m m' \<Longrightarrow> msg_ok m \<Longrightarrow> m_status m \<noteq> Pending \<Longrightarrow> decision m' = decision m"
proof (induction rule: rtranclp_induct)
  case (step y z)
  then show ?case using msg_step_decision msg_steps_not_pending by metis
qed simp

lemma msg_steps_final:
  "msg_step\<^sup>*\<^sup>* m m' \<Longrightarrow> msg_ok m \<Longrightarrow> m_status m = Rejected \<or> m_status m = Sent \<Longrightarrow> m' = m"
proof (induction rule: rtranclp_induct)
  case (step y z)
  then show ?case using msg_step_final by blast
qed simp

section \<open>The invariant of the store\<close>

definition rec_ok :: "sluice \<Rightarrow> bytes \<Rightarrow> stored \<Rightarrow> bool" where
  "rec_ok s key r \<longleftrightarrow> msg_ok (st_msg r)
     \<and> (\<exists>n. key = seqkey_encode n \<and> m_id (st_msg r) = fmt_uint (unat n) \<and> 0 < n \<and> n \<le> bseq (sl_bucket s))
     \<and> (st_blobbed r \<longrightarrow> (\<exists>data. kv_get (sl_blobs s) (m_id (st_msg r)) = Some (File data)
           \<and> st_size r = int (length data)))"

definition sl_inv :: "sluice \<Rightarrow> bool" where
  "sl_inv s \<longleftrightarrow> kv_ok (items (sl_bucket s)) \<and> kv_ok (sl_blobs s)
     \<and> (\<forall>key r. b_get (sl_bucket s) key = Some r \<longrightarrow> rec_ok s key r)"

text \<open>From \<open>s\<close> to \<open>t\<close> no record is lost, each message has only moved along its state machine, and
  the content of each is where it was.\<close>

definition rec_rel :: "sluice \<Rightarrow> sluice \<Rightarrow> stored \<Rightarrow> stored \<Rightarrow> bool" where
  "rec_rel s t r r' \<longleftrightarrow> msg_step\<^sup>*\<^sup>* (st_msg r) (st_msg r') \<and> st_subject r' = st_subject r
     \<and> st_size r' = st_size r \<and> st_blobbed r' = st_blobbed r
     \<and> (st_blobbed r \<longrightarrow> kv_get (sl_blobs t) (m_id (st_msg r)) = kv_get (sl_blobs s) (m_id (st_msg r)))"

definition sl_rel :: "sluice \<Rightarrow> sluice \<Rightarrow> bool" where
  "sl_rel s t \<longleftrightarrow> (\<forall>key r. b_get (sl_bucket s) key = Some r \<longrightarrow>
     (\<exists>r'. b_get (sl_bucket t) key = Some r' \<and> rec_rel s t r r'))"

lemma writeAudit_sel [simp]: "sl_bucket (writeAudit io r s) = sl_bucket s" "sl_blobs (writeAudit io r s) = sl_blobs s"
  by (simp_all add: writeAudit_def)

lemma putStored_sel [simp]:
  "sl_bucket (putStored key r s) = b_put key r (sl_bucket s)" "sl_blobs (putStored key r s) = sl_blobs s"
  "sl_audit (putStored key r s) = sl_audit s"
  by (simp_all add: putStored_def)

lemma items_b_put [simp]: "items (b_put k v b) = kv_put k v (items b)"
  by (simp add: b_put_def)

text \<open>Both depend on the bucket and the blobs only.\<close>

lemma sl_inv_cong: "sl_bucket t = sl_bucket s \<Longrightarrow> sl_blobs t = sl_blobs s \<Longrightarrow> sl_inv t = sl_inv s"
  by (simp add: sl_inv_def rec_ok_def)

lemma sl_rel_cong: "sl_bucket t = sl_bucket s \<Longrightarrow> sl_blobs t = sl_blobs s \<Longrightarrow> sl_rel s t"
  by (simp add: sl_rel_def rec_rel_def)

lemma sl_rel_refl: "sl_rel s s"
  by (simp add: sl_rel_cong)

lemma msg_steps_id: "msg_step\<^sup>*\<^sup>* m m' \<Longrightarrow> m_id m' = m_id m"
  using msg_steps_submitted by (simp add: submitted_def)

lemma rec_rel_trans: "rec_rel s t r r' \<Longrightarrow> rec_rel t u r' r'' \<Longrightarrow> rec_rel s u r r''"
  unfolding rec_rel_def using msg_steps_id by (auto intro: rtranclp_trans)

lemma sl_rel_trans: "sl_rel s t \<Longrightarrow> sl_rel t u \<Longrightarrow> sl_rel s u"
  unfolding sl_rel_def using rec_rel_trans by blast

lemma loadStored_get:
  "loadStored s mid = Inr (r, key) \<Longrightarrow> b_get (sl_bucket s) key = Some r
     \<and> (\<exists>n. parse_uint 64 mid = Some n \<and> key = seqkey_encode (word_of_nat n))"
  by (auto simp: loadStored_def Let_def split: option.splits)

text \<open>One record moves a step, and nothing else changes.\<close>

lemma update_inv:
  assumes "sl_inv s" "b_get (sl_bucket s) key = Some r" "msg_step (st_msg r) m'"
  shows "sl_inv (putStored key (r\<lparr>st_msg := m'\<rparr>) s)"
proof -
  have r: "rec_ok s key r" using assms by (simp add: sl_inv_def)
  have "m_id m' = m_id (st_msg r)" using msg_step_submitted [OF assms(3)] by (simp add: submitted_def)
  with r assms(3) have "rec_ok s key (r\<lparr>st_msg := m'\<rparr>)" by (auto simp: rec_ok_def dest: msg_step_ok)
  then show ?thesis using assms(1) by (auto simp: sl_inv_def rec_ok_def)
qed

lemma update_rel:
  assumes "b_get (sl_bucket s) key = Some r" "msg_step (st_msg r) m'"
  shows "sl_rel s (putStored key (r\<lparr>st_msg := m'\<rparr>) s)"
  unfolding sl_rel_def
proof (intro allI impI)
  let ?t = "putStored key (r\<lparr>st_msg := m'\<rparr>) s"
  fix k q assume q: "b_get (sl_bucket s) k = Some q"
  show "\<exists>q'. b_get (sl_bucket ?t) k = Some q' \<and> rec_rel s ?t q q'"
  proof (cases "k = key")
    case True
    then have "rec_rel s ?t q (r\<lparr>st_msg := m'\<rparr>)"
      using q assms r_into_rtranclp [of msg_step, OF assms(2)] by (simp add: rec_rel_def)
    with True show ?thesis by simp
  next
    case False
    then show ?thesis using q by (simp add: rec_rel_def)
  qed
qed

text \<open>What one operation may do, and the two ways all but \<open>Enqueue\<close> and the sweep do it.\<close>

definition sl_good :: "sluice \<Rightarrow> sluice \<Rightarrow> bool" where
  "sl_good s t \<longleftrightarrow> sl_inv t \<and> sl_rel s t"

lemma good_same:
  "sl_inv s \<Longrightarrow> sl_bucket t = sl_bucket s \<Longrightarrow> sl_blobs t = sl_blobs s \<Longrightarrow> sl_good s t"
  unfolding sl_good_def by (metis sl_inv_cong sl_rel_cong)

lemma good_refl: "sl_inv s \<Longrightarrow> sl_good s s"
  by (simp add: good_same)

lemma good_trans: "sl_good s t \<Longrightarrow> sl_good t u \<Longrightarrow> sl_good s u"
  using sl_rel_trans by (auto simp: sl_good_def)

lemma good_update:
  assumes "sl_inv s" "loadStored s mid = Inr (r, key)" "msg_step (st_msg r) m'"
    "sl_bucket t = b_put key (r\<lparr>st_msg := m'\<rparr>) (sl_bucket s)" "sl_blobs t = sl_blobs s"
  shows "sl_good s t"
proof -
  have g: "b_get (sl_bucket s) key = Some r" using assms(2) loadStored_get by blast
  let ?u = "putStored key (r\<lparr>st_msg := m'\<rparr>) s"
  have "sl_inv ?u" "sl_rel s ?u" using update_inv update_rel assms g by blast+
  moreover have "sl_bucket t = sl_bucket ?u" "sl_blobs t = sl_blobs ?u" using assms by simp_all
  ultimately show ?thesis using sl_inv_cong sl_rel_cong sl_rel_trans sl_good_def by metis
qed

lemma transition_good:
  assumes "sl_inv s" "\<And>m. m_status m = Pending \<Longrightarrow> msg_step m (mutate m)"
  shows "sl_good s (snd (transitionFromPending io mid event detail actor retryable mutate s))"
proof (cases "loadStored s mid")
  case (Inl e)
  then show ?thesis using assms good_refl by (simp add: transitionFromPending_def)
next
  case (Inr p)
  obtain r key where p: "p = (r, key)" by (cases p)
  have "m_status (st_msg r) = Pending \<Longrightarrow> sl_good s (putStored key (r\<lparr>st_msg := mutate (st_msg r)\<rparr>) s)"
    using good_update [OF assms(1) Inr [unfolded p] assms(2)] by simp
  then show ?thesis
    using assms(1) good_refl Inr p good_same [of "putStored key (r\<lparr>st_msg := mutate (st_msg r)\<rparr>) s"]
    by (auto simp: transitionFromPending_def Let_def sl_good_def split: sum.split
        intro: sl_rel_trans sl_rel_cong)
qed

lemma Approve_good: "sl_inv s \<Longrightarrow> sl_good s (snd (sluice_Approve io mid who rel asi actor s))"
  unfolding sluice_Approve_def by (rule transition_good) (auto intro: msg_step.approve)

lemma Reject_good: "sl_inv s \<Longrightarrow> sl_good s (snd (sluice_Reject io mid who reason rt actor s))"
  unfolding sluice_Reject_def by (rule transition_good) (auto intro: msg_step.reject)

lemma Record_step:
  "m_status m = Approved \<or> m_status m = Sent \<and> sendErr = None \<Longrightarrow> msg_step m (record_outcome sendErr m)"
  by (cases sendErr) (auto intro: msg_step.delivered msg_step.again msg_step.failed)

lemma Record_good: "sl_inv s \<Longrightarrow> sl_good s (snd (sluice_RecordSendAttempt io mid sendErr resend actor asid s))"
proof (cases "loadStored s mid")
  case (Inr p)
  assume inv: "sl_inv s"
  obtain r key where p: "p = (r, key)" by (cases p)
  show ?thesis
  proof (cases "(m_status (st_msg r) = Approved \<or> m_status (st_msg r) = Sent \<and> sendErr = None) \<and> io_commit io")
    case True
    then show ?thesis
      using Inr p by (intro good_update [OF inv Inr [unfolded p] Record_step])
        (auto simp: sluice_RecordSendAttempt_def Let_def)
  next
    case False
    then show ?thesis
      using inv good_refl Inr p by (auto simp: sluice_RecordSendAttempt_def Let_def)
  qed
qed (simp add: sluice_RecordSendAttempt_def good_refl)

lemma Claim_good: "sl_inv s \<Longrightarrow> sl_good s (snd (sluice_ClaimResend io now mid actor ack s))"
proof (cases "loadStored s mid")
  case (Inr p)
  assume inv: "sl_inv s"
  obtain r key where p: "p = (r, key)" by (cases p)
  let ?m = "st_msg r"
  show ?thesis
  proof (cases "m_status ?m = Approved \<and> m_send_err ?m \<noteq> '''' \<and> m_claim ?m = None
      \<and> (IsOutcomeUnknown (m_send_err ?m) \<longrightarrow> ack) \<and> io_commit io")
    case True
    then show ?thesis
      using Inr p by (intro good_update [OF inv Inr [unfolded p] msg_step.claim])
        (auto simp: sluice_ClaimResend_def Let_def)
  next
    case False
    then show ?thesis
      using inv good_refl Inr p by (auto simp: sluice_ClaimResend_def Let_def)
  qed
qed (simp add: sluice_ClaimResend_def good_refl)

lemma reconcile_loop_good: "sl_inv s \<Longrightarrow> sl_good s (snd (reconcile_loop rfc ios ids s))"
proof (induction ids arbitrary: s)
  case Nil
  then show ?case by (simp add: good_refl)
next
  case (Cons mid ids)
  show ?case
  proof (cases "loadStored s mid")
    case (Inl e)
    then show ?thesis using Cons.prems good_refl by simp
  next
    case (Inr p)
    obtain r key where p: "p = (r, key)" by (cases p)
    show ?thesis
    proof (cases "m_claim (st_msg r)")
      case None
      then show ?thesis using Inr p Cons.prems good_refl by simp
    next
      case (Some c)
      let ?m = "(st_msg r)\<lparr>m_claim := None, m_send_err := OutcomeUnknown ReasonResendInterrupted\<rparr>"
      have good: "sl_good s t"
        if "sl_bucket t = b_put key (r\<lparr>st_msg := ?m\<rparr>) (sl_bucket s)" "sl_blobs t = sl_blobs s" for t
        using good_update [OF Cons.prems Inr [unfolded p] msg_step.interrupted [OF Some]] that by simp
      show ?thesis
      proof (cases "io_commit (ios mid)")
        case False
        then show ?thesis using Inr p Some Cons.prems good_refl by (simp add: Let_def)
      next
        case True
        obtain t where t: "sl_bucket t = b_put key (r\<lparr>st_msg := ?m\<rparr>) (sl_bucket s)" "sl_blobs t = sl_blobs s"
          "reconcile_loop rfc ios (mid # ids) s = reconcile_loop rfc ios ids t"
        proof
          let ?t = "writeAudit (ios mid) (interrupted_audit rfc mid ?m c) (putStored key (r\<lparr>st_msg := ?m\<rparr>) s)"
          show "sl_bucket ?t = b_put key (r\<lparr>st_msg := ?m\<rparr>) (sl_bucket s)" "sl_blobs ?t = sl_blobs s"
            by simp_all
          show "reconcile_loop rfc ios (mid # ids) s = reconcile_loop rfc ios ids ?t"
            using Inr p Some True by (simp add: Let_def)
        qed
        have "sl_good s t" using good t by blast
        moreover have "sl_good t (snd (reconcile_loop rfc ios ids t))"
          using Cons.IH calculation by (simp add: sl_good_def)
        ultimately show ?thesis unfolding t(3) by (rule good_trans)
      qed
    qed
  qed
qed

lemma temp_name_not_id: "temp_name key sfx \<noteq> fmt_uint n"
proof
  assume eq: "temp_name key sfx = fmt_uint n"
  have "CHR ''.'' \<in> set (temp_name key sfx)" by (simp add: temp_name_def)
  with eq fmt_uint_no_dot [of n] show False by simp
qed

text \<open>What a successful \<open>Enqueue\<close> leaves, and that a failed one touches at most the content tier.\<close>

lemma new_message_id [simp]: "m_id (new_message now sub n) = fmt_uint (unat n)" "m_raw (new_message now sub n) = sub_raw sub"
  by (simp_all add: new_message_def)

lemma Enqueue_cases:
  obtains (fails) e where "fst (sluice_Enqueue subj io now sub s) = Inl e"
      "sl_bucket (snd (sluice_Enqueue subj io now sub s)) = sl_bucket s"
      "sl_audit (snd (sluice_Enqueue subj io now sub s)) = sl_audit s"
    | (ok) "fst (sluice_Enqueue subj io now sub s) = Inr (new_message now sub (bseq (sl_bucket s) + 1))"
      "sl_bucket (snd (sluice_Enqueue subj io now sub s)) =
         b_put (seqkey_encode (bseq (sl_bucket s) + 1))
           (storedFrom subj (new_message now sub (bseq (sl_bucket s) + 1)))
           ((sl_bucket s)\<lparr>bseq := bseq (sl_bucket s) + 1\<rparr>)"
      "fst (blob_Put (io_put io) (io_sfx io) (fmt_uint (unat (bseq (sl_bucket s) + 1))) (sub_raw sub) (sl_blobs s)) = None"
      "io_commit io"
proof -
  let ?n = "bseq (sl_bucket s) + 1"
  obtain err dirs where p: "blob_Put (io_put io) (io_sfx io) (fmt_uint (unat ?n)) (sub_raw sub) (sl_blobs s) = (err, dirs)"
    by (cases "blob_Put (io_put io) (io_sfx io) (fmt_uint (unat ?n)) (sub_raw sub) (sl_blobs s)")
  show thesis
  proof (cases err)
    case (Some e)
    then show thesis using p by (intro fails) (simp_all add: sluice_Enqueue_def b_next_def)
  next
    case None
    show thesis
    proof (cases "io_commit io")
      case True
      then show thesis using p None by (intro ok) (simp_all add: sluice_Enqueue_def b_next_def Let_def)
    next
      case False
      then show thesis using p None by (intro fails) (simp_all add: sluice_Enqueue_def b_next_def)
    qed
  qed
qed

lemma Enqueue_blobs:
  "sl_blobs (snd (sluice_Enqueue subj io now sub s)) =
     last (snd (blob_Put (io_put io) (io_sfx io) (fmt_uint (unat (bseq (sl_bucket s) + 1))) (sub_raw sub) (sl_blobs s)))"
  by (simp add: sluice_Enqueue_def b_next_def Let_def split: prod.split option.split)

lemma Enqueue_keeps_blob:
  assumes "unat (bseq (sl_bucket s)) + 1 < 2 ^ 64" "n \<le> bseq (sl_bucket s)"
  shows "kv_get (sl_blobs (snd (sluice_Enqueue subj io now sub s))) (fmt_uint (unat n)) = kv_get (sl_blobs s) (fmt_uint (unat n))"
proof -
  let ?new = "fmt_uint (unat (bseq (sl_bucket s) + 1))"
  have "unat n \<noteq> unat (bseq (sl_bucket s) + 1)"
    using assms by (simp add: unat_succ word_le_nat_alt)
  then have "fmt_uint (unat n) \<noteq> ?new" by simp
  then show ?thesis
    unfolding Enqueue_blobs
    using blob_Put_states [OF last_in_set [OF blob_Put_states_ne], of "fmt_uint (unat n)"] temp_name_not_id
    by metis
qed

lemma sl_inv_rec: "sl_inv s \<Longrightarrow> b_get (sl_bucket s) key = Some r \<Longrightarrow> rec_ok s key r"
  by (simp add: sl_inv_def)

lemma Enqueue_rec_ok:
  assumes "sl_inv s" "unat (bseq (sl_bucket s)) + 1 < 2 ^ 64" "b_get (sl_bucket s) key = Some r"
    "bseq (sl_bucket s) \<le> bseq (sl_bucket (snd (sluice_Enqueue subj io now sub s)))"
  shows "rec_ok (snd (sluice_Enqueue subj io now sub s)) key r"
proof -
  from sl_inv_rec [OF assms(1,3)] obtain n where n: "key = seqkey_encode n"
    "m_id (st_msg r) = fmt_uint (unat n)" "0 < n" "n \<le> bseq (sl_bucket s)" and rest: "rec_ok s key r"
    by (auto simp: rec_ok_def)
  note kb = Enqueue_keeps_blob [OF assms(2) n(4), of subj io now sub]
  have "n \<le> bseq (sl_bucket (snd (sluice_Enqueue subj io now sub s)))" using n(4) assms(4) by simp
  with rest n kb show ?thesis unfolding rec_ok_def by auto
qed

lemma storedFrom_sel [simp]: "st_msg (storedFrom subj m) = m\<lparr>m_raw := []\<rparr>" "st_blobbed (storedFrom subj m)"
  "st_size (storedFrom subj m) = int (length (m_raw m))" "st_subject (storedFrom subj m) = subj (m_raw m)"
  by (simp_all add: storedFrom_def)

lemma Enqueue_inv:
  assumes inv: "sl_inv s" and b: "unat (bseq (sl_bucket s)) + 1 < 2 ^ 64"
  shows "sl_inv (snd (sluice_Enqueue subj io now sub s))"
proof -
  let ?t = "snd (sluice_Enqueue subj io now sub s)"
  have blobs: "kv_ok (sl_blobs ?t)"
    unfolding Enqueue_blobs
    by (rule blob_Put_kv_ok [OF _ last_in_set [OF blob_Put_states_ne]]) (use inv in \<open>simp add: sl_inv_def\<close>)
  have up: "bseq (sl_bucket s) \<le> bseq (sl_bucket s) + 1" "0 < bseq (sl_bucket s) + 1"
    using b by (simp_all add: word_le_nat_alt word_less_nat_alt unat_succ)
  show ?thesis
  proof (cases rule: Enqueue_cases [of subj io now sub s])
    case (fails e)
    have "rec_ok ?t key r" if "b_get (sl_bucket ?t) key = Some r" for key r
      by (rule Enqueue_rec_ok [OF inv b]) (use that fails(2) in simp_all)
    moreover have "kv_ok (items (sl_bucket ?t))" using inv fails(2) by (simp add: sl_inv_def)
    ultimately show ?thesis using blobs by (simp add: sl_inv_def)
  next
    case ok
    let ?n = "bseq (sl_bucket s) + 1"
    have seq: "bseq (sl_bucket ?t) = ?n" using ok by simp
    have new: "rec_ok ?t (seqkey_encode ?n) (storedFrom subj (new_message now sub ?n))"
      unfolding rec_ok_def seq
      using up blob_Put_result(1) [OF ok(3)]
      by (auto simp: Enqueue_blobs kv_get_put new_message_def msg_ok_def)
    have old: "b_get (sl_bucket s) key = Some r \<Longrightarrow> rec_ok ?t key r" for key r
      using Enqueue_rec_ok [OF inv b, of key r subj io now sub] up seq by simp
    have "rec_ok ?t key r" if "b_get (sl_bucket ?t) key = Some r" for key r
      using that new old [of key r] by (cases "key = seqkey_encode ?n") (simp_all add: ok(2))
    moreover have "kv_ok (items (sl_bucket ?t))" using inv by (simp add: ok(2) sl_inv_def kv_ok_put)
    ultimately show ?thesis using blobs by (simp add: sl_inv_def)
  qed
qed

lemma rec_rel_kept:
  "kv_get (sl_blobs t) (m_id (st_msg r)) = kv_get (sl_blobs s) (m_id (st_msg r)) \<Longrightarrow> rec_rel s t r r"
  by (simp add: rec_rel_def)

lemma Enqueue_good:
  assumes inv: "sl_inv s" and b: "unat (bseq (sl_bucket s)) + 1 < 2 ^ 64"
  shows "sl_good s (snd (sluice_Enqueue subj io now sub s))"
proof -
  let ?t = "snd (sluice_Enqueue subj io now sub s)"
  have "sl_rel s ?t" unfolding sl_rel_def
  proof (intro allI impI)
    fix key r assume g: "b_get (sl_bucket s) key = Some r"
    from sl_inv_rec [OF inv g] obtain n where n: "key = seqkey_encode n"
      "m_id (st_msg r) = fmt_uint (unat n)" "n \<le> bseq (sl_bucket s)" by (auto simp: rec_ok_def)
    have "n < bseq (sl_bucket s) + 1" using n(3) b by (simp add: word_le_nat_alt word_less_nat_alt unat_succ)
    then have "b_get (sl_bucket ?t) key = Some r"
      using g n(1) by (cases rule: Enqueue_cases [of subj io now sub s]) auto
    moreover have "rec_rel s ?t r r" using Enqueue_keeps_blob [OF b n(3)] n(2) by (simp add: rec_rel_kept)
    ultimately show "\<exists>r'. b_get (sl_bucket ?t) key = Some r' \<and> rec_rel s ?t r r'" by blast
  qed
  then show ?thesis using Enqueue_inv [OF inv b] by (simp add: sl_good_def)
qed

lemma live_id: "b_get (sl_bucket s) key = Some r \<Longrightarrow> live_ids s (m_id (st_msg r))"
  unfolding live_ids_def b_get_def by (rule image_eqI [OF _ kv_get_in]) auto

lemma sweep_good:
  assumes inv: "sl_inv s" shows "sl_good s (snd (sluice_sweepOrphans rd rm_ok s))"
proof -
  let ?t = "snd (sluice_sweepOrphans rd rm_ok s)"
  have b: "sl_bucket ?t = sl_bucket s"
    and d: "sl_blobs ?t = snd (snd (blob_SweepOrphans rd rm_ok (live_ids s) (sl_blobs s)))"
    by (auto simp: sluice_sweepOrphans_def split: prod.split)
  have keep: "kv_get (sl_blobs ?t) (m_id (st_msg r)) = kv_get (sl_blobs s) (m_id (st_msg r))"
    if "b_get (sl_bucket s) key = Some r" for key r
    unfolding d using live_id [OF that] by (rule SweepOrphans_keeps)
  have "rec_ok ?t key r" if "b_get (sl_bucket ?t) key = Some r" for key r
    using that inv keep b by (simp add: sl_inv_def rec_ok_def)
  moreover have "kv_ok (sl_blobs ?t)" unfolding d using inv by (simp add: SweepOrphans_kv_ok sl_inv_def)
  ultimately have "sl_inv ?t" using inv b by (simp add: sl_inv_def)
  moreover have "sl_rel s ?t"
    unfolding sl_rel_def using keep b rec_rel_kept by metis
  ultimately show ?thesis by (simp add: sl_good_def)
qed

lemma open_good: "sl_inv s \<Longrightarrow> sl_good s (snd (sluice_open rfc ios db mk rd rm_ok path s))"
proof -
  assume inv: "sl_inv s"
  note sw = sweep_good [OF inv, of rd rm_ok]
  obtain e t where t: "sluice_sweepOrphans rd rm_ok s = (e, t)" by fastforce
  then have "sl_good s (snd (reconcileClaims rfc ios t))"
    using sw reconcile_loop_good good_trans unfolding reconcileClaims_def sl_good_def by (metis sl_good_def snd_conv)
  then show ?thesis
    using inv good_refl sw t by (simp add: sluice_open_def split: option.split)
qed

section \<open>Runs of the store\<close>

datatype sl_op =
    OpEnqueue io time submission
  | OpApprove io string string "bytes option" string string
  | OpReject io string string string bool string
  | OpRecord io string "send_error option" bool string string
  | OpClaim io time string string bool
  | OpReopen "string \<Rightarrow> io" bool bool bool "string \<Rightarrow> bool" string

fun sl_exec :: "(bytes \<Rightarrow> string) \<Rightarrow> (time \<Rightarrow> string) \<Rightarrow> sluice \<Rightarrow> sl_op \<Rightarrow> sluice" where
  "sl_exec subj rfc s (OpEnqueue io now sub) = snd (sluice_Enqueue subj io now sub s)"
| "sl_exec subj rfc s (OpApprove io mid who rel asi actor) = snd (sluice_Approve io mid who rel asi actor s)"
| "sl_exec subj rfc s (OpReject io mid who reason rt actor) = snd (sluice_Reject io mid who reason rt actor s)"
| "sl_exec subj rfc s (OpRecord io mid e resend actor asid) = snd (sluice_RecordSendAttempt io mid e resend actor asid s)"
| "sl_exec subj rfc s (OpClaim io now mid actor ack) = snd (sluice_ClaimResend io now mid actor ack s)"
| "sl_exec subj rfc s (OpReopen ios db mk rd rm_ok path) = snd (sluice_open rfc ios db mk rd rm_ok path s)"

definition sl_budget :: "nat \<Rightarrow> sluice \<Rightarrow> bool" where
  "sl_budget n s \<longleftrightarrow> sl_inv s \<and> unat (bseq (sl_bucket s)) + n < 2 ^ 64"

lemma exec_good: "sl_budget (Suc n) s \<Longrightarrow> sl_good s (sl_exec subj rfc s x)"
  by (cases x) (auto simp: sl_budget_def intro: Enqueue_good Approve_good Reject_good Record_good Claim_good open_good)

lemma transition_seq [simp]:
  "bseq (sl_bucket (snd (transitionFromPending io mid ev detail actor rt mutate s))) = bseq (sl_bucket s)"
  by (auto simp: transitionFromPending_def Let_def split: sum.split)

lemma reconcile_loop_seq [simp]: "bseq (sl_bucket (snd (reconcile_loop rfc ios ids s))) = bseq (sl_bucket s)"
  by (induction ids arbitrary: s) (auto simp: Let_def split: sum.split option.split)

lemma sweep_bucket [simp]: "sl_bucket (snd (sluice_sweepOrphans rd rm_ok s)) = sl_bucket s"
  by (simp add: sluice_sweepOrphans_def split: prod.split)

lemma open_seq [simp]: "bseq (sl_bucket (snd (sluice_open rfc ios db mk rd rm_ok path s))) = bseq (sl_bucket s)"
proof -
  obtain e t where t: "sluice_sweepOrphans rd rm_ok s = (e, t)" by fastforce
  then have "sl_bucket t = sl_bucket s" using sweep_bucket [of rd rm_ok s] by simp
  then show ?thesis by (simp add: sluice_open_def t reconcileClaims_def split: option.split)
qed

lemma Record_seq [simp]:
  "bseq (sl_bucket (snd (sluice_RecordSendAttempt io mid e resend actor asid s))) = bseq (sl_bucket s)"
  by (auto simp: sluice_RecordSendAttempt_def Let_def split: sum.split)

lemma Claim_seq [simp]: "bseq (sl_bucket (snd (sluice_ClaimResend io now mid actor ack s))) = bseq (sl_bucket s)"
  by (auto simp: sluice_ClaimResend_def Let_def split: sum.split)

lemma Enqueue_seq:
  "unat (bseq (sl_bucket s)) + 1 < 2 ^ 64 \<Longrightarrow>
   unat (bseq (sl_bucket (snd (sluice_Enqueue subj io now sub s)))) \<le> unat (bseq (sl_bucket s)) + 1"
  by (cases rule: Enqueue_cases [of subj io now sub s]) (auto simp: unat_succ)

lemma exec_budget: "sl_budget (Suc n) s \<Longrightarrow> sl_budget n (sl_exec subj rfc s x)"
proof -
  assume b: "sl_budget (Suc n) s"
  then have inv: "sl_inv (sl_exec subj rfc s x)" using exec_good sl_good_def by blast
  have "unat (bseq (sl_bucket s)) + 1 < 2 ^ 64" using b by (simp add: sl_budget_def)
  note e = Enqueue_seq [OF this]
  have "unat (bseq (sl_bucket (sl_exec subj rfc s x))) \<le> unat (bseq (sl_bucket s)) + 1"
    by (cases x) (use e in \<open>simp_all add: sluice_Approve_def sluice_Reject_def\<close>)
  with b inv show ?thesis by (simp add: sl_budget_def)
qed

interpretation slm: machine_rel "sl_exec subj rfc" sl_budget sl_rel for subj rfc
proof
  show "sl_budget (Suc n) s \<Longrightarrow> sl_budget n (sl_exec subj rfc s x)" for n s x
    by (rule exec_budget)
  show "sl_rel s s" for s by (rule sl_rel_refl)
  show "sl_rel s t \<Longrightarrow> sl_rel t u \<Longrightarrow> sl_rel s u" for s t u by (rule sl_rel_trans)
  show "sl_budget (Suc n) s \<Longrightarrow> sl_rel s (sl_exec subj rfc s x)" for n s x
    using exec_good sl_good_def by blast
qed

lemma sl_empty_budget: "n < 2 ^ 64 \<Longrightarrow> sl_budget n sluice_empty"
  by (simp add: sl_budget_def sl_inv_def sluice_empty_def bucket_new_def b_get_def kv_get_def)

text \<open>Where the message with a canonical id is, and what \<open>Get\<close> makes of it.\<close>

lemma loadStored_fmt:
  "loadStored s (fmt_uint (unat n)) =
     (case b_get (sl_bucket s) (seqkey_encode n) of None \<Rightarrow> Inl ErrNotFound | Some r \<Rightarrow> Inr (r, seqkey_encode n))"
  using parse_fmt_uint [OF unat_lt64 [of n]]
  by (simp add: loadStored_def split: option.split)

lemma fmt_valid: "validKey (fmt_uint n)"
proof -
  have "\<not> is_digit CHR ''/''" "\<not> is_digit (char_of (92 :: nat))" by (simp_all add: is_digit_def)
  then show ?thesis
    using fmt_uint_digits [of n] fmt_uint_no_dot [of n] by (auto simp: validKey_def list_all_iff)
qed

lemma withRaw_blob:
  "st_blobbed r \<Longrightarrow> m_id (st_msg r) = fmt_uint n \<Longrightarrow> kv_get (sl_blobs s) (fmt_uint n) = Some (File data) \<Longrightarrow>
   withRaw s r = Inr ((st_msg r)\<lparr>m_raw := data\<rparr>)"
  by (simp add: withRaw_def blob_Get_def fmt_valid)

text \<open>No message of a well-formed store is unreadable.\<close>

lemma rec_ok_withRaw: "rec_ok s key r \<Longrightarrow> \<exists>m. withRaw s r = Inr m"
  by (auto simp: rec_ok_def withRaw_def blob_Get_def fmt_valid)

section \<open>What the store promises\<close>

lemma msg_step_raw: "msg_step m m' \<Longrightarrow> msg_step (m\<lparr>m_raw := d\<rparr>) (m'\<lparr>m_raw := d\<rparr>)"
proof (induction rule: msg_step.induct)
  case (approve m who rel asi)
  have "(approve_mutate who rel asi m)\<lparr>m_raw := d\<rparr> = approve_mutate who rel asi (m\<lparr>m_raw := d\<rparr>)"
    by (cases m) (simp add: approve_mutate_def split: option.split list.split)
  then show ?case using approve msg_step.approve by simp
next
  case (reject m who reason rt)
  have "(reject_mutate who reason rt m)\<lparr>m_raw := d\<rparr> = reject_mutate who reason rt (m\<lparr>m_raw := d\<rparr>)"
    by (simp add: reject_mutate_def)
  then show ?case using reject msg_step.reject by simp
next
  case (delivered m)
  have "(record_outcome None m)\<lparr>m_raw := d\<rparr> = record_outcome None (m\<lparr>m_raw := d\<rparr>)"
    by (simp add: record_outcome_def)
  then show ?case using delivered msg_step.delivered by simp
next
  case (again m)
  have "(record_outcome None m)\<lparr>m_raw := d\<rparr> = record_outcome None (m\<lparr>m_raw := d\<rparr>)"
    by (simp add: record_outcome_def)
  then show ?case using again msg_step.again by simp
next
  case (failed m e)
  have "(record_outcome (Some e) m)\<lparr>m_raw := d\<rparr> = record_outcome (Some e) (m\<lparr>m_raw := d\<rparr>)"
    by (simp add: record_outcome_def)
  then show ?case using failed msg_step.failed by simp
next
  case (claim m c)
  have eq: "m\<lparr>m_claim := Some c\<rparr>\<lparr>m_raw := d\<rparr> = m\<lparr>m_raw := d\<rparr>\<lparr>m_claim := Some c\<rparr>" by simp
  show ?case unfolding eq by (rule msg_step.claim) (use claim in simp_all)
next
  case (interrupted m c)
  have eq: "m\<lparr>m_claim := None, m_send_err := OutcomeUnknown ReasonResendInterrupted\<rparr>\<lparr>m_raw := d\<rparr>
    = m\<lparr>m_raw := d\<rparr>\<lparr>m_claim := None, m_send_err := OutcomeUnknown ReasonResendInterrupted\<rparr>" by simp
  show ?case unfolding eq by (rule msg_step.interrupted) (use interrupted in simp)
qed

lemma msg_steps_raw: "msg_step\<^sup>*\<^sup>* m m' \<Longrightarrow> msg_step\<^sup>*\<^sup>* (m\<lparr>m_raw := d\<rparr>) (m'\<lparr>m_raw := d\<rparr>)"
  by (induction rule: rtranclp_induct) (auto intro: rtranclp.rtrancl_into_rtrancl msg_step_raw)

lemma Enqueue_ok:
  assumes "sl_inv s" "unat (bseq (sl_bucket s)) + 1 < 2 ^ 64" "sluice_Enqueue subj io now sub s = (Inr m, t)"
  shows "m = new_message now sub (bseq (sl_bucket s) + 1)"
    and "b_get (sl_bucket t) (seqkey_encode (bseq (sl_bucket s) + 1)) = Some (storedFrom subj m)"
    and "kv_get (sl_blobs t) (m_id m) = Some (File (sub_raw sub))"
    and "sl_good s t"
proof -
  have t: "t = snd (sluice_Enqueue subj io now sub s)" "fst (sluice_Enqueue subj io now sub s) = Inr m"
    using assms(3) by simp_all
  show g: "sl_good s t" using Enqueue_good [OF assms(1,2)] t by simp
  show m: "m = new_message now sub (bseq (sl_bucket s) + 1)"
    using t by (cases rule: Enqueue_cases [of subj io now sub s]) auto
  show "b_get (sl_bucket t) (seqkey_encode (bseq (sl_bucket s) + 1)) = Some (storedFrom subj m)"
    using t m by (cases rule: Enqueue_cases [of subj io now sub s]) auto
  show "kv_get (sl_blobs t) (m_id m) = Some (File (sub_raw sub))"
    using t m by (cases rule: Enqueue_cases [of subj io now sub s])
      (auto simp: Enqueue_blobs blob_Put_result(1) kv_get_put)
qed

lemma Enqueue_survives:
  assumes "sl_budget (length xs + 1) s" "sluice_Enqueue subj io now sub s = (Inr m, t)"
  shows "\<exists>m'. sluice_Get (run_ops (sl_exec subj rfc) t xs) (m_id m) = Inr m'
    \<and> msg_step\<^sup>*\<^sup>* m m' \<and> submitted m' = submitted m"
proof -
  let ?u = "run_ops (sl_exec subj rfc) t xs" and ?n = "bseq (sl_bucket s) + 1"
  have inv: "sl_inv s" "unat (bseq (sl_bucket s)) + 1 < 2 ^ 64" using assms(1) by (simp_all add: sl_budget_def)
  note q = Enqueue_ok [OF inv assms(2)]
  have "sl_exec subj rfc s (OpEnqueue io now sub) = t" using assms(2) by simp
  then have "sl_budget (length xs + 0) t" using exec_budget assms(1) by (metis Suc_eq_plus1 add.right_neutral)
  then have rel: "sl_rel t ?u" and "sl_budget 0 ?u" by (rule slm.run_rel, rule slm.run_inv)
  then obtain r where r: "b_get (sl_bucket ?u) (seqkey_encode ?n) = Some r" "rec_rel t ?u (storedFrom subj m) r"
    using q(2) unfolding sl_rel_def by blast
  have mid: "m_id m = fmt_uint (unat ?n)" using q(1) by simp
  then have id: "m_id (st_msg r) = m_id m"
    using r(2) msg_steps_id by (force simp: rec_rel_def)
  have "withRaw ?u r = Inr ((st_msg r)\<lparr>m_raw := sub_raw sub\<rparr>)"
    using r(2) q(3) id mid by (intro withRaw_blob) (auto simp: rec_rel_def)
  then have "sluice_Get ?u (m_id m) = Inr ((st_msg r)\<lparr>m_raw := sub_raw sub\<rparr>)"
    using r(1) by (simp add: sluice_Get_def mid loadStored_fmt)
  moreover have "msg_step\<^sup>*\<^sup>* m ((st_msg r)\<lparr>m_raw := sub_raw sub\<rparr>)"
    using msg_steps_raw [of "m\<lparr>m_raw := []\<rparr>" "st_msg r" "sub_raw sub"] r(2) q(1)
    by (simp add: rec_rel_def new_message_def)
  ultimately show ?thesis using msg_steps_submitted by blast
qed


definition ok_io :: io where
  "ok_io = \<lparr>io_put = NoFault, io_sfx = ''1'', io_commit = True, io_audit = True\<rparr>"

definition sample_sub :: submission where
  "sample_sub = \<lparr>sub_agent = ''alice'', sub_inbox = ''work'', sub_from = ''a@x'', sub_rcpt = [''b@y''], sub_raw = ''hi''\<rparr>"

definition sample_store :: sluice where
  "sample_store = snd (sluice_Enqueue (\<lambda>r. '''') ok_io 5 sample_sub sluice_empty)"

lemma sample_enqueue: "sluice_Enqueue (\<lambda>r. '''') ok_io 5 sample_sub sluice_empty = (Inr (new_message 5 sample_sub 1), sample_store)"
proof -
  have "fst (sluice_Enqueue (\<lambda>r. '''') ok_io 5 sample_sub sluice_empty) = Inr (new_message 5 sample_sub 1)"
    by (simp add: sluice_Enqueue_def sluice_empty_def bucket_new_def b_next_def Let_def blob_Put_def ok_io_def
        fmt_valid kv_get_def)
  then show ?thesis by (simp add: sample_store_def prod_eq_iff)
qed


text \<open>The message an id names.\<close>

definition stored_msg :: "sluice \<Rightarrow> string \<Rightarrow> message option" where
  "stored_msg s mid = (case loadStored s mid of Inl e \<Rightarrow> None | Inr (r, key) \<Rightarrow> Some (st_msg r))"

lemma stored_msg_run:
  assumes "sl_budget (length xs) s" "stored_msg s mid = Some m"
  shows "\<exists>m'. stored_msg (run_ops (sl_exec subj rfc) s xs) mid = Some m' \<and> msg_step\<^sup>*\<^sup>* m m' \<and> msg_ok m"
proof -
  let ?u = "run_ops (sl_exec subj rfc) s xs"
  have b: "sl_budget (length xs + 0) s" using assms(1) by simp
  obtain r key where r: "loadStored s mid = Inr (r, key)" "m = st_msg r"
    using assms(2) by (auto simp: stored_msg_def split: sum.splits)
  from loadStored_get [OF r(1)] obtain n where n: "b_get (sl_bucket s) key = Some r"
    "parse_uint 64 mid = Some n" "key = seqkey_encode (word_of_nat n)" by blast
  from slm.run_rel [OF b, of subj rfc] n(1) obtain r' where r': "b_get (sl_bucket ?u) key = Some r'" "rec_rel s ?u r r'"
    unfolding sl_rel_def by blast
  have "rec_ok s key r" using assms(1) n(1) by (simp add: sl_budget_def sl_inv_def)
  then show ?thesis
    using r r' n by (simp add: stored_msg_def loadStored_def rec_rel_def rec_ok_def)
qed

lemma msg_steps_decided: "msg_step\<^sup>*\<^sup>* m m' \<Longrightarrow> m_status m \<in> {Approved, Sent} \<Longrightarrow> m_status m' \<in> {Approved, Sent}"
proof (induction rule: rtranclp_induct)
  case (step y z)
  from step.hyps(2) step.IH [OF step.prems] show ?case
    by (cases rule: msg_stepE) (auto simp: mutate_defs)
qed simp

lemma transition_not_pending:
  assumes "stored_msg s mid = Some m" "m_status m \<noteq> Pending"
  shows "transitionFromPending io mid ev detail actor rt mutate s = (Inl (ErrNotPending mid (m_status m)), s)"
  using assms by (auto simp: stored_msg_def transitionFromPending_def split: sum.splits)

lemma transition_ok:
  assumes "transitionFromPending io mid ev detail actor rt mutate s = (Inr out, t)"
  shows "\<exists>m. stored_msg s mid = Some m \<and> m_status m = Pending \<and> stored_msg t mid = Some (mutate m)
    \<and> (\<exists>raw. out = (mutate m)\<lparr>m_raw := raw\<rparr>)"
proof -
  obtain r key where l: "loadStored s mid = Inr (r, key)" and p: "m_status (st_msg r) = Pending"
    and w: "withRaw (putStored key (r\<lparr>st_msg := mutate (st_msg r)\<rparr>) s) (r\<lparr>st_msg := mutate (st_msg r)\<rparr>) = Inr out"
    and t: "sl_bucket t = b_put key (r\<lparr>st_msg := mutate (st_msg r)\<rparr>) (sl_bucket s)"
    using assms by (auto simp: transitionFromPending_def Let_def split: sum.splits if_splits)
  have "stored_msg t mid = Some (mutate (st_msg r))"
    using loadStored_get [OF l] t by (auto simp: stored_msg_def loadStored_def)
  moreover have "\<exists>raw. out = (mutate (st_msg r))\<lparr>m_raw := raw\<rparr>"
    using w by (auto simp: withRaw_def split: if_splits sum.splits intro: exI [of _ "m_raw (mutate (st_msg r))"])
  ultimately show ?thesis using l p by (simp add: stored_msg_def)
qed

text \<open>A verdict is given at most once. After \<open>Approve\<close> has succeeded, whatever operations follow,
  every later \<open>Approve\<close> or \<open>Reject\<close> of the id is refused with \<open>ErrNotPending\<close> and changes nothing, the
  message stays approved or sent, and who approved it, what was released and the chosen identity stay
  as recorded.\<close>

lemma sluice_approve_final:
  assumes "sl_budget (length xs + 1) s" "sluice_Approve io mid who rel asi actor s = (Inr m, t)"
  shows "\<exists>m'. stored_msg (run_ops (sl_exec subj rfc) t xs) mid = Some m'
    \<and> m_status m' \<in> {Approved, Sent} \<and> decision m' = decision m
    \<and> sluice_Approve io2 mid who2 rel2 asi2 actor2 (run_ops (sl_exec subj rfc) t xs)
        = (Inl (ErrNotPending mid (m_status m')), run_ops (sl_exec subj rfc) t xs)
    \<and> sluice_Reject io2 mid who2 reason rt actor2 (run_ops (sl_exec subj rfc) t xs)
        = (Inl (ErrNotPending mid (m_status m')), run_ops (sl_exec subj rfc) t xs)"
proof -
  let ?u = "run_ops (sl_exec subj rfc) t xs"
  have "sl_exec subj rfc s (OpApprove io mid who rel asi actor) = t" using assms(2) by simp
  then have t: "sl_budget (length xs) t" using exec_budget assms(1) by (metis Suc_eq_plus1)
  obtain m0 raw where m0: "stored_msg t mid = Some (approve_mutate who rel asi m0)"
    "m = (approve_mutate who rel asi m0)\<lparr>m_raw := raw\<rparr>"
    using transition_ok assms(2) unfolding sluice_Approve_def by blast
  obtain m' where m': "stored_msg ?u mid = Some m'" "msg_step\<^sup>*\<^sup>* (approve_mutate who rel asi m0) m'"
    "msg_ok (approve_mutate who rel asi m0)"
    using stored_msg_run [OF t m0(1)] by blast
  have st: "m_status (approve_mutate who rel asi m0) = Approved" by (simp add: approve_mutate_def)
  have "m_status m' \<in> {Approved, Sent}" using msg_steps_decided [OF m'(2)] st by simp
  moreover have "decision m' = decision m"
    using msg_steps_decision [OF m'(2,3)] st m0(2) by (simp add: decision_def)
  moreover have "m_status m' \<noteq> Pending" using calculation(1) by auto
  ultimately show ?thesis
    using m'(1) transition_not_pending [OF m'(1)] by (simp add: sluice_Approve_def sluice_Reject_def)
qed

lemma sample_load:
  "loadStored sample_store ''1'' = Inr (storedFrom (\<lambda>r. '''') (new_message 5 sample_sub 1), seqkey_encode 1)"
  "kv_get (sl_blobs sample_store) ''1'' = Some (File (sub_raw sample_sub))"
proof -
  have "fmt_uint 1 = ''1''" by code_simp
  then have one: "''1'' = fmt_uint (unat (1 :: u64))" by simp
  have inv: "sl_inv sluice_empty" "unat (bseq (sl_bucket sluice_empty)) + 1 < 2 ^ 64"
    using sl_empty_budget [of 1] by (simp_all add: sl_budget_def)
  note q = Enqueue_ok [OF inv sample_enqueue]
  show "loadStored sample_store ''1'' = Inr (storedFrom (\<lambda>r. '''') (new_message 5 sample_sub 1), seqkey_encode 1)"
    unfolding one loadStored_fmt using q(2) by (simp add: sluice_empty_def bucket_new_def)
  show "kv_get (sl_blobs sample_store) ''1'' = Some (File (sub_raw sample_sub))"
    unfolding one using q(3) by simp
qed

definition sample_approved :: message where
  "sample_approved = (approve_mutate ''manual'' None '''' ((new_message 5 sample_sub 1)\<lparr>m_raw := []\<rparr>))\<lparr>m_raw := sub_raw sample_sub\<rparr>"

lemma sample_approve:
  "sluice_Approve ok_io ''1'' ''manual'' None '''' ''op'' sample_store
     = (Inr sample_approved, snd (sluice_Approve ok_io ''1'' ''manual'' None '''' ''op'' sample_store))"
proof -
  let ?m = "approve_mutate ''manual'' None '''' ((new_message 5 sample_sub 1)\<lparr>m_raw := []\<rparr>)"
  have pend: "m_status ((new_message 5 sample_sub 1)\<lparr>m_raw := []\<rparr>) = Pending" by (simp add: new_message_def)
  have "fmt_uint 1 = ''1''" by code_simp
  then have mid: "m_id ?m = ''1''" by (simp add: approve_mutate_def)
  have "validKey ''1''" by code_simp
  then have raw: "withRaw (putStored k r sample_store) (storedFrom (\<lambda>r. '''') (new_message 5 sample_sub 1)\<lparr>st_msg := ?m\<rparr>)
     = Inr sample_approved" for k r
    using sample_load(2) mid by (simp add: withRaw_def blob_Get_def sample_approved_def)
  show ?thesis
    unfolding prod_eq_iff sluice_Approve_def transitionFromPending_def sample_load(1)
    using pend raw by (simp add: Let_def ok_io_def del: One_nat_def)
qed

lemma sluice_approve_final_witness:
  "\<exists>m'. stored_msg (run_ops (sl_exec (\<lambda>r. '''') (\<lambda>t. '''')) (snd (sluice_Approve ok_io ''1'' ''manual'' None '''' ''op'' sample_store))
        [OpRecord ok_io ''1'' None False ''op'' '''']) ''1'' = Some m' \<and> m_status m' \<in> {Approved, Sent}"
proof -
  have "sl_exec (\<lambda>r. '''') (\<lambda>t. '''') sluice_empty (OpEnqueue ok_io 5 sample_sub) = sample_store"
    by (simp add: sample_store_def)
  moreover have "sl_budget (Suc 2) sluice_empty" by (rule sl_empty_budget) simp
  ultimately have "sl_budget 2 sample_store" using exec_budget by metis
  then have b: "sl_budget (length [OpRecord ok_io ''1'' None False ''op'' ''''] + 1) sample_store"
    by (simp add: numeral_2_eq_2)
  show ?thesis using sluice_approve_final [OF b sample_approve] by blast
qed

text \<open>C10: a rejected message and a sent message are final: no operation, a reopening of the store or a
  failed second send included, changes any field of the stored record again.\<close>

theorem sluice_terminal_frozen:
  assumes "sl_budget (length xs) s" "stored_msg s mid = Some m" "m_status m \<in> {Rejected, Sent}"
  shows "stored_msg (run_ops (sl_exec subj rfc) s xs) mid = Some m"
  using stored_msg_run [OF assms(1,2)] msg_steps_final assms(3) by blast

section \<open>The re-send claim\<close>

text \<open>The operations that may touch the claim of message number \<open>n\<close>: recording an attempt for it, and
  reopening the store. Ids that parse to the same number name the same message.\<close>

definition touches_claim :: "nat \<Rightarrow> sl_op \<Rightarrow> bool" where
  "touches_claim n x = (case x of
       OpRecord io mid e resend actor asid \<Rightarrow> parse_uint 64 mid = Some n
     | OpReopen ios db mk rd rm_ok path \<Rightarrow> True
     | _ \<Rightarrow> False)"

lemma loadStored_parse:
  "loadStored s mid = Inr (r, key) \<Longrightarrow> parse_uint 64 mid = Some n \<Longrightarrow> key = seqkey_encode (word_of_nat n)"
  using loadStored_get by fastforce

lemma parse_word_inj:
  "parse_uint 64 a = Some m \<Longrightarrow> parse_uint 64 b = Some n \<Longrightarrow> (word_of_nat m :: u64) = word_of_nat n \<Longrightarrow> m = n"
  using parse_uint_bound [of 64 a m] parse_uint_bound [of 64 b n] unat_word_small by metis

lemma claimed_approved: "msg_ok m \<Longrightarrow> m_claim m \<noteq> None \<Longrightarrow> m_status m = Approved \<and> m_send_err m \<noteq> ''''"
  by (auto simp: msg_ok_def)

lemma claimed_frozen:
  assumes b: "sl_budget (Suc k) s" and g: "b_get (sl_bucket s) (seqkey_encode (word_of_nat n)) = Some r"
    and c: "m_claim (st_msg r) \<noteq> None" and x: "\<not> touches_claim n x" and n: "n < 2 ^ 64"
  shows "b_get (sl_bucket (sl_exec subj rfc s x)) (seqkey_encode (word_of_nat n)) = Some r"
proof -
  have inv: "sl_inv s" "unat (bseq (sl_bucket s)) + 1 < 2 ^ 64" using b by (simp_all add: sl_budget_def)
  have ro: "rec_ok s (seqkey_encode (word_of_nat n)) r" using inv(1) g by (rule sl_inv_rec)
  then have ap: "m_status (st_msg r) = Approved" using claimed_approved c by (auto simp: rec_ok_def)
  have other: "seqkey_encode (word_of_nat n) \<noteq> key"
    if ld: "loadStored s mid = Inr (q, key)" "q \<noteq> r \<or> parse_uint 64 mid \<noteq> Some n" for mid q key
  proof
    assume eq: "seqkey_encode (word_of_nat n) = key"
    obtain m where m: "parse_uint 64 mid = Some m" "key = seqkey_encode (word_of_nat m)"
      "b_get (sl_bucket s) key = Some q"
      using loadStored_get [OF ld(1)] by blast
    have "m = n" using eq m(2) n parse_uint_bound [OF m(1)] by (metis seqkey_encode_inj unat_word_small)
    with m g eq ld(2) show False by simp
  qed
  have trans: "b_get (sl_bucket (snd (transitionFromPending io mid ev d actor rt mutate s))) (seqkey_encode (word_of_nat n)) = Some r"
    for io mid ev d actor rt mutate
  proof (cases "loadStored s mid")
    case (Inr p)
    obtain q key where p: "p = (q, key)" by (cases p)
    have "m_status (st_msg q) = Pending \<Longrightarrow> q \<noteq> r" using ap by auto
    then have "m_status (st_msg q) = Pending \<Longrightarrow> seqkey_encode (word_of_nat n) \<noteq> key"
      using other [of mid q key] Inr p by blast
    then show ?thesis using g Inr p by (auto simp: transitionFromPending_def Let_def split: sum.split)
  qed (use g in \<open>simp add: transitionFromPending_def\<close>)
  show ?thesis
  proof (cases x)
    case (OpEnqueue io now sub)
    have "(word_of_nat n :: u64) \<le> bseq (sl_bucket s)" using ro by (auto simp: rec_ok_def)
    then have "(word_of_nat n :: u64) \<noteq> bseq (sl_bucket s) + 1"
      using inv(2) by (auto simp: word_le_nat_alt unat_succ)
    then show ?thesis
      using g OpEnqueue by (cases rule: Enqueue_cases [of subj io now sub s]) auto
  next
    case (OpRecord io mid e resend actor asid)
    then have "parse_uint 64 mid \<noteq> Some n" using x by (simp add: touches_claim_def)
    then show ?thesis
      using OpRecord g other by (auto simp: sluice_RecordSendAttempt_def Let_def split: sum.split)
  next
    case (OpClaim io now mid actor ack)
    show ?thesis
    proof (cases "loadStored s mid")
      case (Inr p)
      obtain q key where p: "p = (q, key)" by (cases p)
      show ?thesis
      proof (cases "q = r")
        case True
        then show ?thesis using OpClaim g c Inr p by (simp add: sluice_ClaimResend_def Let_def)
      next
        case False
        then have "seqkey_encode (word_of_nat n) \<noteq> key" using other Inr p by blast
        then show ?thesis using OpClaim g Inr p by (simp add: sluice_ClaimResend_def Let_def)
      qed
    qed (use OpClaim g in \<open>simp add: sluice_ClaimResend_def\<close>)
  qed (use trans x in \<open>simp_all add: sluice_Approve_def sluice_Reject_def touches_claim_def\<close>)
qed

lemma claimed_frozen_run:
  assumes "sl_budget (length xs) s" "b_get (sl_bucket s) (seqkey_encode (word_of_nat n)) = Some r"
    and "m_claim (st_msg r) \<noteq> None" "\<forall>x \<in> set xs. \<not> touches_claim n x" "n < 2 ^ 64"
  shows "b_get (sl_bucket (run_ops (sl_exec subj rfc) s xs)) (seqkey_encode (word_of_nat n)) = Some r"
  using assms
proof (induction xs arbitrary: s)
  case (Cons x xs)
  have "b_get (sl_bucket (sl_exec subj rfc s x)) (seqkey_encode (word_of_nat n)) = Some r"
    using claimed_frozen Cons.prems by auto
  moreover have "sl_budget (length xs) (sl_exec subj rfc s x)" using exec_budget Cons.prems(1) by simp
  ultimately show ?case using Cons.IH Cons.prems by simp
qed simp

lemma Claim_ok:
  assumes "sluice_ClaimResend io now mid actor ack s = (Inr m, t)"
  shows "\<exists>r key. loadStored s mid = Inr (r, key) \<and> m_status (st_msg r) = Approved \<and> m_send_err (st_msg r) \<noteq> ''''
    \<and> m_claim (st_msg r) = None \<and> (IsOutcomeUnknown (m_send_err (st_msg r)) \<longrightarrow> ack)
    \<and> m = (st_msg r)\<lparr>m_claim := Some \<lparr>rc_since = now, rc_actor = actor\<rparr>\<rparr>
    \<and> t = putStored key (r\<lparr>st_msg := m\<rparr>) s"
  using assms by (auto simp: sluice_ClaimResend_def Let_def split: sum.splits if_splits)

text \<open>Two re-sends of one message never run at once. From a granted claim until an attempt for that
  message is recorded or the store is reopened, every further claim on it is refused with
  \<open>ErrResendInProgress\<close>, under whatever spelling of the id and with or without the acknowledgement.\<close>

lemma sluice_claim_exclusive:
  assumes "sl_budget (length xs + 1) s" "sluice_ClaimResend io now mid actor ack s = (Inr m, t)"
    and "parse_uint 64 mid = Some n" "parse_uint 64 mid2 = Some n" "\<forall>x \<in> set xs. \<not> touches_claim n x"
  shows "sluice_ClaimResend io2 now2 mid2 actor2 ack2 (run_ops (sl_exec subj rfc) t xs)
    = (Inl ErrResendInProgress, run_ops (sl_exec subj rfc) t xs)"
proof -
  let ?u = "run_ops (sl_exec subj rfc) t xs" and ?k = "seqkey_encode (word_of_nat n :: u64)"
  obtain r key where r: "loadStored s mid = Inr (r, key)" "m_status (st_msg r) = Approved"
    "m_send_err (st_msg r) \<noteq> ''''" "m = (st_msg r)\<lparr>m_claim := Some \<lparr>rc_since = now, rc_actor = actor\<rparr>\<rparr>"
    "t = putStored key (r\<lparr>st_msg := m\<rparr>) s"
    using Claim_ok [OF assms(2)] by blast
  have key: "key = ?k" using loadStored_parse [OF r(1) assms(3)] .
  have "sl_exec subj rfc s (OpClaim io now mid actor ack) = t" using assms(2) by simp
  then have b: "sl_budget (length xs) t" using exec_budget assms(1) by (metis Suc_eq_plus1)
  have "b_get (sl_bucket t) ?k = Some (r\<lparr>st_msg := m\<rparr>)" using r(5) key by simp
  then have "b_get (sl_bucket ?u) ?k = Some (r\<lparr>st_msg := m\<rparr>)"
    using claimed_frozen_run [OF b] r(4) assms(5) parse_uint_bound [OF assms(3)] by simp
  then have "loadStored ?u mid2 = Inr (r\<lparr>st_msg := m\<rparr>, ?k)"
    using assms(4) by (simp add: loadStored_def)
  then show ?thesis using r by (simp add: sluice_ClaimResend_def)
qed

section \<open>Reopening the store\<close>

definition interrupt_msg :: "message \<Rightarrow> message" where
  "interrupt_msg m = (if m_claim m = None then m
     else m\<lparr>m_claim := None, m_send_err := OutcomeUnknown ReasonResendInterrupted\<rparr>)"

definition claimed :: "bytes \<times> stored \<Rightarrow> bool" where
  "claimed e \<longleftrightarrow> m_claim (st_msg (snd e)) \<noteq> None"

lemma reconcile_loop_all:
  assumes "\<And>i. io_commit (ios i)" "distinct (map fst es)"
    and "\<forall>e \<in> set es. b_get (sl_bucket s) (fst e) = Some (snd e)
      \<and> loadStored s (m_id (st_msg (snd e))) = Inr (snd e, fst e)"
  shows "\<exists>t. reconcile_loop rfc ios (map (\<lambda>e. m_id (st_msg (snd e))) (filter claimed es)) s = (None, t)
    \<and> sl_blobs t = sl_blobs s
    \<and> (\<forall>k. b_get (sl_bucket t) k = (if k \<in> fst ` set es
           then map_option (\<lambda>r. r\<lparr>st_msg := interrupt_msg (st_msg r)\<rparr>) (b_get (sl_bucket s) k)
           else b_get (sl_bucket s) k))"
  using assms(2,3)
proof (induction es arbitrary: s)
  case Nil
  then show ?case by simp
next
  case (Cons e es)
  obtain k r where e: "e = (k, r)" by (cases e)
  have l: "loadStored s (m_id (st_msg r)) = Inr (r, k)" and g: "b_get (sl_bucket s) k = Some r"
    using Cons.prems(2) e by simp_all
  show ?case
  proof (cases "m_claim (st_msg r)")
    case None
    then have "interrupt_msg (st_msg r) = st_msg r" by (simp add: interrupt_msg_def)
    then have i: "r\<lparr>st_msg := interrupt_msg (st_msg r)\<rparr> = r" by simp
    have nf: "filter claimed (e # es) = filter claimed es" using None e by (simp add: claimed_def)
    have "distinct (map fst es)" "\<forall>e \<in> set es. b_get (sl_bucket s) (fst e) = Some (snd e)
      \<and> loadStored s (m_id (st_msg (snd e))) = Inr (snd e, fst e)" using Cons.prems by simp_all
    from Cons.IH [OF this] show ?thesis unfolding nf using e g i by fastforce
  next
    case (Some c)
    let ?m = "(st_msg r)\<lparr>m_claim := None, m_send_err := OutcomeUnknown ReasonResendInterrupted\<rparr>"
    let ?s = "writeAudit (ios (m_id (st_msg r))) (interrupted_audit rfc (m_id (st_msg r)) ?m c)
      (putStored k (r\<lparr>st_msg := ?m\<rparr>) s)"
    have im: "interrupt_msg (st_msg r) = ?m" using Some by (simp add: interrupt_msg_def)
    have step: "reconcile_loop rfc ios (map (\<lambda>e. m_id (st_msg (snd e))) (filter claimed (e # es))) s
      = reconcile_loop rfc ios (map (\<lambda>e. m_id (st_msg (snd e))) (filter claimed es)) ?s"
      using Some e l assms(1) by (simp add: claimed_def Let_def)
    have nk: "k \<notin> fst ` set es" using Cons.prems(1) e by simp
    have other: "b_get (sl_bucket ?s) (fst f) = Some (snd f)
      \<and> loadStored ?s (m_id (st_msg (snd f))) = Inr (snd f, fst f)" if f: "f \<in> set es" for f
    proof -
      have "fst f \<noteq> k" using f nk by force
      moreover have p: "b_get (sl_bucket s) (fst f) = Some (snd f)"
        "loadStored s (m_id (st_msg (snd f))) = Inr (snd f, fst f)" using Cons.prems(2) f by simp_all
      moreover obtain n where "parse_uint 64 (m_id (st_msg (snd f))) = Some n" "fst f = seqkey_encode (word_of_nat n)"
        using loadStored_get [OF p(2)] by blast
      ultimately show ?thesis by (auto simp: loadStored_def)
    qed
    have "distinct (map fst es)" using Cons.prems by simp
    with Cons.IH [of ?s] other obtain t where
      t: "reconcile_loop rfc ios (map (\<lambda>e. m_id (st_msg (snd e))) (filter claimed es)) ?s = (None, t)"
        "sl_blobs t = sl_blobs ?s"
        "\<forall>q. b_get (sl_bucket t) q = (if q \<in> fst ` set es
           then map_option (\<lambda>r. r\<lparr>st_msg := interrupt_msg (st_msg r)\<rparr>) (b_get (sl_bucket ?s) q)
           else b_get (sl_bucket ?s) q)"
      by blast
    show ?thesis unfolding step
      using t nk e g im by (intro exI [of _ t]) auto
  qed
qed

lemma rec_ok_load:
  assumes "sl_inv s" "b_get (sl_bucket s) key = Some r"
  shows "loadStored s (m_id (st_msg r)) = Inr (r, key)"
proof -
  obtain n where "key = seqkey_encode n" "m_id (st_msg r) = fmt_uint (unat n)"
    using sl_inv_rec [OF assms] by (auto simp: rec_ok_def)
  then show ?thesis using assms(2) by (simp add: loadStored_fmt)
qed

lemma sl_items_get: "sl_inv s \<Longrightarrow> e \<in> set (items (sl_bucket s)) \<Longrightarrow> b_get (sl_bucket s) (fst e) = Some (snd e)"
  by (simp add: sl_inv_def b_get_def kv_get_iff)

text \<open>Opening the store settles every claim a stopped process left. If the system calls succeed,
  opening succeeds, no claim remains, a claimed message has become one whose outcome is unknown, so
  that re-sending it needs the acknowledgement, and every other message and every content blob that
  belongs to a message is as it was.\<close>

lemma sluice_open_settles_claims:
  assumes inv: "sl_inv s" and io: "\<And>i. io_commit (ios i)" "\<And>n. rm_ok n" "path \<noteq> ''''"
    and names: "\<forall>e \<in> set (sl_blobs s). validKey (fst e)"
  shows "\<exists>t. sluice_open rfc ios True True True rm_ok path s = (None, t)
    \<and> (\<forall>mid. stored_msg t mid = map_option interrupt_msg (stored_msg s mid))
    \<and> (\<forall>mid m. stored_msg t mid = Some m \<longrightarrow> m_claim m = None)
    \<and> sl_blobs t = filter (\<lambda>e. \<not> is_orphan (live_ids s) e) (sl_blobs s)"
proof -
  let ?s = "s\<lparr>sl_blobs := filter (\<lambda>e. \<not> is_orphan (live_ids s) e) (sl_blobs s)\<rparr>"
  have sw: "sluice_sweepOrphans True rm_ok s = (None, ?s)"
    using sweep_exact [OF _ io(2) names, where live = "live_ids s"] inv by (simp add: sluice_sweepOrphans_def sl_inv_def)
  let ?es = "items (sl_bucket s)"
  have inv': "sl_inv ?s" using sweep_good [OF inv, of True rm_ok] sw by (simp add: sl_good_def)
  have all: "\<forall>e \<in> set ?es. b_get (sl_bucket ?s) (fst e) = Some (snd e)
      \<and> loadStored ?s (m_id (st_msg (snd e))) = Inr (snd e, fst e)"
    using sl_items_get [OF inv'] rec_ok_load [OF inv'] by simp
  have dist: "distinct (map fst ?es)" using inv by (simp add: sl_inv_def kv_ok_distinct)
  have ids: "claimed_ids ?s = map (\<lambda>e. m_id (st_msg (snd e))) (filter claimed ?es)"
    by (simp add: claimed_ids_def claimed_def [abs_def])
  obtain t where t: "reconcileClaims rfc ios ?s = (None, t)" "sl_blobs t = sl_blobs ?s"
    "\<forall>k. b_get (sl_bucket t) k = (if k \<in> fst ` set ?es
       then map_option (\<lambda>r. r\<lparr>st_msg := interrupt_msg (st_msg r)\<rparr>) (b_get (sl_bucket ?s) k)
       else b_get (sl_bucket ?s) k)"
    using reconcile_loop_all [of ios, OF io(1) dist all] unfolding reconcileClaims_def ids by blast
  have get: "b_get (sl_bucket t) k = map_option (\<lambda>r. r\<lparr>st_msg := interrupt_msg (st_msg r)\<rparr>) (b_get (sl_bucket s) k)" for k
    using t(3) by (cases "k \<in> fst ` set ?es") (simp_all add: b_get_def kv_get_None_iff [THEN iffD2])
  have msg: "stored_msg t mid = map_option interrupt_msg (stored_msg s mid)" for mid
    by (auto simp: stored_msg_def loadStored_def Let_def get split: option.split)
  have "m_claim m = None" if "stored_msg t mid = Some m" for mid m
    using that msg by (auto simp: interrupt_msg_def)
  with msg t sw io(3) show ?thesis by (intro exI [of _ t]) (simp add: sluice_open_def)
qed

lemma transition_blobs [simp]:
  "sl_blobs (snd (transitionFromPending io mid ev detail actor rt mutate s)) = sl_blobs s"
  by (auto simp: transitionFromPending_def Let_def split: sum.split)

lemma Record_blobs [simp]: "sl_blobs (snd (sluice_RecordSendAttempt io mid e resend actor asid s)) = sl_blobs s"
  by (auto simp: sluice_RecordSendAttempt_def Let_def split: sum.split)

lemma Claim_blobs [simp]: "sl_blobs (snd (sluice_ClaimResend io now mid actor ack s)) = sl_blobs s"
  by (auto simp: sluice_ClaimResend_def Let_def split: sum.split)

definition sample_error :: send_error where
  "sample_error = \<lparr>se_text = ''timeout'', se_unknown = False, se_pending = False, se_nosender = False, se_smtp_code = None\<rparr>"

definition sample_claimed :: sluice where
  "sample_claimed = run_ops (sl_exec (\<lambda>r. '''') (\<lambda>t. '''')) sample_store
     [OpApprove ok_io ''1'' ''manual'' None '''' ''op'', OpRecord ok_io ''1'' (Some sample_error) False ''op'' '''',
      OpClaim ok_io 9 ''1'' ''op'' False]"

lemma sample_claimed_inv: "sl_inv sample_claimed"
proof -
  have "sl_exec (\<lambda>r. '''') (\<lambda>t. '''') sluice_empty (OpEnqueue ok_io 5 sample_sub) = sample_store"
    by (simp add: sample_store_def)
  moreover have "sl_budget (Suc (3 + 0)) sluice_empty" by (rule sl_empty_budget) simp
  ultimately have b: "sl_budget (3 + 0) sample_store" using exec_budget by metis
  have "sl_budget 0 sample_claimed"
    unfolding sample_claimed_def by (rule slm.run_inv) (use b in \<open>simp add: numeral_3_eq_3\<close>)
  then show ?thesis by (simp add: sl_budget_def)
qed

lemma valid_1: "validKey ''1''"
  by code_simp

lemma sample_claimed_blobs: "sl_blobs sample_claimed = [(''1'', File ''hi'')]"
proof -
  have "fmt_uint 1 = ''1''" by code_simp
  then show ?thesis
    by (simp add: sample_claimed_def sluice_Approve_def sample_store_def Enqueue_blobs blob_Put_def ok_io_def fmt_valid
        Let_def kv_get_def sluice_empty_def bucket_new_def kv_del_def sample_sub_def)
      (simp add: valid_1)
qed

lemma sluice_open_settles_claims_witness:
  "\<exists>t. sluice_open (\<lambda>t. '''') (\<lambda>i. ok_io) True True True (\<lambda>n. True) ''s.db'' sample_claimed = (None, t)
      \<and> (\<forall>mid m. stored_msg t mid = Some m \<longrightarrow> m_claim m = None)"
proof -
  have "io_commit ok_io" by (simp add: ok_io_def)
  moreover have "\<forall>e \<in> set (sl_blobs sample_claimed). validKey (fst e)"
    by (simp add: sample_claimed_blobs) code_simp
  ultimately show ?thesis
    using sluice_open_settles_claims [OF sample_claimed_inv, of "\<lambda>i. ok_io" "\<lambda>n. True" "''s.db''" "\<lambda>t. ''''"]
    by auto
qed

section \<open>The operations on a record that is there\<close>

lemma loadStored_put:
  "loadStored s mid = Inr (q, key) \<Longrightarrow> sl_bucket t = b_put key r (sl_bucket s) \<Longrightarrow> loadStored t mid = Inr (r, key)"
  using loadStored_get [of s mid q key] by (auto simp: loadStored_def)

lemma Approve_state:
  assumes "loadStored s mid = Inr (r, key)" "m_status (st_msg r) = Pending" "io_commit io"
  shows "sl_bucket (snd (sluice_Approve io mid who rel asi actor s))
    = b_put key (r\<lparr>st_msg := approve_mutate who rel asi (st_msg r)\<rparr>) (sl_bucket s)"
  using assms by (simp add: sluice_Approve_def transitionFromPending_def Let_def split: sum.split)

lemma Record_state:
  assumes "loadStored s mid = Inr (r, key)" "io_commit io"
    "m_status (st_msg r) = Approved \<or> m_status (st_msg r) = Sent \<and> e = None"
  shows "sl_bucket (snd (sluice_RecordSendAttempt io mid e resend actor asid s))
      = b_put key (r\<lparr>st_msg := record_outcome e (st_msg r)\<rparr>) (sl_bucket s)"
    and "fst (sluice_RecordSendAttempt io mid e resend actor asid s) = Inr (record_outcome e (st_msg r))"
  using assms by (auto simp: sluice_RecordSendAttempt_def Let_def)

lemma Claim_state:
  assumes "loadStored s mid = Inr (r, key)" "io_commit io" "m_status (st_msg r) = Approved"
    "m_send_err (st_msg r) \<noteq> ''''" "m_claim (st_msg r) = None" "IsOutcomeUnknown (m_send_err (st_msg r)) \<longrightarrow> ack"
  shows "sluice_ClaimResend io now mid actor ack s
    = (Inr ((st_msg r)\<lparr>m_claim := Some \<lparr>rc_since = now, rc_actor = actor\<rparr>\<rparr>),
       putStored key (r\<lparr>st_msg := (st_msg r)\<lparr>m_claim := Some \<lparr>rc_since = now, rc_actor = actor\<rparr>\<rparr>\<rparr>) s)"
  using assms by (simp add: sluice_ClaimResend_def Let_def)

definition sample_failed :: sluice where
  "sample_failed = run_ops (sl_exec (\<lambda>r. '''') (\<lambda>t. '''')) sample_store
     [OpApprove ok_io ''1'' ''manual'' None '''' ''op'', OpRecord ok_io ''1'' (Some sample_error) False ''op'' '''']"

lemma sample_failed_load:
  "\<exists>r. loadStored sample_failed ''1'' = Inr (r, seqkey_encode 1) \<and> m_status (st_msg r) = Approved
     \<and> m_send_err (st_msg r) = ''timeout'' \<and> m_claim (st_msg r) = None
     \<and> m_inbox (st_msg r) = ''work'' \<and> m_as_inbox (st_msg r) = '''' \<and> m_id (st_msg r) = fmt_uint 1"
proof -
  let ?r = "storedFrom (\<lambda>r. '''') (new_message 5 sample_sub 1)"
  let ?a = "?r\<lparr>st_msg := approve_mutate ''manual'' None '''' (st_msg ?r)\<rparr>"
  have c: "io_commit ok_io" by (simp add: ok_io_def)
  have p: "m_status (st_msg ?r) = Pending" by (simp add: new_message_def)
  note l1 = loadStored_put [OF sample_load(1) Approve_state [OF sample_load(1) p c]]
  have a: "m_status (st_msg ?a) = Approved \<or> m_status (st_msg ?a) = Sent \<and> Some sample_error = None"
    by (simp add: approve_mutate_def)
  note l2 = loadStored_put [OF l1 Record_state(1) [OF l1 c a]]
  show ?thesis
    using l2 [of False "''op''" "''''"]
    by (simp add: sample_failed_def) (simp add: mutate_defs sample_error_def new_message_def sample_sub_def)
qed

lemma sample_failed_budget: "sl_budget 10 sample_failed"
proof -
  have "sl_exec (\<lambda>r. '''') (\<lambda>t. '''') sluice_empty (OpEnqueue ok_io 5 sample_sub) = sample_store"
    by (simp add: sample_store_def)
  moreover have "sl_budget (Suc (2 + 10)) sluice_empty" by (rule sl_empty_budget) simp
  ultimately have b: "sl_budget (2 + 10) sample_store" using exec_budget by metis
  show ?thesis
    unfolding sample_failed_def by (rule slm.run_inv) (use b in \<open>simp add: numeral_2_eq_2\<close>)
qed

lemma sample_parse: "parse_uint 64 ''1'' = Some 1"
proof -
  have "fmt_uint 1 = ''1''" by code_simp
  then show ?thesis using parse_fmt_uint [of 1 64] by simp
qed

lemma sl_budget_mono: "sl_budget n s \<Longrightarrow> m \<le> n \<Longrightarrow> sl_budget m s"
  by (simp add: sl_budget_def)

lemma sluice_claim_exclusive_witness:
  "\<exists>t. sluice_ClaimResend ok_io 9 ''1'' ''op'' False sample_failed = (Inr (the (stored_msg t ''1'')), t)
    \<and> fst (sluice_ClaimResend ok_io 9 ''1'' ''op'' True
         (run_ops (sl_exec (\<lambda>r. '''') (\<lambda>t. '''')) t [OpEnqueue ok_io 6 sample_sub])) = Inl ErrResendInProgress"
proof -
  obtain r where r: "loadStored sample_failed ''1'' = Inr (r, seqkey_encode 1)" "m_status (st_msg r) = Approved"
     "m_send_err (st_msg r) = ''timeout''" "m_claim (st_msg r) = None" using sample_failed_load by blast
  have c: "io_commit ok_io" by (simp add: ok_io_def)
  have e: "m_send_err (st_msg r) \<noteq> ''''" "IsOutcomeUnknown (m_send_err (st_msg r)) \<longrightarrow> False"
    unfolding r(3) by code_simp+
  note cl = Claim_state [OF r(1) c r(2) e(1) r(4) e(2), of 9 "''op''"]
  have "sl_budget (length [OpEnqueue ok_io 6 sample_sub] + 1) sample_failed"
    by (rule sl_budget_mono [OF sample_failed_budget]) simp
  from sluice_claim_exclusive [OF this cl sample_parse sample_parse, of ok_io 9 "''op''" True "\<lambda>r. ''''" "\<lambda>t. ''''"]
  show ?thesis unfolding cl
    by (auto simp: touches_claim_def stored_msg_def loadStored_put [OF r(1)])
qed

theorem sluice_terminal_frozen_witness:
  "stored_msg (run_ops (sl_exec (\<lambda>r. '''') (\<lambda>t. ''''))
      (snd (sluice_RecordSendAttempt ok_io ''1'' None True ''op'' '''' sample_failed))
      [OpRecord ok_io ''1'' (Some sample_error) True ''op'' '''']) ''1''
   = stored_msg (snd (sluice_RecordSendAttempt ok_io ''1'' None True ''op'' '''' sample_failed)) ''1''"
proof -
  obtain r where r: "loadStored sample_failed ''1'' = Inr (r, seqkey_encode 1)" "m_status (st_msg r) = Approved"
    using sample_failed_load by blast
  let ?t = "snd (sluice_RecordSendAttempt ok_io ''1'' None True ''op'' '''' sample_failed)"
  have c: "io_commit ok_io" by (simp add: ok_io_def)
  have a: "m_status (st_msg r) = Approved \<or> m_status (st_msg r) = Sent \<and> (None :: send_error option) = None"
    using r(2) by simp
  have l: "loadStored ?t ''1'' = Inr (r\<lparr>st_msg := record_outcome None (st_msg r)\<rparr>, seqkey_encode 1)"
    by (rule loadStored_put [OF r(1) Record_state(1) [OF r(1) c a]])
  have "sl_budget 9 ?t"
    using exec_budget [of 9 sample_failed "\<lambda>r. ''''" "\<lambda>t. ''''" "OpRecord ok_io ''1'' None True ''op'' ''''"]
      sample_failed_budget by simp
  then have b: "sl_budget (length [OpRecord ok_io ''1'' (Some sample_error) True ''op'' '''']) ?t"
    by (rule sl_budget_mono) simp
  have m: "stored_msg ?t ''1'' = Some (record_outcome None (st_msg r))" using l by (simp add: stored_msg_def)
  show ?thesis
    unfolding m by (rule sluice_terminal_frozen [OF b m]) (simp add: record_outcome_def)
qed

section \<open>The listing\<close>

lemma sorted_ids:
  assumes "kv_ok es" "\<forall>e \<in> set es. \<exists>n. fst e = seqkey_encode n \<and> f (snd e) = unat n"
  shows "sorted_wrt (<) (map (\<lambda>e. f (snd e)) es)"
proof -
  have "sorted_wrt (\<lambda>a b. f (snd a) < f (snd b)) es"
    using assms(1) unfolding kv_ok_def
  proof (rule sorted_wrt_mono_rel [rotated])
    fix a b assume ab: "a \<in> set es" "b \<in> set es" and lt: "fst a < fst b"
    obtain m n where "fst a = seqkey_encode m" "f (snd a) = unat m" "fst b = seqkey_encode n" "f (snd b) = unat n"
      using assms(2) ab by metis
    with lt show "f (snd a) < f (snd b)" by (simp add: word_less_nat_alt)
  qed
  then show ?thesis by (simp add: sorted_wrt_map)
qed

text \<open>The listing is the queue, in the order the messages arrived: its ids are strictly ascending
  numbers, each is the id of a message that \<open>Get\<close> returns with the listed agent, recipients, status and
  claim and with a body of exactly the listed size, and every message that can be got is listed.\<close>

lemma sluice_list_is_queue:
  assumes inv: "sl_inv s"
  shows "sorted_wrt (<) (map (\<lambda>mt. digits_val (mt_id mt)) (sluice_List subj s))
    \<and> (\<forall>mt \<in> set (sluice_List subj s). \<exists>m. sluice_Get s (mt_id mt) = Inr m \<and> m_id m = mt_id mt
        \<and> m_agent m = mt_agent mt \<and> m_rcpt m = mt_rcpt mt \<and> m_status m = mt_status mt
        \<and> int (length (m_raw m)) = mt_size mt \<and> mt_resend_in_progress mt = (m_claim m \<noteq> None))
    \<and> (\<forall>mid m. sluice_Get s mid = Inr m \<longrightarrow> m_id m \<in> mt_id ` set (sluice_List subj s))"
proof (intro conjI ballI allI impI)
  let ?es = "items (sl_bucket s)"
  have key: "\<exists>n. fst e = seqkey_encode n \<and> digits_val (m_id (st_msg (snd e))) = unat n" if "e \<in> set ?es" for e
    using sl_inv_rec [OF inv sl_items_get [OF inv that]] by (auto simp: rec_ok_def)
  show "sorted_wrt (<) (map (\<lambda>mt. digits_val (mt_id mt)) (sluice_List subj s))"
    using sorted_ids [of ?es "\<lambda>r. digits_val (m_id (st_msg r))"] key inv
    by (simp add: sluice_List_def meta_of_def Let_def comp_def sl_inv_def)
next
  fix mt assume "mt \<in> set (sluice_List subj s)"
  then obtain k r where kr: "(k, r) \<in> set (items (sl_bucket s))" "mt = meta_of subj r"
    by (auto simp: sluice_List_def)
  have g: "b_get (sl_bucket s) k = Some r" using sl_items_get [OF inv kr(1)] by simp
  note ro = sl_inv_rec [OF inv g]
  obtain m where m: "withRaw s r = Inr m" using rec_ok_withRaw [OF ro] by blast
  have raw: "m = (st_msg r)\<lparr>m_raw := m_raw m\<rparr> \<and> int (length (m_raw m)) =
    (if st_blobbed r then st_size r else int (length (m_raw (st_msg r))))"
    using m ro by (auto simp: withRaw_def rec_ok_def blob_Get_def fmt_valid split: if_splits)
  then have f: "m_id m = m_id (st_msg r)" "m_agent m = m_agent (st_msg r)" "m_rcpt m = m_rcpt (st_msg r)"
    "m_status m = m_status (st_msg r)" "m_claim m = m_claim (st_msg r)"
    by (metis message.select_convs message.surjective message.update_convs(6))+
  have "sluice_Get s (mt_id mt) = Inr m"
    using rec_ok_load [OF inv g] kr(2) m by (simp add: sluice_Get_def meta_of_def Let_def)
  then show "\<exists>m. sluice_Get s (mt_id mt) = Inr m \<and> m_id m = mt_id mt
        \<and> m_agent m = mt_agent mt \<and> m_rcpt m = mt_rcpt mt \<and> m_status m = mt_status mt
        \<and> int (length (m_raw m)) = mt_size mt \<and> mt_resend_in_progress mt = (m_claim m \<noteq> None)"
    using f raw kr(2) by (intro exI [of _ m]) (auto simp: meta_of_def Let_def)
next
  fix mid m assume "sluice_Get s mid = Inr m"
  then obtain r key where r: "loadStored s mid = Inr (r, key)" "withRaw s r = Inr m"
    by (auto simp: sluice_Get_def split: sum.splits)
  have g: "b_get (sl_bucket s) key = Some r" using loadStored_get [OF r(1)] by blast
  have "m_id m = m_id (st_msg r)" using r(2) by (auto simp: withRaw_def split: if_splits sum.splits)
  moreover have "(key, r) \<in> set (items (sl_bucket s))" using g kv_get_in by (simp add: b_get_def)
  ultimately show "m_id m \<in> mt_id ` set (sluice_List subj s)"
    by (force simp: sluice_List_def meta_of_def Let_def)
qed

lemma sluice_list_is_queue_witness:
  "sorted_wrt (<) (map (\<lambda>mt. digits_val (mt_id mt)) (sluice_List (\<lambda>r. '''') sample_claimed))"
  using sluice_list_is_queue [OF sample_claimed_inv] by blast

end
