(* ===== verification/Approver.thy ===== *)
theory Approver
  imports Sluice
begin

text \<open>Model of \<open>internal/policy/router.go\<close> (which approval chain a message takes) and
  \<open>internal/approver\<close> (running the chain; the registry; the manual approver of \<open>manual/manual.go\<close>).

  An approver is a record of its methods. A disposition other than the three named ones, which Go's
  integer type admits, is \<open>DUnknown\<close>.\<close>

section \<open>The router\<close>

datatype chain = StrictChain | LightChain

record risk =
  rk_level :: string
  rk_flags :: "string list"

record router =
  rt_strict :: "string list"
  rt_light :: "string list"

definition NewRouter :: "string list \<Rightarrow> string list \<Rightarrow> router" where
  "NewRouter strict light = \<lparr>rt_strict = strict, rt_light = light\<rparr>"

definition router_Select :: "router \<Rightarrow> risk option \<Rightarrow> chain \<times> string list" where
  "router_Select r rk = (case rk of
       None \<Rightarrow> (StrictChain, rt_strict r)
     | Some k \<Rightarrow> if rk_level k = ''low'' \<and> rk_flags k = [] then (LightChain, rt_light r)
                else (StrictChain, rt_strict r))"

section \<open>Approvers\<close>

datatype disposition = DHold | DApprove | DReject | DUnknown int

definition disposition_String :: "disposition \<Rightarrow> string" where
  "disposition_String d = (case d of DApprove \<Rightarrow> ''approve'' | DReject \<Rightarrow> ''reject'' | _ \<Rightarrow> ''hold'')"

record verdict =
  vd_disposition :: disposition
  vd_reason :: string
  vd_retryable :: bool
  vd_amended :: "bytes option"

record approver =
  ap_name :: string
  ap_can_edit :: bool
  ap_decide :: "message \<Rightarrow> string + verdict"

record outcome =
  oc_disposition :: disposition
  oc_reason :: string
  oc_retryable :: bool
  oc_released :: "bytes option"
  oc_decided_by :: string

datatype run_err = ApproverFailed string string | NotEditCapable string | UnknownDisposition string int

definition outcome_zero :: outcome where
  "outcome_zero = \<lparr>oc_disposition = DHold, oc_reason = '''', oc_retryable = False, oc_released = None, oc_decided_by = ''''\<rparr>"

section \<open>Running a chain\<close>

fun run_stages :: "bytes option \<Rightarrow> message \<Rightarrow> string \<Rightarrow> approver list \<Rightarrow> outcome \<times> run_err option" where
  "run_stages released working lst [] =
     (outcome_zero\<lparr>oc_disposition := DApprove, oc_released := released, oc_decided_by := lst\<rparr>, None)"
| "run_stages released working lst (st # sts) =
     (case ap_decide st working of
        Inl e \<Rightarrow> (outcome_zero\<lparr>oc_decided_by := ap_name st\<rparr>, Some (ApproverFailed (ap_name st) e))
      | Inr v \<Rightarrow>
         (case vd_disposition v of
            DReject \<Rightarrow> (outcome_zero\<lparr>oc_disposition := DReject, oc_reason := vd_reason v,
                          oc_retryable := vd_retryable v, oc_decided_by := ap_name st\<rparr>, None)
          | DHold \<Rightarrow> (outcome_zero\<lparr>oc_decided_by := ap_name st\<rparr>, None)
          | DApprove \<Rightarrow>
             (case vd_amended v of
                None \<Rightarrow> run_stages released working (ap_name st) sts
              | Some body \<Rightarrow>
                  if \<not> ap_can_edit st then (outcome_zero, Some (NotEditCapable (ap_name st)))
                  else run_stages (Some body) (working\<lparr>m_raw := body\<rparr>) (ap_name st) sts)
          | DUnknown d \<Rightarrow> (outcome_zero, Some (UnknownDisposition (ap_name st) d))))"

definition approver_Run :: "message \<Rightarrow> approver list \<Rightarrow> outcome \<times> run_err option" where
  "approver_Run msg stages =
     (if stages = [] then (outcome_zero, None) else run_stages (Some (m_raw msg)) msg '''' stages)"

text \<open>The registry of compiled-in approvers.\<close>

definition approver_New :: "(string \<times> approver) list \<Rightarrow> string \<Rightarrow> approver option" where
  "approver_New registry name = map_of registry name"

definition approver_Registered :: "(string \<times> approver) list \<Rightarrow> string list" where
  "approver_Registered registry = sort (map fst registry)"

text \<open>The manual approver returns the verdict it was given; unset, that is the zero verdict.\<close>

definition verdict_zero :: verdict where
  "verdict_zero = \<lparr>vd_disposition = DHold, vd_reason = '''', vd_retryable = False, vd_amended = None\<rparr>"

definition manual :: "verdict \<Rightarrow> approver" where
  "manual v = \<lparr>ap_name = ''manual'', ap_can_edit = True, ap_decide = (\<lambda>msg. Inr v)\<rparr>"

definition manual_SetVerdict :: "verdict \<Rightarrow> approver \<Rightarrow> approver" where
  "manual_SetVerdict v a = a\<lparr>ap_decide := (\<lambda>msg. Inr v)\<rparr>"

section \<open>What a chain decides\<close>

text \<open>What a stage answered that let the message pass: the body after it.\<close>

definition passes :: "approver \<Rightarrow> message \<Rightarrow> bytes option \<Rightarrow> bool" where
  "passes st working amended \<longleftrightarrow> (\<exists>v. ap_decide st working = Inr v \<and> vd_disposition v = DApprove
     \<and> vd_amended v = amended \<and> (amended \<noteq> None \<longrightarrow> ap_can_edit st))"

text \<open>A message passes every stage, each stage seeing the body as the stages before it left it; the
  last argument is the body of the end.\<close>

inductive passes_all :: "message \<Rightarrow> approver list \<Rightarrow> bytes \<Rightarrow> bool" where
  passed: "passes_all msg [] (m_raw msg)"
| keep: "passes st msg None \<Longrightarrow> passes_all msg sts body \<Longrightarrow> passes_all msg (st # sts) body"
| edit: "passes st msg (Some b) \<Longrightarrow> passes_all (msg\<lparr>m_raw := b\<rparr>) sts body \<Longrightarrow> passes_all msg (st # sts) body"

inductive_cases passes_all_NilE: "passes_all msg [] body"
inductive_cases passes_all_ConsE: "passes_all msg (st # sts) body"

lemma run_stages_approve:
  assumes "oc_disposition (fst (run_stages (Some (m_raw w)) w lst sts)) = DApprove"
  shows "\<exists>body. passes_all w sts body"
  using assms
proof (induction sts arbitrary: w lst)
  case Nil
  then show ?case using passes_all.passed by blast
next
  case (Cons st sts)
  obtain v where v: "ap_decide st w = Inr v" "vd_disposition v = DApprove"
    using Cons.prems by (auto simp: outcome_zero_def split: sum.splits disposition.splits)
  show ?case
  proof (cases "vd_amended v")
    case None
    then have "oc_disposition (fst (run_stages (Some (m_raw w)) w (ap_name st) sts)) = DApprove"
      using Cons.prems v by simp
    moreover have "passes st w None" using v None by (simp add: passes_def)
    ultimately show ?thesis using Cons.IH passes_all.keep by blast
  next
    case (Some b)
    have e: "ap_can_edit st" using Cons.prems v Some by (simp add: outcome_zero_def split: if_splits)
    then have "oc_disposition (fst (run_stages (Some (m_raw (w\<lparr>m_raw := b\<rparr>))) (w\<lparr>m_raw := b\<rparr>) (ap_name st) sts)) = DApprove"
      using Cons.prems v Some by simp
    moreover have "passes st w (Some b)" using v Some e by (simp add: passes_def)
    ultimately show ?thesis using Cons.IH passes_all.edit by blast
  qed
qed

lemma passes_all_run:
  "passes_all w sts body \<Longrightarrow> run_stages (Some (m_raw w)) w lst sts =
      (outcome_zero\<lparr>oc_disposition := DApprove, oc_released := Some body,
         oc_decided_by := (if sts = [] then lst else ap_name (last sts))\<rparr>, None)"
proof (induction arbitrary: lst rule: passes_all.induct)
  case (keep st msg sts body)
  then show ?case by (auto simp: passes_def)
next
  case (edit st msg b sts body)
  then show ?case by (auto simp: passes_def)
qed simp


lemma passes_all_member: "passes_all msg sts body \<Longrightarrow> st \<in> set sts \<Longrightarrow> \<exists>w am. passes st w am"
  by (induction rule: passes_all.induct) auto

text \<open>C13: fail-closed. If some stage of the chain cannot approve any body, because it holds, rejects,
  fails or answers an unknown disposition whatever it is shown, the chain does not approve, in
  whatever position the stage stands and whatever the other stages answer.\<close>

theorem approver_run_fail_closed:
  assumes "st \<in> set stages" "\<And>w v. ap_decide st w = Inr v \<Longrightarrow> vd_disposition v \<noteq> DApprove"
  shows "oc_disposition (fst (approver_Run msg stages)) \<noteq> DApprove"
proof
  assume "oc_disposition (fst (approver_Run msg stages)) = DApprove"
  then obtain body where "passes_all msg stages body"
    using run_stages_approve [of msg "''''" stages] by (auto simp: approver_Run_def outcome_zero_def split: if_splits)
  with passes_all_member assms show False unfolding passes_def by metis
qed

theorem approver_run_fail_closed_witness:
  "oc_disposition (fst (approver_Run (new_message 5 sample_sub 1)
     [manual (verdict_zero\<lparr>vd_disposition := DApprove\<rparr>), manual verdict_zero])) \<noteq> DApprove"
  by (rule approver_run_fail_closed [of "manual verdict_zero"]) (auto simp: manual_def verdict_zero_def)

lemma run_manual:
  "approver_Run msg [manual v] = (case vd_disposition v of
       DHold \<Rightarrow> (outcome_zero\<lparr>oc_decided_by := ''manual''\<rparr>, None)
     | DApprove \<Rightarrow> (outcome_zero\<lparr>oc_disposition := DApprove, oc_decided_by := ''manual'',
         oc_released := (case vd_amended v of None \<Rightarrow> Some (m_raw msg) | Some b \<Rightarrow> Some b)\<rparr>, None)
     | DReject \<Rightarrow> (outcome_zero\<lparr>oc_disposition := DReject, oc_reason := vd_reason v,
         oc_retryable := vd_retryable v, oc_decided_by := ''manual''\<rparr>, None)
     | DUnknown d \<Rightarrow> (outcome_zero, Some (UnknownDisposition ''manual'' d)))"
  by (simp add: approver_Run_def manual_def split: disposition.split option.split)

end
