(* ===== verification/Provenance.thy ===== *)
theory Provenance
  imports Prelude
begin

text \<open>Model of \<open>internal/provenance\<close>: the reserved \<open>X-Darbaan-\<close> header namespace
  (\<open>provenance.go\<close>) and the trust banner (\<open>banner.go\<close>).

  The header parser is a third-party package: the argument \<open>T\<close> holds its operations on an abstract
  header, and \<open>textproto_laws\<close> what the code relies on. \<open>net/mail\<close>, \<open>mime\<close> and the transfer
  encodings are the argument \<open>C\<close>. The Unicode format runes a marker may be interleaved with are the
  list \<open>cfs\<close> of their UTF-8 encodings.\<close>

section \<open>The interfaces used\<close>

record 'h textproto =
  tp_read :: "bytes \<Rightarrow> ('h \<times> bytes) option"
  tp_fields :: "'h \<Rightarrow> (string \<times> string) list"
  tp_set :: "string \<Rightarrow> string \<Rightarrow> 'h \<Rightarrow> 'h"
  tp_del :: "(string \<Rightarrow> bool) \<Rightarrow> 'h \<Rightarrow> 'h"
  tp_write :: "'h \<Rightarrow> bytes option"

definition tp_values :: "'h textproto \<Rightarrow> string \<Rightarrow> 'h \<Rightarrow> string list" where
  "tp_values T k h = map snd (filter (\<lambda>f. equal_fold (fst f) k) (tp_fields T h))"

definition tp_get :: "'h textproto \<Rightarrow> string \<Rightarrow> 'h \<Rightarrow> string" where
  "tp_get T k h = (case tp_values T k h of [] \<Rightarrow> '''' | v # vs \<Rightarrow> v)"

text \<open>Deleting fields deletes those fields, and setting a field leaves it the only one of its name.\<close>

definition textproto_laws :: "'h textproto \<Rightarrow> bool" where
  "textproto_laws T \<longleftrightarrow>
     (\<forall>P h. tp_fields T (tp_del T P h) = filter (\<lambda>f. \<not> P (fst f)) (tp_fields T h))
   \<and> (\<forall>k v h. filter (\<lambda>f. equal_fold (fst f) k) (tp_fields T (tp_set T k v h)) = [(k, v)]
        \<and> filter (\<lambda>f. \<not> equal_fold (fst f) k) (tp_fields T (tp_set T k v h))
          = filter (\<lambda>f. \<not> equal_fold (fst f) k) (tp_fields T h))"

record codecs =
  cd_parse_address :: "string \<Rightarrow> string option"
  cd_parse_address_list :: "string \<Rightarrow> string list option"
  cd_media_type :: "string \<Rightarrow> (string \<times> string) option"
  cd_qp_decode :: "bytes \<Rightarrow> bytes option"
  cd_qp_encode :: "bytes \<Rightarrow> bytes"
  cd_b64_decode :: "bytes \<Rightarrow> bytes option"
  cd_b64_encode :: "bytes \<Rightarrow> bytes"

section \<open>Addresses\<close>

definition NormalizeAddress :: "string \<Rightarrow> string" where
  "NormalizeAddress addr = to_lower (trim_space addr)"

definition prov_From :: "'h textproto \<Rightarrow> codecs \<Rightarrow> bytes \<Rightarrow> string" where
  "prov_From T C raw = (case tp_read T raw of
       None \<Rightarrow> ''''
     | Some (h, body) \<Rightarrow> (case cd_parse_address C (tp_get T ''From'' h) of
           None \<Rightarrow> '''' | Some a \<Rightarrow> NormalizeAddress a))"

datatype from_err = UnparseableHeader | ManyFrom nat | UnparseableFrom | NotOneAddress nat

definition SubmitFromAddress :: "'h textproto \<Rightarrow> codecs \<Rightarrow> bytes \<Rightarrow> from_err + string" where
  "SubmitFromAddress T C raw = (case tp_read T raw of
       None \<Rightarrow> Inl UnparseableHeader
     | Some (h, body) \<Rightarrow>
        (case tp_values T ''From'' h of
           [] \<Rightarrow> Inr ''''
         | [f] \<Rightarrow> (case cd_parse_address_list C f of
                None \<Rightarrow> Inl UnparseableFrom
              | Some [a] \<Rightarrow> Inr (NormalizeAddress a)
              | Some l \<Rightarrow> Inl (NotOneAddress (length l)))
         | fs \<Rightarrow> Inl (ManyFrom (length fs))))"

section \<open>The namespace\<close>

definition Namespace :: string where "Namespace = ''X-Darbaan-''"
definition TrustHeader :: string where "TrustHeader = ''X-Darbaan-Trust''"
definition NoteHeader :: string where "NoteHeader = ''X-Darbaan-Note''"
definition TrustTrusted :: string where "TrustTrusted = ''trusted''"
definition TrustUntrusted :: string where "TrustUntrusted = ''untrusted''"
definition TrustUnknown :: string where "TrustUnknown = ''unknown''"
definition RiskHeader :: string where "RiskHeader = ''X-Darbaan-Risk''"
definition RiskFactorsHeader :: string where "RiskFactorsHeader = ''X-Darbaan-Risk-Factors''"

lemmas header_names = TrustHeader_def NoteHeader_def RiskHeader_def RiskFactorsHeader_def

record stamp =
  sp_trust :: string
  sp_note :: string
  sp_banner :: bool
  sp_risk :: string
  sp_risk_factors :: string

definition stamp_zero :: stamp where
  "stamp_zero = \<lparr>sp_trust = '''', sp_note = '''', sp_banner = False, sp_risk = '''', sp_risk_factors = ''''\<rparr>"

definition headerSafe :: "string \<Rightarrow> string" where
  "headerSafe v = filter (\<lambda>c. \<not> ((of_char c :: nat) < 32 \<or> (of_char c :: nat) = 127)) v"

definition in_namespace :: "string \<Rightarrow> bool" where
  "in_namespace key \<longleftrightarrow> has_prefix (to_lower key) (to_lower Namespace)"

text \<open>\<open>bytes.TrimRight(line, CR)\<close>, and the scan of the header region.\<close>

definition trim_cr :: "bytes \<Rightarrow> bytes" where
  "trim_cr l = rev (dropWhile (\<lambda>c. c = char_of (13 :: nat)) (rev l))"

function (sequential) hasNamespaceHeaderLine :: "bytes \<Rightarrow> bool" where
  "hasNamespaceHeaderLine [] = False"
| "hasNamespaceHeaderLine (b # bs) = (
     let raw = b # bs;
         line = trim_cr (takeWhile (\<lambda>c. c \<noteq> char_of (10 :: nat)) raw);
         rest = drop 1 (dropWhile (\<lambda>c. c \<noteq> char_of (10 :: nat)) raw)
     in if line = [] then False
        else if hd line = CHR '' '' \<or> hd line = char_of (9 :: nat) then hasNamespaceHeaderLine rest
        else if length line \<ge> length Namespace \<and> equal_fold (take (length Namespace) line) Namespace then True
        else hasNamespaceHeaderLine rest)"
  by pat_completeness auto
termination
proof (relation "measure length")
  have le: "length (drop 1 (dropWhile P (b # bs))) < length (b # bs)" for P :: "char \<Rightarrow> bool" and b bs
    using length_dropWhile_le [of P bs] by (auto simp: less_Suc_eq_le intro: le_trans [OF diff_le_self])
  show "wf (measure length)" by simp
  show "(rest, b # bs) \<in> measure length"
    if "rest = drop 1 (dropWhile (\<lambda>c. c \<noteq> char_of (10 :: nat)) raw)" "raw = b # bs"
    for b bs raw and rest :: bytes unfolding that in_measure by (rule le)
  show "(rest, b # bs) \<in> measure length"
    if "rest = drop 1 (dropWhile (\<lambda>c. c \<noteq> char_of (10 :: nat)) raw)" "raw = b # bs"
    for b bs raw and rest :: bytes unfolding that in_measure by (rule le)
qed

section \<open>The banner\<close>

definition bannerBegin :: bytes where "bannerBegin = ''-----BEGIN DARBAAN TRUST BANNER-----''"
definition bannerEnd :: bytes where "bannerEnd = ''-----END DARBAAN TRUST BANNER-----''"
definition bannerBeginDefanged :: bytes where
  "bannerBeginDefanged = ''[DARBAAN TRUST BANNER BEGIN - FORGED, NEUTRALIZED]''"
definition bannerEndDefanged :: bytes where
  "bannerEndDefanged = ''[DARBAAN TRUST BANNER END - FORGED, NEUTRALIZED]''"

definition crlf :: bytes where "crlf = [char_of (13 :: nat), char_of (10 :: nat)]"

definition bannerBlock :: "stamp \<Rightarrow> bytes" where
  "bannerBlock s = bannerBegin @ crlf
     @ TrustHeader @ '': '' @ sp_trust s @ crlf
     @ (if sp_note s \<noteq> '''' then NoteHeader @ '': '' @ headerSafe (sp_note s) @ crlf else '''')
     @ ''This banner is advisory; the X-Darbaan-* headers are authoritative.'' @ crlf
     @ bannerEnd @ crlf @ crlf"

definition stripBanner :: "bytes \<Rightarrow> bytes" where
  "stripBanner body = (if \<not> has_prefix body bannerBegin \<or> \<not> contains_str body bannerEnd then body
     else trim_prefix (after_first body bannerEnd) (crlf @ crlf))"

definition StripLeadingBanner :: "bytes \<Rightarrow> bytes" where
  "StripLeadingBanner body = (
     let out = stripBanner body
     in if length out \<noteq> length body then trim_prefix out [char_of (10 :: nat), char_of (10 :: nat)] else out)"

text \<open>The marker patterns: case-insensitive, with runs of format runes allowed between characters.
  Under Unicode case folding \<open>s\<close> also matches the long s, whose encoding is C5 BF; no other letter
  of the markers has a non-ASCII folding.\<close>

function skip_cf :: "bytes list \<Rightarrow> bytes \<Rightarrow> bytes" where
  "skip_cf cfs s = (case find (\<lambda>x. x \<noteq> [] \<and> has_prefix s x) cfs of
       None \<Rightarrow> s | Some x \<Rightarrow> skip_cf cfs (drop (length x) s))"
  by pat_completeness auto
termination
proof (relation "measure (\<lambda>(cfs, s). length s)")
  fix cfs s and x :: bytes
  assume "find (\<lambda>x. x \<noteq> [] \<and> has_prefix s x) cfs = Some x"
  then have "x \<noteq> []" "has_prefix s x" using find_Some_set by fastforce+
  then show "((cfs, drop (length x) s), cfs, s) \<in> measure (\<lambda>(cfs, s). length s)"
    by (auto simp: has_prefix_iff)
qed simp

definition fold1 :: "char \<Rightarrow> bytes \<Rightarrow> bytes option" where
  "fold1 c s = (case s of
       [] \<Rightarrow> None
     | x # r \<Rightarrow> if lower_char x = lower_char c then Some r
         else if lower_char c = CHR ''s'' \<and> has_prefix s [char_of (197 :: nat), char_of (191 :: nat)] then Some (drop 2 s)
         else None)"

fun match_rest :: "bytes list \<Rightarrow> bytes \<Rightarrow> bytes \<Rightarrow> bytes option" where
  "match_rest cfs [] s = Some s"
| "match_rest cfs (c # cs) s =
     (case fold1 c (skip_cf cfs s) of None \<Rightarrow> None | Some r \<Rightarrow> match_rest cfs cs r)"

definition match_marker :: "bytes list \<Rightarrow> bytes \<Rightarrow> bytes \<Rightarrow> bytes option" where
  "match_marker cfs pat s = (case pat of
       [] \<Rightarrow> Some s
     | c # cs \<Rightarrow> (case fold1 c s of None \<Rightarrow> None | Some r \<Rightarrow> match_rest cfs cs r))"

text \<open>\<open>ReplaceAllLiteral\<close>: leftmost matches, from left to right, not overlapping.\<close>

function replace_markers :: "bytes list \<Rightarrow> bytes \<Rightarrow> bytes \<Rightarrow> bytes \<Rightarrow> bytes" where
  "replace_markers cfs pat repl [] = []"
| "replace_markers cfs pat repl (b # bs) = (case match_marker cfs pat (b # bs) of
       Some r \<Rightarrow> if length r < length (b # bs) then repl @ replace_markers cfs pat repl r
                 else b # replace_markers cfs pat repl bs
     | None \<Rightarrow> b # replace_markers cfs pat repl bs)"
  by pat_completeness auto
termination
  by (relation "measure (\<lambda>(cfs, pat, repl, s). length s)") auto

definition neutralize_round :: "bytes list \<Rightarrow> bytes \<Rightarrow> bytes" where
  "neutralize_round cfs body =
     replace_markers cfs bannerEnd bannerEndDefanged (replace_markers cfs bannerBegin bannerBeginDefanged body)"

text \<open>The loop of \<open>neutralizeBanners\<close> from round \<open>k\<close>; \<open>None\<close> is the panic.\<close>

function neutralize_loop :: "bytes list \<Rightarrow> nat \<Rightarrow> bytes \<Rightarrow> bytes option" where
  "neutralize_loop cfs k body = (
     let nxt = neutralize_round cfs body
     in if nxt = body then Some nxt
        else if k \<ge> 8 then None
        else neutralize_loop cfs (k + 1) nxt)"
  by pat_completeness auto
termination
  by (relation "measure (\<lambda>(cfs, k, body). 8 - k)") auto

definition neutralizeBanners :: "bytes list \<Rightarrow> bytes \<Rightarrow> bytes option" where
  "neutralizeBanners cfs body = neutralize_loop cfs 0 body"

definition applyBanner :: "bytes list \<Rightarrow> stamp \<Rightarrow> bytes \<Rightarrow> bytes option" where
  "applyBanner cfs s body = map_option (\<lambda>b. bannerBlock s @ b) (neutralizeBanners cfs (stripBanner body))"

definition stripASCIISpace :: "bytes \<Rightarrow> bytes" where
  "stripASCIISpace b = filter (\<lambda>c. c \<notin> {CHR '' '', char_of (9 :: nat), char_of (13 :: nat), char_of (10 :: nat)}) b"

text \<open>Base64 in lines of 76 characters.\<close>

function wrap76 :: "bytes \<Rightarrow> bytes" where
  "wrap76 enc = (if length enc > 76 then take 76 enc @ crlf @ wrap76 (drop 76 enc) else enc @ crlf)"
  by pat_completeness auto
termination by (relation "measure length") auto

definition encodeBase64 :: "codecs \<Rightarrow> bytes \<Rightarrow> bytes" where
  "encodeBase64 C b = wrap76 (cd_b64_encode C b)"

definition decodeText :: "codecs \<Rightarrow> bytes \<Rightarrow> string \<Rightarrow> (bytes \<times> (bytes \<Rightarrow> bytes)) option" where
  "decodeText C body cte = (
     let e = to_lower (trim_space cte)
     in if e \<in> {'''', ''7bit'', ''8bit'', ''binary''} then Some (body, \<lambda>b. b)
        else if e = ''quoted-printable'' then map_option (\<lambda>d. (d, cd_qp_encode C)) (cd_qp_decode C body)
        else if e = ''base64'' then map_option (\<lambda>d. (d, encodeBase64 C)) (cd_b64_decode C (stripASCIISpace body))
        else None)"

text \<open>\<open>cd_media_type\<close> gives the media type and the charset parameter ('''' when there is none).\<close>

definition bannerableText :: "'h textproto \<Rightarrow> codecs \<Rightarrow> 'h \<Rightarrow> bool" where
  "bannerableText T C h = (
     let ct = trim_space (tp_get T ''Content-Type'' h)
     in if ct = '''' then True
        else case cd_media_type C ct of
            None \<Rightarrow> False
          | Some (mt, charset) \<Rightarrow> mt = ''text/plain'' \<and> to_lower charset \<in>
              {'''', ''us-ascii'', ''ascii'', ''utf-8'', ''utf8'', ''iso-8859-1'', ''latin1'', ''windows-1252''})"

definition maybeBanner :: "'h textproto \<Rightarrow> codecs \<Rightarrow> bytes list \<Rightarrow> 'h \<Rightarrow> bytes \<Rightarrow> stamp \<Rightarrow> bytes option" where
  "maybeBanner T C cfs h body s = (if \<not> bannerableText T C h then Some body
     else case decodeText C body (tp_get T ''Content-Transfer-Encoding'' h) of
         None \<Rightarrow> Some body
       | Some (decoded, encode) \<Rightarrow> map_option encode (applyBanner cfs s decoded))"

section \<open>Strip and Sanitize\<close>

datatype rewrite_err = HeaderUnparseable | HeaderUnwritable | BannerPanic

definition stamp_header :: "'h textproto \<Rightarrow> stamp \<Rightarrow> 'h \<Rightarrow> 'h" where
  "stamp_header T s h = (
     let h0 = tp_del T in_namespace h;
         h1 = (if sp_trust s \<noteq> '''' then tp_set T TrustHeader (sp_trust s) h0 else h0);
         h2 = (if sp_note s \<noteq> '''' then tp_set T NoteHeader (headerSafe (sp_note s)) h1 else h1);
         h3 = (if sp_risk s \<noteq> '''' then tp_set T RiskHeader (headerSafe (sp_risk s)) h2 else h2)
     in if sp_risk_factors s \<noteq> '''' then tp_set T RiskFactorsHeader (headerSafe (sp_risk_factors s)) h3 else h3)"

definition prov_rewrite :: "'h textproto \<Rightarrow> codecs \<Rightarrow> bytes list \<Rightarrow> bytes \<Rightarrow> stamp \<Rightarrow> rewrite_err + bytes" where
  "prov_rewrite T C cfs raw s = (case tp_read T raw of
       None \<Rightarrow> if hasNamespaceHeaderLine raw then Inl HeaderUnparseable else Inr raw
     | Some (h, body) \<Rightarrow>
         let h' = stamp_header T s h
         in case (if sp_banner s then maybeBanner T C cfs h' body s else Some body) of
              None \<Rightarrow> Inl BannerPanic
            | Some body' \<Rightarrow>
                (case tp_write T h' of None \<Rightarrow> Inl HeaderUnwritable | Some hb \<Rightarrow> Inr (hb @ body')))"

definition prov_Strip :: "'h textproto \<Rightarrow> codecs \<Rightarrow> bytes list \<Rightarrow> bytes \<Rightarrow> rewrite_err + bytes" where
  "prov_Strip T C cfs raw = prov_rewrite T C cfs raw stamp_zero"

definition prov_Sanitize :: "'h textproto \<Rightarrow> codecs \<Rightarrow> bytes list \<Rightarrow> bytes \<Rightarrow> stamp \<Rightarrow> rewrite_err + bytes" where
  "prov_Sanitize T C cfs raw s = prov_rewrite T C cfs raw s"

section \<open>The namespace belongs to the gate\<close>

definition stamped :: "stamp \<Rightarrow> (string \<times> string) list" where
  "stamped s =
     (if sp_trust s \<noteq> '''' then [(TrustHeader, sp_trust s)] else [])
   @ (if sp_note s \<noteq> '''' then [(NoteHeader, headerSafe (sp_note s))] else [])
   @ (if sp_risk s \<noteq> '''' then [(RiskHeader, headerSafe (sp_risk s))] else [])
   @ (if sp_risk_factors s \<noteq> '''' then [(RiskFactorsHeader, headerSafe (sp_risk_factors s))] else [])"

definition ns_fields :: "'h textproto \<Rightarrow> 'h \<Rightarrow> (string \<times> string) list" where
  "ns_fields T h = filter (\<lambda>f. in_namespace (fst f)) (tp_fields T h)"

definition other_fields :: "'h textproto \<Rightarrow> 'h \<Rightarrow> (string \<times> string) list" where
  "other_fields T h = filter (\<lambda>f. \<not> in_namespace (fst f)) (tp_fields T h)"

lemma equal_fold_namespace: "equal_fold a b \<Longrightarrow> in_namespace a = in_namespace b"
  by (simp add: equal_fold_def in_namespace_def)

lemma del_fields:
  assumes "textproto_laws T"
  shows "ns_fields T (tp_del T in_namespace h) = []" "other_fields T (tp_del T in_namespace h) = other_fields T h"
  using assms by (simp_all add: textproto_laws_def ns_fields_def other_fields_def)

lemma set_fields:
  assumes "textproto_laws T" "in_namespace k"
  shows "set (ns_fields T (tp_set T k v h)) = insert (k, v) {f \<in> set (ns_fields T h). \<not> equal_fold (fst f) k}"
    and "other_fields T (tp_set T k v h) = other_fields T h"
proof -
  let ?h = "tp_set T k v h"
  have s: "filter (\<lambda>f. equal_fold (fst f) k) (tp_fields T ?h) = [(k, v)]"
    and o: "filter (\<lambda>f. \<not> equal_fold (fst f) k) (tp_fields T ?h) = filter (\<lambda>f. \<not> equal_fold (fst f) k) (tp_fields T h)"
    using assms(1) by (simp_all add: textproto_laws_def)
  have "set (tp_fields T ?h) = {f \<in> set (tp_fields T ?h). equal_fold (fst f) k} \<union> {f \<in> set (tp_fields T ?h). \<not> equal_fold (fst f) k}"
    by blast
  also have "\<dots> = insert (k, v) {f \<in> set (tp_fields T h). \<not> equal_fold (fst f) k}"
    using arg_cong [OF s, of set] arg_cong [OF o, of set] by auto
  finally show "set (ns_fields T ?h) = insert (k, v) {f \<in> set (ns_fields T h). \<not> equal_fold (fst f) k}"
    using assms(2) by (auto simp: ns_fields_def)
  have f: "filter (\<lambda>f. \<not> in_namespace (fst f)) xs = filter (\<lambda>f. \<not> in_namespace (fst f)) (filter (\<lambda>f. \<not> equal_fold (fst f) k) xs)" for xs
    using assms(2) equal_fold_namespace by (simp add: filter_filter) (intro filter_cong, auto)
  show "other_fields T ?h = other_fields T h"
    unfolding other_fields_def using f o by metis
qed

lemma stamp_names:
  "in_namespace TrustHeader" "in_namespace NoteHeader" "in_namespace RiskHeader" "in_namespace RiskFactorsHeader"
  "\<not> equal_fold TrustHeader NoteHeader" "\<not> equal_fold TrustHeader RiskHeader" "\<not> equal_fold TrustHeader RiskFactorsHeader"
  "\<not> equal_fold NoteHeader RiskHeader" "\<not> equal_fold NoteHeader RiskFactorsHeader" "\<not> equal_fold RiskHeader RiskFactorsHeader"
  by code_simp+

lemma stamp_header_fields:
  assumes "textproto_laws T"
  shows "set (ns_fields T (stamp_header T s h)) = set (stamped s)"
    and "other_fields T (stamp_header T s h) = other_fields T h"
  using assms stamp_names
  by (auto simp: stamp_header_def Let_def stamped_def set_fields del_fields)


text \<open>A header library on lists of fields, for instances.\<close>

definition list_textproto :: "(bytes \<Rightarrow> ((string \<times> string) list \<times> bytes) option) \<Rightarrow> ((string \<times> string) list \<Rightarrow> bytes option)
    \<Rightarrow> (string \<times> string) list textproto" where
  "list_textproto rd wr = \<lparr>tp_read = rd, tp_fields = (\<lambda>h. h),
     tp_set = (\<lambda>k v h. (k, v) # filter (\<lambda>f. \<not> equal_fold (fst f) k) h),
     tp_del = (\<lambda>P h. filter (\<lambda>f. \<not> P (fst f)) h), tp_write = wr\<rparr>"

lemma list_textproto_laws: "textproto_laws (list_textproto rd wr)"
  by (simp add: textproto_laws_def list_textproto_def)

definition sample_codecs :: codecs where
  "sample_codecs = \<lparr>cd_parse_address = (\<lambda>s. Some s), cd_parse_address_list = (\<lambda>s. Some [s]),
     cd_media_type = (\<lambda>s. Some (s, '''')), cd_qp_decode = (\<lambda>b. Some b), cd_qp_encode = (\<lambda>b. b),
     cd_b64_decode = (\<lambda>b. Some b), cd_b64_encode = (\<lambda>b. b)\<rparr>"


section \<open>No live banner marker survives\<close>

definition cf_laws :: "bytes list \<Rightarrow> bool" where
  "cf_laws cfs \<longleftrightarrow> (\<forall>x \<in> set cfs. \<forall>c \<in> set x. (128 :: nat) \<le> of_char c)"

text \<open>A marker occurs somewhere in the text.\<close>

fun has_marker :: "bytes list \<Rightarrow> bytes \<Rightarrow> bytes \<Rightarrow> bool" where
  "has_marker cfs pat [] = False"
| "has_marker cfs pat (b # bs) = (match_marker cfs pat (b # bs) \<noteq> None \<or> has_marker cfs pat bs)"

definition ascii_start :: "bytes \<Rightarrow> bool" where
  "ascii_start w \<longleftrightarrow> w = [] \<or> (of_char (hd w) :: nat) < 128"

declare skip_cf.simps [simp del]

lemma cf_prefix_append:
  assumes "cf_laws cfs" "ascii_start w" "x \<in> set cfs" "x \<noteq> []"
  shows "has_prefix (v @ w) x = has_prefix v x"
proof
  assume "has_prefix (v @ w) x"
  then obtain t where "v @ w = x @ t" by (auto simp: has_prefix_iff)
  then obtain us where us: "(v = x @ us \<and> us @ w = t) \<or> (v @ us = x \<and> w = us @ t)"
    by (auto simp: append_eq_append_conv2)
  show "has_prefix v x"
  proof (cases us)
    case Nil
    then show ?thesis using us by (auto simp: has_prefix_iff)
  next
    case (Cons a as)
    have "v @ us \<noteq> x \<or> w \<noteq> us @ t"
    proof (rule ccontr)
      assume "\<not> (v @ us \<noteq> x \<or> w \<noteq> us @ t)"
      then have "a \<in> set x" "hd w = a" "w \<noteq> []" using Cons by auto
      then have "(128 :: nat) \<le> of_char a" "(of_char a :: nat) < 128"
        using assms(1,3) assms(2) by (blast intro: bspec [OF bspec [OF assms(1) [unfolded cf_laws_def]]], simp add: ascii_start_def)
      then show False by simp
    qed
    then show ?thesis using us by (auto simp: has_prefix_iff)
  qed
qed (auto simp: has_prefix_iff)

lemma skip_cf_append:
  assumes "cf_laws cfs" "ascii_start w"
  shows "skip_cf cfs (v @ w) = skip_cf cfs v @ w"
proof (induction "length v" arbitrary: v rule: less_induct)
  case less
  have eq: "find (\<lambda>x. x \<noteq> [] \<and> has_prefix (v @ w) x) cfs = find (\<lambda>x. x \<noteq> [] \<and> has_prefix v x) cfs"
    using cf_prefix_append [OF assms] by (intro find_cong) auto
  show ?case
  proof (cases "find (\<lambda>x. x \<noteq> [] \<and> has_prefix v x) cfs")
    case None
    then show ?thesis by (simp add: skip_cf.simps [of cfs "v @ w"] skip_cf.simps [of cfs v] eq)
  next
    case (Some x)
    then have x: "x \<noteq> []" "has_prefix v x" using find_Some_set by fastforce+
    then have l: "length x \<le> length v" by (auto simp: has_prefix_iff)
    then have "drop (length x) (v @ w) = drop (length x) v @ w" by simp
    moreover have "length (drop (length x) v) < length v" using x l by (cases x) auto
    ultimately show ?thesis using less [of "drop (length x) v"] Some
      by (simp add: skip_cf.simps [of cfs "v @ w"] skip_cf.simps [of cfs v] eq)
  qed
qed

definition no_bracket :: "bytes \<Rightarrow> bool" where
  "no_bracket pat \<longleftrightarrow> CHR ''['' \<notin> set pat"

lemma lower_bracket: "lower_char x = CHR ''['' \<longleftrightarrow> x = CHR ''[''"
proof
  assume a: "lower_char x = CHR ''[''"
  show "x = CHR ''[''"
  proof (cases "65 \<le> (of_char x :: nat) \<and> (of_char x :: nat) \<le> 90")
    case True
    then have l: "lower_char x = char_of ((of_char x :: nat) + 32)" by (simp add: lower_char_def)
    have "(of_char (char_of ((of_char x :: nat) + 32) :: char) :: nat) = of_char x + 32"
      using True by (simp add: take_bit_eq_mod)
    with a l True show ?thesis by simp
  next
    case False
    then show ?thesis using a by (simp add: lower_char_def split: if_splits)
  qed
qed (simp add: lower_char_def)

lemma fold1_gap:
  assumes "c \<noteq> CHR ''[''" "fold1 c (q @ CHR ''['' # z) = Some t"
  shows "\<exists>q'. t = q' @ CHR ''['' # z \<and> (\<forall>w. fold1 c (q @ w) = Some (q' @ w))"
proof (cases q)
  case Nil
  have "lower_char (CHR ''['') \<noteq> lower_char c" using assms(1) lower_bracket [of c] by (metis lower_bracket)
  moreover have "CHR ''['' \<noteq> char_of (197 :: nat)" by code_simp
  ultimately show ?thesis using assms(2) Nil by (simp add: fold1_def split: if_splits)
next
  case (Cons x q1)
  show ?thesis
  proof (cases "lower_char x = lower_char c")
    case True
    then show ?thesis using assms(2) Cons by (auto simp: fold1_def)
  next
    case False
    then have s: "lower_char c = CHR ''s''" "has_prefix (x # q1 @ CHR ''['' # z) [char_of (197 :: nat), char_of (191 :: nat)]"
      and t: "t = drop 2 (x # q1 @ CHR ''['' # z)"
      using assms(2) Cons by (simp_all add: fold1_def split: if_splits)
    have "CHR ''['' \<noteq> char_of (191 :: nat)" by code_simp
    then obtain y q2 where q1: "q1 = y # q2" using s(2) by (cases q1) auto
    then show ?thesis using False s t Cons by (auto simp: fold1_def)
  qed
qed

lemma match_rest_gap:
  assumes "cf_laws cfs" "no_bracket pat" "match_rest cfs pat (v @ CHR ''['' # z) = Some t"
  shows "\<exists>v'. t = v' @ CHR ''['' # z \<and> (\<forall>w. ascii_start w \<longrightarrow> match_rest cfs pat (v @ w) = Some (v' @ w))"
  using assms(2,3)
proof (induction pat arbitrary: v)
  case Nil
  then show ?case by auto
next
  case (Cons c cs)
  have b: "ascii_start (CHR ''['' # z)" by (simp add: ascii_start_def)
  have c: "c \<noteq> CHR ''[''" using Cons.prems(1) by (auto simp: no_bracket_def)
  obtain t1 where t1: "fold1 c (skip_cf cfs v @ CHR ''['' # z) = Some t1" "match_rest cfs cs t1 = Some t"
    using Cons.prems(2) skip_cf_append [OF assms(1) b, of v] by (auto split: option.splits)
  obtain q where q: "t1 = q @ CHR ''['' # z" "\<forall>w. fold1 c (skip_cf cfs v @ w) = Some (q @ w)"
    using fold1_gap [OF c t1(1)] by blast
  have "no_bracket cs" using Cons.prems(1) by (simp add: no_bracket_def)
  from Cons.IH [OF this t1(2) [unfolded q(1)]] obtain v' where
    v': "t = v' @ CHR ''['' # z" "\<forall>w. ascii_start w \<longrightarrow> match_rest cfs cs (q @ w) = Some (v' @ w)" by blast
  have "match_rest cfs (c # cs) (v @ w) = Some (v' @ w)" if "ascii_start w" for w
    using that v'(2) q(2) skip_cf_append [OF assms(1) that, of v] by simp
  with v'(1) show ?case by blast
qed

lemma match_marker_gap:
  assumes "cf_laws cfs" "no_bracket pat" "match_marker cfs pat (v @ CHR ''['' # z) \<noteq> None" "ascii_start w"
  shows "match_marker cfs pat (v @ w) \<noteq> None"
proof (cases pat)
  case (Cons c cs)
  have c: "c \<noteq> CHR ''[''" "no_bracket cs" using assms(2) Cons by (auto simp: no_bracket_def)
  obtain t1 t where t1: "fold1 c (v @ CHR ''['' # z) = Some t1" "match_rest cfs cs t1 = Some t"
    using assms(3) Cons by (auto simp: match_marker_def split: option.splits)
  obtain q where q: "t1 = q @ CHR ''['' # z" "\<forall>w. fold1 c (v @ w) = Some (q @ w)"
    using fold1_gap [OF c(1) t1(1)] by blast
  from match_rest_gap [OF assms(1) c(2) t1(2) [unfolded q(1)]] assms(4) q(2) Cons show ?thesis
    by (auto simp: match_marker_def)
qed (simp add: match_marker_def)

text \<open>What a replacement leaves is the text itself, up to the first replaced marker.\<close>

definition marker_like :: "bytes \<Rightarrow> bool" where
  "marker_like pat \<longleftrightarrow> no_bracket pat \<and> (\<exists>ps. pat = CHR ''-'' # CHR ''-'' # ps)"

lemma lower_hyphen: "lower_char x = CHR ''-'' \<longleftrightarrow> x = CHR ''-''"
proof
  assume a: "lower_char x = CHR ''-''"
  show "x = CHR ''-''"
  proof (cases "65 \<le> (of_char x :: nat) \<and> (of_char x :: nat) \<le> 90")
    case True
    then have l: "lower_char x = char_of ((of_char x :: nat) + 32)" by (simp add: lower_char_def)
    have "(of_char (char_of ((of_char x :: nat) + 32) :: char) :: nat) = of_char x + 32"
      using True by (simp add: take_bit_eq_mod)
    with a l True show ?thesis by simp
  next
    case False
    then show ?thesis using a by (simp add: lower_char_def split: if_splits)
  qed
qed (simp add: lower_char_def)

lemma fold1_hyphen: "fold1 CHR ''-'' s = Some r \<longleftrightarrow> s = CHR ''-'' # r"
proof -
  have h: "lower_char CHR ''-'' = CHR ''-''" by (simp add: lower_hyphen)
  show ?thesis unfolding fold1_def h by (auto simp: lower_hyphen split: list.splits)
qed

lemma match_marker_start:
  assumes "marker_like pat" "match_marker cfs pat s = Some r"
  shows "\<exists>x y. s = CHR ''-'' # x \<and> skip_cf cfs x = CHR ''-'' # y"
  using assms by (auto simp: marker_like_def match_marker_def fold1_hyphen split: option.splits)

lemma replace_gap:
  assumes "marker_like pat" "repl = CHR ''['' # rest0"
  shows "\<exists>g rest w. replace_markers cfs pat repl s = g @ rest \<and> s = g @ w
    \<and> (rest = [] \<and> w = [] \<or> (\<exists>z. rest = CHR ''['' # z) \<and> ascii_start w)"
proof (induction s rule: length_induct)
  case (1 s)
  show ?case
  proof (cases s)
    case Nil
    then show ?thesis by simp
  next
    case (Cons b bs)
    then have "length bs < length s" by simp
    from 1 [rule_format, OF this] obtain g rest w where g: "replace_markers cfs pat repl bs = g @ rest" "bs = g @ w"
      "rest = [] \<and> w = [] \<or> (\<exists>z. rest = CHR ''['' # z) \<and> ascii_start w"
      by blast
    show ?thesis
    proof (cases "match_marker cfs pat (b # bs)")
      case None
      then have "replace_markers cfs pat repl s = (b # g) @ rest \<and> s = (b # g) @ w"
        using g Cons by simp
      then show ?thesis using g(3) by blast
    next
      case (Some r)
      then have "b = CHR ''-''" using match_marker_start [OF assms(1)] by blast
      then have a: "ascii_start s" using Cons by (simp add: ascii_start_def)
      show ?thesis
      proof (cases "length r < length (b # bs)")
        case True
        then have "replace_markers cfs pat repl s = [] @ (CHR ''['' # rest0 @ replace_markers cfs pat repl r) \<and> s = [] @ s"
          using Some Cons assms(2) by simp
        then show ?thesis using a by blast
      next
        case False
        then have "replace_markers cfs pat repl s = (b # g) @ rest \<and> s = (b # g) @ w"
          using Some g Cons by simp
        then show ?thesis using g(3) by blast
      qed
    qed
  qed
qed

lemma fold1_shorter: "fold1 c s = Some r \<Longrightarrow> length r < length s"
  by (auto simp: fold1_def split: list.splits if_splits)

lemma skip_cf_length: "length (skip_cf cfs s) \<le> length s"
proof (induction cfs s rule: skip_cf.induct)
  case (1 cfs s)
  show ?case
    using 1 by (subst skip_cf.simps) (auto split: option.splits intro: le_trans)
qed

lemma match_rest_length: "match_rest cfs pat s = Some r \<Longrightarrow> length r \<le> length s"
proof (induction pat arbitrary: s)
  case (Cons c cs)
  then obtain t where "fold1 c (skip_cf cfs s) = Some t" "match_rest cfs cs t = Some r"
    by (auto split: option.splits)
  with Cons.IH fold1_shorter skip_cf_length [of cfs s] show ?case by fastforce
qed simp

lemma match_marker_shorter: "marker_like pat \<Longrightarrow> match_marker cfs pat s = Some r \<Longrightarrow> length r < length s"
  by (auto simp: marker_like_def match_marker_def split: option.splits
      dest!: fold1_shorter match_rest_length) (meson fold1_shorter less_le_trans match_rest_length order.strict_trans1 skip_cf_length less_trans)

text \<open>A replacement text in brackets, with no two hyphens in a row, contains no start of a marker.\<close>

fun no_double_hyphen :: "bytes \<Rightarrow> bool" where
  "no_double_hyphen [] = True"
| "no_double_hyphen (b # bs) = ((b = CHR ''-'' \<longrightarrow> bs \<noteq> [] \<and> hd bs \<noteq> CHR ''-'' \<and> (of_char (hd bs) :: nat) < 128) \<and> no_double_hyphen bs)"

lemma skip_cf_ascii:
  assumes "cf_laws cfs" "(of_char a :: nat) < 128"
  shows "skip_cf cfs (a # s) = a # s"
proof -
  have "find (\<lambda>x. x \<noteq> [] \<and> has_prefix [] x) cfs = None" by (auto simp: find_None_iff has_prefix_iff)
  then have "skip_cf cfs [] = []" by (subst skip_cf.simps) simp
  then show ?thesis
    using skip_cf_append [OF assms(1), of "a # s" "[]"] assms(2) by (simp add: ascii_start_def)
qed

lemma no_marker_in_replacement:
  assumes "cf_laws cfs" "marker_like pat" "no_double_hyphen u"
  shows "has_marker cfs pat (u @ s) = has_marker cfs pat s"
  using assms(3)
proof (induction u)
  case (Cons b u)
  have "match_marker cfs pat (b # u @ s) = None"
  proof (rule ccontr)
    assume "match_marker cfs pat (b # u @ s) \<noteq> None"
    then obtain y where "b = CHR ''-''" "skip_cf cfs (u @ s) = CHR ''-'' # y"
      using match_marker_start [OF assms(2)] by fastforce
    with Cons.prems show False using skip_cf_ascii [OF assms(1)] by (cases u) auto
  qed
  with Cons show ?case by simp
qed simp

lemma has_marker_suffix: "has_marker cfs pat (u @ s) = False \<Longrightarrow> \<not> has_marker cfs pat s"
  by (induction u) auto

lemma fold1_suffix: "fold1 c s = Some r \<Longrightarrow> \<exists>u. s = u @ r"
  by (auto simp: fold1_def has_prefix_iff split: list.splits if_splits intro: exI [of _ "[x]" for x]
      exI [of _ "[x, y]" for x y])

lemma skip_cf_suffix: "\<exists>u. s = u @ skip_cf cfs s"
proof (induction cfs s rule: skip_cf.induct)
  case (1 cfs s)
  show ?case
  proof (cases "find (\<lambda>x. x \<noteq> [] \<and> has_prefix s x) cfs")
    case None
    then show ?thesis by (subst skip_cf.simps) simp
  next
    case (Some x)
    then obtain u where "drop (length x) s = u @ skip_cf cfs (drop (length x) s)" using 1 by blast
    moreover have "skip_cf cfs s = skip_cf cfs (drop (length x) s)" using Some by (subst skip_cf.simps) simp
    ultimately show ?thesis by (metis append.assoc append_take_drop_id)
  qed
qed

lemma match_rest_suffix: "match_rest cfs pat s = Some r \<Longrightarrow> \<exists>u. s = u @ r"
proof (induction pat arbitrary: s)
  case (Cons c cs)
  then obtain t where t: "fold1 c (skip_cf cfs s) = Some t" "match_rest cfs cs t = Some r"
    by (auto split: option.splits)
  from Cons.IH [OF t(2)] fold1_suffix [OF t(1)] skip_cf_suffix [of s cfs] show ?case
    by (metis append.assoc)
qed simp

lemma match_marker_suffix: "match_marker cfs pat s = Some r \<Longrightarrow> \<exists>u. s = u @ r"
  unfolding match_marker_def
  by (auto split: list.splits option.splits dest!: fold1_suffix match_rest_suffix)

text \<open>Replacing the markers \<open>pat\<close> leaves no marker \<open>q\<close> if every \<open>q\<close> of the text is a \<open>pat\<close>.\<close>

lemma replace_no_marker:
  assumes laws: "cf_laws cfs" and m: "marker_like pat" "marker_like q"
    and repl: "repl = CHR ''['' # rest0" "no_double_hyphen repl"
    and only: "\<And>u t. s = u @ t \<Longrightarrow> match_marker cfs pat t = None \<Longrightarrow> match_marker cfs q t = None"
  shows "\<not> has_marker cfs q (replace_markers cfs pat repl s)"
  using only
proof (induction s rule: length_induct)
  case (1 s)
  show ?case
  proof (cases s)
    case Nil
    then show ?thesis by simp
  next
    case (Cons b bs)
    have sub: "\<not> has_marker cfs q (replace_markers cfs pat repl t)" if "s = u @ t" "length t < length s" for u t
      using 1 that by (metis append.assoc)
    show ?thesis
    proof (cases "match_marker cfs pat s")
      case (Some r)
      then have l: "length r < length s" using match_marker_shorter [OF m(1)] by blast
      have eq: "replace_markers cfs pat repl s = repl @ replace_markers cfs pat repl r"
        using Some l Cons by simp
      obtain u where "s = u @ r" using match_marker_suffix [OF Some] by blast
      then have "\<not> has_marker cfs q (replace_markers cfs pat repl r)" using l sub by blast
      then show ?thesis unfolding eq using no_marker_in_replacement [OF laws m(2) repl(2)] by simp
    next
      case None
      then have q: "match_marker cfs q s = None" using 1(2) [of "[]" s] by simp
      obtain g rest w where g: "replace_markers cfs pat repl bs = g @ rest" "bs = g @ w"
        "rest = [] \<and> w = [] \<or> (\<exists>z. rest = CHR ''['' # z) \<and> ascii_start w"
        using replace_gap [OF m(1) repl(1)] by blast
      have "match_marker cfs q ((b # g) @ rest) = None"
      proof (rule ccontr)
        assume "match_marker cfs q ((b # g) @ rest) \<noteq> None"
        then have "match_marker cfs q ((b # g) @ w) \<noteq> None"
          using g(3) match_marker_gap [OF laws, of q "b # g"] m(2) by (auto simp: marker_like_def)
        then show False using q g(2) Cons by simp
      qed
      moreover have "\<not> has_marker cfs q (replace_markers cfs pat repl bs)"
        using sub [of "[b]" bs] Cons by simp
      ultimately show ?thesis using None Cons g(1) by simp
    qed
  qed
qed

lemma no_marker_suffix: "\<not> has_marker cfs pat s \<Longrightarrow> s = u @ t \<Longrightarrow> pat \<noteq> [] \<Longrightarrow> match_marker cfs pat t = None"
proof (cases t)
  case Nil
  assume "pat \<noteq> []"
  then show ?thesis using Nil by (cases pat) (simp_all add: match_marker_def fold1_def)
next
  case (Cons b bs)
  assume "\<not> has_marker cfs pat s" "s = u @ t"
  then have "\<not> has_marker cfs pat (b # bs)" using has_marker_suffix [of cfs pat u t] Cons by simp
  then show ?thesis using Cons by simp
qed

lemma replace_none: "\<not> has_marker cfs pat s \<Longrightarrow> replace_markers cfs pat repl s = s"
  by (induction s) (auto)

lemma banner_texts:
  "marker_like bannerBegin" "marker_like bannerEnd"
  "bannerBeginDefanged = CHR ''['' # tl bannerBeginDefanged" "no_double_hyphen bannerBeginDefanged"
  "bannerEndDefanged = CHR ''['' # tl bannerEndDefanged" "no_double_hyphen bannerEndDefanged"
  by (simp_all add: marker_like_def no_bracket_def bannerBegin_def bannerEnd_def bannerBeginDefanged_def bannerEndDefanged_def)

lemma round_no_marker:
  assumes "cf_laws cfs"
  shows "\<not> has_marker cfs bannerBegin (neutralize_round cfs body)" "\<not> has_marker cfs bannerEnd (neutralize_round cfs body)"
proof -
  let ?one = "replace_markers cfs bannerBegin bannerBeginDefanged body"
  have one: "\<not> has_marker cfs bannerBegin ?one"
    by (rule replace_no_marker [OF assms banner_texts(1,1,3,4)]) simp
  have ne: "bannerBegin \<noteq> []" by (simp add: bannerBegin_def)
  show "\<not> has_marker cfs bannerBegin (neutralize_round cfs body)"
    unfolding neutralize_round_def
    by (rule replace_no_marker [OF assms banner_texts(2,1,5,6)]) (rule no_marker_suffix [OF one _ ne])
  show "\<not> has_marker cfs bannerEnd (neutralize_round cfs body)"
    unfolding neutralize_round_def
    by (rule replace_no_marker [OF assms banner_texts(2,2,5,6)]) simp
qed

lemma no_marker_fixpoint:
  "\<not> has_marker cfs bannerBegin s \<Longrightarrow> \<not> has_marker cfs bannerEnd s \<Longrightarrow> neutralize_round cfs s = s"
  by (simp add: neutralize_round_def replace_none)

declare neutralize_loop.simps [simp del]

lemma neutralize_value: "cf_laws cfs \<Longrightarrow> neutralizeBanners cfs body = Some (neutralize_round cfs body)"
proof -
  assume "cf_laws cfs"
  then have "neutralize_round cfs (neutralize_round cfs body) = neutralize_round cfs body"
    using round_no_marker no_marker_fixpoint by blast
  then show ?thesis
    by (simp add: neutralizeBanners_def neutralize_loop.simps [of cfs 0 body]
        neutralize_loop.simps [of cfs "Suc 0" "neutralize_round cfs body"] Let_def)
qed

text \<open>C15: \<open>neutralizeBanners\<close> never reaches its panic, and what it returns contains no banner marker,
  in any case and with any format runes between its characters; a text without markers is returned
  unchanged.\<close>

theorem neutralize_total_and_clean:
  assumes "cf_laws cfs"
  shows "\<exists>r. neutralizeBanners cfs body = Some r \<and> \<not> has_marker cfs bannerBegin r \<and> \<not> has_marker cfs bannerEnd r
    \<and> (\<not> has_marker cfs bannerBegin body \<and> \<not> has_marker cfs bannerEnd body \<longrightarrow> r = body)"
  using neutralize_value [OF assms] round_no_marker [OF assms] no_marker_fixpoint by blast

theorem neutralize_total_and_clean_witness:
  "\<exists>r. neutralizeBanners [[char_of (226 :: nat), char_of (128 :: nat), char_of (139 :: nat)]]
      (bannerBegin @ bannerEnd) = Some r
    \<and> \<not> has_marker [[char_of (226 :: nat), char_of (128 :: nat), char_of (139 :: nat)]] bannerBegin r"
  using neutralize_total_and_clean [of "[[char_of (226 :: nat), char_of (128 :: nat), char_of (139 :: nat)]]" "bannerBegin @ bannerEnd"]
  by (auto simp: cf_laws_def)

text \<open>The banner of the stamp ends where its end marker first occurs.\<close>

definition stamp_closed :: "stamp \<Rightarrow> bool" where
  "stamp_closed s \<longleftrightarrow> contains_str (bannerBlock s) bannerEnd \<and> after_first (bannerBlock s) bannerEnd = crlf @ crlf"

lemma strip_block: "stamp_closed s \<Longrightarrow> stripBanner (bannerBlock s @ b) = b"
proof -
  assume s: "stamp_closed s"
  have "has_prefix (bannerBlock s @ b) bannerBegin" by (simp add: bannerBlock_def)
  moreover have "contains_str (bannerBlock s @ b) bannerEnd"
    using s by (auto simp: stamp_closed_def contains_str_iff) (metis append.assoc)
  ultimately show ?thesis
    using s after_first_append [of "bannerBlock s" bannerEnd b]
    by (simp add: stripBanner_def stamp_closed_def trim_prefix_def crlf_def)
qed



end
