(* ===== verification/Opidentity.thy ===== *)
theory Opidentity
  imports Provenance
begin

text \<open>Model of \<open>internal/opidentity/opidentity.go\<close>: the operator-identity list that lets a submission
  skip the approval hold. The list is the list of its canonical addresses; the address parser of
  \<open>net/mail\<close> is \<open>cd_parse_address\<close>, the YAML decoder's result the argument of \<open>Parse\<close>.\<close>

type_synonym opidentities = "string list"

datatype opid_err = OpEmptyEntry | OpWildcard | OpNoAddress | OpInvalidAddress | OpAt nat string opid_err | OpUnparseable

definition op_parseAddress :: "codecs \<Rightarrow> string \<Rightarrow> opid_err + string" where
  "op_parseAddress C s = (case cd_parse_address C s of
       Some a \<Rightarrow> if a = '''' then Inl OpNoAddress else Inr (NormalizeAddress a)
     | None \<Rightarrow>
         (case cd_parse_address C (trim_suffix (trim_prefix (trim_space s) ''<'') ''>'') of
            None \<Rightarrow> Inl OpInvalidAddress
          | Some a \<Rightarrow> Inr (NormalizeAddress a)))"

definition op_validateEntry :: "codecs \<Rightarrow> string \<Rightarrow> opid_err + string" where
  "op_validateEntry C raw = (
     let trimmed = trim_space raw
     in if trimmed = '''' then Inl OpEmptyEntry
        else if contains_str trimmed ''*'' then Inl OpWildcard
        else op_parseAddress C trimmed)"

fun op_entries :: "codecs \<Rightarrow> nat \<Rightarrow> string list \<Rightarrow> opid_err + opidentities" where
  "op_entries C i [] = Inr []"
| "op_entries C i (raw # rs) = (case op_validateEntry C raw of
       Inl e \<Rightarrow> Inl (OpAt i raw e)
     | Inr norm \<Rightarrow> (case op_entries C (i + 1) rs of Inl e \<Rightarrow> Inl e | Inr l \<Rightarrow> Inr (List.insert norm l)))"

definition op_New :: "codecs \<Rightarrow> string list \<Rightarrow> opid_err + opidentities" where
  "op_New C entries = (if entries = [] then Inr [] else op_entries C 0 entries)"

definition op_Parse :: "codecs \<Rightarrow> string list option \<Rightarrow> opid_err + opidentities" where
  "op_Parse C decoded = (case decoded of None \<Rightarrow> Inl OpUnparseable | Some es \<Rightarrow> op_New C es)"

definition op_Enabled :: "opidentities \<Rightarrow> bool" where
  "op_Enabled l \<longleftrightarrow> length l > 0"

definition op_Len :: "opidentities \<Rightarrow> nat" where
  "op_Len l = length l"

definition op_Match :: "codecs \<Rightarrow> opidentities \<Rightarrow> string \<Rightarrow> string option" where
  "op_Match C l addr = (if \<not> op_Enabled l then None
     else case op_parseAddress C addr of
         Inl e \<Rightarrow> None
       | Inr norm \<Rightarrow> if norm \<in> set l then Some norm else None)"

fun op_match_all :: "codecs \<Rightarrow> opidentities \<Rightarrow> string list \<Rightarrow> string list option" where
  "op_match_all C l [] = Some []"
| "op_match_all C l (r # rs) = (case op_Match C l r of
       None \<Rightarrow> None
     | Some norm \<Rightarrow> map_option (\<lambda>ms. norm # ms) (op_match_all C l rs))"

definition op_AllMatch :: "codecs \<Rightarrow> opidentities \<Rightarrow> string list \<Rightarrow> string list option" where
  "op_AllMatch C l rcpts = (if \<not> op_Enabled l \<or> rcpts = [] then None else op_match_all C l rcpts)"

section \<open>What matches\<close>

lemma op_Match_Some: "op_Match C l a = Some n \<longleftrightarrow> op_parseAddress C a = Inr n \<and> n \<in> set l"
  by (auto simp: op_Match_def op_Enabled_def split: sum.splits if_splits)

lemma op_match_all_Some:
  "op_match_all C l rs = Some ms \<longleftrightarrow> list_all2 (\<lambda>r n. op_parseAddress C r = Inr n \<and> n \<in> set l) rs ms"
proof (induction rs arbitrary: ms)
  case (Cons r rs)
  then show ?case
    using op_Match_Some [of C l r] by (cases "op_Match C l r") (auto simp: list_all2_Cons1)
qed auto

lemma op_entries_set:
  "op_entries C i es = Inr l \<Longrightarrow> set l = {n. \<exists>e \<in> set es. op_validateEntry C e = Inr n}"
proof (induction es arbitrary: i l)
  case (Cons e es)
  then show ?case by (auto split: sum.splits)
qed auto

lemma op_New_set: "op_New C es = Inr l \<Longrightarrow> set l = {n. \<exists>e \<in> set es. op_validateEntry C e = Inr n}"
  by (auto simp: op_New_def op_entries_set split: if_splits)

text \<open>The bypass applies only when it is configured and there is at least one recipient and every
  recipient, stripped of display name, brackets and case, is exactly a configured address; then the
  matches are the canonical forms in recipient order. An empty configuration or an empty recipient list
  never matches.\<close>

lemma opidentity_all_match_iff:
  assumes "op_New C entries = Inr l"
  shows "op_AllMatch C l rcpts = Some ms \<longleftrightarrow> rcpts \<noteq> [] \<and>
    list_all2 (\<lambda>r n. op_parseAddress C r = Inr n \<and> (\<exists>e \<in> set entries. op_validateEntry C e = Inr n)) rcpts ms"
proof (cases "rcpts = []")
  case False
  have s: "(\<lambda>r n. op_parseAddress C r = Inr n \<and> n \<in> set l)
    = (\<lambda>r n. op_parseAddress C r = Inr n \<and> (\<exists>e \<in> set entries. op_validateEntry C e = Inr n))"
    using op_New_set [OF assms] by auto
  show ?thesis
  proof (cases "l = []")
    case True
    then show ?thesis using False op_New_set [OF assms]
      by (cases rcpts) (auto simp: op_AllMatch_def op_Enabled_def list_all2_Cons1)
  next
    case e: False
    then show ?thesis using False op_match_all_Some [of C l rcpts ms]
      by (simp add: op_AllMatch_def op_Enabled_def s)
  qed
qed (simp add: op_AllMatch_def)

lemma opidentity_all_match_iff_witness:
  "op_AllMatch sample_codecs [''me@x.org''] [''Me@x.org'', ''you@x.org''] \<noteq> Some [''me@x.org'', ''you@x.org'']"
proof -
  have "op_New sample_codecs [''me@x.org''] = Inr [''me@x.org'']" by code_simp
  from opidentity_all_match_iff [OF this, of "[''Me@x.org'', ''you@x.org'']" "[''me@x.org'', ''you@x.org'']"] show ?thesis
    by (auto simp: op_validateEntry_def op_parseAddress_def sample_codecs_def)
qed

end
