(* ===== verification/Riskscore.thy ===== *)
theory Riskscore
  imports Provenance "HOL-Library.AList"
begin

text \<open>Model of \<open>internal/riskscore\<close>: composing the injection-risk score (\<open>score.go\<close>) and its
  configuration (\<open>config.go\<close>).

  A Go map is the list of its entries with distinct keys, in some iteration order. Scores are Go
  \<open>int\<close>s: each addition wraps at 64 bits. The YAML decoder is a third-party package; \<open>Parse\<close> takes
  its result.\<close>

section \<open>Configuration\<close>

type_synonym points = "(string \<times> int) list"

definition MaxScore :: int where "MaxScore = 100"

record bands =
  bd_low_max :: int
  bd_medium_max :: int

record risk_config =
  rc_baselines :: points
  rc_recipient_adjust :: points
  rc_factor_points :: points
  rc_bands :: bands
  rc_threshold :: int

definition FactorInstruction :: string where "FactorInstruction = ''instruction_to_reader''"
definition FactorSecretsRequest :: string where "FactorSecretsRequest = ''secrets_request''"
definition FactorHiddenDirectives :: string where "FactorHiddenDirectives = ''hidden_directives''"
definition FactorAttachmentDirectives :: string where "FactorAttachmentDirectives = ''attachment_directives''"

definition RecipientTo :: string where "RecipientTo = ''to''"
definition RecipientCc :: string where "RecipientCc = ''cc''"
definition RecipientBcc :: string where "RecipientBcc = ''bcc''"
definition RecipientUnknown :: string where "RecipientUnknown = ''''"

definition DefaultConfig :: risk_config where
  "DefaultConfig = \<lparr>
     rc_baselines = [(TrustTrusted, 0), (TrustUntrusted, 40), (TrustUnknown, 30)],
     rc_recipient_adjust = [(RecipientTo, 0), (RecipientCc, 5), (RecipientBcc, 10)],
     rc_factor_points = [(FactorInstruction, 40), (FactorSecretsRequest, 40),
                         (FactorHiddenDirectives, 30), (FactorAttachmentDirectives, 30)],
     rc_bands = \<lparr>bd_low_max = 33, bd_medium_max = 66\<rparr>,
     rc_threshold = 70\<rparr>"

datatype config_err = BandNegative int int | BandOrder int int | BandTooHigh int | ThresholdRange int
  | NoUnknownBaseline | BaselineNegative string int | UnknownPosition string | AdjustNegative string int
  | PointsNegative string int | ConfigUnparseable

fun first_error :: "('a \<Rightarrow> 'e option) \<Rightarrow> 'a list \<Rightarrow> 'e option" where
  "first_error f [] = None"
| "first_error f (x # xs) = (case f x of Some e \<Rightarrow> Some e | None \<Rightarrow> first_error f xs)"

definition risk_validate :: "risk_config \<Rightarrow> config_err option" where
  "risk_validate c = (
     let lo = bd_low_max (rc_bands c); med = bd_medium_max (rc_bands c)
     in if lo < 0 \<or> med < 0 then Some (BandNegative lo med)
        else if lo \<ge> med then Some (BandOrder lo med)
        else if med > MaxScore then Some (BandTooHigh med)
        else if rc_threshold c < 0 \<or> rc_threshold c > MaxScore then Some (ThresholdRange (rc_threshold c))
        else if map_of (rc_baselines c) TrustUnknown = None then Some NoUnknownBaseline
        else case first_error (\<lambda>(k, v). if v < 0 then Some (BaselineNegative k v) else None) (rc_baselines c) of
            Some e \<Rightarrow> Some e
          | None \<Rightarrow>
        (case first_error (\<lambda>(k, v). if k \<notin> {RecipientTo, RecipientCc, RecipientBcc} then Some (UnknownPosition k)
                              else if v < 0 then Some (AdjustNegative k v) else None) (rc_recipient_adjust c) of
            Some e \<Rightarrow> Some e
          | None \<Rightarrow> first_error (\<lambda>(k, v). if v < 0 then Some (PointsNegative k v) else None) (rc_factor_points c)))"

text \<open>What the decoder reads: an absent scalar is \<open>None\<close>.\<close>

record yaml_config =
  yc_baselines :: points
  yc_recipient_adjust :: points
  yc_factor_points :: points
  yc_low_max :: "int option"
  yc_medium_max :: "int option"
  yc_threshold :: "int option"

definition overlay :: "points \<Rightarrow> points \<Rightarrow> points" where
  "overlay base new = fold (\<lambda>(k, v) m. AList.update k v m) new base"

definition risk_Parse :: "yaml_config option \<Rightarrow> config_err + risk_config" where
  "risk_Parse decoded = (case decoded of
       None \<Rightarrow> Inl ConfigUnparseable
     | Some y \<Rightarrow>
         let d = DefaultConfig;
             cfg = \<lparr>rc_baselines = overlay (rc_baselines d) (yc_baselines y),
                    rc_recipient_adjust = overlay (rc_recipient_adjust d) (yc_recipient_adjust y),
                    rc_factor_points = overlay (rc_factor_points d) (yc_factor_points y),
                    rc_bands = \<lparr>bd_low_max = (case yc_low_max y of None \<Rightarrow> bd_low_max (rc_bands d) | Some v \<Rightarrow> v),
                                bd_medium_max = (case yc_medium_max y of None \<Rightarrow> bd_medium_max (rc_bands d) | Some v \<Rightarrow> v)\<rparr>,
                    rc_threshold = (case yc_threshold y of None \<Rightarrow> rc_threshold d | Some v \<Rightarrow> v)\<rparr>
         in case risk_validate cfg of Some e \<Rightarrow> Inl e | None \<Rightarrow> Inr cfg)"

definition risk_New :: "risk_config \<Rightarrow> config_err + risk_config" where
  "risk_New cfg = (case risk_validate cfg of Some e \<Rightarrow> Inl e | None \<Rightarrow> Inr cfg)"

section \<open>Scores\<close>

datatype band = BandLow | BandMedium | BandHigh
datatype hold_disposition = AgentHandled | Held

record cheap_result =
  ch_baseline :: int
  ch_recipient :: int
  ch_score :: int
  ch_trust :: string
  ch_gated :: bool

datatype hold_reason = ReasonCheap | ReasonReached int int | ReasonBelow int int | ReasonNotCleared string | ReasonTruncated

text \<open>The band of a not-cleared result is the empty string in the code: \<open>None\<close>.\<close>

record risk_result =
  rr_score :: int
  rr_band :: "band option"
  rr_disposition :: hold_disposition
  rr_baseline :: int
  rr_recipient :: int
  rr_factors :: "string list"
  rr_short_circuited :: bool
  rr_not_cleared :: bool
  rr_reason :: hold_reason

definition clamp :: "int \<Rightarrow> int" where
  "clamp n = (if n < 0 then 0 else if n > MaxScore then MaxScore else n)"

definition lookup0 :: "points \<Rightarrow> string \<Rightarrow> int" where
  "lookup0 m k = (case map_of m k of None \<Rightarrow> 0 | Some v \<Rightarrow> v)"

definition baselineFor :: "risk_config \<Rightarrow> string \<Rightarrow> int" where
  "baselineFor c trust = (case map_of (rc_baselines c) trust of Some v \<Rightarrow> v | None \<Rightarrow> lookup0 (rc_baselines c) TrustUnknown)"

definition CheapScore :: "risk_config \<Rightarrow> string \<Rightarrow> string \<Rightarrow> cheap_result" where
  "CheapScore c trust r = (
     let base = baselineFor c trust;
         radj = lookup0 (rc_recipient_adjust c) r;
         score = clamp (wrap64 (base + radj))
     in \<lparr>ch_baseline = base, ch_recipient = radj, ch_score = score, ch_trust = trust, ch_gated = (score \<ge> rc_threshold c)\<rparr>)"

definition risk_band :: "risk_config \<Rightarrow> int \<Rightarrow> band" where
  "risk_band c score = (if score < bd_low_max (rc_bands c) then BandLow
     else if score < bd_medium_max (rc_bands c) then BandMedium else BandHigh)"

definition risk_disposition :: "risk_config \<Rightarrow> int \<Rightarrow> hold_disposition \<times> hold_reason" where
  "risk_disposition c score = (if score \<ge> rc_threshold c then (Held, ReasonReached score (rc_threshold c))
     else (AgentHandled, ReasonBelow score (rc_threshold c)))"

definition add_points :: "risk_config \<Rightarrow> int \<Rightarrow> string list \<Rightarrow> int" where
  "add_points c start factors = foldl (\<lambda>t f. wrap64 (t + lookup0 (rc_factor_points c) f)) start factors"

definition Compose :: "risk_config \<Rightarrow> cheap_result \<Rightarrow> string list \<Rightarrow> risk_result" where
  "Compose c cheap factors = (
     if ch_gated cheap then
       \<lparr>rr_score = ch_score cheap, rr_band = Some (risk_band c (ch_score cheap)), rr_disposition = Held,
        rr_baseline = ch_baseline cheap, rr_recipient = ch_recipient cheap, rr_factors = [],
        rr_short_circuited = True, rr_not_cleared = False, rr_reason = ReasonCheap\<rparr>
     else
       let total = clamp (add_points c (ch_score cheap) factors);
           (disp, reason) = risk_disposition c total
       in \<lparr>rr_score = total, rr_band = Some (risk_band c total), rr_disposition = disp,
           rr_baseline = ch_baseline cheap, rr_recipient = ch_recipient cheap, rr_factors = factors,
           rr_short_circuited = False, rr_not_cleared = False, rr_reason = reason\<rparr>)"

definition risk_Assess :: "risk_config \<Rightarrow> string \<Rightarrow> string \<Rightarrow> string list \<Rightarrow> risk_result" where
  "risk_Assess c trust r factors = Compose c (CheapScore c trust r) factors"

definition NotCleared :: "string \<Rightarrow> risk_result" where
  "NotCleared reason = \<lparr>rr_score = 0, rr_band = None, rr_disposition = Held, rr_baseline = 0, rr_recipient = 0,
     rr_factors = [], rr_short_circuited = False, rr_not_cleared = True,
     rr_reason = ReasonNotCleared (if reason = ''''
       then ''held: assessment not cleared (assessor absent, unreachable, or errored)'' else reason)\<rparr>"

instantiation band :: linorder
begin

definition band_rank :: "band \<Rightarrow> nat" where
  "band_rank b = (case b of BandLow \<Rightarrow> 0 | BandMedium \<Rightarrow> 1 | BandHigh \<Rightarrow> 2)"

definition less_eq_band :: "band \<Rightarrow> band \<Rightarrow> bool" where
  "less_eq_band a b \<longleftrightarrow> band_rank a \<le> band_rank b"

definition less_band :: "band \<Rightarrow> band \<Rightarrow> bool" where
  "less_band a b \<longleftrightarrow> band_rank a < band_rank b"

instance
  by standard (auto simp: less_eq_band_def less_band_def band_rank_def split: band.splits)

end

section \<open>What the score is\<close>

lemma first_error_None: "first_error f xs = None \<longleftrightarrow> (\<forall>x \<in> set xs. f x = None)"
  by (induction xs) (auto split: option.split)

lemma validate_None:
  assumes "risk_validate c = None"
  shows "0 \<le> bd_low_max (rc_bands c)" "bd_low_max (rc_bands c) < bd_medium_max (rc_bands c)"
    "bd_medium_max (rc_bands c) \<le> 100" "0 \<le> rc_threshold c" "rc_threshold c \<le> 100"
    "map_of (rc_baselines c) TrustUnknown \<noteq> None"
    "\<forall>(k, v) \<in> set (rc_baselines c). 0 \<le> v" "\<forall>(k, v) \<in> set (rc_recipient_adjust c). 0 \<le> v"
    "\<forall>(k, v) \<in> set (rc_factor_points c). 0 \<le> v"
  using assms unfolding risk_validate_def Let_def MaxScore_def
  by (auto simp: first_error_None split: if_splits option.splits)

lemma lookup0_nonneg: "\<forall>(k, v) \<in> set m. 0 \<le> v \<Longrightarrow> 0 \<le> lookup0 m k"
  by (auto simp: lookup0_def dest!: map_of_SomeD split: option.splits)

lemma lookup0_bound: "\<forall>(k, v) \<in> set m. v \<le> B \<Longrightarrow> 0 \<le> B \<Longrightarrow> lookup0 m k \<le> B"
  by (auto simp: lookup0_def dest!: map_of_SomeD split: option.splits)

text \<open>Weights an operator may sensibly configure: none above 10^9.\<close>

definition weights_bounded :: "risk_config \<Rightarrow> bool" where
  "weights_bounded c \<longleftrightarrow> (\<forall>(k, v) \<in> set (rc_baselines c). v \<le> 10 ^ 9)
     \<and> (\<forall>(k, v) \<in> set (rc_recipient_adjust c). v \<le> 10 ^ 9) \<and> (\<forall>(k, v) \<in> set (rc_factor_points c). v \<le> 10 ^ 9)"

definition points_sum :: "risk_config \<Rightarrow> string list \<Rightarrow> int" where
  "points_sum c fs = (\<Sum>f \<leftarrow> fs. lookup0 (rc_factor_points c) f)"

lemma points_range:
  assumes "risk_validate c = None" "weights_bounded c"
  shows "0 \<le> lookup0 (rc_factor_points c) f \<and> lookup0 (rc_factor_points c) f \<le> 10 ^ 9"
  using lookup0_nonneg [OF validate_None(9) [OF assms(1)]] lookup0_bound [of "rc_factor_points c" "10 ^ 9"] assms(2)
  by (auto simp: weights_bounded_def)

lemma add_points_exact:
  assumes "risk_validate c = None" "weights_bounded c" "0 \<le> start" "start + 10 ^ 9 * int (length fs) < 2 ^ 63"
  shows "add_points c start fs = start + points_sum c fs"
  using assms(3,4)
proof (induction fs arbitrary: start)
  case Nil
  then show ?case by (simp add: add_points_def points_sum_def)
next
  case (Cons f fs)
  note r = points_range [OF assms(1,2), of f]
  have "in_int64 (start + lookup0 (rc_factor_points c) f)"
    using Cons.prems r by (simp add: in_int64_def)
  then have w: "wrap64 (start + lookup0 (rc_factor_points c) f) = start + lookup0 (rc_factor_points c) f"
    by (rule wrap64_id)
  have "add_points c start (f # fs) = add_points c (start + lookup0 (rc_factor_points c) f) fs"
    by (simp add: add_points_def w)
  also have "\<dots> = start + lookup0 (rc_factor_points c) f + points_sum c fs"
    by (rule Cons.IH) (use Cons.prems r in auto)
  finally show ?case by (simp add: points_sum_def)
qed

lemma points_sum_nonneg: "risk_validate c = None \<Longrightarrow> weights_bounded c \<Longrightarrow> 0 \<le> points_sum c fs"
  using points_range by (induction fs) (auto simp: points_sum_def)

lemma points_sum_append: "points_sum c (fs @ gs) = points_sum c fs + points_sum c gs"
  by (simp add: points_sum_def)

definition cheap_sum :: "risk_config \<Rightarrow> string \<Rightarrow> string \<Rightarrow> int" where
  "cheap_sum c trust r = baselineFor c trust + lookup0 (rc_recipient_adjust c) r"

lemma cheap_range:
  assumes "risk_validate c = None" "weights_bounded c"
  shows "0 \<le> cheap_sum c trust r \<and> cheap_sum c trust r \<le> 2 * 10 ^ 9"
proof -
  have base: "0 \<le> lookup0 (rc_baselines c) k \<and> lookup0 (rc_baselines c) k \<le> 10 ^ 9" for k
    using lookup0_nonneg [OF validate_None(7) [OF assms(1)]] lookup0_bound [of "rc_baselines c" "10 ^ 9"] assms(2)
    by (auto simp: weights_bounded_def)
  have "baselineFor c trust = lookup0 (rc_baselines c) trust \<or> baselineFor c trust = lookup0 (rc_baselines c) TrustUnknown"
    by (auto simp: baselineFor_def lookup0_def split: option.splits)
  then have "0 \<le> baselineFor c trust \<and> baselineFor c trust \<le> 10 ^ 9"
    using base [of trust] base [of TrustUnknown] by auto
  moreover have "0 \<le> lookup0 (rc_recipient_adjust c) r \<and> lookup0 (rc_recipient_adjust c) r \<le> 10 ^ 9"
    using lookup0_nonneg [OF validate_None(8) [OF assms(1)]] lookup0_bound [of "rc_recipient_adjust c" "10 ^ 9"] assms(2)
    by (auto simp: weights_bounded_def)
  ultimately show ?thesis unfolding cheap_sum_def by linarith
qed

lemma cheap_score:
  assumes "risk_validate c = None" "weights_bounded c"
  shows "ch_score (CheapScore c trust r) = min 100 (cheap_sum c trust r)"
    and "ch_gated (CheapScore c trust r) \<longleftrightarrow> rc_threshold c \<le> cheap_sum c trust r"
proof -
  note b = cheap_range [OF assms, of trust r]
  then have "wrap64 (cheap_sum c trust r) = cheap_sum c trust r"
    by (intro wrap64_id) (simp add: in_int64_def)
  then show s: "ch_score (CheapScore c trust r) = min 100 (cheap_sum c trust r)"
    using b by (simp add: CheapScore_def Let_def cheap_sum_def clamp_def MaxScore_def)
  have "ch_gated (CheapScore c trust r) \<longleftrightarrow> rc_threshold c \<le> ch_score (CheapScore c trust r)"
    by (simp add: CheapScore_def Let_def)
  then show "ch_gated (CheapScore c trust r) \<longleftrightarrow> rc_threshold c \<le> cheap_sum c trust r"
    using s validate_None(5) [OF assms(1)] by auto
qed

lemma Assess_value:
  assumes "risk_validate c = None" "weights_bounded c" "int (length fs) \<le> 10 ^ 9"
  shows "rr_score (risk_Assess c trust r fs) =
      (if rc_threshold c \<le> cheap_sum c trust r then min 100 (cheap_sum c trust r)
       else min 100 (cheap_sum c trust r + points_sum c fs))"
    and "rr_disposition (risk_Assess c trust r fs) = Held \<longleftrightarrow> rc_threshold c \<le> rr_score (risk_Assess c trust r fs)"
    and "rr_band (risk_Assess c trust r fs) = Some (risk_band c (rr_score (risk_Assess c trust r fs)))"
proof -
  note cs = cheap_score [OF assms(1,2), of trust r] and cr = cheap_range [OF assms(1,2), of trust r]
    and t = validate_None(4,5) [OF assms(1)] and ps = points_sum_nonneg [OF assms(1,2), of fs]
  have ad: "add_points c (cheap_sum c trust r) fs = cheap_sum c trust r + points_sum c fs"
    if "cheap_sum c trust r < rc_threshold c"
    by (rule add_points_exact [OF assms(1,2)]) (use cr t assms(3) that in auto)
  have sc: "ch_score (CheapScore c trust r) = cheap_sum c trust r" if "cheap_sum c trust r < rc_threshold c"
    using cs(1) t that by simp
  show "rr_score (risk_Assess c trust r fs) =
      (if rc_threshold c \<le> cheap_sum c trust r then min 100 (cheap_sum c trust r)
       else min 100 (cheap_sum c trust r + points_sum c fs))"
    using cs ad sc cr ps
    by (auto simp: risk_Assess_def Compose_def Let_def clamp_def MaxScore_def split: prod.split)
  show "rr_disposition (risk_Assess c trust r fs) = Held \<longleftrightarrow> rc_threshold c \<le> rr_score (risk_Assess c trust r fs)"
    using cs t by (auto simp: risk_Assess_def Compose_def Let_def risk_disposition_def)
  show "rr_band (risk_Assess c trust r fs) = Some (risk_band c (rr_score (risk_Assess c trust r fs)))"
    by (auto simp: risk_Assess_def Compose_def Let_def split: prod.split)
qed

text \<open>C17: under a valid configuration with weights up to 10^9 the score is the capped sum of the sender
  baseline, the recipient adjustment and, unless these alone reach the threshold, the points of the
  flagged factors; it lies between 0 and 100, the message is held exactly when it reaches the
  threshold, and an unrecognised trust level scores as the unknown one.\<close>

theorem risk_assess_sound:
  assumes "risk_validate c = None" "weights_bounded c" "int (length fs) \<le> 10 ^ 9"
  shows "0 \<le> rr_score (risk_Assess c trust r fs) \<and> rr_score (risk_Assess c trust r fs) \<le> 100
    \<and> rr_score (risk_Assess c trust r fs) =
        min 100 (cheap_sum c trust r + (if rc_threshold c \<le> cheap_sum c trust r then 0 else points_sum c fs))
    \<and> (rr_disposition (risk_Assess c trust r fs) = Held \<longleftrightarrow> rc_threshold c \<le> rr_score (risk_Assess c trust r fs))
    \<and> rr_band (risk_Assess c trust r fs) = Some (risk_band c (rr_score (risk_Assess c trust r fs)))
    \<and> (map_of (rc_baselines c) trust = None \<longrightarrow> baselineFor c trust = baselineFor c TrustUnknown)"
  using Assess_value [OF assms] cheap_range [OF assms(1,2)] points_sum_nonneg [OF assms(1,2)]
  by (auto simp: baselineFor_def lookup0_def split: option.split)

lemma default_valid: "risk_validate DefaultConfig = None" "weights_bounded DefaultConfig"
  by (code_simp, simp add: weights_bounded_def DefaultConfig_def)

theorem risk_assess_sound_witness:
  "rr_score (risk_Assess DefaultConfig ''unknown'' ''bcc'' [''secrets_request'']) =
     min 100 (cheap_sum DefaultConfig ''unknown'' ''bcc'' + points_sum DefaultConfig [''secrets_request''])"
proof -
  have c: "\<not> rc_threshold DefaultConfig \<le> cheap_sum DefaultConfig ''unknown'' ''bcc''" by code_simp
  have "int (length [''secrets_request'']) \<le> 10 ^ 9" by simp
  from risk_assess_sound [OF default_valid this, of "''unknown''" "''bcc''"] c show ?thesis by simp
qed

text \<open>A detector can only raise the risk: with more factors flagged the score and the band are not
  lower and a message that was held is still held.\<close>

lemma risk_more_factors_never_lower:
  assumes "risk_validate c = None" "weights_bounded c" "int (length (fs @ gs)) \<le> 10 ^ 9"
  shows "rr_score (risk_Assess c trust r fs) \<le> rr_score (risk_Assess c trust r (fs @ gs))
    \<and> the (rr_band (risk_Assess c trust r fs)) \<le> the (rr_band (risk_Assess c trust r (fs @ gs)))
    \<and> (rr_disposition (risk_Assess c trust r fs) = Held \<longrightarrow> rr_disposition (risk_Assess c trust r (fs @ gs)) = Held)"
proof -
  have l: "int (length fs) \<le> 10 ^ 9" using assms(3) by simp
  note a = Assess_value [OF assms(1,2) l, of trust r] and b = Assess_value [OF assms(1,2,3), of trust r]
  have s: "rr_score (risk_Assess c trust r fs) \<le> rr_score (risk_Assess c trust r (fs @ gs))"
    using a(1) b(1) points_sum_nonneg [OF assms(1,2), of gs] by (auto simp: points_sum_append)
  moreover have "risk_band c x \<le> risk_band c y" if "x \<le> y" for x y
    using that validate_None(2) [OF assms(1)] by (auto simp: risk_band_def less_eq_band_def band_rank_def)
  ultimately show ?thesis using a(2,3) b(2,3) by auto
qed

lemma risk_more_factors_never_lower_witness:
  "rr_score (risk_Assess DefaultConfig ''trusted'' ''to'' [''secrets_request'']) \<le>
   rr_score (risk_Assess DefaultConfig ''trusted'' ''to'' ([''secrets_request''] @ [''hidden_directives'']))"
proof -
  have "int (length ([''secrets_request''] @ [''hidden_directives''])) \<le> 10 ^ 9" by simp
  from risk_more_factors_never_lower [OF default_valid this] show ?thesis by blast
qed

text \<open>Validation puts no upper bound on a weight. There is a valid configuration under which flagging
  one factor more wraps the 64-bit sum, so that the score drops to 0 and a message that was held goes
  to the agent.\<close>

lemma risk_overflow_clears:
  "\<exists>c. risk_validate c = None
    \<and> rr_disposition (risk_Assess c ''trusted'' ''to'' [''secrets_request'', ''instruction_to_reader'']) = Held
    \<and> rr_disposition (risk_Assess c ''trusted'' ''to'' [''secrets_request'', ''instruction_to_reader'', ''hidden_directives'']) = AgentHandled
    \<and> rr_score (risk_Assess c ''trusted'' ''to'' [''secrets_request'', ''instruction_to_reader'', ''hidden_directives'']) = 0"
proof -
  let ?c = "DefaultConfig\<lparr>rc_factor_points := [(FactorInstruction, 40), (FactorSecretsRequest, 40),
    (FactorHiddenDirectives, 2 ^ 63 - 1)]\<rparr>"
  show ?thesis
    by (rule exI [of _ ?c]) code_simp
qed

end
