(* ===== verification/Assessor.thy ===== *)
theory Assessor
  imports Complex_Main Riskscore "HOL-Library.Product_Lexorder"
begin

text \<open>Model of \<open>internal/assessor\<close>: the assessor (\<open>assessor.go\<close>), the union of detectors
  (\<open>multi.go\<close>), the pattern detector (\<open>heuristic.go\<close>) and its configuration (\<open>config.go\<close>).

  A detector is the pair of its two methods, and whether it implements \<open>FindingDetector\<close> is its
  constructor. What the context's \<open>Err\<close> says before, during and after the detection is an input.
  Compiled regular expressions are their match predicates: the compiler and the two built-in pattern
  lists are the fields of a record that the operations take. The classifier
  (\<open>classifier.go\<close>) is one more detector, in \<open>Classifier\<close>. Confidences are rationals.\<close>

section \<open>Content and findings\<close>

record mcontent =
  mc_body :: string
  mc_attachments :: "string list"
  mc_truncated :: bool
  mc_undecodable :: bool

record finding =
  fi_factor :: string
  fi_detector :: string
  fi_label :: string
  fi_confidence :: rat
  fi_source :: string

record ctx =
  cx_before :: "string option"
  cx_during :: "string option"
  cx_after :: "string option"

datatype detect_err = DetContext string | ClassifierUnavailable | DetOther string | MemberFailed string detect_err

datatype assess_err = NilDetector | CtxBefore string | CtxAfter string | DetectFailed detect_err

fun unavailable :: "detect_err \<Rightarrow> bool" where
  "unavailable ClassifierUnavailable = True"
| "unavailable (MemberFailed n e) = unavailable e"
| "unavailable e = False"

datatype detector =
    FactorDetector "ctx \<Rightarrow> mcontent \<Rightarrow> detect_err + string list" "string list"
  | FindingDetector "ctx \<Rightarrow> mcontent \<Rightarrow> detect_err + finding list" "string list"

fun det_factors :: "detector \<Rightarrow> string list" where
  "det_factors (FactorDetector d fs) = fs"
| "det_factors (FindingDetector d fs) = fs"

definition DetectorPattern :: string where "DetectorPattern = ''pattern''"

definition plain_finding :: "string \<Rightarrow> string \<Rightarrow> finding" where
  "plain_finding name f = \<lparr>fi_factor = f, fi_detector = name, fi_label = '''', fi_confidence = 0, fi_source = ''''\<rparr>"

text \<open>\<open>findingsOf\<close>, and \<open>Assessor.detect\<close> with the pattern detector's name.\<close>

fun findingsOf :: "string \<Rightarrow> detector \<Rightarrow> ctx \<Rightarrow> mcontent \<Rightarrow> detect_err + finding list" where
  "findingsOf name (FindingDetector d fs) x c = d x c"
| "findingsOf name (FactorDetector d fs) x c =
     (case d x c of Inl e \<Rightarrow> Inl e | Inr l \<Rightarrow> Inr (map (plain_finding name) l))"

definition assess_detect :: "detector \<Rightarrow> ctx \<Rightarrow> mcontent \<Rightarrow> detect_err + finding list" where
  "assess_detect det x c = findingsOf DetectorPattern det x c"

section \<open>The assessor\<close>

record assessment =
  as_factors :: "string list"
  as_truncated :: bool
  as_summary :: string
  as_active :: "string list"
  as_findings :: "finding list"

text \<open>\<open>declared\<close> is the snapshot of the detector's factors taken at construction.\<close>

record assessor =
  ar_det :: detector
  ar_declared :: "string list"

definition assessor_New :: "detector option \<Rightarrow> assess_err + assessor" where
  "assessor_New det = (case det of
       None \<Rightarrow> Inl NilDetector
     | Some d \<Rightarrow> Inr \<lparr>ar_det = d, ar_declared = remdups (det_factors d)\<rparr>)"

definition filterDeclaredFindings :: "assessor \<Rightarrow> finding list \<Rightarrow> finding list" where
  "filterDeclaredFindings a fs = filter (\<lambda>f. fi_factor f \<in> set (ar_declared a)) fs"

definition dedupeSort :: "string list \<Rightarrow> string list" where
  "dedupeSort fs = sort (remdups fs)"

definition finding_key :: "finding \<Rightarrow> string \<times> string \<times> string" where
  "finding_key f = (fi_factor f, fi_detector f, fi_source f)"

type_synonym best_map = "((string \<times> string \<times> string) \<times> finding) list"

definition keep_best :: "best_map \<Rightarrow> finding \<Rightarrow> best_map" where
  "keep_best best f = (case map_of best (finding_key f) of
       None \<Rightarrow> AList.update (finding_key f) f best
     | Some cur \<Rightarrow> if fi_confidence f > fi_confidence cur then AList.update (finding_key f) f best else best)"

definition dedupeFindings :: "finding list \<Rightarrow> finding list" where
  "dedupeFindings fs = sort_key finding_key (map snd (foldl keep_best [] fs))"

definition activeFactors :: "assessor \<Rightarrow> string list" where
  "activeFactors a = sort (ar_declared a)"

definition TruncationNote :: string where
  "TruncationNote = ''message content was truncated during extraction''"

definition summarize :: "string list \<Rightarrow> bool \<Rightarrow> string" where
  "summarize factors truncated =
     (if factors = [] then ''No injection-risk factors detected.''
      else ''Detected injection-risk factors: '' @ join '', '' factors @ ''.'')
     @ (if truncated then '' Note: '' @ TruncationNote @ ''.'' else '''')"

definition assessor_Assess :: "assessor \<Rightarrow> ctx \<Rightarrow> mcontent \<Rightarrow> assess_err + assessment" where
  "assessor_Assess a x c = (case cx_before x of
       Some e \<Rightarrow> Inl (CtxBefore e)
     | None \<Rightarrow> (case assess_detect (ar_det a) x c of
           Inl e \<Rightarrow> Inl (DetectFailed e)
         | Inr raw \<Rightarrow> (case cx_after x of
               Some e \<Rightarrow> Inl (CtxAfter e)
             | None \<Rightarrow>
                 let findings = filterDeclaredFindings a raw;
                     factors = dedupeSort (map fi_factor findings)
                 in Inr \<lparr>as_factors = factors, as_truncated = mc_truncated c,
                         as_summary = summarize factors (mc_truncated c),
                         as_active = activeFactors a, as_findings = dedupeFindings findings\<rparr>)))"

definition ValidateAlignment :: "detector \<Rightarrow> risk_config \<Rightarrow> string option" where
  "ValidateAlignment det cfg = find (\<lambda>f. map_of (rc_factor_points cfg) f = None) (det_factors det)"

section \<open>Several detectors\<close>

type_synonym member = "string \<times> detector option"

datatype multi_err = NoDetectors | IncompleteMember nat

fun incomplete :: "nat \<Rightarrow> member list \<Rightarrow> nat option" where
  "incomplete i [] = None"
| "incomplete i ((n, d) # ms) = (if n = '''' \<or> d = None then Some i else incomplete (i + 1) ms)"

fun multi_DetectFindings :: "(string \<times> detector) list \<Rightarrow> ctx \<Rightarrow> mcontent \<Rightarrow> detect_err + finding list" where
  "multi_DetectFindings [] x c = Inr []"
| "multi_DetectFindings ((n, d) # ms) x c = (case findingsOf n d x c of
       Inl e \<Rightarrow> Inl (MemberFailed n e)
     | Inr fs \<Rightarrow> (case multi_DetectFindings ms x c of Inl e \<Rightarrow> Inl e | Inr gs \<Rightarrow> Inr (fs @ gs)))"

definition multi_Factors :: "(string \<times> detector) list \<Rightarrow> string list" where
  "multi_Factors ms = sort (remdups (concat (map (det_factors \<circ> snd) ms)))"

definition NewMulti :: "member list \<Rightarrow> multi_err + detector" where
  "NewMulti members = (if members = [] then Inl NoDetectors
     else case incomplete 0 members of
         Some i \<Rightarrow> Inl (IncompleteMember i)
       | None \<Rightarrow> let ms = map (\<lambda>(n, d). (n, the d)) members
                in Inr (FindingDetector (multi_DetectFindings ms) (multi_Factors ms)))"

definition multi_Detect :: "(string \<times> detector) list \<Rightarrow> ctx \<Rightarrow> mcontent \<Rightarrow> detect_err + string list" where
  "multi_Detect ms x c = (case multi_DetectFindings ms x c of Inl e \<Rightarrow> Inl e | Inr fs \<Rightarrow> Inr (map fi_factor fs))"

section \<open>The pattern detector\<close>

type_synonym pattern = "string \<Rightarrow> bool"

datatype match_scope = ScopeBody | ScopeAttachments | ScopeAll

record rule =
  ru_factor :: string
  ru_scope :: match_scope
  ru_patterns :: "pattern list"

record regexps =
  rx_compile :: "string \<Rightarrow> pattern option"
  rx_instruction :: "pattern list"
  rx_secrets :: "pattern list"

definition attachmentText :: "mcontent \<Rightarrow> string" where
  "attachmentText c = join [char_of (10 :: nat)] (filter (\<lambda>t. t \<noteq> '''') (mc_attachments c))"

definition textForScope :: "mcontent \<Rightarrow> match_scope \<Rightarrow> string" where
  "textForScope c s = (case s of
       ScopeBody \<Rightarrow> mc_body c
     | ScopeAttachments \<Rightarrow> attachmentText c
     | ScopeAll \<Rightarrow> let t = attachmentText c
                  in if t = '''' then mc_body c else mc_body c @ [char_of (10 :: nat)] @ t)"

definition matchesAny :: "string \<Rightarrow> pattern list \<Rightarrow> bool" where
  "matchesAny text ps = (if text = '''' then False else list_ex (\<lambda>p. p text) ps)"

text \<open>The runes that render as nothing are given by their encodings; on valid UTF-8 an encoding occurs
  only where its rune stands.\<close>

function stripFormatRunes :: "bytes list \<Rightarrow> bytes \<Rightarrow> bytes" where
  "stripFormatRunes cfs s = (case skip_cf cfs s of [] \<Rightarrow> [] | b # r \<Rightarrow> b # stripFormatRunes cfs r)"
  by pat_completeness auto

termination stripFormatRunes
proof (relation "measure (\<lambda>(cfs, s). length s)")
  fix cfs s b and r :: bytes
  assume "skip_cf cfs s = b # r"
  then have "length (b # r) \<le> length s" using skip_cf_length [of cfs s] by simp
  then show "((cfs, r), cfs, s) \<in> measure (\<lambda>(cfs, s). length s)" by simp
qed simp

declare stripFormatRunes.simps [simp del]

definition heuristic_Detect :: "bytes list \<Rightarrow> rule list \<Rightarrow> ctx \<Rightarrow> mcontent \<Rightarrow> detect_err + string list" where
  "heuristic_Detect cfs rules x c = (case cx_during x of
       Some e \<Rightarrow> Inl (DetContext e)
     | None \<Rightarrow> Inr (map ru_factor (filter (\<lambda>r. matchesAny (stripFormatRunes cfs (textForScope c (ru_scope r))) (ru_patterns r)) rules)))"

definition heuristic_Factors :: "rule list \<Rightarrow> string list" where
  "heuristic_Factors rules = dedupeSort (map ru_factor rules)"

definition heuristic :: "bytes list \<Rightarrow> rule list \<Rightarrow> detector" where
  "heuristic cfs rules = FactorDetector (heuristic_Detect cfs rules) (heuristic_Factors rules)"

definition builtinRules :: "regexps \<Rightarrow> rule list" where
  "builtinRules rx = [
     \<lparr>ru_factor = FactorInstruction, ru_scope = ScopeBody, ru_patterns = rx_instruction rx\<rparr>,
     \<lparr>ru_factor = FactorSecretsRequest, ru_scope = ScopeAll, ru_patterns = rx_secrets rx\<rparr>,
     \<lparr>ru_factor = FactorAttachmentDirectives, ru_scope = ScopeAttachments, ru_patterns = rx_instruction rx\<rparr>]"

definition BuiltinFactors :: "regexps \<Rightarrow> string list" where
  "BuiltinFactors rx = heuristic_Factors (builtinRules rx)"

section \<open>Configuration of the pattern detector\<close>

record factor_config =
  fc_enabled :: "bool option"
  fc_mode :: string
  fc_patterns :: "string list"
  fc_examples :: "string list"

definition fc_on :: "factor_config \<Rightarrow> bool" where
  "fc_on f = (case fc_enabled f of None \<Rightarrow> True | Some b \<Rightarrow> b)"

record detector_config =
  dc_disabled :: bool
  dc_factors :: "(string \<times> factor_config) list"

datatype detconf_err = UnknownFactor string | NoRuleYet string | BadPattern string nat | NeverRun string
  | ReplaceNoPattern string | ReplaceNoExample string | BadMode string string | ExampleUnmatched string nat

definition ModeAugment :: string where "ModeAugment = ''augment''"
definition ModeReplace :: string where "ModeReplace = ''replace''"

fun compileOperator :: "regexps \<Rightarrow> string \<Rightarrow> nat \<Rightarrow> string list \<Rightarrow> detconf_err + pattern list" where
  "compileOperator rx f i [] = Inr []"
| "compileOperator rx f i (e # es) = (case rx_compile rx e of
       None \<Rightarrow> Inl (BadPattern f i)
     | Some p \<Rightarrow> (case compileOperator rx f (i + 1) es of Inl err \<Rightarrow> Inl err | Inr ps \<Rightarrow> Inr (p # ps)))"

fun checkExamples :: "bytes list \<Rightarrow> string \<Rightarrow> nat \<Rightarrow> string list \<Rightarrow> pattern list \<Rightarrow> detconf_err option" where
  "checkExamples cfs f i [] ps = None"
| "checkExamples cfs f i (ex # exs) ps =
     (if \<not> matchesAny (stripFormatRunes cfs ex) ps then Some (ExampleUnmatched f i)
      else checkExamples cfs f (i + 1) exs ps)"

text \<open>\<open>byFactor\<close>: the index of the last rule that emits the factor.\<close>

fun rule_index :: "nat \<Rightarrow> rule list \<Rightarrow> string \<Rightarrow> nat option" where
  "rule_index i [] f = None"
| "rule_index i (r # rs) f = (case rule_index (i + 1) rs f of
       Some j \<Rightarrow> Some j
     | None \<Rightarrow> if ru_factor r = f then Some i else None)"

text \<open>One entry of the configuration, on the rules so far and the factors switched off so far.\<close>

definition config_entry ::
  "bytes list \<Rightarrow> regexps \<Rightarrow> string \<times> factor_config \<Rightarrow> rule list \<times> string list \<Rightarrow> detconf_err + (rule list \<times> string list)" where
  "config_entry cfs rx entry acc = (
     let (f, fc) = entry; (base, disabled) = acc
     in case rule_index 0 (builtinRules rx) f of
         None \<Rightarrow>
           if f \<noteq> FactorHiddenDirectives then Inl (UnknownFactor f)
           else if fc_on fc \<or> fc_mode fc \<noteq> '''' \<or> fc_patterns fc \<noteq> [] \<or> fc_examples fc \<noteq> [] then Inl (NoRuleYet f)
           else Inr (base, disabled)
       | Some i \<Rightarrow> (case compileOperator rx f 0 (fc_patterns fc) of
           Inl e \<Rightarrow> Inl e
         | Inr added \<Rightarrow>
             if \<not> fc_on fc then
               (if added \<noteq> [] \<or> fc_mode fc \<noteq> '''' \<or> fc_examples fc \<noteq> [] then Inl (NeverRun f)
                else Inr (base, f # disabled))
             else if fc_mode fc = '''' \<or> fc_mode fc = ModeAugment then
               (case (if fc_examples fc \<noteq> [] then checkExamples cfs f 0 (fc_examples fc) added else None) of
                  Some e \<Rightarrow> Inl e
                | None \<Rightarrow> Inr (base[i := (base ! i)\<lparr>ru_patterns := ru_patterns (base ! i) @ added\<rparr>], disabled))
             else if fc_mode fc = ModeReplace then
               (if added = [] then Inl (ReplaceNoPattern f)
                else if fc_examples fc = [] then Inl (ReplaceNoExample f)
                else case checkExamples cfs f 0 (fc_examples fc) added of
                    Some e \<Rightarrow> Inl e
                  | None \<Rightarrow> Inr (base[i := (base ! i)\<lparr>ru_patterns := added\<rparr>], disabled))
             else Inl (BadMode f (fc_mode fc))))"

fun config_entries ::
  "bytes list \<Rightarrow> regexps \<Rightarrow> (string \<times> factor_config) list \<Rightarrow> rule list \<times> string list \<Rightarrow> detconf_err + (rule list \<times> string list)" where
  "config_entries cfs rx [] acc = Inr acc"
| "config_entries cfs rx (e # es) acc =
     (case config_entry cfs rx e acc of Inl err \<Rightarrow> Inl err | Inr acc' \<Rightarrow> config_entries cfs rx es acc')"

definition NewConfiguredDetector :: "bytes list \<Rightarrow> regexps \<Rightarrow> detector_config \<Rightarrow> detconf_err + rule list" where
  "NewConfiguredDetector cfs rx cfg = (case config_entries cfs rx (dc_factors cfg) (builtinRules rx, []) of
       Inl e \<Rightarrow> Inl e
     | Inr (base, disabled) \<Rightarrow>
         if dc_disabled cfg then Inr []
         else Inr (filter (\<lambda>r. ru_factor r \<notin> set disabled) base))"

section \<open>What an assessment reports\<close>

lemma Assess_ok:
  "assessor_Assess a x c = Inr r \<longleftrightarrow> cx_before x = None \<and> cx_after x = None
     \<and> (\<exists>raw. assess_detect (ar_det a) x c = Inr raw
         \<and> r = \<lparr>as_factors = dedupeSort (map fi_factor (filterDeclaredFindings a raw)), as_truncated = mc_truncated c,
               as_summary = summarize (dedupeSort (map fi_factor (filterDeclaredFindings a raw))) (mc_truncated c),
               as_active = activeFactors a, as_findings = dedupeFindings (filterDeclaredFindings a raw)\<rparr>)"
  by (auto simp: assessor_Assess_def Let_def split: option.splits sum.splits)

lemma New_ok: "assessor_New (Some d) = Inr a \<longleftrightarrow> a = \<lparr>ar_det = d, ar_declared = remdups (det_factors d)\<rparr>"
  by (auto simp: assessor_New_def)

lemma dedupeSort_set [simp]: "set (dedupeSort fs) = set fs"
  by (simp add: dedupeSort_def)

lemma dedupeSort_canonical: "sorted (dedupeSort fs)" "distinct (dedupeSort fs)"
  by (simp_all add: dedupeSort_def)

text \<open>The map of best findings: one entry per key, the entry is one of the findings seen with that key and no
  finding with that key is more confident.\<close>

definition best_ok :: "best_map \<Rightarrow> finding list \<Rightarrow> bool" where
  "best_ok best seen \<longleftrightarrow> distinct (map fst best)
     \<and> (\<forall>k f. map_of best k = Some f \<longrightarrow> f \<in> set seen \<and> finding_key f = k)
     \<and> (\<forall>f \<in> set seen. \<exists>g. map_of best (finding_key f) = Some g \<and> fi_confidence f \<le> fi_confidence g)"

lemma best_okI:
  "distinct (map fst best) \<Longrightarrow> (\<And>k f. map_of best k = Some f \<Longrightarrow> f \<in> set seen) \<Longrightarrow>
   (\<And>k f. map_of best k = Some f \<Longrightarrow> finding_key f = k) \<Longrightarrow>
   (\<And>f. f \<in> set seen \<Longrightarrow> \<exists>g. map_of best (finding_key f) = Some g \<and> fi_confidence f \<le> fi_confidence g) \<Longrightarrow>
   best_ok best seen"
  unfolding best_ok_def by (simp del: split_paired_All)

lemma best_okD:
  assumes "best_ok best seen"
  shows "distinct (map fst best)" "map_of best k = Some f \<Longrightarrow> f \<in> set seen" "map_of best k = Some f \<Longrightarrow> finding_key f = k"
    "f \<in> set seen \<Longrightarrow> \<exists>g. map_of best (finding_key f) = Some g \<and> fi_confidence f \<le> fi_confidence g"
  using assms unfolding best_ok_def by (simp_all del: split_paired_All map_of_eq_Some_iff)

lemma best_ok_keep:
  assumes "best_ok best seen" "map_of best (finding_key f) = Some g" "fi_confidence f \<le> fi_confidence g"
  shows "best_ok best (seen @ [f])"
  by (rule best_okI) (use assms best_okD [OF assms(1)] in \<open>auto simp del: map_of_eq_Some_iff\<close>)

lemma best_ok_replace:
  assumes "best_ok best seen" "\<And>g. map_of best (finding_key f) = Some g \<Longrightarrow> fi_confidence g \<le> fi_confidence f"
  shows "best_ok (AList.update (finding_key f) f best) (seen @ [f])"
proof -
  let ?b = "AList.update (finding_key f) f best"
  have m: "map_of ?b k = (if k = finding_key f then Some f else map_of best k)" for k
    by (simp add: update_conv')
  note d = best_okD [OF assms(1)]
  show ?thesis
  proof (rule best_okI)
    show "distinct (map fst ?b)" using d(1) by (rule distinct_update)
    show "h \<in> set (seen @ [f])" if "map_of ?b k = Some h" for k h
      using that d(2) [of k h] by (auto simp: m split: if_splits simp del: map_of_eq_Some_iff)
    show "finding_key h = k" if "map_of ?b k = Some h" for k h
      using that d(3) [of k h] by (auto simp: m split: if_splits simp del: map_of_eq_Some_iff)
  next
  fix h assume h: "h \<in> set (seen @ [f])"
  show "\<exists>g. map_of ?b (finding_key h) = Some g \<and> fi_confidence h \<le> fi_confidence g"
  proof (cases "finding_key h = finding_key f")
    case True
    have "fi_confidence h \<le> fi_confidence f"
    proof (cases "h = f")
      case False
      with h d(4) [of h] obtain g where g: "map_of best (finding_key h) = Some g" "fi_confidence h \<le> fi_confidence g"
        by auto
      then show ?thesis using assms(2) [of g] True by simp
    qed simp
    then show ?thesis using True m by simp
  next
    case False
    then have "h \<in> set seen" using h by auto
    from d(4) [OF this] show ?thesis using False by (simp add: m)
  qed
  qed
qed

lemma keep_best_ok: "best_ok best seen \<Longrightarrow> best_ok (keep_best best f) (seen @ [f])"
  unfolding keep_best_def by (auto intro!: best_ok_replace intro: best_ok_keep split: option.split)

lemma foldl_keep_best: "best_ok best seen \<Longrightarrow> best_ok (foldl keep_best best fs) (seen @ fs)"
proof (induction fs arbitrary: best seen)
  case (Cons f fs)
  from Cons.IH [OF keep_best_ok [OF Cons.prems]] show ?case by simp
qed simp

lemma dedupeFindings_spec:
  shows "set (dedupeFindings fs) \<subseteq> set fs"
    and "\<forall>f \<in> set fs. \<exists>g \<in> set (dedupeFindings fs). finding_key g = finding_key f \<and> fi_confidence f \<le> fi_confidence g"
    and "distinct (map finding_key (dedupeFindings fs))" "sorted (map finding_key (dedupeFindings fs))"
proof -
  let ?b = "foldl keep_best [] fs"
  have "best_ok [] []" by (rule best_okI) auto
  from foldl_keep_best [OF this, of fs] have ok: "best_ok ?b fs" by simp
  then have d: "distinct (map fst ?b)" by (rule best_okD)
  have mem: "map_of ?b k = Some f" if "(k, f) \<in> set ?b" for k f using d that by simp
  have ok1: "f \<in> set fs \<and> finding_key f = k" if "(k, f) \<in> set ?b" for k f
    using best_okD(2,3) [OF ok mem [OF that]] by blast
  show "set (dedupeFindings fs) \<subseteq> set fs"
  proof
    fix g assume "g \<in> set (dedupeFindings fs)"
    then have "g \<in> snd ` set ?b" by (simp only: dedupeFindings_def set_sort set_map)
    then obtain p where p: "p \<in> set ?b" "g = snd p" by blast
    then have "(fst p, g) \<in> set ?b" by simp
    from ok1 [OF this] show "g \<in> set fs" by blast
  qed
  show "\<forall>f \<in> set fs. \<exists>g \<in> set (dedupeFindings fs). finding_key g = finding_key f \<and> fi_confidence f \<le> fi_confidence g"
  proof
    fix f assume "f \<in> set fs"
    from best_okD(4) [OF ok this] obtain g where g: "map_of ?b (finding_key f) = Some g" "fi_confidence f \<le> fi_confidence g"
      by blast
    from map_of_SomeD [OF g(1)] have e: "(finding_key f, g) \<in> set ?b" .
    then have "g \<in> set (map snd ?b)" by force
    then have "g \<in> set (dedupeFindings fs)" by (simp only: dedupeFindings_def set_sort)
    with g(2) ok1 [OF e] show "\<exists>g \<in> set (dedupeFindings fs). finding_key g = finding_key f \<and> fi_confidence f \<le> fi_confidence g"
      by blast
  qed
  have "map finding_key (map snd ?b) = map fst ?b"
    unfolding map_map
  proof (rule map_cong [OF refl])
    fix p assume "p \<in> set ?b"
    then have "(fst p, snd p) \<in> set ?b" by simp
    from ok1 [OF this] show "(finding_key \<circ> snd) p = fst p" by simp
  qed
  with d have "distinct (map finding_key (map snd ?b))" by (simp only:)
  then have "inj_on finding_key (set (map snd ?b)) \<and> distinct (map snd ?b)"
    unfolding distinct_map [of finding_key] by blast
  then show "distinct (map finding_key (dedupeFindings fs))"
    unfolding dedupeFindings_def distinct_map set_sort distinct_sort by blast
  show "sorted (map finding_key (dedupeFindings fs))"
    unfolding dedupeFindings_def by (rule sorted_sort_key)
qed

text \<open>Whatever a detector returns, a compromised one included, an assessment carries only factor
  names the detector declared when the assessor was built, every finding belongs to a reported factor
  and every reported factor has a finding, and the summary is a function of those names and the
  truncation flag.\<close>

lemma assess_vocabulary_closed:
  assumes "assessor_New (Some d) = Inr a" "assessor_Assess a x c = Inr r"
  shows "set (as_factors r) \<subseteq> set (det_factors d) \<and> set (as_active r) = set (det_factors d)
    \<and> fi_factor ` set (as_findings r) = set (as_factors r)
    \<and> sorted (as_factors r) \<and> distinct (as_factors r)
    \<and> as_summary r = summarize (as_factors r) (mc_truncated c)"
proof -
  from assms(1) have a: "ar_declared a = remdups (det_factors d)" by (auto simp: New_ok)
  from assms(2) obtain raw where r: "r = \<lparr>as_factors = dedupeSort (map fi_factor (filterDeclaredFindings a raw)),
      as_truncated = mc_truncated c,
      as_summary = summarize (dedupeSort (map fi_factor (filterDeclaredFindings a raw))) (mc_truncated c),
      as_active = activeFactors a, as_findings = dedupeFindings (filterDeclaredFindings a raw)\<rparr>"
    by (auto simp: Assess_ok)
  let ?fs = "filterDeclaredFindings a raw"
  have "fi_factor ` set (dedupeFindings ?fs) = fi_factor ` set ?fs"
  proof
    show "fi_factor ` set (dedupeFindings ?fs) \<subseteq> fi_factor ` set ?fs"
      using dedupeFindings_spec(1) by (rule image_mono)
    show "fi_factor ` set ?fs \<subseteq> fi_factor ` set (dedupeFindings ?fs)"
    proof
      fix n assume "n \<in> fi_factor ` set ?fs"
      then obtain f where f: "f \<in> set ?fs" "n = fi_factor f" by blast
      with dedupeFindings_spec(2) [of ?fs] obtain g where "g \<in> set (dedupeFindings ?fs)" "finding_key g = finding_key f" by blast
      then have "g \<in> set (dedupeFindings ?fs)" "n = fi_factor g" using f(2) by (simp_all add: finding_key_def)
      then show "n \<in> fi_factor ` set (dedupeFindings ?fs)" by blast
    qed
  qed
  then show ?thesis
    using r a by (auto simp: dedupeSort_canonical activeFactors_def filterDeclaredFindings_def)
qed

text \<open>A detector that reports a name it never declared.\<close>

definition rogue :: detector where
  "rogue = FactorDetector (\<lambda>x c. Inr [''instruction_to_reader'', mc_body c]) [''instruction_to_reader'']"

definition calm :: ctx where "calm = \<lparr>cx_before = None, cx_during = None, cx_after = None\<rparr>"

definition sample_content :: mcontent where
  "sample_content = \<lparr>mc_body = ''obey me'', mc_attachments = [], mc_truncated = False, mc_undecodable = False\<rparr>"

definition rogue_assessor :: assessor where
  "rogue_assessor = \<lparr>ar_det = rogue, ar_declared = [''instruction_to_reader'']\<rparr>"

lemma assess_vocabulary_closed_witness:
  "\<exists>r. assessor_Assess rogue_assessor calm sample_content = Inr r \<and> set (as_factors r) \<subseteq> {''instruction_to_reader''}"
proof -
  have n: "assessor_New (Some rogue) = Inr rogue_assessor"
    by (simp add: assessor_New_def rogue_assessor_def rogue_def)
  have d: "assess_detect (ar_det rogue_assessor) calm sample_content
    = Inr (map (plain_finding DetectorPattern) [''instruction_to_reader'', mc_body sample_content])"
    by (simp add: assess_detect_def rogue_assessor_def rogue_def)
  then obtain r where r: "assessor_Assess rogue_assessor calm sample_content = Inr r"
    by (auto simp: assessor_Assess_def calm_def Let_def)
  from assess_vocabulary_closed [OF n r] r show ?thesis by (auto simp: rogue_def)
qed

section \<open>The union of detectors\<close>

lemma multi_append:
  "multi_DetectFindings (ms @ ns) x c = (case multi_DetectFindings ms x c of
      Inl e \<Rightarrow> Inl e
    | Inr fs \<Rightarrow> (case multi_DetectFindings ns x c of Inl e \<Rightarrow> Inl e | Inr gs \<Rightarrow> Inr (fs @ gs)))"
  by (induction ms) (auto split: sum.splits)

lemma multi_Factors_set: "set (multi_Factors ms) = (\<Union>(n, d) \<in> set ms. set (det_factors d))"
  by (auto simp: multi_Factors_def)

lemma incomplete_None: "incomplete i ms = None \<longleftrightarrow> (\<forall>(n, d) \<in> set ms. n \<noteq> '''' \<and> d \<noteq> None)"
  by (induction i ms rule: incomplete.induct) auto

lemma NewMulti_ok:
  "ms \<noteq> [] \<Longrightarrow> (\<forall>(n, d) \<in> set ms. n \<noteq> '''') \<Longrightarrow>
   NewMulti (map (\<lambda>(n, d). (n, Some d)) ms) = Inr (FindingDetector (multi_DetectFindings ms) (multi_Factors ms))"
proof -
  assume a: "ms \<noteq> []" "\<forall>(n, d) \<in> set ms. n \<noteq> ''''"
  then have "incomplete 0 (map (\<lambda>(n, d). (n, Some d)) ms) = None" by (auto simp: incomplete_None)
  moreover have "map (\<lambda>(n, d). (n, the d)) (map (\<lambda>(n, d). (n, Some d)) ms) = ms" by (induction ms) auto
  ultimately show ?thesis using a by (simp add: NewMulti_def Let_def)
qed

definition multi_assessor :: "(string \<times> detector) list \<Rightarrow> assessor" where
  "multi_assessor ms = \<lparr>ar_det = FindingDetector (multi_DetectFindings ms) (multi_Factors ms),
     ar_declared = remdups (multi_Factors ms)\<rparr>"

text \<open>Adding a detector, at any place, only adds factors and can only make the detection fail: if the
  larger set of detectors completes an assessment, so does the smaller, and every factor it reports is
  reported by the larger; a failing member fails every assessment.\<close>

lemma multi_union_only_adds:
  assumes "assessor_Assess (multi_assessor (ms @ (n, d) # ns)) x c = Inr r"
  shows "(\<exists>fs. findingsOf n d x c = Inr fs)
    \<and> (\<exists>r'. assessor_Assess (multi_assessor (ms @ ns)) x c = Inr r' \<and> set (as_factors r') \<subseteq> set (as_factors r))"
proof -
  let ?a = "multi_assessor (ms @ (n, d) # ns)" and ?b = "multi_assessor (ms @ ns)"
  from assms obtain raw where raw: "multi_DetectFindings (ms @ (n, d) # ns) x c = Inr raw"
    and cx: "cx_before x = None" "cx_after x = None"
    and f: "set (as_factors r) = fi_factor ` set (filterDeclaredFindings ?a raw)"
    by (auto simp: Assess_ok assess_detect_def multi_assessor_def)
  from raw obtain fs gs hs where parts: "multi_DetectFindings ms x c = Inr fs" "findingsOf n d x c = Inr gs"
    "multi_DetectFindings ns x c = Inr hs" "raw = fs @ gs @ hs"
    by (auto simp: multi_append split: sum.splits)
  then have raw': "multi_DetectFindings (ms @ ns) x c = Inr (fs @ hs)" by (simp add: multi_append)
  obtain r' where r': "assessor_Assess ?b x c = Inr r'"
    and f': "set (as_factors r') = fi_factor ` set (filterDeclaredFindings ?b (fs @ hs))"
    using raw' cx by (auto simp: Assess_ok assess_detect_def multi_assessor_def)
  have "set (multi_Factors (ms @ ns)) \<subseteq> set (multi_Factors (ms @ (n, d) # ns))"
    by (auto simp: multi_Factors_set)
  then have "set (as_factors r') \<subseteq> set (as_factors r)"
    unfolding f f' parts(4) by (auto simp: filterDeclaredFindings_def multi_assessor_def)
  with r' parts(2) show ?thesis by blast
qed

lemma multi_union_only_adds_witness:
  "\<exists>r'. assessor_Assess (multi_assessor ([(''a'', rogue)] @ [])) calm sample_content = Inr r'"
proof -
  let ?ms = "[(''a'', rogue), (''b'', FactorDetector (\<lambda>x c. Inr [''secrets_request'']) [''secrets_request''])]"
  have e: "?ms = [(''a'', rogue)] @ (''b'', FactorDetector (\<lambda>x c. Inr [''secrets_request'']) [''secrets_request'']) # []" by simp
  obtain r where "assessor_Assess (multi_assessor ?ms) calm sample_content = Inr r"
    by (auto simp: assessor_Assess_def calm_def multi_assessor_def assess_detect_def rogue_def Let_def)
  from multi_union_only_adds [OF this [unfolded e]] show ?thesis by blast
qed

section \<open>What a configuration can switch off\<close>

lemma builtin_index:
  "rule_index 0 (builtinRules rx) f =
     (if f = FactorInstruction then Some 0 else if f = FactorSecretsRequest then Some 1
      else if f = FactorAttachmentDirectives then Some 2 else None)"
  by (auto simp: builtinRules_def FactorInstruction_def FactorSecretsRequest_def FactorAttachmentDirectives_def)

lemma rule_index_Some:
  "rule_index k rs f = Some i \<Longrightarrow> k \<le> i \<and> i - k < length rs \<and> ru_factor (rs ! (i - k)) = f"
proof (induction rs arbitrary: k)
  case (Cons r rs)
  show ?case
  proof (cases "rule_index (k + 1) rs f")
    case (Some j)
    with Cons.prems have "j = i" by simp
    with Cons.IH [of "k + 1"] Some have "k + 1 \<le> i" "i - (k + 1) < length rs" "ru_factor (rs ! (i - (k + 1))) = f" by auto
    then show ?thesis by (auto simp: nth_Cons')
  qed (use Cons.prems in \<open>auto split: if_splits\<close>)
qed simp

text \<open>The rules of a configuration in progress: the built-in ones with other pattern lists. A factor that no
  entry so far has replaced keeps the built-in patterns, and only the factors an entry has switched off
  are disabled.\<close>

definition replaced :: "(string \<times> factor_config) list \<Rightarrow> string \<Rightarrow> bool" where
  "replaced es f \<longleftrightarrow> (\<exists>fc. (f, fc) \<in> set es \<and> fc_mode fc = ModeReplace)"

definition carries :: "(string \<times> factor_config) list \<Rightarrow> rule list \<Rightarrow> rule \<Rightarrow> bool" where
  "carries es base r \<longleftrightarrow> (\<exists>s \<in> set base. ru_factor s = ru_factor r \<and> ru_scope s = ru_scope r
     \<and> (replaced es (ru_factor r) \<or> set (ru_patterns r) \<subseteq> set (ru_patterns s)))"

definition config_inv :: "regexps \<Rightarrow> (string \<times> factor_config) list \<Rightarrow> rule list \<times> string list \<Rightarrow> bool" where
  "config_inv rx es acc \<longleftrightarrow> map ru_factor (fst acc) = map ru_factor (builtinRules rx)
     \<and> (\<forall>r \<in> set (builtinRules rx). carries es (fst acc) r)
     \<and> (\<forall>f \<in> set (snd acc). \<exists>fc. (f, fc) \<in> set es \<and> \<not> fc_on fc)"

lemma carries_more: "carries es base r \<Longrightarrow> carries (es @ [e]) base r"
  unfolding carries_def replaced_def set_append by blast

lemma carries_update:
  assumes "carries es base r" "i < length base"
    and "ru_factor s' = ru_factor (base ! i)" "ru_scope s' = ru_scope (base ! i)"
    and "replaced es (ru_factor (base ! i)) \<or> set (ru_patterns (base ! i)) \<subseteq> set (ru_patterns s')"
  shows "carries es (base[i := s']) r"
proof -
  from assms(1) obtain s where s: "s \<in> set base" "ru_factor s = ru_factor r" "ru_scope s = ru_scope r"
    "replaced es (ru_factor r) \<or> set (ru_patterns r) \<subseteq> set (ru_patterns s)" unfolding carries_def by blast
  show ?thesis
  proof (cases "s = base ! i")
    case True
    have "s' \<in> set (base[i := s'])" using assms(2) by (rule set_update_memI)
    with s assms(3-5) True show ?thesis unfolding carries_def by (metis subset_trans)
  next
    case False
    then have "s \<in> set (base[i := s'])"
      using s(1) assms(2) by (metis in_set_conv_nth length_list_update nth_list_update_neq)
    with s show ?thesis unfolding carries_def by blast
  qed
qed

lemma map_update_same: "i < length xs \<Longrightarrow> f y = f (xs ! i) \<Longrightarrow> map f (xs[i := y]) = map f xs"
  by (metis list_update_id map_update)

lemma config_entry_ok:
  assumes "config_entry cfs rx (f, fc) (base, dis) = Inr acc'"
  obtains (unchanged) "acc' = (base, dis)"
  | (off) "acc' = (base, f # dis)" "\<not> fc_on fc"
  | (augment) i added where "rule_index 0 (builtinRules rx) f = Some i"
      "acc' = (base[i := (base ! i)\<lparr>ru_patterns := ru_patterns (base ! i) @ added\<rparr>], dis)"
  | (replace) i added where "rule_index 0 (builtinRules rx) f = Some i" "fc_mode fc = ModeReplace"
      "acc' = (base[i := (base ! i)\<lparr>ru_patterns := added\<rparr>], dis)"
  using assms unfolding config_entry_def Let_def
  by (auto split: option.splits sum.splits if_splits)

lemma config_entry_inv:
  assumes "config_inv rx es (base, dis)" "config_entry cfs rx (f, fc) (base, dis) = Inr acc'"
  shows "config_inv rx (es @ [(f, fc)]) acc'"
proof -
  have m: "map ru_factor base = map ru_factor (builtinRules rx)"
    and c: "carries (es @ [(f, fc)]) base r" if "r \<in> set (builtinRules rx)" for r
    using assms(1) that by (auto simp: config_inv_def intro: carries_more)
  have m: "map ru_factor base = map ru_factor (builtinRules rx)"
    and d: "\<forall>g \<in> set dis. \<exists>fc'. (g, fc') \<in> set (es @ [(f, fc)]) \<and> \<not> fc_on fc'"
    using assms(1) by (auto simp: config_inv_def)
  have at: "i < length base \<and> ru_factor (base ! i) = f" if "rule_index 0 (builtinRules rx) f = Some i" for i
    using rule_index_Some [OF that] m by (metis diff_zero length_map nth_map)
  from assms(2) show ?thesis
  proof (cases rule: config_entry_ok)
    case unchanged
    then show ?thesis using m c d by (simp add: config_inv_def)
  next
    case off
    then show ?thesis using m c d by (auto simp: config_inv_def)
  next
    case (augment i added)
    then show ?thesis using m c d at [of i] carries_update [of "es @ [(f, fc)]" base _ i]
      by (simp add: config_inv_def map_update_same)
  next
    case (replace i added)
    then have "replaced (es @ [(f, fc)]) f" unfolding replaced_def by auto
    with replace show ?thesis using m c d at [of i] carries_update [of "es @ [(f, fc)]" base _ i]
      by (simp add: config_inv_def map_update_same)
  qed
qed

lemma config_entries_inv:
  "config_inv rx es acc \<Longrightarrow> config_entries cfs rx fs acc = Inr acc' \<Longrightarrow> config_inv rx (es @ fs) acc'"
proof (induction fs arbitrary: es acc)
  case (Cons p fs)
  obtain f fc where p: "p = (f, fc)" by (cases p)
  obtain base dis where a: "acc = (base, dis)" by (cases acc)
  from Cons.prems(2) obtain mid where m: "config_entry cfs rx (f, fc) (base, dis) = Inr mid"
    "config_entries cfs rx fs mid = Inr acc'" by (auto simp: p a split: sum.splits)
  from Cons.IH [OF config_entry_inv [OF Cons.prems(1) [unfolded a] m(1)] m(2)] show ?case by (simp add: p)
qed simp

lemma config_inv_start: "config_inv rx [] (builtinRules rx, [])"
  by (auto simp: config_inv_def carries_def)

lemma matchesAny_mono: "matchesAny t ps \<Longrightarrow> set ps \<subseteq> set qs \<Longrightarrow> matchesAny t qs"
  by (auto simp: matchesAny_def list_ex_iff split: if_splits)

text \<open>A detector configuration that is accepted cannot silently weaken detection: a factor the built-in
  detector flags in a message is flagged by the configured one too, unless the whole detector is
  switched off or the configuration names that very factor with \<open>enabled: false\<close> or \<open>mode: replace\<close>.\<close>

lemma configured_detector_keeps_builtin:
  assumes "NewConfiguredDetector cfs rx cfg = Inr rules" "\<not> dc_disabled cfg"
    and "heuristic_Detect cfs (builtinRules rx) x c = Inr fs" "f \<in> set fs"
    and "\<forall>fc. (f, fc) \<in> set (dc_factors cfg) \<longrightarrow> fc_on fc \<and> fc_mode fc \<noteq> ModeReplace"
  shows "\<exists>gs. heuristic_Detect cfs rules x c = Inr gs \<and> f \<in> set gs"
proof -
  from assms(1,2) obtain base dis where ce: "config_entries cfs rx (dc_factors cfg) (builtinRules rx, []) = Inr (base, dis)"
    and rules: "rules = filter (\<lambda>r. ru_factor r \<notin> set dis) base"
    by (auto simp: NewConfiguredDetector_def split: sum.splits)
  from config_entries_inv [OF config_inv_start ce] have inv: "config_inv rx (dc_factors cfg) (base, dis)" by simp
  from assms(3,4) obtain r where r: "r \<in> set (builtinRules rx)" "ru_factor r = f" "cx_during x = None"
    "matchesAny (stripFormatRunes cfs (textForScope c (ru_scope r))) (ru_patterns r)"
    by (auto simp: heuristic_Detect_def split: option.splits)
  from inv r(1) obtain s where s: "s \<in> set base" "ru_factor s = f" "ru_scope s = ru_scope r"
    "replaced (dc_factors cfg) f \<or> set (ru_patterns r) \<subseteq> set (ru_patterns s)"
    by (auto simp: config_inv_def carries_def r(2))
  have "\<not> replaced (dc_factors cfg) f" using assms(5) by (auto simp: replaced_def)
  with s(4) r(4) s(3) have "matchesAny (stripFormatRunes cfs (textForScope c (ru_scope s))) (ru_patterns s)"
    using matchesAny_mono by metis
  moreover have "f \<notin> set dis" using inv assms(5) by (auto simp: config_inv_def)
  ultimately show ?thesis using s r(3) by (auto simp: heuristic_Detect_def rules)
qed

definition sample_rx :: regexps where
  "sample_rx = \<lparr>rx_compile = (\<lambda>p. Some (\<lambda>s. contains_str s p)), rx_instruction = [\<lambda>s. contains_str s ''obey''],
     rx_secrets = [\<lambda>s. contains_str s ''password'']\<rparr>"

lemma configured_detector_keeps_builtin_witness:
  "\<exists>gs. heuristic_Detect [] (builtinRules sample_rx) calm sample_content = Inr gs \<and> ''instruction_to_reader'' \<in> set gs"
proof -
  have n: "NewConfiguredDetector [] sample_rx \<lparr>dc_disabled = False, dc_factors = []\<rparr> = Inr (builtinRules sample_rx)"
    by (simp add: NewConfiguredDetector_def)
  have "matchesAny (stripFormatRunes [] (mc_body sample_content)) (rx_instruction sample_rx)" by code_simp
  then have f: "''instruction_to_reader'' \<in> set (projr (heuristic_Detect [] (builtinRules sample_rx) calm sample_content))"
    and d: "heuristic_Detect [] (builtinRules sample_rx) calm sample_content
      = Inr (projr (heuristic_Detect [] (builtinRules sample_rx) calm sample_content))"
    by (auto simp: heuristic_Detect_def calm_def builtinRules_def textForScope_def FactorInstruction_def)
  show ?thesis by (rule configured_detector_keeps_builtin [OF n _ d f]) simp_all
qed

end
