(* ===== verification/Screener.thy ===== *)
theory Screener
  imports Assessor
begin

text \<open>Model of \<open>internal/screener\<close>: the order in which one incoming message is scored, extracted and
  assessed, and the fail-safe holds. The extractor is a field of the screener, as in the code; the
  text of an error is not kept in the hold reason.\<close>

section \<open>Operations\<close>

record ('l) screener =
  sc_scorer :: risk_config
  sc_assessor :: assessor
  sc_extract :: "bytes \<Rightarrow> 'l \<Rightarrow> string + mcontent"
  sc_limits :: 'l

datatype screener_err = NilScorer | NilAssessor

definition screener_New ::
  "risk_config option \<Rightarrow> assessor option \<Rightarrow> (bytes \<Rightarrow> 'l \<Rightarrow> string + mcontent) \<Rightarrow> 'l \<Rightarrow> screener_err + 'l screener" where
  "screener_New scorer asr extract limits = (case scorer of
       None \<Rightarrow> Inl NilScorer
     | Some s \<Rightarrow> (case asr of
           None \<Rightarrow> Inl NilAssessor
         | Some a \<Rightarrow> Inr \<lparr>sc_scorer = s, sc_assessor = a, sc_extract = extract, sc_limits = limits\<rparr>))"

record screen_outcome =
  so_result :: risk_result
  so_summary :: string
  so_truncated :: bool
  so_active :: "string list"
  so_findings :: "finding list"

definition only_result :: "risk_result \<Rightarrow> screen_outcome" where
  "only_result r = \<lparr>so_result = r, so_summary = '''', so_truncated = False, so_active = [], so_findings = []\<rparr>"

definition ClassifierUnavailableSummary :: string where
  "ClassifierUnavailableSummary = ''the classifier did not answer, so this message was not fully assessed''"

definition is_unavailable :: "assess_err \<Rightarrow> bool" where
  "is_unavailable e = (case e of DetectFailed d \<Rightarrow> unavailable d | _ \<Rightarrow> False)"

definition holdTruncated :: "risk_result \<Rightarrow> risk_result" where
  "holdTruncated r = (if rr_disposition r = Held then r
     else r\<lparr>rr_disposition := Held, rr_reason := ReasonTruncated\<rparr>)"

definition Screen :: "'l screener \<Rightarrow> ctx \<Rightarrow> bytes \<Rightarrow> string \<Rightarrow> string \<Rightarrow> screen_outcome" where
  "Screen s x raw trust recipient = (
     let cheap = CheapScore (sc_scorer s) trust recipient
     in if ch_gated cheap then only_result (Compose (sc_scorer s) cheap [])
        else case sc_extract s raw (sc_limits s) of
            Inl e \<Rightarrow> only_result (NotCleared ''held: content could not be extracted for assessment'')
          | Inr content \<Rightarrow>
              if mc_undecodable content then
                only_result (NotCleared ''held: message content could not be fully decoded for assessment'')
              else (case assessor_Assess (sc_assessor s) x content of
                  Inl e \<Rightarrow>
                    let o1 = only_result (NotCleared ''held: assessment did not complete'')
                    in if is_unavailable e then o1\<lparr>so_summary := ClassifierUnavailableSummary\<rparr> else o1
                | Inr a \<Rightarrow>
                    let r = Compose (sc_scorer s) cheap (as_factors a);
                        r' = (if as_truncated a then holdTruncated r else r)
                    in \<lparr>so_result = r', so_summary = as_summary a, so_truncated = as_truncated a,
                        so_active = as_active a, so_findings = as_findings a\<rparr>))"

definition normalizeAddr :: "string \<Rightarrow> string" where
  "normalizeAddr a = to_lower (trim_space a)"

definition containsAddr :: "string list \<Rightarrow> string \<Rightarrow> bool" where
  "containsAddr l self \<longleftrightarrow> list_ex (\<lambda>a. normalizeAddr a = self) l"

definition ResolveRecipient :: "string \<Rightarrow> string list \<Rightarrow> string list \<Rightarrow> string" where
  "ResolveRecipient self to cc = (
     let self = normalizeAddr self
     in if self = '''' then RecipientUnknown
        else if containsAddr to self then RecipientTo
        else if containsAddr cc self then RecipientCc
        else RecipientBcc)"

section \<open>Which messages reach the agent\<close>

lemma Compose_handled:
  "rr_disposition (Compose c cheap fs) = AgentHandled \<longleftrightarrow>
     \<not> ch_gated cheap \<and> clamp (add_points c (ch_score cheap) fs) < rc_threshold c"
  by (auto simp: Compose_def Let_def risk_disposition_def)

lemma Compose_cleared: "rr_not_cleared (Compose c cheap fs) = False"
  by (auto simp: Compose_def Let_def split: prod.split)

lemma holdTruncated_held [simp]: "rr_disposition (holdTruncated r) = Held"
  by (simp add: holdTruncated_def)

lemma NotCleared_held [simp]: "rr_disposition (NotCleared t) = Held" "rr_not_cleared (NotCleared t)"
  by (simp_all add: NotCleared_def)

lemma only_result_simps [simp]:
  "so_result (only_result r) = r" "so_summary (only_result r) = ''''" "so_findings (only_result r) = []"
  by (simp_all add: only_result_def)

text \<open>A message goes to the agent only if everything went right: the sender and recipient terms stay
  below the threshold, the content was extracted, decoded completely and without hitting a cap, every
  detector answered before and after the context check, and the composed score with every reported
  factor is below the threshold; and then it does.\<close>

lemma screen_passes_iff:
  "rr_disposition (so_result (Screen s x raw trust rcpt)) = AgentHandled \<longleftrightarrow>
     \<not> ch_gated (CheapScore (sc_scorer s) trust rcpt)
     \<and> (\<exists>content a. sc_extract s raw (sc_limits s) = Inr content \<and> \<not> mc_undecodable content
          \<and> \<not> mc_truncated content
          \<and> assessor_Assess (sc_assessor s) x content = Inr a
          \<and> rr_score (risk_Assess (sc_scorer s) trust rcpt (as_factors a)) < rc_threshold (sc_scorer s))"
proof -
  have sc: "rr_score (risk_Assess c trust rcpt fs) = clamp (add_points c (ch_score (CheapScore c trust rcpt)) fs)"
    if "\<not> ch_gated (CheapScore c trust rcpt)" for c fs
    using that by (auto simp: risk_Assess_def Compose_def Let_def split: prod.split)
  have tr: "as_truncated a = mc_truncated content" if "assessor_Assess (sc_assessor s) x content = Inr a" for a content
    using that by (auto simp: Assess_ok)
  show ?thesis
  proof (cases "ch_gated (CheapScore (sc_scorer s) trust rcpt)")
    case True
    then show ?thesis by (simp add: Screen_def Let_def Compose_handled)
  next
    case ng: False
    show ?thesis
    proof (cases "sc_extract s raw (sc_limits s)")
      case (Inl e)
      then show ?thesis using ng by (simp add: Screen_def Let_def)
    next
      case (Inr content)
      show ?thesis
      proof (cases "assessor_Assess (sc_assessor s) x content")
        case (Inl e)
        then show ?thesis using ng Inr by (simp add: Screen_def Let_def)
      next
        case a: (Inr a)
        then show ?thesis using ng Inr tr [OF a] sc by (simp add: Screen_def Let_def Compose_handled)
      qed
    qed
  qed
qed

text \<open>Cheap first: when the sender and recipient terms alone reach the threshold the message is held on
  them and neither the extractor nor the assessor is consulted, so replacing either changes nothing.\<close>

lemma screen_gated_ignores_content:
  assumes "ch_gated (CheapScore (sc_scorer s) trust rcpt)"
  shows "rr_disposition (so_result (Screen s x raw trust rcpt)) = Held
    \<and> rr_short_circuited (so_result (Screen s x raw trust rcpt))
    \<and> rr_score (so_result (Screen s x raw trust rcpt)) = ch_score (CheapScore (sc_scorer s) trust rcpt)
    \<and> Screen (s\<lparr>sc_extract := extract', sc_assessor := asr'\<rparr>) x' raw' trust rcpt = Screen s x raw trust rcpt"
  using assms by (simp add: Screen_def Let_def Compose_def)

definition sample_screener :: "unit screener" where
  "sample_screener = \<lparr>sc_scorer = DefaultConfig\<lparr>rc_threshold := 40\<rparr>, sc_assessor = rogue_assessor,
     sc_extract = (\<lambda>raw l. Inr sample_content), sc_limits = ()\<rparr>"

lemma screen_gated_ignores_content_witness:
  "Screen (sample_screener\<lparr>sc_extract := \<lambda>raw l. Inl ''broken'', sc_assessor := rogue_assessor\<rparr>) calm ''b'' ''untrusted'' ''to''
   = Screen sample_screener calm ''a'' ''untrusted'' ''to''"
proof -
  have "ch_gated (CheapScore (sc_scorer sample_screener) ''untrusted'' ''to'')" by code_simp
  from screen_gated_ignores_content [OF this] show ?thesis by blast
qed

text \<open>The recipient position: a configured mailbox found in To is To even when it is also in Cc, found in
  neither it is Bcc, and addresses compare up to surrounding space and letter case; only an empty identity
  leaves the position unknown.\<close>

lemma resolve_recipient_spec:
  "ResolveRecipient self to cc = (
     if trim_space self = '''' then RecipientUnknown
     else if \<exists>a \<in> set to. equal_fold (trim_space a) (trim_space self) then RecipientTo
     else if \<exists>a \<in> set cc. equal_fold (trim_space a) (trim_space self) then RecipientCc
     else RecipientBcc)"
  by (auto simp: ResolveRecipient_def Let_def containsAddr_def normalizeAddr_def list_ex_iff equal_fold_def)

end
