(* ===== verification/Mailrec.thy ===== *)
theory Mailrec
  imports Assessor
begin

text \<open>The data of the served mailbox, \<open>internal/inbound/inbound.go\<close>: addresses, envelopes, deliveries and
  stored messages. A pointer that may be nil is an option; a list that may be nil with a meaning of its
  own (\<open>Active\<close>) is an option too.\<close>

record address =
  ad_name :: string
  ad_mailbox :: string
  ad_host :: string

record envelope =
  en_date :: time
  en_subject :: string
  en_from :: "address list"
  en_sender :: "address list"
  en_reply_to :: "address list"
  en_to :: "address list"
  en_cc :: "address list"
  en_bcc :: "address list"
  en_in_reply_to :: "string list"
  en_message_id :: string

record delivery =
  dl_owner :: string
  dl_inbox :: string
  dl_from :: string
  dl_to :: string
  dl_subject :: string
  dl_raw :: bytes
  dl_upstream_uid :: u32
  dl_uid_validity :: u32
  dl_envelope :: "envelope option"
  dl_size :: int
  dl_keywords :: "string list"

record iassessment =
  ia_disposition :: string
  ia_not_cleared :: bool
  ia_score :: int
  ia_band :: string
  ia_factors :: "string list"
  ia_summary :: string
  ia_truncated :: "bool option"
  ia_active :: "string list option"
  ia_findings :: "finding list"

record imessage =
  im_id :: string
  im_owner :: string
  im_inbox :: string
  im_from :: string
  im_to :: string
  im_subject :: string
  im_raw :: bytes
  im_seen :: bool
  im_received_at :: time
  im_upstream_uid :: u32
  im_uid_validity :: u32
  im_pending :: bool
  im_bounce_shaped :: "bool option"
  im_envelope :: "envelope option"
  im_size :: int
  im_keywords :: "string list"
  im_hold_decision :: string
  im_generated :: bool
  im_assessment :: "iassessment option"

definition HoldApproved :: string where "HoldApproved = ''approved''"
definition HoldRejected :: string where "HoldRejected = ''rejected''"
definition AssessmentAgentHandled :: string where "AssessmentAgentHandled = ''agent_handled''"
definition AssessmentHeld :: string where "AssessmentHeld = ''held''"

definition HeldByAssessment :: "imessage \<Rightarrow> bool" where
  "HeldByAssessment m = (case im_assessment m of None \<Rightarrow> False | Some a \<Rightarrow> ia_disposition a = AssessmentHeld)"

definition DefaultInboxName :: string where "DefaultInboxName = ''default''"

definition NormInbox :: "string \<Rightarrow> string" where
  "NormInbox inbox = (if inbox = '''' then DefaultInboxName else inbox)"

lemma NormInbox_idem [simp]: "NormInbox (NormInbox i) = NormInbox i"
  by (simp add: NormInbox_def DefaultInboxName_def)

definition imessage_zero :: imessage where
  "imessage_zero = \<lparr>im_id = '''', im_owner = '''', im_inbox = '''', im_from = '''', im_to = '''', im_subject = '''',
     im_raw = '''', im_seen = False, im_received_at = 0, im_upstream_uid = 0, im_uid_validity = 0, im_pending = False,
     im_bounce_shaped = None, im_envelope = None, im_size = 0, im_keywords = [], im_hold_decision = '''',
     im_generated = False, im_assessment = None\<rparr>"

end
