(* ===== verification/Mailfilter.thy ===== *)
theory Mailfilter
  imports Mailrec
begin

text \<open>Model of \<open>internal/filter\<close>: the inbound rules, their evaluation (\<open>filter.go\<close>) and their compilation
  from the configuration (\<open>load.go\<close>). The YAML decoder's result is the argument of \<open>filter_Compile\<close>. The
  standard library's regular expressions, its number and duration parsers and its date format are the
  fields of a record. Rendering rules for \<open>filter explain\<close> is not modelled.\<close>

section \<open>Rules and their evaluation\<close>

datatype action = Allow | Hide | Hold

record stdlib =
  sl_regexp :: "string \<Rightarrow> (string \<Rightarrow> bool) option"
  sl_float :: "string \<Rightarrow> rat option"
  sl_duration :: "string \<Rightarrow> duration option"
  sl_rfc1123z :: "time \<Rightarrow> string"

text \<open>\<open>fc_re\<close> is set by the compiler of every condition whose operator is \<open>regex\<close>.\<close>

record cond =
  co_field :: string
  co_header :: string
  co_op :: string
  co_value :: string
  co_re :: "(string \<Rightarrow> bool) option"
  co_dur :: duration

record frule =
  fr_conds :: "cond list"
  fr_action :: action
  fr_implied :: bool

record filter_set =
  ft_rules :: "frule list"
  ft_def :: action

datatype env_sel = EnvFrom | EnvTo | EnvCc

definition addr_string :: "address \<Rightarrow> string" where
  "addr_string a = ad_mailbox a @ ''@'' @ ad_host a"

definition addrValues :: "envelope option \<Rightarrow> env_sel \<Rightarrow> string \<Rightarrow> string list" where
  "addrValues e sel fallback = (
     let as = (case e of None \<Rightarrow> [] | Some v \<Rightarrow>
                 (case sel of EnvFrom \<Rightarrow> en_from v | EnvTo \<Rightarrow> en_to v | EnvCc \<Rightarrow> en_cc v))
     in if as \<noteq> [] then map addr_string as
        else if fallback \<noteq> '''' then [fallback] else [])"

definition headerValues :: "stdlib \<Rightarrow> imessage \<Rightarrow> string \<Rightarrow> string list" where
  "headerValues L m header =
     (if header = ''from'' then addrValues (im_envelope m) EnvFrom (im_from m)
      else if header = ''to'' then addrValues (im_envelope m) EnvTo (im_to m)
      else if header = ''cc'' then addrValues (im_envelope m) EnvCc ''''
      else if header = ''subject'' then [im_subject m]
      else case im_envelope m of
          None \<Rightarrow> []
        | Some e \<Rightarrow>
            if header = ''date'' then (if en_date e = 0 then [] else [sl_rfc1123z L (en_date e)])
            else if header = ''message-id'' then [en_message_id e]
            else if header = ''reply-to'' then map addr_string (en_reply_to e)
            else [])"

definition fieldValues :: "stdlib \<Rightarrow> imessage \<Rightarrow> string \<Rightarrow> string \<Rightarrow> string list" where
  "fieldValues L m field header =
     (if field = ''from'' then addrValues (im_envelope m) EnvFrom (im_from m)
      else if field = ''to'' then addrValues (im_envelope m) EnvTo (im_to m)
      else if field = ''cc'' then addrValues (im_envelope m) EnvCc ''''
      else if field = ''subject'' then [im_subject m]
      else if field = ''label'' then im_keywords m
      else if field = ''header'' then headerValues L m header
      else [])"

definition filter_domainOf :: "string \<Rightarrow> string" where
  "filter_domainOf addr = (case after_last (CHR ''@'') (trim_suffix addr ''>'') of None \<Rightarrow> '''' | Some d \<Rightarrow> d)"

definition opMatch :: "cond \<Rightarrow> string \<Rightarrow> bool" where
  "opMatch c v =
     (if co_op c = ''equals'' then equal_fold v (co_value c)
      else if co_op c = ''contains'' then contains_str (to_lower v) (co_value c)
      else if co_op c = ''regex'' then (case co_re c of None \<Rightarrow> False | Some p \<Rightarrow> p v)
      else if co_op c = ''domain'' then equal_fold (filter_domainOf v) (co_value c)
      else False)"

definition cond_matches :: "stdlib \<Rightarrow> imessage \<Rightarrow> time \<Rightarrow> cond \<Rightarrow> bool" where
  "cond_matches L m now c =
     (if co_field c = ''age'' then
        let age = time_sub now (im_received_at m)
        in if co_op c = ''older_than'' then age > co_dur c else age < co_dur c
      else list_ex (opMatch c) (fieldValues L m (co_field c) (co_header c)))"

definition rule_matches :: "stdlib \<Rightarrow> imessage \<Rightarrow> time \<Rightarrow> frule \<Rightarrow> bool" where
  "rule_matches L m now r = list_all (cond_matches L m now) (fr_conds r)"

fun first_action :: "(frule \<Rightarrow> bool) \<Rightarrow> frule list \<Rightarrow> action \<Rightarrow> action" where
  "first_action P [] d = d"
| "first_action P (r # rs) d = (if P r then fr_action r else first_action P rs d)"

definition filter_Decide :: "stdlib \<Rightarrow> filter_set option \<Rightarrow> imessage \<Rightarrow> time \<Rightarrow> action" where
  "filter_Decide L f m now = (case f of
       None \<Rightarrow> Allow
     | Some s \<Rightarrow> first_action (rule_matches L m now) (ft_rules s) (ft_def s))"

definition filter_Default :: "filter_set option \<Rightarrow> action" where
  "filter_Default f = (case f of None \<Rightarrow> Allow | Some s \<Rightarrow> ft_def s)"

section \<open>Compilation\<close>

record cond_config =
  cc_field :: string
  cc_header :: string
  cc_op :: string
  cc_value :: string

record rule_config =
  rl_match :: "cond_config list"
  rl_action :: string

record filter_config =
  fg_default_visibility :: string
  fg_default :: string
  fg_rules :: "rule_config list"

datatype filter_err = FilterUnparseable | UnknownVisibility string | UnknownAction string | DefaultConflict string string
  | NoImpliedAction nat | NoConditions nat | AtRule nat filter_err | AtCondition nat nat filter_err
  | BadAgeOp string | BadDuration string | BadHeader string | UnknownField string | DomainNotAddress
  | UnknownOp string | EmptyValue | BadRegexp string | FileUnreadable string | FilterExclusive | InFile string filter_err

definition parseAction :: "string \<Rightarrow> filter_err + action" where
  "parseAction s = (if s = ''allow'' then Inr Allow else if s = ''hide'' then Inr Hide
     else if s = ''hold-for-human'' then Inr Hold else Inl (UnknownAction s))"

definition normVisibility :: "string \<Rightarrow> filter_err + string" where
  "normVisibility s = (
     let t = to_lower (trim_space s)
     in if t = '''' then Inr '''' else if t = ''visible'' then Inr ''visible''
        else if t = ''hidden'' then Inr ''hidden'' else Inl (UnknownVisibility s))"

definition inverse_action :: "action \<Rightarrow> action" where
  "inverse_action a = (if a = Allow then Hide else Allow)"

text \<open>The no-match action, and the action of a bare rule when the disposition implies one.\<close>

definition resolveDefault :: "filter_config \<Rightarrow> filter_err + (action \<times> action option)" where
  "resolveDefault fc = (case normVisibility (fg_default_visibility fc) of
       Inl e \<Rightarrow> Inl e
     | Inr vis \<Rightarrow>
       (case (if fg_default fc \<noteq> '''' then map_sum id Some (parseAction (fg_default fc)) else Inr None) of
          Inl e \<Rightarrow> Inl e
        | Inr legacy \<Rightarrow>
            if vis \<noteq> '''' then
              let d = (if vis = ''hidden'' then Hide else Allow)
              in if fg_default fc \<noteq> '''' \<and> legacy \<noteq> Some d then Inl (DefaultConflict vis (fg_default fc))
                 else Inr (d, Some (inverse_action d))
            else (case legacy of
                Some Allow \<Rightarrow> Inr (Allow, Some Hide)
              | Some Hide \<Rightarrow> Inr (Hide, Some Allow)
              | Some Hold \<Rightarrow> Inr (Hold, None)
              | None \<Rightarrow> Inr (Allow, Some Hide))))"

definition isAddressCond :: "string \<Rightarrow> string \<Rightarrow> bool" where
  "isAddressCond field header =
     (if field = ''from'' \<or> field = ''to'' \<or> field = ''cc'' then True
      else if field = ''header'' then header = ''from'' \<or> header = ''to'' \<or> header = ''cc'' \<or> header = ''reply-to''
      else False)"

definition envelopeHeaders :: "string list" where
  "envelopeHeaders = [''from'', ''to'', ''cc'', ''subject'', ''date'', ''message-id'', ''reply-to'']"

text \<open>The product of the parsed number and the unit, truncated towards zero.\<close>

definition rtrunc :: "rat \<Rightarrow> int" where
  "rtrunc r = (if r < 0 then - \<lfloor>- r\<rfloor> else \<lfloor>r\<rfloor>)"

definition hour :: duration where "hour = 3600 * 10 ^ 9"

definition unit_of :: "char \<Rightarrow> duration option" where
  "unit_of c = (if c = CHR ''d'' then Some (24 * hour) else if c = CHR ''w'' then Some (7 * 24 * hour)
     else if c = CHR ''y'' then Some (365 * 24 * hour) else None)"

definition parseDur :: "stdlib \<Rightarrow> string \<Rightarrow> filter_err + duration" where
  "parseDur L s0 = (
     let s = trim_space s0
     in if s = '''' then Inl (BadDuration s)
        else case unit_of (last s) of
            Some mult \<Rightarrow> (case sl_float L (butlast s) of
                None \<Rightarrow> Inl (BadDuration s) | Some v \<Rightarrow> Inr (rtrunc (v * of_int mult)))
          | None \<Rightarrow> (case sl_duration L s of None \<Rightarrow> Inl (BadDuration s) | Some d \<Rightarrow> Inr d))"

definition compileCond :: "stdlib \<Rightarrow> cond_config \<Rightarrow> filter_err + cond" where
  "compileCond L cc = (
     let field = to_lower (cc_field cc);
         oper = to_lower (cc_op cc);
         c = \<lparr>co_field = field, co_header = '''', co_op = oper, co_value = '''', co_re = None, co_dur = 0\<rparr>
     in if field = ''age'' then
          (if oper \<noteq> ''older_than'' \<and> oper \<noteq> ''newer_than'' then Inl (BadAgeOp (cc_op cc))
           else case parseDur L (cc_value cc) of Inl e \<Rightarrow> Inl e | Inr d \<Rightarrow> Inr (c\<lparr>co_dur := d\<rparr>))
        else if field \<notin> {''from'', ''to'', ''cc'', ''subject'', ''label'', ''header''} then Inl (UnknownField (cc_field cc))
        else
          let header = (if field = ''header'' then to_lower (cc_header cc) else '''')
          in if field = ''header'' \<and> header \<notin> set envelopeHeaders then Inl (BadHeader (cc_header cc))
             else if oper \<notin> {''equals'', ''contains'', ''regex'', ''domain''} then Inl (UnknownOp (cc_op cc))
             else if oper = ''domain'' \<and> \<not> isAddressCond field header then Inl DomainNotAddress
             else if cc_value cc = '''' then Inl EmptyValue
             else if oper = ''regex'' then
               (case sl_regexp L (cc_value cc) of
                  None \<Rightarrow> Inl (BadRegexp (cc_value cc))
                | Some p \<Rightarrow> Inr (c\<lparr>co_header := header, co_re := Some p, co_value := cc_value cc\<rparr>))
             else Inr (c\<lparr>co_header := header, co_value := to_lower (cc_value cc)\<rparr>))"

fun compile_conds :: "stdlib \<Rightarrow> nat \<Rightarrow> nat \<Rightarrow> cond_config list \<Rightarrow> filter_err + cond list" where
  "compile_conds L i j [] = Inr []"
| "compile_conds L i j (cc # ccs) = (case compileCond L cc of
       Inl e \<Rightarrow> Inl (AtCondition (i + 1) (j + 1) e)
     | Inr c \<Rightarrow> (case compile_conds L i (j + 1) ccs of Inl e \<Rightarrow> Inl e | Inr cs \<Rightarrow> Inr (c # cs)))"

definition rule_action :: "action option \<Rightarrow> nat \<Rightarrow> string \<Rightarrow> filter_err + (action \<times> bool)" where
  "rule_action flip i act = (if act = '''' then
       (case flip of None \<Rightarrow> Inl (NoImpliedAction (i + 1)) | Some f \<Rightarrow> Inr (f, True))
     else (case parseAction act of Inl e \<Rightarrow> Inl (AtRule (i + 1) e) | Inr a \<Rightarrow> Inr (a, False)))"

fun compile_rules :: "stdlib \<Rightarrow> action option \<Rightarrow> nat \<Rightarrow> rule_config list \<Rightarrow> filter_err + frule list" where
  "compile_rules L flip i [] = Inr []"
| "compile_rules L flip i (rc # rcs) = (case rule_action flip i (rl_action rc) of
       Inl e \<Rightarrow> Inl e
     | Inr (a, implied) \<Rightarrow>
         if rl_match rc = [] then Inl (NoConditions (i + 1))
         else (case compile_conds L i 0 (rl_match rc) of
             Inl e \<Rightarrow> Inl e
           | Inr cs \<Rightarrow> (case compile_rules L flip (i + 1) rcs of
                 Inl e \<Rightarrow> Inl e
               | Inr rs \<Rightarrow> Inr (\<lparr>fr_conds = cs, fr_action = a, fr_implied = implied\<rparr> # rs))))"

definition filter_Compile :: "stdlib \<Rightarrow> filter_config option \<Rightarrow> filter_err + filter_set" where
  "filter_Compile L decoded = (case decoded of
       None \<Rightarrow> Inl FilterUnparseable
     | Some fc \<Rightarrow> (case resolveDefault fc of
           Inl e \<Rightarrow> Inl e
         | Inr (def, flip) \<Rightarrow> (case compile_rules L flip 0 (fg_rules fc) of
               Inl e \<Rightarrow> Inl e
             | Inr rs \<Rightarrow> Inr \<lparr>ft_rules = rs, ft_def = def\<rparr>)))"

text \<open>What \<open>os.ReadFile\<close> and the decoder give for a path: nothing, or a document that may not decode.\<close>

definition filter_Load :: "stdlib \<Rightarrow> (string \<Rightarrow> filter_config option option) \<Rightarrow> string \<Rightarrow> filter_err + filter_set" where
  "filter_Load L files path = (if path = '''' then Inr \<lparr>ft_rules = [], ft_def = Allow\<rparr>
     else case files path of
         None \<Rightarrow> Inl (FileUnreadable path)
       | Some doc \<Rightarrow> (case filter_Compile L doc of Inl e \<Rightarrow> Inl (InFile path e) | Inr f \<Rightarrow> Inr f))"

section \<open>What a rule set decides\<close>

lemma first_action_cases:
  "(\<exists>rs1 r rs2. rules = rs1 @ r # rs2 \<and> P r \<and> (\<forall>q \<in> set rs1. \<not> P q) \<and> first_action P rules d = fr_action r)
   \<or> ((\<forall>q \<in> set rules. \<not> P q) \<and> first_action P rules d = d)"
proof (induction rules)
  case (Cons r rs)
  show ?case
  proof (cases "P r")
    case True
    then have "r # rs = [] @ r # rs \<and> P r \<and> (\<forall>q \<in> set []. \<not> P q) \<and> first_action P (r # rs) d = fr_action r" by simp
    then show ?thesis by blast
  next
    case False
    from Cons show ?thesis
    proof (elim disjE exE conjE)
      fix rs1 q rs2 assume "rs = rs1 @ q # rs2" "P q" "\<forall>q\<in>set rs1. \<not> P q" "first_action P rs d = fr_action q"
      then have "r # rs = (r # rs1) @ q # rs2 \<and> P q \<and> (\<forall>x \<in> set (r # rs1). \<not> P x) \<and> first_action P (r # rs) d = fr_action q"
        using False by simp
      then show ?thesis by blast
    qed (use False in auto)
  qed
qed simp

lemma rule_action_ok:
  "rule_action flip i act = Inr (a, imp) \<longleftrightarrow>
     (if act = '''' then flip = Some a \<and> imp else parseAction act = Inr a \<and> \<not> imp)"
  by (auto simp: rule_action_def split: option.splits sum.splits)

lemma compile_rules_ok:
  "compile_rules L flip i rcs = Inr rs \<Longrightarrow>
   list_all2 (\<lambda>rc r. fr_conds r \<noteq> [] \<and>
     (if rl_action rc = '''' then flip = Some (fr_action r) \<and> fr_implied r
      else parseAction (rl_action rc) = Inr (fr_action r) \<and> \<not> fr_implied r)) rcs rs"
proof (induction rcs arbitrary: i rs)
  case (Cons rc rcs)
  from Cons.prems obtain a imp cs rs' where s: "rule_action flip i (rl_action rc) = Inr (a, imp)" "rl_match rc \<noteq> []"
    "compile_conds L i 0 (rl_match rc) = Inr cs" "compile_rules L flip (i + 1) rcs = Inr rs'"
    "rs = \<lparr>fr_conds = cs, fr_action = a, fr_implied = imp\<rparr> # rs'"
    by (auto split: sum.splits prod.splits if_splits)
  have "cs \<noteq> []" using s(2,3) by (cases "rl_match rc") (auto split: sum.splits)
  with Cons.IH [OF s(4)] s(1,5) show ?case by (auto simp: rule_action_ok)
qed simp

lemma resolveDefault_flip:
  "resolveDefault fc = Inr (d, Some f) \<Longrightarrow> (d = Allow \<and> f = Hide) \<or> (d = Hide \<and> f = Allow)"
  by (auto simp: resolveDefault_def inverse_action_def Let_def split: sum.splits if_splits option.splits action.splits)

lemma resolveDefault_hidden:
  "normVisibility (fg_default_visibility fc) = Inr ''hidden'' \<Longrightarrow> resolveDefault fc = Inr (d, f) \<Longrightarrow> d = Hide \<and> f = Some Allow"
  by (auto simp: resolveDefault_def inverse_action_def Let_def split: sum.splits if_splits)

text \<open>C18: a rule set under \<open>default_visibility: hidden\<close> is an allowlist: a message is shown only when the
  first rule it matches is a bare rule or one that says \<open>allow\<close>, and held only by a rule that says
  \<open>hold-for-human\<close>; in every accepted rule set holding is never implied and every rule has a condition.\<close>

theorem filter_hidden_is_allowlist:
  assumes "filter_Compile L (Some fc) = Inr f" "normVisibility (fg_default_visibility fc) = Inr ''hidden''"
    and "filter_Decide L (Some f) m now \<noteq> Hide"
  shows "\<exists>k < length (fg_rules fc). rule_matches L m now (ft_rules f ! k)
     \<and> (\<forall>j < k. \<not> rule_matches L m now (ft_rules f ! j)) \<and> fr_conds (ft_rules f ! k) \<noteq> []
     \<and> (if filter_Decide L (Some f) m now = Hold then rl_action (fg_rules fc ! k) = ''hold-for-human''
        else rl_action (fg_rules fc ! k) \<in> {'''', ''allow''})"
proof -
  from assms(1) obtain flip where r: "resolveDefault fc = Inr (ft_def f, flip)"
    and c: "compile_rules L flip 0 (fg_rules fc) = Inr (ft_rules f)"
    by (auto simp: filter_Compile_def split: sum.splits prod.splits)
  have d: "ft_def f = Hide" "flip = Some Allow" using resolveDefault_hidden [OF assms(2) r] by auto
  from first_action_cases [of "ft_rules f" "rule_matches L m now" "ft_def f"] d assms(3)
  obtain rs1 q rs2 where s: "ft_rules f = rs1 @ q # rs2" "rule_matches L m now q"
    "\<forall>x \<in> set rs1. \<not> rule_matches L m now x" "filter_Decide L (Some f) m now = fr_action q"
    by (auto simp: filter_Decide_def)
  let ?k = "length rs1"
  from compile_rules_ok [OF c] have len: "length (fg_rules fc) = length (ft_rules f)" by (rule list_all2_lengthD)
  have kl: "?k < length (ft_rules f)" and kq: "ft_rules f ! ?k = q" by (simp_all add: s(1))
  from list_all2_nthD2 [OF compile_rules_ok [OF c] kl] have p: "fr_conds q \<noteq> []"
    "if rl_action (fg_rules fc ! ?k) = '''' then flip = Some (fr_action q)
     else parseAction (rl_action (fg_rules fc ! ?k)) = Inr (fr_action q)" by (auto simp: kq split: if_splits)
  have a: "if fr_action q = Hold then rl_action (fg_rules fc ! ?k) = ''hold-for-human''
        else rl_action (fg_rules fc ! ?k) \<in> {'''', ''allow''}"
    using p(2) d(2) assms(3) s(4) by (auto simp: parseAction_def split: if_splits)
  have before: "\<forall>j < ?k. \<not> rule_matches L m now (ft_rules f ! j)"
    using s(3) by (auto simp: s(1) nth_append)
  show ?thesis
    by (rule exI [of _ ?k]) (use kl kq len s(2,4) before a p(1) in auto)
qed

definition sample_stdlib :: stdlib where
  "sample_stdlib = \<lparr>sl_regexp = (\<lambda>p. Some (\<lambda>s. contains_str s p)), sl_float = (\<lambda>s. map_option (\<lambda>n. of_int (int n)) (parse_uint 63 s)),
     sl_duration = (\<lambda>s. None), sl_rfc1123z = (\<lambda>t. '''')\<rparr>"

definition sample_filter :: filter_config where
  "sample_filter = \<lparr>fg_default_visibility = ''hidden'', fg_default = '''',
     fg_rules = [\<lparr>rl_match = [\<lparr>cc_field = ''Label'', cc_header = '''', cc_op = ''equals'', cc_value = ''Ok''\<rparr>], rl_action = ''''\<rparr>]\<rparr>"

theorem filter_hidden_is_allowlist_witness:
  "\<exists>f. filter_Compile sample_stdlib (Some sample_filter) = Inr f
    \<and> rule_matches sample_stdlib (imessage_zero\<lparr>im_keywords := [''oK'']\<rparr>) 5 (ft_rules f ! 0)"
proof -
  let ?f = "projr (filter_Compile sample_stdlib (Some sample_filter))" and ?m = "imessage_zero\<lparr>im_keywords := [''oK'']\<rparr>"
  have c: "isl (filter_Compile sample_stdlib (Some sample_filter)) = False" by code_simp
  then have c: "filter_Compile sample_stdlib (Some sample_filter) = Inr ?f"
    by (cases "filter_Compile sample_stdlib (Some sample_filter)") auto
  have n: "normVisibility (fg_default_visibility sample_filter) = Inr ''hidden''" by code_simp
  have d: "filter_Decide sample_stdlib (Some ?f) ?m 5 \<noteq> Hide" by code_simp
  from filter_hidden_is_allowlist [OF c n d] c show ?thesis by (auto simp: sample_filter_def)
qed

text \<open>A bare rule flips visibility: under an accepted rule set its action is the opposite of the no-match
  action, which is then show or hide, so that no message is held for a human by a rule that does not say
  so; an explicit action is taken as written.\<close>

lemma filter_bare_rules_flip:
  assumes "filter_Compile L (Some fc) = Inr f" "k < length (fg_rules fc)"
  shows "k < length (ft_rules f) \<and>
    (if rl_action (fg_rules fc ! k) = ''''
     then fr_implied (ft_rules f ! k) \<and> ft_def f \<in> {Allow, Hide} \<and> fr_action (ft_rules f ! k) \<in> {Allow, Hide}
          \<and> fr_action (ft_rules f ! k) \<noteq> ft_def f
     else \<not> fr_implied (ft_rules f ! k) \<and> parseAction (rl_action (fg_rules fc ! k)) = Inr (fr_action (ft_rules f ! k)))"
proof -
  from assms(1) obtain flip where r: "resolveDefault fc = Inr (ft_def f, flip)"
    and c: "compile_rules L flip 0 (fg_rules fc) = Inr (ft_rules f)"
    by (auto simp: filter_Compile_def split: sum.splits prod.splits)
  from compile_rules_ok [OF c] have len: "length (fg_rules fc) = length (ft_rules f)" by (rule list_all2_lengthD)
  from list_all2_nthD [OF compile_rules_ok [OF c] assms(2)] show ?thesis
    using len assms(2) resolveDefault_flip [of fc "ft_def f" "the flip"] r by (auto split: if_splits)
qed

lemma filter_bare_rules_flip_witness:
  "\<exists>f. filter_Compile sample_stdlib (Some sample_filter) = Inr f \<and> fr_action (ft_rules f ! 0) \<noteq> ft_def f"
proof -
  let ?f = "projr (filter_Compile sample_stdlib (Some sample_filter))"
  have c: "isl (filter_Compile sample_stdlib (Some sample_filter)) = False" by code_simp
  then have c: "filter_Compile sample_stdlib (Some sample_filter) = Inr ?f"
    by (cases "filter_Compile sample_stdlib (Some sample_filter)") auto
  have "0 < length (fg_rules sample_filter)" by (simp add: sample_filter_def)
  from filter_bare_rules_flip [OF c this] c show ?thesis by (auto simp: sample_filter_def)
qed

end
