(* ===== verification/Inboxcfg.thy ===== *)
theory Inboxcfg
  imports Mailfilter
begin

text \<open>Model of \<open>internal/inboxcfg\<close>: the inbox list, its validation and routing (\<open>inboxcfg.go\<close>), the
  authentication gate on trust (\<open>authgate.go\<close>) and the search for ignored settings (\<open>unknown.go\<close>).

  The YAML decoder and the Authentication-Results parser are third-party packages: \<open>inbox_Parse\<close>
  takes the decoded list and the node tree, the gate takes the parser. Names are ASCII.\<close>

section \<open>Data\<close>

record trust_rule =
  tr_from :: string
  tr_from_domain :: string
  tr_level :: string
  tr_note :: string

record trust =
  tt_level :: string
  tt_note :: string
  tt_body_banner :: bool
  tt_rules :: "trust_rule list"
  tt_require_authenticated :: bool
  tt_authserv_id :: string

record inbox_backend =
  bk_imap_host :: string
  bk_imap_username :: string
  bk_imap_mailbox :: string
  bk_max_age :: string
  bk_sender_type :: string
  bk_smtp_host :: string
  bk_smtp_username :: string

text \<open>\<open>ib_rules\<close>: no node, a node that does not decode, or the decoded rules.\<close>

record inbox =
  ib_name :: string
  ib_identity :: string
  ib_backend :: inbox_backend
  ib_default_visibility :: string
  ib_rules :: "rule_config list option option"
  ib_filter_file :: string
  ib_reconcile_enabled :: bool
  ib_reconcile_interval :: string
  ib_cap_fraction :: f64
  ib_cap_floor :: int
  ib_sync_on_status :: bool
  ib_sync_on_status_interval :: string
  ib_trust :: trust

definition TrustLevelTrusted :: string where "TrustLevelTrusted = ''trusted''"
definition TrustLevelUntrusted :: string where "TrustLevelUntrusted = ''untrusted''"
definition maxNoteLen :: nat where "maxNoteLen = 512"

datatype inboxcfg_err = InboxUnparseable | GateMisplaced string | NoInboxes | InboxNoName nat | InboxDuplicate string
  | EnvCollision string string string | InboxFilter string filter_err | BadReconcileInterval string
  | BadCapFraction string | BadCapFloor string | BadSyncInterval string
  | BadTrustLevel string | NoteTooLong nat | NoteControl | NeedsAuthservID | UselessAuthservID
  | RuleMatchers nat | RuleLevel nat string | RuleNote nat inboxcfg_err | DuplicateFrom string | DuplicateDomain string
  | InInbox string inboxcfg_err

section \<open>Names, addresses, durations\<close>

text \<open>A character outside ASCII becomes one underscore whatever its encoding's length.\<close>

definition EnvPrefix :: "string \<Rightarrow> string" where
  "EnvPrefix name = map (\<lambda>c. let n = (of_char c :: nat)
       in if (65 \<le> n \<and> n \<le> 90) \<or> (48 \<le> n \<and> n \<le> 57) then c else CHR ''_'')
     (filter (\<lambda>c. \<not> (128 \<le> (of_char c :: nat) \<and> (of_char c :: nat) < 192)) (to_upper name))"

definition normAddr :: "string \<Rightarrow> string" where
  "normAddr s = to_lower (trim_space s)"

definition normDomain :: "string \<Rightarrow> string" where
  "normDomain s = to_lower (trim_prefix (trim_space s) ''@'')"

definition inbox_domainOf :: "string \<Rightarrow> string" where
  "inbox_domainOf addr = (case after_last (CHR ''@'') addr of None \<Rightarrow> '''' | Some d \<Rightarrow> d)"

definition ReconcileDuration :: "stdlib \<Rightarrow> inbox \<Rightarrow> inboxcfg_err + duration" where
  "ReconcileDuration L i = (
     let s = trim_space (ib_reconcile_interval i)
     in if s = '''' then Inr 0
        else case sl_duration L s of
            None \<Rightarrow> Inl (BadReconcileInterval s)
          | Some d \<Rightarrow> if d \<le> 0 then Inl (BadReconcileInterval s) else Inr d)"

definition SyncOnStatusDuration :: "stdlib \<Rightarrow> inbox \<Rightarrow> inboxcfg_err + duration" where
  "SyncOnStatusDuration L i = (
     let s = trim_space (ib_sync_on_status_interval i)
     in if s = '''' then Inr 0
        else case sl_duration L s of
            None \<Rightarrow> Inl (BadSyncInterval s)
          | Some d \<Rightarrow> if d \<le> 0 then Inl (BadSyncInterval s) else Inr d)"

definition inbox_Filter :: "stdlib \<Rightarrow> (string \<Rightarrow> filter_config option option) \<Rightarrow> inbox \<Rightarrow> filter_err + filter_set" where
  "inbox_Filter L files i = (
     let empty = (ib_default_visibility i = '''' \<and> ib_rules i = None)
     in if ib_filter_file i \<noteq> '''' then
          (if \<not> empty then Inl FilterExclusive else filter_Load L files (ib_filter_file i))
        else if empty then
          filter_Compile L (Some \<lparr>fg_default_visibility = '''', fg_default = '''', fg_rules = []\<rparr>)
        else filter_Compile L (case ib_rules i of
            None \<Rightarrow> Some \<lparr>fg_default_visibility = ib_default_visibility i, fg_default = '''', fg_rules = []\<rparr>
          | Some None \<Rightarrow> None
          | Some (Some rs) \<Rightarrow> Some \<lparr>fg_default_visibility = ib_default_visibility i, fg_default = '''', fg_rules = rs\<rparr>))"

section \<open>Validation\<close>

definition validateNote :: "string \<Rightarrow> inboxcfg_err option" where
  "validateNote note = (if note = '''' then None
     else if length note > maxNoteLen then Some (NoteTooLong (length note))
     else if list_ex (\<lambda>c. (of_char c :: nat) < 32 \<or> (of_char c :: nat) = 127) note then Some NoteControl
     else None)"

definition hasFrom :: "trust_rule \<Rightarrow> bool" where
  "hasFrom r \<longleftrightarrow> trim_space (tr_from r) \<noteq> ''''"

definition hasDomain :: "trust_rule \<Rightarrow> bool" where
  "hasDomain r \<longleftrightarrow> trim_space (tr_from_domain r) \<noteq> ''''"

fun validate_rules :: "nat \<Rightarrow> string list \<Rightarrow> string list \<Rightarrow> trust_rule list \<Rightarrow> inboxcfg_err option" where
  "validate_rules i seenFrom seenDomain [] = None"
| "validate_rules i seenFrom seenDomain (r # rs) =
     (if hasFrom r = hasDomain r then Some (RuleMatchers i)
      else if tr_level r \<noteq> TrustLevelTrusted \<and> tr_level r \<noteq> TrustLevelUntrusted then Some (RuleLevel i (tr_level r))
      else case validateNote (tr_note r) of
          Some e \<Rightarrow> Some (RuleNote i e)
        | None \<Rightarrow>
            if hasFrom r then
              (if normAddr (tr_from r) \<in> set seenFrom then Some (DuplicateFrom (tr_from r))
               else validate_rules (i + 1) (normAddr (tr_from r) # seenFrom) seenDomain rs)
            else
              (if normDomain (tr_from_domain r) \<in> set seenDomain then Some (DuplicateDomain (tr_from_domain r))
               else validate_rules (i + 1) seenFrom (normDomain (tr_from_domain r) # seenDomain) rs))"

definition validateRules :: "trust_rule list \<Rightarrow> inboxcfg_err option" where
  "validateRules rules = validate_rules 0 [] [] rules"

definition validateTrust :: "trust \<Rightarrow> inboxcfg_err option" where
  "validateTrust t =
     (if tt_level t \<notin> {'''', TrustLevelTrusted, TrustLevelUntrusted} then Some (BadTrustLevel (tt_level t))
      else case validateNote (tt_note t) of
          Some e \<Rightarrow> Some e
        | None \<Rightarrow>
            if tt_require_authenticated t \<and> trim_space (tt_authserv_id t) = '''' then Some NeedsAuthservID
            else if \<not> tt_require_authenticated t \<and> tt_authserv_id t \<noteq> '''' then Some UselessAuthservID
            else validateRules (tt_rules t))"

definition validate_inbox :: "stdlib \<Rightarrow> (string \<Rightarrow> filter_config option option) \<Rightarrow> string \<Rightarrow> inbox \<Rightarrow> inboxcfg_err option" where
  "validate_inbox L files name i = (case inbox_Filter L files i of
       Inl e \<Rightarrow> Some (InboxFilter name e)
     | Inr f \<Rightarrow>
         if ib_reconcile_enabled i \<and> isl (ReconcileDuration L i) then Some (InInbox name (projl (ReconcileDuration L i)))
         else if ib_reconcile_enabled i \<and> \<not> f64_zero (ib_cap_fraction i)
             \<and> (f64_less (ib_cap_fraction i) (Finite 0 0) \<or> f64_less (Finite 1 0) (ib_cap_fraction i))
           then Some (BadCapFraction name)
         else if ib_reconcile_enabled i \<and> ib_cap_floor i \<noteq> 0 \<and> ib_cap_floor i < 1 then Some (BadCapFloor name)
         else if ib_sync_on_status i \<and> isl (SyncOnStatusDuration L i) then Some (InInbox name (projl (SyncOnStatusDuration L i)))
         else map_option (InInbox name) (validateTrust (ib_trust i)))"

fun validate_inboxes ::
  "stdlib \<Rightarrow> (string \<Rightarrow> filter_config option option) \<Rightarrow> nat \<Rightarrow> string list \<Rightarrow> (string \<times> string) list \<Rightarrow> inbox list \<Rightarrow> inboxcfg_err option" where
  "validate_inboxes L files k seen envSeen [] = None"
| "validate_inboxes L files k seen envSeen (i # is) = (
     let name = trim_space (ib_name i); ep = EnvPrefix name
     in if name = '''' then Some (InboxNoName (k + 1))
        else if name \<in> set seen then Some (InboxDuplicate name)
        else case map_of envSeen ep of
            Some other \<Rightarrow> Some (EnvCollision other name ep)
          | None \<Rightarrow> (case validate_inbox L files name i of
                Some e \<Rightarrow> Some e
              | None \<Rightarrow> validate_inboxes L files (k + 1) (name # seen) ((ep, name) # envSeen) is))"

definition inbox_Validate :: "stdlib \<Rightarrow> (string \<Rightarrow> filter_config option option) \<Rightarrow> inbox list \<Rightarrow> inboxcfg_err option" where
  "inbox_Validate L files inboxes =
     (if inboxes = [] then Some NoInboxes else validate_inboxes L files 0 [] [] inboxes)"

definition inbox_Resolve :: "inbox list \<Rightarrow> inbox \<Rightarrow> inbox list" where
  "inbox_Resolve parsed implicit = (if parsed = [] then [implicit] else parsed)"

section \<open>Settings the decoder ignores\<close>

datatype ynode = YSeq "ynode list" | YMap "(string \<times> ynode) list" | YScalar

text \<open>The type a node decodes into: a struct with its key names, a slice, a map, or anything else.\<close>

datatype schema = SStruct "(string \<times> schema) list" | SSlice schema | SMap schema | SOther

text \<open>The walk of a child, a function of its type and path, is put to each item, key or value.\<close>

definition walk_items :: "string \<Rightarrow> schema \<Rightarrow> (schema \<Rightarrow> string \<Rightarrow> string list) list \<Rightarrow> string list" where
  "walk_items path e fs = concat (map (\<lambda>(i, f). f e (path @ ''['' @ fmt_uint i @ '']'')) (enumerate 0 fs))"

definition walk_fields :: "string \<Rightarrow> (string \<times> schema) list \<Rightarrow> (string \<times> (schema \<Rightarrow> string \<Rightarrow> string list)) list \<Rightarrow> string list" where
  "walk_fields path flds kfs = concat (map (\<lambda>(k, f). case map_of flds k of
       None \<Rightarrow> [path @ ''.'' @ k] | Some t \<Rightarrow> f t (path @ ''.'' @ k)) kfs)"

definition walk_values :: "string \<Rightarrow> schema \<Rightarrow> (string \<times> (schema \<Rightarrow> string \<Rightarrow> string list)) list \<Rightarrow> string list" where
  "walk_values path e kfs = concat (map (\<lambda>(k, f). f e (path @ ''.'' @ k)) kfs)"

primrec unknownIn :: "ynode \<Rightarrow> schema \<Rightarrow> string \<Rightarrow> string list" where
  "unknownIn (YSeq items) = (\<lambda>t path. case t of SSlice e \<Rightarrow> walk_items path e (map unknownIn items) | _ \<Rightarrow> [])"
| "unknownIn (YMap kvs) = (\<lambda>t path. case t of
     SStruct fs \<Rightarrow> walk_fields path fs (map (map_prod (\<lambda>k. k) unknownIn) kvs)
   | SMap e \<Rightarrow> walk_values path e (map (map_prod (\<lambda>k. k) unknownIn) kvs)
   | _ \<Rightarrow> [])"
| "unknownIn YScalar = (\<lambda>t path. [])"

definition rule_schema :: schema where
  "rule_schema = SStruct [(''from'', SOther), (''from_domain'', SOther), (''level'', SOther), (''note'', SOther)]"

definition trust_schema :: schema where
  "trust_schema = SStruct [(''level'', SOther), (''note'', SOther), (''body_banner'', SOther), (''rules'', SSlice rule_schema),
     (''require_authenticated'', SOther), (''authserv_id'', SOther)]"

definition backend_schema :: schema where
  "backend_schema = SStruct [(''imap_host'', SOther), (''imap_username'', SOther), (''imap_mailbox'', SOther),
     (''max_age'', SOther), (''sender_type'', SOther), (''smtp_host'', SOther), (''smtp_username'', SOther)]"

text \<open>The filter rules decode into the YAML package's node type, a struct whose keys are the argument.\<close>

definition inbox_schema :: "schema \<Rightarrow> schema" where
  "inbox_schema node = SStruct [(''name'', SOther), (''identity'', SOther), (''backend'', backend_schema),
     (''default_visibility'', SOther), (''rules'', node), (''filter_file'', SOther), (''reconcile_enabled'', SOther),
     (''reconcile_interval'', SOther), (''reconcile_cap_fraction'', SOther), (''reconcile_cap_floor'', SOther),
     (''sync_on_status'', SOther), (''sync_on_status_interval'', SOther), (''trust'', trust_schema)]"

definition UnknownKeys :: "schema \<Rightarrow> ynode option \<Rightarrow> string list" where
  "UnknownKeys node doc = (case doc of None \<Rightarrow> [] | Some n \<Rightarrow> unknownIn n (SSlice (inbox_schema node)) ''inboxes'')"

definition gateKeys :: "string list" where
  "gateKeys = [''require_authenticated'', ''authserv_id'']"

definition path_key :: "string \<Rightarrow> string" where
  "path_key p = (case after_last (CHR ''.'') p of None \<Rightarrow> p | Some k \<Rightarrow> k)"

definition rejectMisplacedGate :: "string list \<Rightarrow> string option" where
  "rejectMisplacedGate unknown =
     find (\<lambda>p. path_key p \<in> set gateKeys \<and> contains_str (p @ ''.'') ''.trust.'' \<and> has_prefix p ''inboxes['') unknown"

definition inbox_Parse :: "schema \<Rightarrow> (inbox list \<times> ynode option) option \<Rightarrow> inboxcfg_err + inbox list" where
  "inbox_Parse node decoded = (case decoded of
       None \<Rightarrow> Inl InboxUnparseable
     | Some (inboxes, doc) \<Rightarrow> (case rejectMisplacedGate (UnknownKeys node doc) of
           Some p \<Rightarrow> Inl (GateMisplaced p) | None \<Rightarrow> Inr inboxes))"

section \<open>Trust of a message\<close>

definition TrustHeaderValue :: "trust \<Rightarrow> string" where
  "TrustHeaderValue t = (if tt_level t = TrustLevelTrusted then TrustTrusted
     else if tt_level t = TrustLevelUntrusted then TrustUntrusted else TrustUnknown)"

fun match_rule :: "string \<Rightarrow> string \<Rightarrow> trust_rule option \<Rightarrow> trust_rule list \<Rightarrow> trust_rule option" where
  "match_rule from dmn domainMatch [] = domainMatch"
| "match_rule from dmn domainMatch (r # rs) =
     (if tr_from r \<noteq> '''' \<and> normAddr (tr_from r) = from then Some r
      else match_rule from dmn
        (if tr_from_domain r \<noteq> '''' \<and> dmn \<noteq> '''' \<and> normDomain (tr_from_domain r) = dmn then Some r else domainMatch) rs)"

definition matchRule :: "trust \<Rightarrow> string \<Rightarrow> trust_rule option" where
  "matchRule t from = match_rule from (inbox_domainOf from) None (tt_rules t)"

definition SenderStamp :: "inbox \<Rightarrow> string \<Rightarrow> stamp" where
  "SenderStamp i from = (
     let t = ib_trust i;
         (level, note) = (case (if from \<noteq> '''' then matchRule t from else None) of
             None \<Rightarrow> (TrustHeaderValue t, tt_note t)
           | Some r \<Rightarrow> (if tr_level r = TrustLevelUntrusted then TrustUntrusted else TrustTrusted, tr_note r))
     in stamp_zero\<lparr>sp_trust := level, sp_note := note, sp_banner := tt_body_banner t\<rparr>)"

datatype auth_result = DMARCResult string string | DKIMResult string string | OtherResult

fun domain_passes :: "bool \<Rightarrow> bool \<Rightarrow> string \<Rightarrow> auth_result list \<Rightarrow> bool" where
  "domain_passes dmarcSeen dkimPass dmn [] = (dmarcSeen \<or> dkimPass)"
| "domain_passes dmarcSeen dkimPass dmn (DMARCResult v from # rs) =
     (if equal_fold from dmn then (if v \<noteq> ''pass'' then False else domain_passes True dkimPass dmn rs)
      else domain_passes dmarcSeen dkimPass dmn rs)"
| "domain_passes dmarcSeen dkimPass dmn (DKIMResult v d # rs) =
     domain_passes dmarcSeen (dkimPass \<or> (v = ''pass'' \<and> equal_fold d dmn)) dmn rs"
| "domain_passes dmarcSeen dkimPass dmn (OtherResult # rs) = domain_passes dmarcSeen dkimPass dmn rs"

definition domainPasses :: "auth_result list \<Rightarrow> string \<Rightarrow> bool" where
  "domainPasses results dmn = domain_passes False False dmn results"

type_synonym authres_parser = "string \<Rightarrow> (string \<times> auth_result list) option"

fun auth_fields :: "authres_parser \<Rightarrow> string \<Rightarrow> string \<Rightarrow> nat \<Rightarrow> (string \<times> string) list \<Rightarrow> bool" where
  "auth_fields A authservID dmn counted [] = (counted > 0)"
| "auth_fields A authservID dmn counted ((k, v) # fs) =
     (if to_lower k = ''received'' then (if counted > 0 then True else auth_fields A authservID dmn counted fs)
      else if to_lower k = ''authentication-results'' then
        (case A v of
           None \<Rightarrow> False
         | Some (i, results) \<Rightarrow>
             if \<not> equal_fold (trim_space i) authservID then auth_fields A authservID dmn counted fs
             else if \<not> domainPasses results dmn then False
             else auth_fields A authservID dmn (counted + 1) fs)
      else auth_fields A authservID dmn counted fs)"

definition authenticated :: "'h textproto \<Rightarrow> authres_parser \<Rightarrow> bytes \<Rightarrow> string \<Rightarrow> string \<Rightarrow> bool" where
  "authenticated T A raw authservID fromDomain = (if authservID = '''' \<or> fromDomain = '''' then False
     else case tp_read T raw of None \<Rightarrow> False | Some (h, b) \<Rightarrow> auth_fields A authservID fromDomain 0 (tp_fields T h))"

definition inbox_Stamp :: "'h textproto \<Rightarrow> codecs \<Rightarrow> authres_parser \<Rightarrow> inbox \<Rightarrow> bytes \<Rightarrow> stamp" where
  "inbox_Stamp T C A i raw = (
     let from = prov_From T C raw; st = SenderStamp i from
     in if sp_trust st = TrustTrusted \<and> tt_require_authenticated (ib_trust i)
           \<and> \<not> authenticated T A raw (tt_authserv_id (ib_trust i)) (inbox_domainOf from)
        then st\<lparr>sp_trust := TrustUnknown, sp_note := ''''\<rparr> else st)"

section \<open>Routing of a submission\<close>

fun route :: "inbox list \<Rightarrow> string \<Rightarrow> string \<Rightarrow> bool \<Rightarrow> string option" where
  "route [] want defaultName hasDefault = (if hasDefault then Some defaultName else None)"
| "route (i # is) want defaultName hasDefault = (
     let hasDefault' = (hasDefault \<or> ib_name i = defaultName); ident = to_lower (trim_space (ib_identity i))
     in if ident \<noteq> '''' \<and> ident = want then Some (ib_name i)
        else route is want defaultName hasDefault')"

definition inbox_Route :: "inbox list \<Rightarrow> string \<Rightarrow> string \<Rightarrow> string option" where
  "inbox_Route inboxes from defaultName = route inboxes (to_lower (trim_space from)) defaultName False"

section \<open>The gate on trust\<close>

definition auth_match :: "authres_parser \<Rightarrow> string \<Rightarrow> string \<times> string \<Rightarrow> bool" where
  "auth_match A authservID f \<longleftrightarrow> to_lower (fst f) = ''authentication-results''
     \<and> (\<exists>i results. A (snd f) = Some (i, results) \<and> equal_fold (trim_space i) authservID)"

definition field_passes :: "authres_parser \<Rightarrow> string \<Rightarrow> string \<Rightarrow> string \<times> string \<Rightarrow> bool" where
  "field_passes A authservID dmn f \<longleftrightarrow> (to_lower (fst f) = ''authentication-results'' \<longrightarrow>
     (\<exists>i results. A (snd f) = Some (i, results)
        \<and> (equal_fold (trim_space i) authservID \<longrightarrow> domainPasses results dmn)))"

definition is_received :: "string \<times> string \<Rightarrow> bool" where
  "is_received f \<longleftrightarrow> to_lower (fst f) = ''received''"

lemma auth_fields_Cons:
  "auth_fields A i dmn c (f # fs) =
     (if is_received f then c > 0 \<or> auth_fields A i dmn c fs
      else field_passes A i dmn f \<and> auth_fields A i dmn (if auth_match A i f then c + 1 else c) fs)"
  by (cases f) (auto simp: is_received_def field_passes_def auth_match_def split: option.splits)

lemma auth_fields_counted:
  "c > 0 \<Longrightarrow> auth_fields A i dmn c fs \<longleftrightarrow> (\<forall>f \<in> set (takeWhile (\<lambda>f. \<not> is_received f) fs). field_passes A i dmn f)"
  by (induction fs arbitrary: c) (auto simp: auth_fields_Cons simp del: auth_fields.simps(2))

text \<open>From the topmost field with the upstream's identity down to the next Received.\<close>

definition top_run :: "authres_parser \<Rightarrow> string \<Rightarrow> (string \<times> string) list \<Rightarrow> (string \<times> string) list" where
  "top_run A i fs = takeWhile (\<lambda>f. \<not> is_received f) (dropWhile (\<lambda>f. \<not> auth_match A i f) fs)"

lemma match_not_received: "auth_match A i f \<Longrightarrow> \<not> is_received f"
  by (auto simp: auth_match_def is_received_def)

lemma auth_fields_spec:
  "auth_fields A i dmn 0 fs \<longleftrightarrow>
     (\<exists>f \<in> set fs. auth_match A i f)
     \<and> (\<forall>f \<in> set (takeWhile (\<lambda>f. \<not> auth_match A i f) fs). is_received f \<or> field_passes A i dmn f)
     \<and> (\<forall>f \<in> set (top_run A i fs). field_passes A i dmn f)"
proof (induction fs)
  case (Cons f fs)
  show ?case
  proof (cases "auth_match A i f")
    case True
    then show ?thesis
      using match_not_received [OF True]
      by (simp add: auth_fields_Cons auth_fields_counted top_run_def del: auth_fields.simps(2))
  next
    case False
    then show ?thesis using Cons
      by (auto simp: auth_fields_Cons top_run_def simp del: auth_fields.simps(2))
  qed
qed (simp add: top_run_def)

lemma auth_upper_part:
  assumes "auth_fields A i dmn c (up @ low)" "c > 0 \<or> (\<exists>f \<in> set up. auth_match A i f)"
  shows "auth_fields A i dmn c up"
  using assms
proof (induction up arbitrary: c)
  case (Cons f up)
  show ?case
  proof (cases "is_received f \<and> c > 0")
    case True
    then show ?thesis by (simp add: auth_fields_Cons del: auth_fields.simps(2))
  next
    case False
    then show ?thesis
      using Cons match_not_received [of A i f]
      by (auto simp: auth_fields_Cons simp del: auth_fields.simps(2) split: if_splits)
  qed
qed simp

lemma inbox_Stamp_trusted:
  "sp_trust (inbox_Stamp T C A i raw) = TrustTrusted \<longleftrightarrow>
     sp_trust (SenderStamp i (prov_From T C raw)) = TrustTrusted
     \<and> (tt_require_authenticated (ib_trust i)
        \<longrightarrow> authenticated T A raw (tt_authserv_id (ib_trust i)) (inbox_domainOf (prov_From T C raw)))"
  by (auto simp: inbox_Stamp_def Let_def TrustTrusted_def TrustUnknown_def)


definition sample_inbox :: inbox where
  "sample_inbox = \<lparr>ib_name = ''work'', ib_identity = ''me@x.org'',
     ib_backend = \<lparr>bk_imap_host = '''', bk_imap_username = '''', bk_imap_mailbox = '''', bk_max_age = '''',
       bk_sender_type = '''', bk_smtp_host = '''', bk_smtp_username = ''''\<rparr>,
     ib_default_visibility = '''', ib_rules = None, ib_filter_file = '''', ib_reconcile_enabled = False,
     ib_reconcile_interval = '''', ib_cap_fraction = Finite 0 0, ib_cap_floor = 0, ib_sync_on_status = False,
     ib_sync_on_status_interval = '''',
     ib_trust = \<lparr>tt_level = ''untrusted'', tt_note = '''', tt_body_banner = False,
       tt_rules = [\<lparr>tr_from = '''', tr_from_domain = ''@Friend.org'', tr_level = ''trusted'', tr_note = ''known''\<rparr>,
                   \<lparr>tr_from = ''spy@friend.org'', tr_from_domain = '''', tr_level = ''untrusted'', tr_note = ''''\<rparr>],
       tt_require_authenticated = True, tt_authserv_id = ''mx''\<rparr>\<rparr>"

definition sample_authres :: authres_parser where
  "sample_authres v = (if v = ''pass'' then Some (''mx'', [DMARCResult ''pass'' ''friend.org''])
     else if v = ''fail'' then Some (''mx'', [DMARCResult ''fail'' ''friend.org'']) else None)"

definition sample_fields :: "(string \<times> string) list" where
  "sample_fields = [(''Authentication-Results'', ''pass''), (''Received'', ''''), (''Authentication-Results'', ''fail''),
     (''From'', ''bob@friend.org'')]"


section \<open>Which rule applies\<close>

definition rule_level :: "trust_rule \<Rightarrow> string" where
  "rule_level r = (if tr_level r = TrustLevelUntrusted then TrustUntrusted else TrustTrusted)"

definition exact_rule :: "string \<Rightarrow> trust_rule \<Rightarrow> bool" where
  "exact_rule from r \<longleftrightarrow> tr_from r \<noteq> '''' \<and> normAddr (tr_from r) = from"

definition domain_rule :: "string \<Rightarrow> trust_rule \<Rightarrow> bool" where
  "domain_rule dmn r \<longleftrightarrow> tr_from_domain r \<noteq> '''' \<and> dmn \<noteq> '''' \<and> normDomain (tr_from_domain r) = dmn"

lemma match_rule_spec:
  "match_rule from dmn dm rs = (case find (exact_rule from) rs of
       Some r \<Rightarrow> Some r
     | None \<Rightarrow> (case find (domain_rule dmn) (rev rs) of Some r \<Rightarrow> Some r | None \<Rightarrow> dm))"
proof (induction rs arbitrary: dm)
  case (Cons r rs)
  have f: "find P (xs @ [x]) = (case find P xs of Some y \<Rightarrow> Some y | None \<Rightarrow> if P x then Some x else None)"
    for P and xs :: "trust_rule list" and x by (induction xs) auto
  show ?case by (auto simp: Cons.IH f exact_rule_def domain_rule_def split: option.splits)
qed simp

lemma validate_rules_None:
  "validate_rules i sf sd rs = None \<Longrightarrow>
     distinct (map (normAddr \<circ> tr_from) (filter hasFrom rs)) \<and> (\<forall>r \<in> set rs. hasFrom r \<longrightarrow> normAddr (tr_from r) \<notin> set sf)
   \<and> distinct (map (normDomain \<circ> tr_from_domain) (filter hasDomain rs))
   \<and> (\<forall>r \<in> set rs. hasDomain r \<longrightarrow> normDomain (tr_from_domain r) \<notin> set sd)
   \<and> (\<forall>r \<in> set rs. hasFrom r \<noteq> hasDomain r \<and> tr_level r \<in> {TrustLevelTrusted, TrustLevelUntrusted})"
proof (induction i sf sd rs rule: validate_rules.induct)
  case (2 i sf sd r rs)
  from "2.prems" have l: "hasFrom r \<noteq> hasDomain r" "tr_level r \<in> {TrustLevelTrusted, TrustLevelUntrusted}"
    and n: "validateNote (tr_note r) = None"
    by (auto split: if_splits option.splits)
  show ?case
  proof (cases "hasFrom r")
    case True
    then have v: "validate_rules (i + 1) (normAddr (tr_from r) # sf) sd rs = None" "normAddr (tr_from r) \<notin> set sf"
      using "2.prems" l n by (auto split: if_splits)
    from "2.IH"(1) [OF _ _ n True v(2) v(1)] l True v(2) show ?thesis by (auto split: if_splits)
  next
    case False
    then have v: "validate_rules (i + 1) sf (normDomain (tr_from_domain r) # sd) rs = None"
      "normDomain (tr_from_domain r) \<notin> set sd"
      using "2.prems" l n by (auto split: if_splits)
    from "2.IH"(2) [OF _ _ n False v(2) v(1)] l False v(2) show ?thesis by (auto split: if_splits)
  qed
qed simp

lemma unique_find:
  assumes "distinct (map f (filter H rs))" "r \<in> set rs" "H r" "P r" "\<And>q. q \<in> set rs \<Longrightarrow> P q \<Longrightarrow> H q \<and> f q = f r"
  shows "find P rs = Some r"
proof -
  have i: "inj_on f (set (filter H rs))" using assms(1) by (simp add: distinct_map)
  have "q = r" if "q \<in> set rs" "P q" for q
    using inj_onD [OF i, of q r] assms(2,3) assms(5) [OF that] that by auto
  then have "find P rs = Some q \<Longrightarrow> q = r" for q using find_Some_set [of P rs q] by blast
  moreover have "find P rs \<noteq> None" using assms(2,4) by (auto simp: find_None_iff)
  ultimately show ?thesis by auto
qed

text \<open>With rules that passed validation the stamp of a sender is decided by the most specific rule: the
  rule for the exact address, wherever it stands in the list; without one, the rule for its domain;
  without either, the inbox's own level and note.\<close>

lemma sender_stamp_most_specific:
  assumes "validateTrust (ib_trust i) = None" "from \<noteq> ''''"
  shows "(\<forall>r \<in> set (tt_rules (ib_trust i)). exact_rule from r \<longrightarrow>
            sp_trust (SenderStamp i from) = rule_level r \<and> sp_note (SenderStamp i from) = tr_note r)
    \<and> ((\<forall>r \<in> set (tt_rules (ib_trust i)). \<not> exact_rule from r) \<longrightarrow>
       (\<forall>r \<in> set (tt_rules (ib_trust i)). domain_rule (inbox_domainOf from) r \<longrightarrow>
            sp_trust (SenderStamp i from) = rule_level r \<and> sp_note (SenderStamp i from) = tr_note r)
       \<and> ((\<forall>r \<in> set (tt_rules (ib_trust i)). \<not> domain_rule (inbox_domainOf from) r) \<longrightarrow>
            sp_trust (SenderStamp i from) = TrustHeaderValue (ib_trust i) \<and> sp_note (SenderStamp i from) = tt_note (ib_trust i)))"
proof -
  let ?rs = "tt_rules (ib_trust i)"
  from assms(1) have "validate_rules 0 [] [] ?rs = None"
    by (auto simp: validateTrust_def validateRules_def split: if_splits option.splits)
  note v = validate_rules_None [OF this]
  have nb: "trim_space s = '''' \<Longrightarrow> normAddr s \<noteq> from" for s using assms(2) by (simp add: normAddr_def to_lower_def)
  have ex: "find (exact_rule from) ?rs = Some r" if "r \<in> set ?rs" "exact_rule from r" for r
    by (rule unique_find [of "normAddr \<circ> tr_from" hasFrom])
       (use v that nb in \<open>auto simp: exact_rule_def hasFrom_def\<close>)
  have dmn: "find (domain_rule (inbox_domainOf from)) (rev ?rs) = Some r"
    if "r \<in> set ?rs" "domain_rule (inbox_domainOf from) r" for r
  proof (rule unique_find [of "normDomain \<circ> tr_from_domain" hasDomain])
    have n: "trim_space s = '''' \<Longrightarrow> normDomain s = ''''" for s by (simp add: normDomain_def trim_prefix_def to_lower_def)
    show "distinct (map (normDomain \<circ> tr_from_domain) (filter hasDomain (rev ?rs)))"
      using v by (simp add: rev_filter [symmetric] rev_map [symmetric])
    show "hasDomain r" using n that(2) by (auto simp: domain_rule_def hasDomain_def)
    show "\<And>q. q \<in> set (rev ?rs) \<Longrightarrow> domain_rule (inbox_domainOf from) q \<Longrightarrow>
        hasDomain q \<and> (normDomain \<circ> tr_from_domain) q = (normDomain \<circ> tr_from_domain) r"
      using n that(2) by (auto simp: domain_rule_def hasDomain_def)
  qed (use that in auto)
  have st: "sp_trust (SenderStamp i from) = (case matchRule (ib_trust i) from of None \<Rightarrow> TrustHeaderValue (ib_trust i) | Some r \<Rightarrow> rule_level r)"
    "sp_note (SenderStamp i from) = (case matchRule (ib_trust i) from of None \<Rightarrow> tt_note (ib_trust i) | Some r \<Rightarrow> tr_note r)"
    using assms(2) by (auto simp: SenderStamp_def Let_def rule_level_def stamp_zero_def split: option.split prod.split)
  have m: "matchRule (ib_trust i) from = (case find (exact_rule from) ?rs of
       Some r \<Rightarrow> Some r | None \<Rightarrow> (case find (domain_rule (inbox_domainOf from)) (rev ?rs) of Some r \<Rightarrow> Some r | None \<Rightarrow> None))"
    by (simp add: matchRule_def match_rule_spec)
  have no_ex: "find (exact_rule from) ?rs = None" if "\<forall>r \<in> set ?rs. \<not> exact_rule from r"
    using that by (simp add: find_None_iff)
  have no_dom: "find (domain_rule (inbox_domainOf from)) (rev ?rs) = None"
    if "\<forall>r \<in> set ?rs. \<not> domain_rule (inbox_domainOf from) r" using that by (simp add: find_None_iff)
  show ?thesis using ex dmn no_ex no_dom by (auto simp: st m)
qed

lemma sender_stamp_most_specific_witness:
  "sp_trust (SenderStamp sample_inbox ''spy@friend.org'') = TrustUntrusted"
proof -
  have v: "validateTrust (ib_trust sample_inbox) = None" by code_simp
  let ?r = "\<lparr>tr_from = ''spy@friend.org'', tr_from_domain = '''', tr_level = ''untrusted'', tr_note = ''''\<rparr>"
  have r: "?r \<in> set (tt_rules (ib_trust sample_inbox))" "exact_rule ''spy@friend.org'' ?r"
    by (simp add: sample_inbox_def) code_simp
  have "rule_level ?r = TrustUntrusted" by code_simp
  with sender_stamp_most_specific [OF v, of "''spy@friend.org''"] r show ?thesis by auto
qed

end
