(* ===== verification/Agentcfg.thy ===== *)
theory Agentcfg
  imports Inboxcfg
begin

text \<open>Model of \<open>internal/agentcfg\<close> (agents, their grants and default inbox), of \<open>internal/listener/auth.go\<close>
  (principals and their authentication) and of \<open>resolvePrincipals\<close> in \<open>cmd/darbaan/main.go\<close>, which
  builds the one from the other. The environment is a function from names to values, an unset variable
  reading as the empty string. The keyed digest of a credential is an argument.\<close>

section \<open>Agents and grants\<close>

record grant =
  gr_inbox :: string
  gr_access :: "string list"
  gr_default :: bool

record agent =
  ag_name :: string
  ag_default_inbox :: string
  ag_grants :: "grant list"

definition AccessRead :: string where "AccessRead = ''read''"
definition AccessSend :: string where "AccessSend = ''send''"

datatype agentcfg_err = AgentsUnparseable | NoAgents | AgentNoName nat | AgentDuplicate string | AgentIsInbox string
  | PasswordEnvCollision string string string | NoGrants string | GrantNoInbox string | GrantUnknownInbox string string
  | GrantDuplicate string string | GrantNoAccess string string | GrantBadAccess string string string
  | GrantRepeats string string string | ManyDefaults string | DefaultConflicts string string string
  | NoReadGrant string | DefaultAmbiguous string "string list" | DefaultNotSend string string | DefaultNotRead string string
  | DefaultNotGranted string string | NoCredentials | AgentNoPassword string string

definition agent_Parse :: "agent list option \<Rightarrow> agentcfg_err + agent list" where
  "agent_Parse decoded = (case decoded of None \<Rightarrow> Inl AgentsUnparseable | Some l \<Rightarrow> Inr l)"

definition PasswordEnv :: "string \<Rightarrow> string" where
  "PasswordEnv name = ''DARBAAN_AGENT_'' @ EnvPrefix name @ ''_PASSWORD''"

definition HasAccess :: "grant \<Rightarrow> string \<Rightarrow> bool" where
  "HasAccess g d \<longleftrightarrow> list_ex (\<lambda>a. a = d) (gr_access g)"

fun validate_access :: "string \<Rightarrow> string \<Rightarrow> string list \<Rightarrow> string list \<Rightarrow> agentcfg_err option" where
  "validate_access agent inbox seen [] = None"
| "validate_access agent inbox seen (d # ds) =
     (if d \<noteq> AccessRead \<and> d \<noteq> AccessSend then Some (GrantBadAccess agent inbox d)
      else if d \<in> set seen then Some (GrantRepeats agent inbox d)
      else validate_access agent inbox (d # seen) ds)"

fun validate_grants :: "string \<Rightarrow> string list \<Rightarrow> string list \<Rightarrow> grant list \<Rightarrow> agentcfg_err option" where
  "validate_grants agent inboxNames seen [] = None"
| "validate_grants agent inboxNames seen (g # gs) = (
     let inbox = trim_space (gr_inbox g)
     in if inbox = '''' then Some (GrantNoInbox agent)
        else if inbox \<notin> set inboxNames then Some (GrantUnknownInbox agent inbox)
        else if inbox \<in> set seen then Some (GrantDuplicate agent inbox)
        else if gr_access g = [] then Some (GrantNoAccess agent inbox)
        else case validate_access agent inbox [] (gr_access g) of
            Some e \<Rightarrow> Some e
          | None \<Rightarrow> validate_grants agent inboxNames (inbox # seen) gs)"

definition validateGrants :: "string \<Rightarrow> grant list \<Rightarrow> string list \<Rightarrow> agentcfg_err option" where
  "validateGrants agent grants inboxNames =
     (if grants = [] then Some (NoGrants agent) else validate_grants agent inboxNames [] grants)"

definition SendOnly :: "agent \<Rightarrow> bool" where
  "SendOnly a \<longleftrightarrow> \<not> list_ex (\<lambda>g. HasAccess g AccessRead) (ag_grants a)"

text \<open>The inbox of the grant marked default; two marks are an error (\<open>None\<close>).\<close>

fun marked_default :: "string \<Rightarrow> grant list \<Rightarrow> string option" where
  "marked_default marked [] = Some marked"
| "marked_default marked (g # gs) =
     (if gr_default g then (if marked \<noteq> '''' then None else marked_default (trim_space (gr_inbox g)) gs)
      else marked_default marked gs)"

fun default_granted :: "string \<Rightarrow> bool \<Rightarrow> string \<Rightarrow> grant list \<Rightarrow> agentcfg_err + string" where
  "default_granted name sendOnly want [] = Inl (DefaultNotGranted name want)"
| "default_granted name sendOnly want (g # gs) =
     (if trim_space (gr_inbox g) \<noteq> want then default_granted name sendOnly want gs
      else if sendOnly then (if \<not> HasAccess g AccessSend then Inl (DefaultNotSend name want) else Inr want)
      else if \<not> HasAccess g AccessRead then Inl (DefaultNotRead name want)
      else Inr want)"

definition agent_DefaultInbox :: "agent \<Rightarrow> agentcfg_err + string" where
  "agent_DefaultInbox a = (
     let name = trim_space (ag_name a)
     in case marked_default '''' (ag_grants a) of
         None \<Rightarrow> Inl (ManyDefaults name)
       | Some marked \<Rightarrow>
           let given = trim_space (ag_default_inbox a)
           in if given \<noteq> '''' \<and> marked \<noteq> '''' \<and> given \<noteq> marked then Inl (DefaultConflicts name given marked)
              else
                let want = (if given = '''' \<and> marked \<noteq> '''' then marked else given);
                    sendOnly = SendOnly a
                in if want = '''' \<and> sendOnly then Inr ''''
                   else if want = '''' then
                     (case map (\<lambda>g. trim_space (gr_inbox g)) (filter (\<lambda>g. HasAccess g AccessRead) (ag_grants a)) of
                        [r] \<Rightarrow> Inr r
                      | [] \<Rightarrow> Inl (NoReadGrant name)
                      | rs \<Rightarrow> Inl (DefaultAmbiguous name (sort rs)))
                   else default_granted name sendOnly want (ag_grants a))"

fun validate_agents :: "string list \<Rightarrow> nat \<Rightarrow> string list \<Rightarrow> (string \<times> string) list \<Rightarrow> agent list \<Rightarrow> agentcfg_err option" where
  "validate_agents inboxNames k seen envSeen [] = None"
| "validate_agents inboxNames k seen envSeen (a # as) = (
     let name = trim_space (ag_name a); env = PasswordEnv name
     in if name = '''' then Some (AgentNoName (k + 1))
        else if name \<in> set seen then Some (AgentDuplicate name)
        else if name \<in> set inboxNames then Some (AgentIsInbox name)
        else case map_of envSeen env of
            Some other \<Rightarrow> Some (PasswordEnvCollision other name env)
          | None \<Rightarrow> (case validateGrants name (ag_grants a) inboxNames of
                Some e \<Rightarrow> Some e
              | None \<Rightarrow> (case agent_DefaultInbox a of
                    Inl e \<Rightarrow> Some e
                  | Inr d \<Rightarrow> validate_agents inboxNames (k + 1) (name # seen) ((env, name) # envSeen) as)))"

definition agent_Validate :: "agent list \<Rightarrow> string list \<Rightarrow> agentcfg_err option" where
  "agent_Validate agents inboxNames =
     (if agents = [] then Some NoAgents else validate_agents inboxNames 0 [] [] agents)"

section \<open>Principals\<close>

text \<open>A nil set of inboxes, \<open>None\<close>, is no restriction.\<close>

record principal =
  pr_name :: string
  pr_password :: string
  pr_default_inbox :: string
  pr_reads :: "string list option"
  pr_sends :: "string list option"

definition CanRead :: "principal option \<Rightarrow> string \<Rightarrow> bool" where
  "CanRead p inbox = (case p of None \<Rightarrow> False | Some q \<Rightarrow>
     (case pr_reads q of None \<Rightarrow> True | Some r \<Rightarrow> inbox \<in> set r))"

definition CanSend :: "principal option \<Rightarrow> string \<Rightarrow> bool" where
  "CanSend p inbox = (case p of None \<Rightarrow> False | Some q \<Rightarrow>
     (case pr_sends q of None \<Rightarrow> True | Some s \<Rightarrow> inbox \<in> set s))"

definition HasIMAP :: "principal option \<Rightarrow> bool" where
  "HasIMAP p = (case p of None \<Rightarrow> False | Some q \<Rightarrow> (case pr_reads q of None \<Rightarrow> True | Some r \<Rightarrow> length r > 0))"

definition HasSMTP :: "principal option \<Rightarrow> bool" where
  "HasSMTP p = (case p of None \<Rightarrow> False | Some q \<Rightarrow> (case pr_sends q of None \<Rightarrow> True | Some s \<Rightarrow> length s > 0))"

definition restricted :: "principal option \<Rightarrow> bool" where
  "restricted p = (case p of None \<Rightarrow> False | Some q \<Rightarrow> pr_reads q \<noteq> None \<or> pr_sends q \<noteq> None)"

record stored_principal =
  st_name :: string
  st_default_inbox :: string
  st_reads :: "string list option"
  st_sends :: "string list option"
  st_mac :: bytes

type_synonym auth = "(string \<times> stored_principal) list"

definition store_principal :: "(string \<Rightarrow> bytes) \<Rightarrow> principal \<Rightarrow> stored_principal" where
  "store_principal mac p = \<lparr>st_name = pr_name p, st_default_inbox = pr_default_inbox p, st_reads = pr_reads p,
     st_sends = pr_sends p, st_mac = mac (pr_password p)\<rparr>"

definition NewAuth :: "(string \<Rightarrow> bytes) \<Rightarrow> principal list \<Rightarrow> auth" where
  "NewAuth mac principals = fold (\<lambda>p m. AList.update (pr_name p) (store_principal mac p) m) principals []"

definition SingleAuth :: "(string \<Rightarrow> bytes) \<Rightarrow> string \<Rightarrow> string \<Rightarrow> auth" where
  "SingleAuth mac name password = NewAuth mac [\<lparr>pr_name = name, pr_password = password, pr_default_inbox = '''',
     pr_reads = None, pr_sends = None\<rparr>]"

definition auth_Verify :: "(string \<Rightarrow> bytes) \<Rightarrow> auth \<Rightarrow> string \<Rightarrow> string \<Rightarrow> principal option" where
  "auth_Verify mac a username password = (
     let got = mac password
     in case map_of a username of
         None \<Rightarrow> None
       | Some sp \<Rightarrow> if got \<noteq> st_mac sp then None
           else Some \<lparr>pr_name = st_name sp, pr_password = '''', pr_default_inbox = st_default_inbox sp,
                     pr_reads = st_reads sp, pr_sends = st_sends sp\<rparr>)"

definition granted :: "string \<Rightarrow> agent \<Rightarrow> string list" where
  "granted d a = map gr_inbox (filter (\<lambda>g. HasAccess g d) (ag_grants a))"

fun agent_principals :: "(string \<Rightarrow> string) \<Rightarrow> agent list \<Rightarrow> agentcfg_err + principal list" where
  "agent_principals env [] = Inr []"
| "agent_principals env (a # as) = (
     let pass = env (PasswordEnv (ag_name a))
     in if pass = '''' then Inl (AgentNoPassword (ag_name a) (PasswordEnv (ag_name a)))
        else case agent_DefaultInbox a of
            Inl e \<Rightarrow> Inl e
          | Inr def \<Rightarrow> (case agent_principals env as of
                Inl e \<Rightarrow> Inl e
              | Inr ps \<Rightarrow> Inr (\<lparr>pr_name = ag_name a, pr_password = pass, pr_default_inbox = def,
                    pr_reads = Some (granted AccessRead a), pr_sends = Some (granted AccessSend a)\<rparr> # ps)))"

definition resolvePrincipals ::
  "(string \<Rightarrow> string) \<Rightarrow> string \<Rightarrow> inbox list \<Rightarrow> agent list \<Rightarrow> agentcfg_err + (principal list \<times> bool)" where
  "resolvePrincipals env agentUsername inboxes agents =
     (if agents = [] then
        let pass = env ''DARBAAN_AGENT_PASS''
        in if agentUsername = '''' \<or> pass = '''' then Inl NoCredentials
           else Inr ([\<lparr>pr_name = agentUsername, pr_password = pass, pr_default_inbox = '''', pr_reads = None, pr_sends = None\<rparr>], False)
      else case agent_Validate agents (map ib_name inboxes) of
          Some e \<Rightarrow> Inl e
        | None \<Rightarrow> (case agent_principals env agents of Inl e \<Rightarrow> Inl e | Inr ps \<Rightarrow> Inr (ps, True)))"

definition mailOwner :: "string \<Rightarrow> bool \<Rightarrow> string \<Rightarrow> string" where
  "mailOwner agentUsername decoupled inbox = (if decoupled then NormInbox inbox else agentUsername)"

section \<open>What validation guarantees\<close>

lemma default_granted_ok:
  "default_granted name so want gs = Inr d \<Longrightarrow> d = want
     \<and> (\<exists>g \<in> set gs. trim_space (gr_inbox g) = d \<and> HasAccess g (if so then AccessSend else AccessRead))"
  by (induction gs) (auto split: if_splits)

lemma DefaultInbox_ok:
  assumes "agent_DefaultInbox a = Inr d"
  shows "(d = '''' \<and> SendOnly a) \<or> (\<exists>g \<in> set (ag_grants a). trim_space (gr_inbox g) = d
     \<and> HasAccess g (if SendOnly a then AccessSend else AccessRead))"
proof -
  have m: "(\<exists>g \<in> set (ag_grants a). trim_space (gr_inbox g) = r \<and> HasAccess g AccessRead) \<and> \<not> SendOnly a"
    if "map (\<lambda>g. trim_space (gr_inbox g)) (filter (\<lambda>g. HasAccess g AccessRead) (ag_grants a)) = [r]" for r
  proof -
    from that obtain g where "filter (\<lambda>g. HasAccess g AccessRead) (ag_grants a) = [g]" "trim_space (gr_inbox g) = r"
      by (auto simp: map_eq_Cons_conv)
    then have "g \<in> set (filter (\<lambda>g. HasAccess g AccessRead) (ag_grants a))" by simp
    then show ?thesis using \<open>trim_space (gr_inbox g) = r\<close> by (auto simp: SendOnly_def list_ex_iff)
  qed
  from assms show ?thesis
    unfolding agent_DefaultInbox_def Let_def
    by (auto split: option.splits if_splits list.splits dest!: default_granted_ok m)
qed

lemma validate_agents_None:
  "validate_agents names k seen envSeen as = None \<Longrightarrow>
     distinct (map (\<lambda>a. PasswordEnv (trim_space (ag_name a))) as)
   \<and> distinct (map (\<lambda>a. trim_space (ag_name a)) as)
   \<and> (\<forall>a \<in> set as. PasswordEnv (trim_space (ag_name a)) \<notin> fst ` set envSeen \<and> trim_space (ag_name a) \<notin> set seen
        \<and> trim_space (ag_name a) \<notin> set names \<and> validateGrants (trim_space (ag_name a)) (ag_grants a) names = None
        \<and> (\<exists>d. agent_DefaultInbox a = Inr d))"
proof (induction as arbitrary: k seen envSeen)
  case (Cons a as)
  let ?n = "trim_space (ag_name a)"
  from Cons.prems have c: "?n \<notin> set seen" "?n \<notin> set names" "map_of envSeen (PasswordEnv ?n) = None"
    "validateGrants ?n (ag_grants a) names = None" "\<exists>d. agent_DefaultInbox a = Inr d"
    and r: "validate_agents names (k + 1) (?n # seen) ((PasswordEnv ?n, ?n) # envSeen) as = None"
    by (auto simp: Let_def split: if_splits option.splits sum.splits)
  from Cons.IH [OF r] c show ?case by (auto simp: map_of_eq_None_iff)
qed simp

lemma validate_grants_None:
  "validate_grants agent names seen gs = None \<Longrightarrow> g \<in> set gs \<Longrightarrow> trim_space (gr_inbox g) \<in> set names"
  by (induction gs arbitrary: seen) (auto simp: Let_def split: if_splits option.splits)


definition sample_agents :: "agent list" where
  "sample_agents = [\<lparr>ag_name = ''amy'', ag_default_inbox = '''',
       ag_grants = [\<lparr>gr_inbox = ''work'', gr_access = [''read'', ''send''], gr_default = False\<rparr>]\<rparr>,
     \<lparr>ag_name = ''bot'', ag_default_inbox = '''',
       ag_grants = [\<lparr>gr_inbox = ''work'', gr_access = [''send''], gr_default = False\<rparr>]\<rparr>]"


section \<open>What an authenticated agent may do\<close>

lemma NewAuth_snoc: "NewAuth mac (ps @ [p]) = AList.update (pr_name p) (store_principal mac p) (NewAuth mac ps)"
  by (simp add: NewAuth_def)

lemma NewAuth_map_of:
  "map_of (NewAuth mac ps) u = map_option (store_principal mac) (find (\<lambda>p. pr_name p = u) (rev ps))"
  by (induction ps rule: rev_induct) (auto simp: NewAuth_snoc update_conv' NewAuth_def)

lemma auth_Verify_Some:
  "auth_Verify mac (NewAuth mac ps) u pw = Some pr \<Longrightarrow>
     \<exists>p \<in> set ps. pr_name p = u \<and> mac pw = mac (pr_password p) \<and> pr = p\<lparr>pr_password := ''''\<rparr>"
  by (auto simp: auth_Verify_def Let_def NewAuth_map_of store_principal_def dest!: find_Some_set
      split: option.splits if_splits)

lemma agent_principals_ok:
  "agent_principals env as = Inr ps \<Longrightarrow> p \<in> set ps \<Longrightarrow>
     \<exists>a \<in> set as. pr_name p = ag_name a \<and> pr_password p = env (PasswordEnv (ag_name a)) \<and> pr_password p \<noteq> ''''
       \<and> pr_reads p = Some (granted AccessRead a) \<and> pr_sends p = Some (granted AccessSend a)"
  by (induction as arbitrary: ps) (auto simp: Let_def split: if_splits sum.splits)

text \<open>An agent of a configured list authenticates only with a password whose digest is that of its own
  variable, which is not empty, and then holds exactly the inboxes of its own grants: it reads an inbox
  iff a read grant names it, sends as one iff a send grant does, has no IMAP face without a read grant
  and is never unrestricted.\<close>

lemma agent_confined_to_grants:
  assumes "resolvePrincipals env user inboxes agents = Inr (ps, decoupled)" "agents \<noteq> []"
    and "auth_Verify mac (NewAuth mac ps) u pw = Some pr"
  shows "\<exists>a \<in> set agents. ag_name a = u \<and> env (PasswordEnv u) \<noteq> '''' \<and> mac pw = mac (env (PasswordEnv u))
    \<and> (\<forall>i. CanRead (Some pr) i \<longleftrightarrow> (\<exists>g \<in> set (ag_grants a). gr_inbox g = i \<and> HasAccess g AccessRead))
    \<and> (\<forall>i. CanSend (Some pr) i \<longleftrightarrow> (\<exists>g \<in> set (ag_grants a). gr_inbox g = i \<and> HasAccess g AccessSend))
    \<and> (HasIMAP (Some pr) \<longleftrightarrow> \<not> SendOnly a) \<and> restricted (Some pr) \<and> decoupled"
proof -
  from assms(1,2) have ap: "agent_principals env agents = Inr ps" and "decoupled"
    by (auto simp: resolvePrincipals_def split: option.splits sum.splits)
  from auth_Verify_Some [OF assms(3)] obtain p where p: "p \<in> set ps" "pr_name p = u" "mac pw = mac (pr_password p)"
    "pr = p\<lparr>pr_password := ''''\<rparr>" by blast
  from agent_principals_ok [OF ap p(1)] obtain a where a: "a \<in> set agents" "pr_name p = ag_name a"
    "pr_password p = env (PasswordEnv (ag_name a))" "pr_password p \<noteq> ''''"
    "pr_reads p = Some (granted AccessRead a)" "pr_sends p = Some (granted AccessSend a)" by blast
  show ?thesis
  proof (rule bexI [OF _ a(1)], intro conjI allI)
    show "HasIMAP (Some pr) \<longleftrightarrow> \<not> SendOnly a"
      by (auto simp: HasIMAP_def p(4) a(5) granted_def SendOnly_def list_ex_iff filter_empty_conv)
  qed (use p a \<open>decoupled\<close> in \<open>auto simp: CanRead_def CanSend_def granted_def restricted_def\<close>)
qed

lemma agent_confined_to_grants_witness:
  "\<exists>pr. auth_Verify (\<lambda>s. s) (NewAuth (\<lambda>s. s) (fst (projr (resolvePrincipals (\<lambda>v. v) '''' [sample_inbox] sample_agents)))) ''bot''
      (PasswordEnv ''bot'') = Some pr \<and> \<not> CanRead (Some pr) ''work''"
proof -
  let ?r = "resolvePrincipals (\<lambda>v. v) '''' [sample_inbox] sample_agents"
  let ?a = "NewAuth (\<lambda>s. s) (fst (projr ?r))"
  have "\<not> isl ?r" "snd (projr ?r)" by code_simp+
  then have r: "?r = Inr (fst (projr ?r), True)" by (metis (full_types) prod.collapse sum.collapse(2))
  have "auth_Verify (\<lambda>s. s) ?a ''bot'' (PasswordEnv ''bot'') \<noteq> None" by code_simp
  then obtain pr where pr: "auth_Verify (\<lambda>s. s) ?a ''bot'' (PasswordEnv ''bot'') = Some pr" by blast
  have "sample_agents \<noteq> []" by (simp add: sample_agents_def)
  from agent_confined_to_grants [OF r this pr] have "\<not> CanRead (Some pr) ''work''"
    by (auto simp: sample_agents_def HasAccess_def AccessRead_def)
  with pr show ?thesis by blast
qed

text \<open>Grants are checked with their inbox name trimmed but handed out as written: there is an accepted agent
  list and a grant to read a configured inbox under which the agent cannot read that inbox, although it
  is the agent's default.\<close>

lemma untrimmed_grant_denies:
  "\<exists>a names. agent_Validate [a] names = None \<and> agent_DefaultInbox a = Inr ''work''
     \<and> (\<exists>g \<in> set (ag_grants a). trim_space (gr_inbox g) = ''work'' \<and> HasAccess g AccessRead)
     \<and> ''work'' \<notin> set (granted AccessRead a)"
proof -
  let ?g = "\<lparr>gr_inbox = ''work '', gr_access = [''read''], gr_default = False\<rparr>"
  let ?a = "\<lparr>ag_name = ''amy'', ag_default_inbox = '''', ag_grants = [?g]\<rparr>"
  have "agent_Validate [?a] [''work''] = None \<and> agent_DefaultInbox ?a = Inr ''work''
     \<and> (\<exists>g \<in> set (ag_grants ?a). trim_space (gr_inbox g) = ''work'' \<and> HasAccess g AccessRead)
     \<and> ''work'' \<notin> set (granted AccessRead ?a)" by code_simp
  then show ?thesis by blast
qed

end
