(* ===== verification/Admincfg.thy ===== *)
theory Admincfg
  imports Inboxcfg
begin

text \<open>Model of \<open>internal/admincfg\<close> (scopes, the route map, client validation), of the gate of the admin API in
  \<open>internal/admin/http.go\<close> (credentials, their resolution, the scope check, registration) and of
  \<open>resolveAdminClients\<close> in \<open>cmd/darbaan/main.go\<close>. SHA-256 is an argument; the constant-time comparison is
  equality. The handlers behind the gate translate to HTTP what the admin service answers and are not
  modelled here.\<close>

section \<open>Scopes and routes\<close>

definition ScopeQueueRead :: string where "ScopeQueueRead = ''queue:read''"
definition ScopeQueueDecide :: string where "ScopeQueueDecide = ''queue:decide''"
definition ScopeHoldsRead :: string where "ScopeHoldsRead = ''holds:read''"
definition ScopeHoldsDecide :: string where "ScopeHoldsDecide = ''holds:decide''"
definition ScopeReconcileRead :: string where "ScopeReconcileRead = ''reconcile:read''"
definition ScopeReconcileRelease :: string where "ScopeReconcileRelease = ''reconcile:release''"
definition ScopeInboxesRead :: string where "ScopeInboxesRead = ''inboxes:read''"
definition ScopeSyncRead :: string where "ScopeSyncRead = ''sync:read''"
definition ScopeAuditRead :: string where "ScopeAuditRead = ''audit:read''"

definition RouteScopes :: "(string \<times> string) list" where
  "RouteScopes = [
     (''GET /queue'', ScopeQueueRead),
     (''GET /queue/{id}'', ScopeQueueRead),
     (''POST /queue/{id}/approve'', ScopeQueueDecide),
     (''POST /queue/{id}/approve-as/{inbox}'', ScopeQueueDecide),
     (''POST /queue/{id}/resend'', ScopeQueueDecide),
     (''POST /queue/{id}/reject'', ScopeQueueDecide),
     (''GET /holds'', ScopeHoldsRead),
     (''GET /holds/{id}/content'', ScopeHoldsRead),
     (''GET /holds/{id}/evidence'', ScopeHoldsRead),
     (''POST /holds/{id}/expose'', ScopeHoldsDecide),
     (''POST /holds/{id}/drop'', ScopeHoldsDecide),
     (''GET /reconcile'', ScopeReconcileRead),
     (''POST /reconcile/{inbox}/release'', ScopeReconcileRelease),
     (''GET /inboxes'', ScopeInboxesRead),
     (''GET /sync-status'', ScopeSyncRead),
     (''GET /audit'', ScopeAuditRead)]"

definition AllScopes :: "string list" where
  "AllScopes = sort (remdups (map snd RouteScopes))"

definition ValidScope :: "string \<Rightarrow> bool" where
  "ValidScope s \<longleftrightarrow> s \<in> set (map snd RouteScopes)"

section \<open>Clients\<close>

record client =
  cl_name :: string
  cl_scopes :: "string list"

datatype admincfg_err = ClientsUnparseable | NoClients | ClientNoName nat | ClientDuplicate string
  | TokenEnvCollision string string string | NoScopes string | UnknownScope string string | RepeatedScope string string

definition client_Parse :: "client list option \<Rightarrow> admincfg_err + client list" where
  "client_Parse decoded = (case decoded of None \<Rightarrow> Inl ClientsUnparseable | Some l \<Rightarrow> Inr l)"

definition TokenEnv :: "string \<Rightarrow> string" where
  "TokenEnv name = ''DARBAAN_ADMIN_TOKEN_'' @ EnvPrefix name"

definition HasScope :: "client \<Rightarrow> string \<Rightarrow> bool" where
  "HasScope c scope \<longleftrightarrow> list_ex (\<lambda>s. s = scope) (cl_scopes c)"

fun validate_scopes :: "string \<Rightarrow> string list \<Rightarrow> string list \<Rightarrow> admincfg_err option" where
  "validate_scopes cl seen [] = None"
| "validate_scopes cl seen (s # ss) =
     (if \<not> ValidScope s then Some (UnknownScope cl s)
      else if s \<in> set seen then Some (RepeatedScope cl s)
      else validate_scopes cl (s # seen) ss)"

definition validateScopes :: "string \<Rightarrow> string list \<Rightarrow> admincfg_err option" where
  "validateScopes cl scopes = (if scopes = [] then Some (NoScopes cl) else validate_scopes cl [] scopes)"

fun validate_clients :: "nat \<Rightarrow> string list \<Rightarrow> (string \<times> string) list \<Rightarrow> client list \<Rightarrow> admincfg_err option" where
  "validate_clients k seen envSeen [] = None"
| "validate_clients k seen envSeen (c # cs) = (
     let name = trim_space (cl_name c); env = TokenEnv name
     in if name = '''' then Some (ClientNoName (k + 1))
        else if name \<in> set seen then Some (ClientDuplicate name)
        else case map_of envSeen env of
            Some other \<Rightarrow> Some (TokenEnvCollision other name env)
          | None \<Rightarrow> (case validateScopes name (cl_scopes c) of
                Some e \<Rightarrow> Some e
              | None \<Rightarrow> validate_clients (k + 1) (name # seen) ((env, name) # envSeen) cs))"

definition client_Validate :: "client list \<Rightarrow> admincfg_err option" where
  "client_Validate clients = (if clients = [] then Some NoClients else validate_clients 0 [] [] clients)"

record scoped_client =
  sc_name :: string
  sc_token :: string
  sc_scopes :: "string list"

definition resolveAdminClients :: "(string \<Rightarrow> string) \<Rightarrow> client list \<Rightarrow> admincfg_err + scoped_client list" where
  "resolveAdminClients env clients = (if clients = [] then Inr []
     else case client_Validate clients of
         Some e \<Rightarrow> Inl e
       | None \<Rightarrow> Inr (map (\<lambda>c. \<lparr>sc_name = cl_name c, sc_token = env (TokenEnv (cl_name c)), sc_scopes = cl_scopes c\<rparr>)
                  (filter (\<lambda>c. env (TokenEnv (cl_name c)) \<noteq> '''') clients)))"

section \<open>The gate of the admin API\<close>

record credential =
  cr_name :: string
  cr_hash :: bytes
  cr_scopes :: "string list"

text \<open>\<open>sv_routes\<close> is the mux: each registered pattern with the scope its handler is wrapped in.\<close>

record admin_server =
  sv_creds :: "credential list"
  sv_routes :: "(string \<times> string) list"

datatype server_err = TokenRequired | RoutePanic string

definition hashBearer :: "(bytes \<Rightarrow> bytes) \<Rightarrow> string \<Rightarrow> bytes" where
  "hashBearer sha token = sha (''Bearer '' @ token)"

fun server_register :: "string list \<Rightarrow> server_err + (string \<times> string) list" where
  "server_register [] = Inr []"
| "server_register (p # ps) = (case map_of RouteScopes p of
       None \<Rightarrow> Inl (RoutePanic p)
     | Some scope \<Rightarrow> (case server_register ps of Inl e \<Rightarrow> Inl e | Inr rs \<Rightarrow> Inr ((p, scope) # rs)))"

definition registered_patterns :: "string list" where
  "registered_patterns = [''GET /queue'', ''GET /queue/{id}'', ''POST /queue/{id}/approve'',
     ''POST /queue/{id}/approve-as/{inbox}'', ''POST /queue/{id}/resend'', ''POST /queue/{id}/reject'', ''GET /inboxes'',
     ''GET /holds'', ''GET /holds/{id}/content'', ''GET /holds/{id}/evidence'', ''POST /holds/{id}/expose'',
     ''POST /holds/{id}/drop'', ''GET /reconcile'', ''POST /reconcile/{inbox}/release'', ''GET /sync-status'', ''GET /audit'']"

definition NewServer :: "(bytes \<Rightarrow> bytes) \<Rightarrow> string \<Rightarrow> server_err + admin_server" where
  "NewServer sha token = (if token = '''' then Inl TokenRequired
     else case server_register registered_patterns of
         Inl e \<Rightarrow> Inl e
       | Inr rs \<Rightarrow> Inr \<lparr>sv_creds = [\<lparr>cr_name = ''root'', cr_hash = hashBearer sha token, cr_scopes = AllScopes\<rparr>],
                      sv_routes = rs\<rparr>)"

definition SetScopedClients :: "(bytes \<Rightarrow> bytes) \<Rightarrow> scoped_client list \<Rightarrow> admin_server \<Rightarrow> admin_server" where
  "SetScopedClients sha clients s = s\<lparr>sv_creds := sv_creds s
     @ map (\<lambda>c. \<lparr>cr_name = sc_name c, cr_hash = hashBearer sha (sc_token c), cr_scopes = sc_scopes c\<rparr>)
         (filter (\<lambda>c. sc_token c \<noteq> '''') clients)\<rparr>"

definition server_resolve :: "(bytes \<Rightarrow> bytes) \<Rightarrow> admin_server \<Rightarrow> string \<Rightarrow> credential option" where
  "server_resolve sha s authHeader =
     fold (\<lambda>c found. if sha authHeader = cr_hash c then Some c else found) (sv_creds s) None"

datatype gate = NotRouted | Unauthorized | Forbidden string | Granted string

definition scoped :: "(bytes \<Rightarrow> bytes) \<Rightarrow> admin_server \<Rightarrow> string \<Rightarrow> string \<Rightarrow> gate" where
  "scoped sha s required authHeader = (case server_resolve sha s authHeader of
       None \<Rightarrow> Unauthorized
     | Some cred \<Rightarrow> if required \<notin> set (cr_scopes cred) then Forbidden required else Granted (cr_name cred))"

definition admin_request :: "(bytes \<Rightarrow> bytes) \<Rightarrow> admin_server \<Rightarrow> string \<Rightarrow> string \<Rightarrow> gate" where
  "admin_request sha s pattern authHeader = (case map_of (sv_routes s) pattern of
       None \<Rightarrow> NotRouted | Some required \<Rightarrow> scoped sha s required authHeader)"

section \<open>Least privilege\<close>

lemma resolve_Some:
  "server_resolve sha s h = Some c \<Longrightarrow> c \<in> set (sv_creds s) \<and> sha h = cr_hash c"
proof -
  have "fold (\<lambda>c found. if sha h = cr_hash c then Some c else found) cs acc = Some c \<Longrightarrow>
      (c \<in> set cs \<and> sha h = cr_hash c) \<or> acc = Some c" for cs acc
    by (induction cs arbitrary: acc) (auto split: if_splits)
  then show "server_resolve sha s h = Some c \<Longrightarrow> c \<in> set (sv_creds s) \<and> sha h = cr_hash c"
    by (fastforce simp: server_resolve_def)
qed

lemma server_register_scope: "server_register ps = Inr rs \<Longrightarrow> map_of rs p = Some scope \<Longrightarrow> map_of RouteScopes p = Some scope"
  by (induction ps arbitrary: rs) (auto split: option.splits sum.splits if_splits)

lemma server_routes: "NewServer sha token = Inr s \<Longrightarrow> map_of (sv_routes s) p = Some scope \<Longrightarrow> map_of RouteScopes p = Some scope"
  by (auto simp: NewServer_def split: if_splits sum.splits intro: server_register_scope)

lemma validate_scopes_ok: "validate_scopes c seen ss = None \<Longrightarrow> \<forall>s \<in> set ss. ValidScope s"
  by (induction ss arbitrary: seen) (auto split: if_splits)

lemma validate_clients_ok:
  "validate_clients k seen envSeen cs = None \<Longrightarrow>
     distinct (map (\<lambda>c. TokenEnv (trim_space (cl_name c))) cs)
   \<and> (\<forall>c \<in> set cs. TokenEnv (trim_space (cl_name c)) \<notin> fst ` set envSeen \<and> cl_scopes c \<noteq> [] \<and> (\<forall>s \<in> set (cl_scopes c). ValidScope s))"
proof (induction cs arbitrary: k seen envSeen)
  case (Cons c cs)
  let ?n = "trim_space (cl_name c)"
  from Cons.prems have c: "map_of envSeen (TokenEnv ?n) = None" "validateScopes ?n (cl_scopes c) = None"
    and r: "validate_clients (k + 1) (?n # seen) ((TokenEnv ?n, ?n) # envSeen) cs = None"
    by (auto simp: Let_def split: if_splits option.splits)
  from Cons.IH [OF r] c show ?case
    by (auto simp: map_of_eq_None_iff validateScopes_def dest: validate_scopes_ok split: if_splits)
qed simp

lemma gate_granted:
  assumes "NewServer sha token = Inr s0" "resolveAdminClients env clients = Inr scs"
    and "admin_request sha (SetScopedClients sha scs s0) pattern header = Granted actor"
  shows "token \<noteq> '''' \<and> (\<exists>scope. map_of RouteScopes pattern = Some scope
    \<and> ((actor = ''root'' \<and> sha header = sha (''Bearer '' @ token))
       \<or> (\<exists>c \<in> set clients. actor = cl_name c \<and> HasScope c scope \<and> env (TokenEnv (cl_name c)) \<noteq> ''''
            \<and> sha header = sha (''Bearer '' @ env (TokenEnv (cl_name c))))))"
proof -
  let ?s = "SetScopedClients sha scs s0"
  have t: "token \<noteq> ''''" and c0: "sv_creds s0 = [\<lparr>cr_name = ''root'', cr_hash = hashBearer sha token, cr_scopes = AllScopes\<rparr>]"
    using assms(1) by (auto simp: NewServer_def split: if_splits sum.splits)
  from assms(3) obtain scope cred where r: "map_of (sv_routes s0) pattern = Some scope"
    "server_resolve sha ?s header = Some cred" "scope \<in> set (cr_scopes cred)" "actor = cr_name cred"
    by (auto simp: admin_request_def scoped_def SetScopedClients_def split: option.splits if_splits)
  from resolve_Some [OF r(2)] have m: "cred \<in> set (sv_creds ?s)" "sha header = cr_hash cred" by auto
  have cl: "sc \<in> set scs \<Longrightarrow> \<exists>c \<in> set clients. sc_name sc = cl_name c \<and> sc_scopes sc = cl_scopes c
      \<and> sc_token sc = env (TokenEnv (cl_name c))" for sc
  proof -
    assume "sc \<in> set scs"
    then obtain c where "c \<in> set clients"
      "sc = \<lparr>sc_name = cl_name c, sc_token = env (TokenEnv (cl_name c)), sc_scopes = cl_scopes c\<rparr>"
      using assms(2) by (auto simp: resolveAdminClients_def split: if_splits option.splits)
    then show ?thesis by (intro bexI [of _ c]) simp_all
  qed
  from m(1) consider "cred = \<lparr>cr_name = ''root'', cr_hash = hashBearer sha token, cr_scopes = AllScopes\<rparr>"
    | sc where "sc \<in> set scs" "sc_token sc \<noteq> ''''"
        "cred = \<lparr>cr_name = sc_name sc, cr_hash = hashBearer sha (sc_token sc), cr_scopes = sc_scopes sc\<rparr>"
    by (auto simp: SetScopedClients_def c0)
  then show ?thesis
  proof cases
    case 1
    then show ?thesis using t r m(2) server_routes [OF assms(1) r(1)] by (auto simp: hashBearer_def)
  next
    case 2
    from cl [OF 2(1)] obtain c where "c \<in> set clients" "sc_name sc = cl_name c" "sc_scopes sc = cl_scopes c"
      "sc_token sc = env (TokenEnv (cl_name c))" by blast
    then show ?thesis using t r m(2) 2 server_routes [OF assms(1) r(1)]
      by (auto simp: hashBearer_def HasScope_def list_ex_iff)
  qed
qed

text \<open>C9: the gate of the admin API is least privilege: a request to a route is granted only to a caller whose
  Authorization header has the digest of a configured credential, and then only when that credential is
  the root token or a client whose configuration lists the very scope the route map requires; a client
  without a token in the environment grants nothing.\<close>

theorem admin_gate_least_privilege:
  assumes "NewServer sha token = Inr s0" "resolveAdminClients env clients = Inr scs"
    and "admin_request sha (SetScopedClients sha scs s0) pattern header = Granted actor"
  shows "token \<noteq> '''' \<and> (\<exists>scope. map_of RouteScopes pattern = Some scope
    \<and> ((actor = ''root'' \<and> sha header = sha (''Bearer '' @ token))
       \<or> (\<exists>c \<in> set clients. actor = cl_name c \<and> HasScope c scope \<and> env (TokenEnv (cl_name c)) \<noteq> ''''
            \<and> sha header = sha (''Bearer '' @ env (TokenEnv (cl_name c))))))"
  by (rule gate_granted [OF assms])

definition sample_clients :: "client list" where
  "sample_clients = [\<lparr>cl_name = ''bot'', cl_scopes = [''queue:read'']\<rparr>]"

theorem admin_gate_least_privilege_witness:
  "\<exists>s0 scs. NewServer (\<lambda>b. b) ''t'' = Inr s0 \<and> resolveAdminClients (\<lambda>v. v) sample_clients = Inr scs
    \<and> admin_request (\<lambda>b. b) (SetScopedClients (\<lambda>b. b) scs s0) ''GET /queue'' (''Bearer '' @ TokenEnv ''bot'') = Granted ''bot''
    \<and> admin_request (\<lambda>b. b) (SetScopedClients (\<lambda>b. b) scs s0) ''GET /audit'' (''Bearer '' @ TokenEnv ''bot'') \<noteq> Granted ''bot''"
proof -
  let ?s0 = "projr (NewServer (\<lambda>b. b) ''t'')" and ?scs = "projr (resolveAdminClients (\<lambda>v. v) sample_clients)"
  have "\<not> isl (NewServer (\<lambda>b. b) ''t'')" "\<not> isl (resolveAdminClients (\<lambda>v. v) sample_clients)" by code_simp+
  then have e: "NewServer (\<lambda>b. b) ''t'' = Inr ?s0" "resolveAdminClients (\<lambda>v. v) sample_clients = Inr ?scs"
    by (metis sum.collapse(2))+
  have g: "admin_request (\<lambda>b. b) (SetScopedClients (\<lambda>b. b) ?scs ?s0) ''GET /queue'' (''Bearer '' @ TokenEnv ''bot'') = Granted ''bot''"
    by code_simp
  have n: "map_of RouteScopes ''GET /audit'' = Some ''audit:read''" by code_simp
  have "admin_request (\<lambda>b. b) (SetScopedClients (\<lambda>b. b) ?scs ?s0) ''GET /audit'' (''Bearer '' @ TokenEnv ''bot'') \<noteq> Granted ''bot''"
  proof
    assume "admin_request (\<lambda>b. b) (SetScopedClients (\<lambda>b. b) ?scs ?s0) ''GET /audit'' (''Bearer '' @ TokenEnv ''bot'') = Granted ''bot''"
    from admin_gate_least_privilege [OF e this] show False
      by (auto simp: n sample_clients_def HasScope_def)
  qed
  with e g show ?thesis by blast
qed

text \<open>The route map and the registered routes agree: the server starts with any root token, every route of
  the map is registered with its scope and no other is, and every scope some route requires is one the
  root holds.\<close>

lemma admin_routes_complete:
  "token \<noteq> '''' \<Longrightarrow> \<exists>s. NewServer sha token = Inr s
     \<and> (\<forall>p scope. map_of (sv_routes s) p = Some scope \<longleftrightarrow> map_of RouteScopes p = Some scope)
     \<and> set AllScopes = snd ` set RouteScopes"
proof -
  assume t: "token \<noteq> ''''"
  have r: "server_register registered_patterns = Inr (map (\<lambda>p. (p, the (map_of RouteScopes p))) registered_patterns)"
    by code_simp
  have d: "set registered_patterns = set (map fst RouteScopes)" by code_simp
  have m: "map_of (map (\<lambda>p. (p, the (map_of RouteScopes p))) registered_patterns) p = map_of RouteScopes p" for p
  proof (cases "p \<in> set registered_patterns")
    case True
    then have "map_of RouteScopes p \<noteq> None" using d by (simp add: map_of_eq_None_iff)
    with True show ?thesis by (simp add: map_of_map_restrict)
  next
    case False
    then have "map_of RouteScopes p = None" using d by (simp add: map_of_eq_None_iff)
    with False show ?thesis by (simp add: map_of_map_restrict)
  qed
  then show ?thesis using t r by (auto simp: NewServer_def AllScopes_def)
qed

lemma admin_routes_complete_witness:
  "\<exists>s. NewServer (\<lambda>b. b) ''secret'' = Inr s \<and> map_of (sv_routes s) ''GET /audit'' = Some ScopeAuditRead"
proof -
  have "''secret'' \<noteq> ''''" by simp
  moreover have "map_of RouteScopes ''GET /audit'' = Some ScopeAuditRead" by code_simp
  ultimately show ?thesis using admin_routes_complete [of "''secret''" "\<lambda>b. b"] by auto
qed

end
