(* ===== verification/Backend.thy ===== *)
theory Backend
  imports Sluice
begin

text \<open>Model of \<open>internal/backend\<close>: the senders (\<open>sender.go\<close>) and one SMTP submission (\<open>smtp.go\<close>).

  The server and the network are an argument: a script that says how each step of the conversation ends.
  A step fails with a text and, when the server answered, its reply code. Beside its error a submission
  returns the commands it got to issue, in order.\<close>

section \<open>The conversation\<close>

record step_err =
  te_text :: string
  te_code :: "int option"

record smtp_client =
  sm_mail :: "string \<Rightarrow> bool \<Rightarrow> step_err option"
  sm_rcpt :: "string \<Rightarrow> step_err option"
  sm_data :: "step_err option"
  sm_copy :: "bytes \<Rightarrow> step_err option"
  sm_close :: "step_err option"

text \<open>What was said to the server: \<open>CCut\<close> stands for a body that broke off, \<open>CEnd\<close> for the end of the data, sent
  by closing the body.\<close>

datatype smtp_cmd = CMail string bool | CRcpt string | CData | CBody bytes | CCut | CEnd

definition isASCII :: "string \<Rightarrow> bool" where
  "isASCII s = list_all (\<lambda>c. (of_char c :: nat) < 128) s"

definition allASCII :: "string list \<Rightarrow> bool" where
  "allASCII ss = list_all isASCII ss"

definition plain_error :: "step_err \<Rightarrow> send_error" where
  "plain_error e = \<lparr>se_text = te_text e, se_unknown = False, se_pending = False, se_nosender = False, se_smtp_code = te_code e\<rparr>"

text \<open>\<open>fmt.Errorf\<close> with \<open>%w\<close>: the text grows and what \<open>errors.Is\<close> and \<open>errors.As\<close> answer stays.\<close>

definition wrapped :: "string \<Rightarrow> send_error \<Rightarrow> send_error" where
  "wrapped p e = e\<lparr>se_text := p @ se_text e\<rparr>"

fun rcpt_loop :: "smtp_client \<Rightarrow> string list \<Rightarrow> step_err option \<times> smtp_cmd list" where
  "rcpt_loop c [] = (None, [])"
| "rcpt_loop c (r # rs) = (case sm_rcpt c r of
       Some e \<Rightarrow> (Some e, [CRcpt r])
     | None \<Rightarrow> (case rcpt_loop c rs of (err, cs) \<Rightarrow> (err, CRcpt r # cs)))"

definition ErrOutcomeUnknown :: string where
  "ErrOutcomeUnknown = ''outcome unknown''"

definition transact :: "smtp_client \<Rightarrow> string \<Rightarrow> string list \<Rightarrow> bytes \<Rightarrow> send_error option \<times> smtp_cmd list" where
  "transact c from rcpt body = (
     let utf8 = \<not> isASCII from \<or> \<not> allASCII rcpt; mail = CMail from utf8
     in case sm_mail c from utf8 of
       Some e \<Rightarrow> (Some (plain_error e), [mail])
     | None \<Rightarrow> (case rcpt_loop c rcpt of
         (Some e, rs) \<Rightarrow> (Some (plain_error e), mail # rs)
       | (None, rs) \<Rightarrow> (case sm_data c of
           Some e \<Rightarrow> (Some (plain_error e), mail # rs @ [CData])
         | None \<Rightarrow> (case sm_copy c body of
             Some e \<Rightarrow> (Some (plain_error e), mail # rs @ [CData, CCut])
           | None \<Rightarrow>
               let said = mail # rs @ [CData, CBody body, CEnd]
               in case sm_close c of
                   Some e \<Rightarrow> (if te_code e \<noteq> None then (Some (plain_error e), said)
                      else (Some \<lparr>se_text = ErrOutcomeUnknown @ '': '' @ te_text e, se_unknown = True, se_pending = False,
                              se_nosender = False, se_smtp_code = None\<rparr>, said))
                 | None \<Rightarrow> (None, said)))))"

section \<open>The senders\<close>

record backend_config =
  bc_host :: string
  bc_username :: string
  bc_password :: string

text \<open>How dialling, STARTTLS and authentication end, the conversation that follows, and the error of the send's
  context when it is over.\<close>

record smtp_net =
  nt_dial :: "string option"
  nt_starttls :: "step_err option"
  nt_auth :: "step_err option"
  nt_client :: smtp_client
  nt_ctx :: "string option"

type_synonym sender = "message \<Rightarrow> send_error option"

definition send_body :: "message \<Rightarrow> bytes" where
  "send_body m = (case m_released m of Some b \<Rightarrow> b | None \<Rightarrow> m_raw m)"

definition text_error :: "string \<Rightarrow> send_error" where
  "text_error t = \<lparr>se_text = t, se_unknown = False, se_pending = False, se_nosender = False, se_smtp_code = None\<rparr>"

definition smtp_send :: "backend_config \<Rightarrow> smtp_net \<Rightarrow> message \<Rightarrow> send_error option \<times> smtp_cmd list" where
  "smtp_send cfg net m = (case nt_dial net of
       Some t \<Rightarrow> (Some (text_error (''backend: dial '' @ bc_host cfg @ '': '' @ t)), [])
     | None \<Rightarrow> (case nt_starttls net of
         Some e \<Rightarrow> (Some (wrapped (''backend: dial '' @ bc_host cfg @ '': '') (plain_error e)), [])
       | None \<Rightarrow> (case nt_auth net of
           Some e \<Rightarrow> (Some (wrapped ''backend: auth: '' (plain_error e)), [])
         | None \<Rightarrow> (case transact (nt_client net) (m_from m) (m_rcpt m) (send_body m) of
               (Some e, said) \<Rightarrow> (Some (wrapped ''backend: send: '' e), said)
             | (None, said) \<Rightarrow> (None, said)))))"

definition sendResult :: "send_error option \<Rightarrow> string option \<Rightarrow> string \<Rightarrow> send_error option" where
  "sendResult err ctxErr host = (case err of
       None \<Rightarrow> None
     | Some e \<Rightarrow>
         if se_unknown e then Some e
         else case ctxErr of
             Some t \<Rightarrow> Some (text_error (''backend: send to '' @ host @ '' aborted: '' @ t))
           | None \<Rightarrow> Some e)"

definition smtp_Send :: "backend_config \<Rightarrow> smtp_net \<Rightarrow> sender" where
  "smtp_Send cfg net m = sendResult (fst (smtp_send cfg net m)) (nt_ctx net) (bc_host cfg)"

definition ErrSendPending :: send_error where
  "ErrSendPending = (text_error ''upstream send pending'')\<lparr>se_pending := True\<rparr>"

definition stub_Send :: sender where
  "stub_Send m = Some ErrSendPending"

definition IsPermanent :: "send_error option \<Rightarrow> bool" where
  "IsPermanent err = (case err of
       None \<Rightarrow> False
     | Some e \<Rightarrow> if se_pending e then False
         else case se_smtp_code e of Some code \<Rightarrow> 500 \<le> code | None \<Rightarrow> False)"

text \<open>\<open>net.SplitHostPort\<close> is an argument; the sender is what \<open>net\<close> makes of a configuration.\<close>

datatype backend_err = SmtpIncomplete | SmtpHost string | UnknownSender string "string list"

definition newSMTP :: "(string \<Rightarrow> (string \<times> string) option) \<Rightarrow> (backend_config \<Rightarrow> smtp_net) \<Rightarrow> backend_config \<Rightarrow> backend_err + sender" where
  "newSMTP splitHostPort net cfg =
     (if bc_host cfg = '''' \<or> bc_username cfg = '''' \<or> bc_password cfg = '''' then Inl SmtpIncomplete
      else case splitHostPort (bc_host cfg) of
          None \<Rightarrow> Inl (SmtpHost (bc_host cfg))
        | Some hp \<Rightarrow> Inr (smtp_Send cfg (net cfg)))"

definition backend_registry ::
  "(string \<Rightarrow> (string \<times> string) option) \<Rightarrow> (backend_config \<Rightarrow> smtp_net) \<Rightarrow> (string \<times> (backend_config \<Rightarrow> backend_err + sender)) list" where
  "backend_registry splitHostPort net = [(''smtp'', newSMTP splitHostPort net), (''stub'', \<lambda>cfg. Inr stub_Send)]"

definition backend_Registered :: "(string \<times> 'f) list \<Rightarrow> string list" where
  "backend_Registered registry = sort (map fst registry)"

definition backend_New ::
  "(string \<times> (backend_config \<Rightarrow> backend_err + sender)) list \<Rightarrow> string \<Rightarrow> backend_config \<Rightarrow> backend_err + sender" where
  "backend_New registry ty cfg = (case map_of registry ty of
       None \<Rightarrow> Inl (UnknownSender ty (backend_Registered registry))
     | Some f \<Rightarrow> f cfg)"

section \<open>When a copy may have been delivered\<close>

lemma rcpt_loop_end: "CEnd \<notin> set (snd (rcpt_loop c rs)) \<and> CBody b \<notin> set (snd (rcpt_loop c rs))"
  by (induction rs) (auto split: option.splits prod.splits)

lemma rcpt_loop_all: "fst (rcpt_loop c rs) = None \<Longrightarrow> snd (rcpt_loop c rs) = map CRcpt rs"
  by (induction rs) (auto split: option.splits prod.splits)

text \<open>A submission breaks off before the end of the data, or says everything and closes.\<close>

definition whole_conversation :: "string \<Rightarrow> string list \<Rightarrow> bytes \<Rightarrow> smtp_cmd list" where
  "whole_conversation from rcpt body =
     CMail from (\<not> isASCII from \<or> \<not> allASCII rcpt) # map CRcpt rcpt @ [CData, CBody body, CEnd]"

definition close_error :: "step_err \<Rightarrow> send_error" where
  "close_error e = (if te_code e \<noteq> None then plain_error e
     else (text_error (ErrOutcomeUnknown @ '': '' @ te_text e))\<lparr>se_unknown := True\<rparr>)"

lemma transact_cases:
  "(\<exists>e cs. transact c from rcpt body = (Some (plain_error e), cs) \<and> CEnd \<notin> set cs)
   \<or> transact c from rcpt body = (map_option close_error (sm_close c), whole_conversation from rcpt body)"
proof (cases "sm_mail c from (\<not> isASCII from \<or> \<not> allASCII rcpt)")
  case None
  note mail = None
  obtain err rs where r: "rcpt_loop c rcpt = (err, rs)" by fastforce
  with rcpt_loop_end [of c rcpt] have rs: "CEnd \<notin> set rs" by simp
  show ?thesis
  proof (cases err)
    case None
    with rcpt_loop_all [of c rcpt] r have "rs = map CRcpt rcpt" by simp
    with None mail r rs show ?thesis
      by (cases "sm_data c"; cases "sm_copy c body"; cases "sm_close c")
        (auto simp: transact_def Let_def whole_conversation_def close_error_def text_error_def)
  qed (use mail r rs in \<open>auto simp: transact_def Let_def\<close>)
qed (auto simp: transact_def Let_def)

lemma send_error_sel [simp]:
  "se_unknown (wrapped p e) = se_unknown e" "se_pending (wrapped p e) = se_pending e" "se_smtp_code (wrapped p e) = se_smtp_code e"
  "\<not> se_unknown (plain_error t)" "\<not> se_pending (plain_error t)" "se_smtp_code (plain_error t) = te_code t"
  "\<not> se_unknown (text_error x)" "\<not> se_pending (text_error x)" "se_smtp_code (text_error x) = None"
  "se_unknown (close_error t) \<longleftrightarrow> te_code t = None" "\<not> se_pending (close_error t)" "se_smtp_code (close_error t) = te_code t"
  by (simp_all add: wrapped_def plain_error_def text_error_def close_error_def)

lemma smtp_send_cases:
  assumes "smtp_send cfg net m = (err, said)"
  shows "(\<exists>e. err = Some e \<and> \<not> se_unknown e \<and> CEnd \<notin> set said)
    \<or> (err = map_option (\<lambda>t. wrapped ''backend: send: '' (close_error t)) (sm_close (nt_client net))
       \<and> said = whole_conversation (m_from m) (m_rcpt m) (send_body m))"
proof (cases "nt_dial net = None \<and> nt_starttls net = None \<and> nt_auth net = None")
  case True
  from transact_cases [of "nt_client net" "m_from m" "m_rcpt m" "send_body m"] show ?thesis
  proof (elim disjE exE conjE)
    fix e cs assume "transact (nt_client net) (m_from m) (m_rcpt m) (send_body m) = (Some (plain_error e), cs)" "CEnd \<notin> set cs"
    then show ?thesis using assms True by (auto simp: smtp_send_def)
  next
    assume "transact (nt_client net) (m_from m) (m_rcpt m) (send_body m) =
      (map_option close_error (sm_close (nt_client net)), whole_conversation (m_from m) (m_rcpt m) (send_body m))"
    then show ?thesis using assms True by (cases "sm_close (nt_client net)") (auto simp: smtp_send_def)
  qed
next
  case False
  then obtain e where "err = Some e" "\<not> se_unknown e" "said = []"
    using assms by (auto simp: smtp_send_def split: option.splits)
  then show ?thesis by simp
qed

text \<open>C22: a send reports an unknown outcome exactly when the server got the whole message and gave no reply to its
  end, whatever happened to the send's deadline in the meantime; it reports success only after the server
  accepted that end, when the envelope and the body said were those of the message. Every other error means
  the server never got the end of the data or refused it, so no copy was delivered; it is permanent only
  on the word of the server, by a reply code of 500 or more, and never when the deadline cut it off.\<close>

theorem send_unknown_iff_unanswered:
  assumes "smtp_send cfg net m = (err, said)"
  shows "((\<exists>e. smtp_Send cfg net m = Some e \<and> se_unknown e)
      \<longleftrightarrow> CEnd \<in> set said \<and> (\<exists>t. sm_close (nt_client net) = Some t \<and> te_code t = None))
    \<and> (smtp_Send cfg net m = None \<longleftrightarrow> CEnd \<in> set said \<and> sm_close (nt_client net) = None)
    \<and> (CEnd \<in> set said \<longrightarrow> said = whole_conversation (m_from m) (m_rcpt m) (send_body m))
    \<and> (IsPermanent (smtp_Send cfg net m) \<longrightarrow>
         nt_ctx net = None \<and> (\<exists>e code. err = Some e \<and> se_smtp_code e = Some code \<and> 500 \<le> code))"
proof -
  have S: "smtp_Send cfg net m = sendResult err (nt_ctx net) (bc_host cfg)" by (simp add: smtp_Send_def assms)
  from smtp_send_cases [OF assms] show ?thesis
  proof (elim disjE exE conjE)
    fix e assume "err = Some e" "\<not> se_unknown e" "CEnd \<notin> set said"
    then show ?thesis unfolding S by (auto simp: sendResult_def IsPermanent_def split: option.splits if_splits)
  next
    assume a: "err = map_option (\<lambda>t. wrapped ''backend: send: '' (close_error t)) (sm_close (nt_client net))"
      "said = whole_conversation (m_from m) (m_rcpt m) (send_body m)"
    have e: "CEnd \<in> set (whole_conversation (m_from m) (m_rcpt m) (send_body m))" by (simp add: whole_conversation_def)
    show ?thesis unfolding S a using e
      by (cases "sm_close (nt_client net)") (auto simp: sendResult_def IsPermanent_def split: option.splits if_splits)
  qed
qed

text \<open>A server that takes everything and hangs up before its final reply, with the deadline reached.\<close>

definition sample_net :: smtp_net where
  "sample_net = \<lparr>nt_dial = None, nt_starttls = None, nt_auth = None,
     nt_client = \<lparr>sm_mail = (\<lambda>f u. None), sm_rcpt = (\<lambda>r. None), sm_data = None, sm_copy = (\<lambda>b. None),
       sm_close = Some \<lparr>te_text = ''EOF'', te_code = None\<rparr>\<rparr>, nt_ctx = Some ''deadline exceeded''\<rparr>"

definition sample_host :: backend_config where
  "sample_host = \<lparr>bc_host = ''smtp.example:587'', bc_username = ''u'', bc_password = ''p''\<rparr>"

theorem send_unknown_iff_unanswered_witness:
  "\<exists>e. smtp_Send sample_host sample_net (new_message 5 sample_sub 1) = Some e \<and> se_unknown e"
proof -
  obtain err said where s: "smtp_send sample_host sample_net (new_message 5 sample_sub 1) = (err, said)" by fastforce
  have "CEnd \<in> set (snd (smtp_send sample_host sample_net (new_message 5 sample_sub 1)))"
    by (simp add: smtp_send_def sample_net_def transact_def Let_def new_message_def sample_sub_def)
  with send_unknown_iff_unanswered [OF s] s show ?thesis by (simp add: sample_net_def)
qed

end
