(* ===== verification/Bounce.thy ===== *)
theory Bounce
  imports Sluice Provenance
begin

text \<open>Model of \<open>internal/bounce\<close>: the delivery status notification for a refused message. The MIME writer is an
  argument: it takes the header fields and the parts, each with its content type, and returns the message
  or fails. The formatted date is an argument too.\<close>

section \<open>Generating a bounce\<close>

record bounce =
  bn_owner :: string
  bn_inbox :: string
  bn_from :: string
  bn_to :: string
  bn_subject :: string
  bn_raw :: bytes

type_synonym mime_writer = "(string \<times> string) list \<Rightarrow> (string \<times> bytes) list \<Rightarrow> bytes option"

definition bounce_subject :: string where
  "bounce_subject = ''Undelivered Mail Returned to Sender''"

definition bounce_sanitize :: "string \<Rightarrow> string" where
  "bounce_sanitize s = map (\<lambda>c. if c \<in> set crlf then CHR '' '' else c) s"

definition writeText :: "string \<Rightarrow> string \<Rightarrow> string \<Rightarrow> string \<Rightarrow> bool \<Rightarrow> string \<times> bytes" where
  "writeText domain reason disposition status retryable = (
     let advice = (if retryable then ''You may revise the message and resubmit it.'' else ''Do not retry.'')
     in (''text/plain; charset=utf-8'',
         ''This is the Darbaan mail gate at '' @ domain @ ''.'' @ crlf @ crlf
         @ ''Your message was not delivered. It was refused by policy ('' @ status @ '').'' @ crlf @ crlf
         @ ''Reason: '' @ reason @ crlf @ crlf
         @ ''Delivery status: '' @ disposition @ ''.'' @ crlf @ advice @ crlf @ crlf
         @ ''The message you submitted is attached as you sent it. It is your own draft, ''
         @ ''not Darbaan's text: it carries no trust of its own, and anything it quotes is ''
         @ ''only as trustworthy as its source.'' @ crlf))"

definition status_group :: "string \<Rightarrow> string \<Rightarrow> string \<Rightarrow> bytes" where
  "status_group status reason rcpt = crlf @ ''Final-Recipient: rfc822; '' @ bounce_sanitize rcpt @ crlf
     @ ''Action: failed'' @ crlf @ ''Status: '' @ status @ crlf @ ''Diagnostic-Code: X-Darbaan; '' @ reason @ crlf"

definition writeDeliveryStatus :: "string \<Rightarrow> string list \<Rightarrow> string \<Rightarrow> string \<Rightarrow> string \<times> bytes" where
  "writeDeliveryStatus domain rcpts status reason = (''message/delivery-status'',
     ''Reporting-MTA: dns; '' @ domain @ crlf @ concat (map (status_group status reason) rcpts))"

definition writeOriginal :: "bytes \<Rightarrow> string \<times> bytes" where
  "writeOriginal raw = (''message/rfc822'', raw)"

definition bounce_parts :: "message \<Rightarrow> string \<Rightarrow> bool \<Rightarrow> string \<Rightarrow> (string \<times> bytes) list" where
  "bounce_parts orig reason retryable domain = (
     let status = (if retryable then ''4.7.1'' else ''5.7.1'');
         disposition = (if retryable then ''transient'' else ''permanent'');
         rcpts = (if m_rcpt orig = [] then [m_from orig] else m_rcpt orig);
         r = bounce_sanitize reason
     in [writeText domain r disposition status retryable, writeDeliveryStatus domain rcpts status r, writeOriginal (m_raw orig)])"

definition bounce_Generate :: "mime_writer \<Rightarrow> string \<Rightarrow> message \<Rightarrow> string \<Rightarrow> bool \<Rightarrow> string \<Rightarrow> bounce option" where
  "bounce_Generate mw date orig reason retryable dom0 = (
     let domain = (if dom0 = '''' then ''localhost'' else dom0);
         from = ''MAILER-DAEMON@'' @ domain; to = m_from orig;
         top = [(''From'', from), (''To'', to), (''Subject'', bounce_subject), (''Date'', date),
                (''Auto-Submitted'', ''auto-replied''), (''Content-Type'', ''multipart/report; report-type=delivery-status'')]
     in map_option (\<lambda>raw. \<lparr>bn_owner = m_agent orig, bn_inbox = m_inbox orig, bn_from = from, bn_to = to,
          bn_subject = bounce_subject, bn_raw = raw\<rparr>) (mw top (bounce_parts orig reason retryable domain)))"

section \<open>No text of a mail becomes a line of the report\<close>

text \<open>The lines of a text that ends each line with CR LF.\<close>

fun crlf_lines :: "bytes \<Rightarrow> bytes \<Rightarrow> bytes list" where
  "crlf_lines acc (a # b # s) = (if [a, b] = crlf then rev acc # crlf_lines [] s else crlf_lines (a # acc) (b # s))"
| "crlf_lines acc [a] = [rev (a # acc)]"
| "crlf_lines acc [] = (if acc = [] then [] else [rev acc])"

definition one_line :: "string \<Rightarrow> bool" where
  "one_line s \<longleftrightarrow> list_all (\<lambda>c. c \<notin> set crlf) s"

lemma crlf_lines_line: "one_line x \<Longrightarrow> crlf_lines acc (x @ crlf @ rest) = (rev acc @ x) # crlf_lines [] rest"
proof (induction x arbitrary: acc)
  case Nil
  then show ?case by (simp add: crlf_def)
next
  case (Cons a x)
  then have ne: "a \<noteq> char_of (13 :: nat)" "one_line x" by (auto simp: one_line_def crlf_def)
  obtain b y where xb: "x @ crlf @ rest = b # y" by (cases x) (auto simp: crlf_def)
  have "crlf_lines acc ((a # x) @ crlf @ rest) = crlf_lines (a # acc) (x @ crlf @ rest)"
    using ne(1) xb by (simp add: crlf_def)
  then show ?case using Cons.IH [OF ne(2), of "a # acc"] by simp
qed

lemma space_no_break: "CHR '' '' \<notin> set crlf"
  by code_simp

lemma one_line_sanitize [simp]: "one_line (bounce_sanitize s)"
  using space_no_break by (auto simp: one_line_def bounce_sanitize_def list_all_iff)

lemma one_line_append [simp]: "one_line (x @ y) \<longleftrightarrow> one_line x \<and> one_line y"
  by (simp add: one_line_def)

lemma one_line_consts:
  "one_line []" "one_line ''Final-Recipient: rfc822; ''" "one_line ''Action: failed''" "one_line ''Status: ''"
  "one_line ''Diagnostic-Code: X-Darbaan; ''" "one_line ''Reporting-MTA: dns; ''" "one_line ''localhost''"
  "one_line ''4.7.1''" "one_line ''5.7.1''"
  by code_simp+
definition group_lines :: "string \<Rightarrow> string \<Rightarrow> string \<Rightarrow> bytes list" where
  "group_lines status reason rcpt = ['''', ''Final-Recipient: rfc822; '' @ bounce_sanitize rcpt, ''Action: failed'',
     ''Status: '' @ status, ''Diagnostic-Code: X-Darbaan; '' @ reason]"

lemma crlf_lines_map: "(\<And>l. l \<in> set ls \<Longrightarrow> one_line l) \<Longrightarrow> crlf_lines [] (concat (map (\<lambda>l. l @ crlf) ls) @ rest) = ls @ crlf_lines [] rest"
  by (induction ls) (simp_all add: crlf_lines_line)

lemma status_group_lines: "status_group status reason rcpt = concat (map (\<lambda>l. l @ crlf) (group_lines status reason rcpt))"
  by (simp only: status_group_def group_lines_def list.map concat.simps append_assoc append_Nil append_Nil2)

lemma group_one_line: "one_line status \<Longrightarrow> one_line reason \<Longrightarrow> l \<in> set (group_lines status reason rcpt) \<Longrightarrow> one_line l"
  using one_line_consts unfolding group_lines_def
  by (simp only: list.set insert_iff empty_iff) (elim disjE, simp_all only: one_line_append one_line_sanitize)

lemma groups_lines:
  "one_line status \<Longrightarrow> one_line reason \<Longrightarrow>
     crlf_lines [] (concat (map (status_group status reason) rcpts)) = concat (map (group_lines status reason) rcpts)"
proof (induction rcpts)
  case (Cons r rs)
  have "crlf_lines [] (concat (map (\<lambda>l. l @ crlf) (group_lines status reason r)) @ concat (map (status_group status reason) rs))
      = group_lines status reason r @ crlf_lines [] (concat (map (status_group status reason) rs))"
    by (rule crlf_lines_map) (rule group_one_line [OF Cons.prems])
  then show ?case using Cons.IH [OF Cons.prems]
    by (simp only: list.map concat.simps status_group_lines [of status reason r])
qed simp

lemma report_lines:
  assumes "one_line d" "one_line status" "one_line reason"
  shows "crlf_lines [] (snd (writeDeliveryStatus d rcpts status reason))
    = (''Reporting-MTA: dns; '' @ d) # concat (map (group_lines status reason) rcpts)"
proof -
  have "one_line (''Reporting-MTA: dns; '' @ d)" using one_line_consts assms(1) by (simp only: one_line_append simp_thms)
  from crlf_lines_line [OF this, of "[]" "concat (map (status_group status reason) rcpts)"] show ?thesis
    by (simp only: writeDeliveryStatus_def snd_conv append_assoc rev.simps append_Nil groups_lines [OF assms(2,3)])
qed



end
