(* ===== verification/Bounceguard.thy ===== *)
theory Bounceguard
  imports Mailrec
begin

text \<open>Model of \<open>internal/bounceguard\<close>: the shape test, the signature gate and the verdict at the lazy read
  face. The MIME parser is an argument: it gives an entity tree, each entity with its header lookup, its
  content type with the \<open>report-type\<close> parameter, and the parts its multipart reader yields before an
  error ends it (\<open>None\<close> for an entity that is not multipart). The verifier is an argument, as in the code.\<close>

section \<open>Operations\<close>

datatype entity = Entity "string \<Rightarrow> string" string string "entity list option"

fun ent_get :: "entity \<Rightarrow> string \<Rightarrow> string" where
  "ent_get (Entity h ct rt ps) k = h k"

fun ent_type :: "entity \<Rightarrow> string" where
  "ent_type (Entity h ct rt ps) = ct"

fun ent_report_type :: "entity \<Rightarrow> string" where
  "ent_report_type (Entity h ct rt ps) = rt"

fun hasDeliveryStatus :: "entity \<Rightarrow> bool" where
  "hasDeliveryStatus (Entity h ct rt None) = (ct = ''message/delivery-status'')"
| "hasDeliveryStatus (Entity h ct rt (Some ps)) = list_ex hasDeliveryStatus ps"

definition bounceSender :: "codecs \<Rightarrow> string \<Rightarrow> bool" where
  "bounceSender C headerValue = (
     let v = trim_space headerValue
     in if v = '''' then False
        else if v = ''<>'' then True
        else case cd_parse_address C v of
            None \<Rightarrow> contains_str (to_lower v) ''mailer-daemon'' \<or> contains_str (to_lower v) ''postmaster''
          | Some addr \<Rightarrow>
              let local = to_lower (case before_last (CHR ''@'') addr of Some l \<Rightarrow> l | None \<Rightarrow> addr)
              in local = ''mailer-daemon'' \<or> local = ''postmaster'')"

definition Shaped :: "(bytes \<Rightarrow> entity option) \<Rightarrow> codecs \<Rightarrow> bytes \<Rightarrow> bool" where
  "Shaped parse C raw = (case parse raw of
       None \<Rightarrow> False
     | Some ent \<Rightarrow>
         if ent_type ent = ''multipart/report'' \<and> equal_fold (ent_report_type ent) ''delivery-status'' then True
         else if hasDeliveryStatus ent then True
         else if bounceSender C (ent_get ent ''Return-Path'') \<or> bounceSender C (ent_get ent ''From'') then True
         else contains_str (to_lower (ent_get ent ''Auto-Submitted'')) ''auto-replied''
              \<and> (ent_type ent = ''multipart/report'' \<or> ent_type ent = ''message/delivery-status''))"

definition Candidate :: "string list \<Rightarrow> bool" where
  "Candidate fromLocalParts \<longleftrightarrow>
     list_ex (\<lambda>lp. to_lower (trim_space lp) \<in> {''mailer-daemon'', ''postmaster''}) fromLocalParts"

text \<open>A guard: the shape test and the verifier. Results carry the boolean and the error.\<close>

record guard =
  gd_shaped :: "bytes \<Rightarrow> bool"
  gd_verify :: "bytes \<Rightarrow> string + bool"

definition guard_New :: "(bytes \<Rightarrow> entity option) \<Rightarrow> codecs \<Rightarrow> (bytes \<Rightarrow> string + bool) \<Rightarrow> guard" where
  "guard_New parse C verify = \<lparr>gd_shaped = Shaped parse C, gd_verify = verify\<rparr>"

definition IsSpoof :: "guard \<Rightarrow> bytes \<Rightarrow> bool \<times> string option" where
  "IsSpoof g raw = (if \<not> gd_shaped g raw then (False, None)
     else case gd_verify g raw of
         Inl e \<Rightarrow> (True, Some e)
       | Inr ok \<Rightarrow> (\<not> ok, None))"

definition guard_Verdict :: "guard \<Rightarrow> string list \<Rightarrow> bool option \<Rightarrow> bytes \<Rightarrow> (string + bytes) \<Rightarrow> bool \<times> string option" where
  "guard_Verdict g fromLocalParts shaped rawInHand getRaw =
     (if length rawInHand > 0 then IsSpoof g rawInHand
      else if shaped = Some True \<or> Candidate fromLocalParts then
        (case getRaw of Inl e \<Rightarrow> (True, Some e) | Inr raw \<Rightarrow> IsSpoof g raw)
      else (False, None))"

section \<open>The guard fails closed\<close>

lemma IsSpoof_fst: "fst (IsSpoof g raw) \<longleftrightarrow> \<not> (\<not> gd_shaped g raw \<or> gd_verify g raw = Inr True)"
  by (auto simp: IsSpoof_def split: sum.splits)

text \<open>Bounce-shaped mail passes the guard only with a valid signature: a message that is let through was
  either seen and found not bounce-shaped or correctly signed, or was never a candidate (no body in hand,
  no stored bounce shape, no bounce sender among the envelope's); a verifier or fetch error never lets a
  candidate through.\<close>

lemma verdict_lets_through_iff:
  "fst (guard_Verdict g lps shaped rawInHand getRaw) = False \<longleftrightarrow>
     (if rawInHand \<noteq> [] then \<not> gd_shaped g rawInHand \<or> gd_verify g rawInHand = Inr True
      else if shaped = Some True \<or> Candidate lps
        then \<exists>raw. getRaw = Inr raw \<and> (\<not> gd_shaped g raw \<or> gd_verify g raw = Inr True)
      else True)"
  by (auto simp: guard_Verdict_def IsSpoof_fst split: sum.splits)

lemma verdict_lets_through_iff_witness:
  "fst (guard_Verdict \<lparr>gd_shaped = (\<lambda>r. True), gd_verify = (\<lambda>r. Inl ''no key'')\<rparr> [''postmaster''] None ''body'' (Inl ''none'')) = True
   \<and> fst (guard_Verdict \<lparr>gd_shaped = (\<lambda>r. True), gd_verify = (\<lambda>r. Inr True)\<rparr> [''postmaster''] None ''body'' (Inl ''none'')) = False"
  using verdict_lets_through_iff [of "\<lparr>gd_shaped = (\<lambda>r. True), gd_verify = (\<lambda>r. Inl ''no key'')\<rparr>" "[''postmaster'']" None "''body''" "Inl ''none''"]
    verdict_lets_through_iff [of "\<lparr>gd_shaped = (\<lambda>r. True), gd_verify = (\<lambda>r. Inr True)\<rparr>" "[''postmaster'']" None "''body''" "Inl ''none''"]
  by simp

text \<open>The stored shape flag can only cause more checking: a recorded \<open>false\<close> is treated like no record, and
  whatever is hidden without the flag is hidden with it set.\<close>

lemma verdict_flag_only_adds:
  "guard_Verdict g lps (Some False) rawInHand getRaw = guard_Verdict g lps None rawInHand getRaw
   \<and> fst (guard_Verdict g lps None rawInHand getRaw) \<le> fst (guard_Verdict g lps (Some True) rawInHand getRaw)"
  by (auto simp: guard_Verdict_def)

end
