(* ===== verification/Inbound.thy ===== *)
theory Inbound
  imports Sluice Bounceguard
begin

text \<open>Model of \<open>internal/inbound\<close>: the agent's served mailbox, its bbolt implementation (\<open>bbolt.go\<close>; the data is
  in theory \<open>Mailrec\<close>).

  The state is the metadata bucket, the index of upstream messages and the blob directory. Each
  operation takes the \<open>io\<close> record of theory \<open>Sluice\<close>: how the blob write ends and whether the
  transaction commits; this store writes no audit record. The header parser, the codecs, the format
  runes, the MIME parser and the provenance resolver are the fields of an environment.\<close>

section \<open>State\<close>

record in_stored =
  ir_msg :: imessage
  ir_blobbed :: bool
  ir_dirty :: bool

record inbound =
  in_recs :: "in_stored bucket"
  in_synced :: "bytes entries"
  in_blobs :: dir

record 'h in_env =
  ie_tp :: "'h textproto"
  ie_codecs :: codecs
  ie_cfs :: "bytes list"
  ie_parse :: "bytes \<Rightarrow> entity option"
  ie_resolve :: "string \<Rightarrow> bytes \<Rightarrow> stamp"

datatype in_err = InNotFound | InInvalidId string | InSanitize rewrite_err | InContent blob_err | InCommit
  | InNoUpstreamUID | InLocalMessage string | InZeroValidity | InNoPath | InDatabase | InSweep blob_err

text \<open>\<open>errors.Is(err, ErrNotFound)\<close>.\<close>

definition in_not_found :: "in_err \<Rightarrow> bool" where
  "in_not_found e \<longleftrightarrow> (case e of InNotFound \<Rightarrow> True | InInvalidId s \<Rightarrow> True | _ \<Rightarrow> False)"

section \<open>Records and content\<close>

definition in_loadStored :: "inbound \<Rightarrow> string \<Rightarrow> in_err + (in_stored \<times> bytes)" where
  "in_loadStored s mid = (case parse_uint 64 mid of
       None \<Rightarrow> Inl (InInvalidId mid)
     | Some n \<Rightarrow>
         let key = seqkey_encode (word_of_nat n)
         in case b_get (in_recs s) key of None \<Rightarrow> Inl InNotFound | Some rec \<Rightarrow> Inr (rec, key))"

definition in_putStored :: "bytes \<Rightarrow> in_stored \<Rightarrow> inbound \<Rightarrow> inbound" where
  "in_putStored key rec s = s\<lparr>in_recs := b_put key rec (in_recs s)\<rparr>"

definition storedRec :: "imessage \<Rightarrow> bool \<Rightarrow> in_stored" where
  "storedRec m blobbed = \<lparr>ir_msg = m\<lparr>im_raw := []\<rparr>, ir_blobbed = blobbed, ir_dirty = False\<rparr>"

definition recScoped :: "in_stored \<Rightarrow> string \<Rightarrow> string \<Rightarrow> bool" where
  "recScoped rec owner inbox \<longleftrightarrow> im_owner (ir_msg rec) = owner \<and> NormInbox (im_inbox (ir_msg rec)) = NormInbox inbox"

definition nul :: char where "nul = char_of (0 :: nat)"

definition syncedKey :: "string \<Rightarrow> string \<Rightarrow> u32 \<Rightarrow> u32 \<Rightarrow> bytes" where
  "syncedKey owner inbox uidValidity uid =
     owner @ [nul] @ NormInbox inbox @ [nul] @ be_digits 4 (unat uidValidity) @ be_digits 4 (unat uid)"

definition in_withRaw :: "inbound \<Rightarrow> in_stored \<Rightarrow> in_err + imessage" where
  "in_withRaw s rec = (let m = ir_msg rec in
     if im_pending m then Inr m
     else if ir_blobbed rec then
       (case blob_Get (im_id m) (in_blobs s) of Inl e \<Rightarrow> Inl (InContent e) | Inr raw \<Rightarrow> Inr (m\<lparr>im_raw := raw\<rparr>))
     else Inr m)"

text \<open>The one place content is written: the stored bytes and their bounce shape, and the directory.\<close>

definition putBlob :: "'h in_env \<Rightarrow> io \<Rightarrow> string \<Rightarrow> string \<Rightarrow> bytes \<Rightarrow> bool \<Rightarrow> dir \<Rightarrow> (in_err + bytes \<times> bool) \<times> dir" where
  "putBlob E io inbox mid raw generated d = (
     let stamp = (if generated then stamp_zero\<lparr>sp_trust := TrustTrusted\<rparr> else ie_resolve E inbox raw)
     in case prov_Sanitize (ie_tp E) (ie_codecs E) (ie_cfs E) raw stamp of
         Inl e \<Rightarrow> (Inl (InSanitize e), d)
       | Inr clean \<Rightarrow> (
           let (err, dirs) = blob_Put (io_put io) (io_sfx io) mid clean d
           in case err of
               Some e \<Rightarrow> (Inl (InContent e), last dirs)
             | None \<Rightarrow> (Inr (clean, Shaped (ie_parse E) (ie_codecs E) clean), last dirs)))"

text \<open>\<open>db.Update\<close>: what the body did to the database is kept only when it succeeds and the commit does; what
  it did to the blob directory is kept in any case.\<close>

definition in_update :: "io \<Rightarrow> (inbound \<Rightarrow> (in_err + 'a) \<times> inbound) \<Rightarrow> inbound \<Rightarrow> (in_err + 'a) \<times> inbound" where
  "in_update io body s = (case body s of
       (Inl e, t) \<Rightarrow> (Inl e, s\<lparr>in_blobs := in_blobs t\<rparr>)
     | (Inr x, t) \<Rightarrow> if io_commit io then (Inr x, t) else (Inl InCommit, s\<lparr>in_blobs := in_blobs t\<rparr>))"

section \<open>Adding messages\<close>

definition new_imessage :: "time \<Rightarrow> delivery \<Rightarrow> bool \<Rightarrow> iassessment option \<Rightarrow> bool \<Rightarrow> u64 \<Rightarrow> imessage" where
  "new_imessage now d pending a generated n = imessage_zero\<lparr>im_id := fmt_uint (unat n), im_owner := dl_owner d,
     im_inbox := NormInbox (dl_inbox d), im_from := dl_from d, im_to := dl_to d, im_subject := dl_subject d,
     im_received_at := now, im_upstream_uid := dl_upstream_uid d, im_uid_validity := dl_uid_validity d,
     im_pending := pending, im_generated := generated, im_envelope := dl_envelope d, im_size := dl_size d,
     im_keywords := dl_keywords d, im_assessment := a\<rparr>"

definition in_put ::
  "'h in_env \<Rightarrow> io \<Rightarrow> time \<Rightarrow> delivery \<Rightarrow> bool \<Rightarrow> iassessment option \<Rightarrow> bool \<Rightarrow> inbound \<Rightarrow> (in_err + imessage \<times> bytes) \<times> inbound" where
  "in_put E io now d pending a generated s = (
     let (seq, b') = b_next (in_recs s);
         msg = new_imessage now d pending a generated seq;
         key = seqkey_encode seq;
         s1 = s\<lparr>in_recs := b'\<rparr>
     in if pending then (Inr (msg, key), in_putStored key (storedRec msg False) s1)
        else case putBlob E io (im_inbox msg) (im_id msg) (dl_raw d) generated (in_blobs s) of
            (Inl e, dir) \<Rightarrow> (Inl e, s1\<lparr>in_blobs := dir\<rparr>)
          | (Inr (clean, shaped), dir) \<Rightarrow>
              let m = msg\<lparr>im_raw := clean, im_bounce_shaped := Some shaped\<rparr>
              in (Inr (m, key), in_putStored key (storedRec m True) (s1\<lparr>in_blobs := dir\<rparr>)))"

definition in_Add :: "'h in_env \<Rightarrow> io \<Rightarrow> time \<Rightarrow> delivery \<Rightarrow> inbound \<Rightarrow> (in_err + imessage) \<times> inbound" where
  "in_Add E io now d s = in_update io (\<lambda>s. case in_put E io now d False None False s of
     (r, t) \<Rightarrow> (map_sum id fst r, t)) s"

definition in_AddGenerated :: "'h in_env \<Rightarrow> io \<Rightarrow> time \<Rightarrow> delivery \<Rightarrow> inbound \<Rightarrow> (in_err + imessage) \<times> inbound" where
  "in_AddGenerated E io now d s = in_update io (\<lambda>s. case in_put E io now d False None True s of
     (r, t) \<Rightarrow> (map_sum id fst r, t)) s"

definition in_addSynced ::
  "'h in_env \<Rightarrow> io \<Rightarrow> time \<Rightarrow> delivery \<Rightarrow> bool \<Rightarrow> iassessment option \<Rightarrow> inbound \<Rightarrow> (in_err + bool \<times> imessage) \<times> inbound" where
  "in_addSynced E io now d pending a s = (if dl_upstream_uid d = 0 then (Inl InNoUpstreamUID, s)
     else
       let idxKey = syncedKey (dl_owner d) (dl_inbox d) (dl_uid_validity d) (dl_upstream_uid d)
       in in_update io (\<lambda>s. case kv_get (in_synced s) idxKey of
            Some ref \<Rightarrow> (Inr (False, case b_get (in_recs s) ref of None \<Rightarrow> imessage_zero | Some rec \<Rightarrow> ir_msg rec), s)
          | None \<Rightarrow> (case in_put E io now d pending a False s of
                (Inl e, t) \<Rightarrow> (Inl e, t)
              | (Inr (m, key), t) \<Rightarrow> (Inr (True, m), t\<lparr>in_synced := kv_put idxKey key (in_synced t)\<rparr>))) s)"

definition in_AddSynced :: "'h in_env \<Rightarrow> io \<Rightarrow> time \<Rightarrow> delivery \<Rightarrow> inbound \<Rightarrow> (in_err + bool \<times> imessage) \<times> inbound" where
  "in_AddSynced E io now d s = in_addSynced E io now d False None s"

definition in_AddSyncedPending :: "'h in_env \<Rightarrow> io \<Rightarrow> time \<Rightarrow> delivery \<Rightarrow> inbound \<Rightarrow> (in_err + bool \<times> imessage) \<times> inbound" where
  "in_AddSyncedPending E io now d s = in_addSynced E io now d True None s"

definition in_AddSyncedAssessed ::
  "'h in_env \<Rightarrow> io \<Rightarrow> time \<Rightarrow> delivery \<Rightarrow> iassessment option \<Rightarrow> inbound \<Rightarrow> (in_err + bool \<times> imessage) \<times> inbound" where
  "in_AddSyncedAssessed E io now d a s = in_addSynced E io now d False a s"

section \<open>Changing messages\<close>

definition in_SetContentAssessed ::
  "'h in_env \<Rightarrow> io \<Rightarrow> string \<Rightarrow> string \<Rightarrow> string \<Rightarrow> bytes \<Rightarrow> iassessment option \<Rightarrow> inbound \<Rightarrow> (in_err + imessage) \<times> inbound" where
  "in_SetContentAssessed E io owner inbox mid raw a s = in_update io (\<lambda>s.
     case in_loadStored s mid of
       Inl e \<Rightarrow> (Inl e, s)
     | Inr (rec, key) \<Rightarrow>
         if \<not> recScoped rec owner inbox then (Inl InNotFound, s)
         else case putBlob E io inbox mid raw False (in_blobs s) of
             (Inl e, dir) \<Rightarrow> (Inl e, s\<lparr>in_blobs := dir\<rparr>)
           | (Inr (clean, shaped), dir) \<Rightarrow>
               let m = (ir_msg rec)\<lparr>im_pending := False, im_assessment := a, im_bounce_shaped := Some shaped\<rparr>
               in (Inr (m\<lparr>im_raw := clean\<rparr>),
                   in_putStored key (rec\<lparr>ir_msg := m, ir_blobbed := True\<rparr>) (s\<lparr>in_blobs := dir\<rparr>))) s"

definition in_SetContent ::
  "'h in_env \<Rightarrow> io \<Rightarrow> string \<Rightarrow> string \<Rightarrow> string \<Rightarrow> bytes \<Rightarrow> inbound \<Rightarrow> (in_err + imessage) \<times> inbound" where
  "in_SetContent E io owner inbox mid raw s = in_SetContentAssessed E io owner inbox mid raw None s"

text \<open>The shape the metadata updates share: load, check the scope, write what \<open>f\<close> makes of the record, if
  anything.\<close>

definition in_modify ::
  "io \<Rightarrow> string \<Rightarrow> string \<Rightarrow> string \<Rightarrow> (in_stored \<Rightarrow> in_stored option) \<Rightarrow> inbound \<Rightarrow> (in_err + imessage) \<times> inbound" where
  "in_modify io owner inbox mid f s = in_update io (\<lambda>s.
     case in_loadStored s mid of
       Inl e \<Rightarrow> (Inl e, s)
     | Inr (rec, key) \<Rightarrow>
         if \<not> recScoped rec owner inbox then (Inl InNotFound, s)
         else case f rec of
             None \<Rightarrow> (Inr (ir_msg rec), s)
           | Some rec' \<Rightarrow> (Inr (ir_msg rec'), in_putStored key rec' s)) s"

definition in_SetSeen :: "io \<Rightarrow> string \<Rightarrow> string \<Rightarrow> string \<Rightarrow> bool \<Rightarrow> inbound \<Rightarrow> (in_err + imessage) \<times> inbound" where
  "in_SetSeen io owner inbox mid seen s = in_modify io owner inbox mid
     (\<lambda>r. if im_seen (ir_msg r) = seen then None else Some (r\<lparr>ir_msg := (ir_msg r)\<lparr>im_seen := seen\<rparr>\<rparr>)) s"

definition in_SetKeywords :: "io \<Rightarrow> string \<Rightarrow> string \<Rightarrow> string \<Rightarrow> string list \<Rightarrow> inbound \<Rightarrow> (in_err + imessage) \<times> inbound" where
  "in_SetKeywords io owner inbox mid keywords s = in_modify io owner inbox mid
     (\<lambda>r. Some (r\<lparr>ir_msg := (ir_msg r)\<lparr>im_keywords := keywords\<rparr>, ir_dirty := (im_upstream_uid (ir_msg r) \<noteq> 0)\<rparr>)) s"

definition in_ClearKeywordsDirty :: "io \<Rightarrow> string \<Rightarrow> string \<Rightarrow> string \<Rightarrow> inbound \<Rightarrow> (in_err + imessage) \<times> inbound" where
  "in_ClearKeywordsDirty io owner inbox mid s = in_modify io owner inbox mid
     (\<lambda>r. if \<not> ir_dirty r then None else Some (r\<lparr>ir_dirty := False\<rparr>)) s"

definition in_StampUIDValidity :: "io \<Rightarrow> string \<Rightarrow> string \<Rightarrow> string \<Rightarrow> u32 \<Rightarrow> inbound \<Rightarrow> (in_err + imessage) \<times> inbound" where
  "in_StampUIDValidity io owner inbox mid v s = (if v = 0 then (Inl InZeroValidity, s)
     else in_modify io owner inbox mid
       (\<lambda>r. if im_uid_validity (ir_msg r) = 0 then Some (r\<lparr>ir_msg := (ir_msg r)\<lparr>im_uid_validity := v\<rparr>\<rparr>) else None) s)"

definition in_SetHoldDecision :: "io \<Rightarrow> string \<Rightarrow> string \<Rightarrow> string \<Rightarrow> string \<Rightarrow> inbound \<Rightarrow> (in_err + imessage) \<times> inbound" where
  "in_SetHoldDecision io owner inbox mid dcs s = in_modify io owner inbox mid
     (\<lambda>r. Some (r\<lparr>ir_msg := (ir_msg r)\<lparr>im_hold_decision := dcs\<rparr>\<rparr>)) s"

text \<open>The blob is deleted after the commit; a failure there is logged and leaves an orphan.\<close>

definition in_RemoveSynced :: "io \<Rightarrow> (string \<Rightarrow> bool) \<Rightarrow> string \<Rightarrow> string \<Rightarrow> string \<Rightarrow> inbound \<Rightarrow> in_err option \<times> inbound" where
  "in_RemoveSynced io rm_ok owner inbox mid s = (
     case in_update io (\<lambda>s. case in_loadStored s mid of
         Inl e \<Rightarrow> (Inl e, s)
       | Inr (rec, key) \<Rightarrow>
           let m = ir_msg rec
           in if \<not> recScoped rec owner inbox then (Inl InNotFound, s)
              else if im_upstream_uid m = 0 then (Inl (InLocalMessage mid), s)
              else (Inr (ir_blobbed rec),
                    s\<lparr>in_recs := b_del key (in_recs s),
                      in_synced := kv_del (syncedKey (im_owner m) (im_inbox m) (im_uid_validity m) (im_upstream_uid m)) (in_synced s)\<rparr>)) s
     of (Inl e, t) \<Rightarrow> (Some e, t)
      | (Inr blobbed, t) \<Rightarrow>
          (None, if blobbed then t\<lparr>in_blobs := snd (blob_Delete rm_ok mid (in_blobs t))\<rparr> else t))"

text \<open>The records to rekey are collected first, then rewritten one by one.\<close>

definition needs_rekey :: "in_stored \<Rightarrow> bool" where
  "needs_rekey r \<longleftrightarrow> im_upstream_uid (ir_msg r) \<noteq> 0 \<and> im_owner (ir_msg r) \<noteq> NormInbox (im_inbox (ir_msg r))"

definition rekey_one :: "bytes \<times> in_stored \<Rightarrow> inbound \<Rightarrow> inbound" where
  "rekey_one w s = (
     let (key, rec) = w; m = ir_msg rec; want = NormInbox (im_inbox m);
         oldIdx = syncedKey (im_owner m) (im_inbox m) (im_uid_validity m) (im_upstream_uid m);
         newIdx = syncedKey want (im_inbox m) (im_uid_validity m) (im_upstream_uid m)
     in in_putStored key (rec\<lparr>ir_msg := m\<lparr>im_owner := want\<rparr>\<rparr>)
          (s\<lparr>in_synced := kv_put newIdx key (kv_del oldIdx (in_synced s))\<rparr>))"

definition in_RekeyOwnersToInbox :: "io \<Rightarrow> inbound \<Rightarrow> (in_err + nat) \<times> inbound" where
  "in_RekeyOwnersToInbox io s = in_update io (\<lambda>s.
     let work = filter (\<lambda>e. needs_rekey (snd e)) (items (in_recs s))
     in (Inr (length work), fold rekey_one work s)) s"

section \<open>Reading\<close>

definition in_List :: "string \<Rightarrow> string \<Rightarrow> inbound \<Rightarrow> imessage list" where
  "in_List owner inbox s =
     map (\<lambda>e. (ir_msg (snd e))\<lparr>im_raw := []\<rparr>) (filter (\<lambda>e. recScoped (snd e) owner inbox) (items (in_recs s)))"

definition in_DirtyKeywords :: "string \<Rightarrow> string \<Rightarrow> inbound \<Rightarrow> imessage list" where
  "in_DirtyKeywords owner inbox s =
     map (\<lambda>e. ir_msg (snd e)) (filter (\<lambda>e. ir_dirty (snd e) \<and> recScoped (snd e) owner inbox) (items (in_recs s)))"

definition in_Get :: "string \<Rightarrow> string \<Rightarrow> string \<Rightarrow> inbound \<Rightarrow> in_err + imessage" where
  "in_Get owner inbox mid s = (case in_loadStored s mid of
       Inl e \<Rightarrow> Inl e
     | Inr (rec, key) \<Rightarrow> if \<not> recScoped rec owner inbox then Inl InNotFound else in_withRaw s rec)"

section \<open>Opening\<close>

definition in_live :: "inbound \<Rightarrow> string \<Rightarrow> bool" where
  "in_live s name \<longleftrightarrow> name \<in> (\<lambda>e. im_id (ir_msg (snd e))) ` set (items (in_recs s))"

definition in_sweepOrphans :: "bool \<Rightarrow> (string \<Rightarrow> bool) \<Rightarrow> inbound \<Rightarrow> blob_err option \<times> inbound" where
  "in_sweepOrphans readdir_ok rm_ok s = (case blob_SweepOrphans readdir_ok rm_ok (in_live s) (in_blobs s) of
     (n, err, d) \<Rightarrow> (err, s\<lparr>in_blobs := d\<rparr>))"

definition default_resolver :: "string \<Rightarrow> bytes \<Rightarrow> stamp" where
  "default_resolver inbox raw = stamp_zero\<lparr>sp_trust := TrustUnknown\<rparr>"

definition with_resolver :: "'h in_env \<Rightarrow> (string \<Rightarrow> bytes \<Rightarrow> stamp) option \<Rightarrow> 'h in_env" where
  "with_resolver E resolve = E\<lparr>ie_resolve := (case resolve of None \<Rightarrow> default_resolver | Some r \<Rightarrow> r)\<rparr>"

definition in_open :: "bool \<Rightarrow> bool \<Rightarrow> bool \<Rightarrow> (string \<Rightarrow> bool) \<Rightarrow> string \<Rightarrow> inbound \<Rightarrow> in_err option \<times> inbound" where
  "in_open db_ok mkdir_ok readdir_ok rm_ok path s =
     (if path = '''' then (Some InNoPath, s)
      else if \<not> db_ok then (Some InDatabase, s)
      else if \<not> mkdir_ok then (Some (InContent MkdirFailed), s)
      else case in_sweepOrphans readdir_ok rm_ok s of
          (Some e, t) \<Rightarrow> (Some (InSweep e), t)
        | (None, t) \<Rightarrow> (None, t))"

section \<open>The invariant\<close>

text \<open>Bytes the content-write chokepoint could have written for a message of an inbox: sanitized under the
  resolver's stamp for that inbox or, for a generated message, under the trusted stamp.\<close>

definition clean_for :: "'h in_env \<Rightarrow> string \<Rightarrow> bool \<Rightarrow> bytes \<Rightarrow> bool" where
  "clean_for E inbox generated data \<longleftrightarrow> (\<exists>raw i st. NormInbox i = NormInbox inbox
     \<and> (st = ie_resolve E i raw \<or> generated \<and> st = stamp_zero\<lparr>sp_trust := TrustTrusted\<rparr>)
     \<and> prov_Sanitize (ie_tp E) (ie_codecs E) (ie_cfs E) raw st = Inr data)"

definition in_rec_ok :: "'h in_env \<Rightarrow> (string \<Rightarrow> node option) \<Rightarrow> u64 \<Rightarrow> bytes \<Rightarrow> in_stored \<Rightarrow> bool" where
  "in_rec_ok E blobs seq key r \<longleftrightarrow>
     (\<exists>n. key = seqkey_encode n \<and> im_id (ir_msg r) = fmt_uint (unat n) \<and> n \<le> seq)
     \<and> (ir_blobbed r \<longrightarrow> (\<exists>data. blobs (im_id (ir_msg r)) = Some (File data)
           \<and> clean_for E (im_inbox (ir_msg r)) (im_generated (ir_msg r)) data))
     \<and> (im_pending (ir_msg r) \<or> ir_blobbed r)"

definition in_inv :: "'h in_env \<Rightarrow> inbound \<Rightarrow> bool" where
  "in_inv E s \<longleftrightarrow> kv_ok (items (in_recs s)) \<and> kv_ok (in_blobs s)
     \<and> (\<forall>key r. b_get (in_recs s) key = Some r \<longrightarrow> in_rec_ok E (kv_get (in_blobs s)) (bseq (in_recs s)) key r)"

text \<open>What never changes of a message; the owner of an upstream message may become its inbox.\<close>

definition same_origin :: "imessage \<Rightarrow> imessage \<Rightarrow> bool" where
  "same_origin m m' \<longleftrightarrow> im_id m' = im_id m \<and> im_inbox m' = im_inbox m \<and> im_from m' = im_from m \<and> im_to m' = im_to m
     \<and> im_subject m' = im_subject m \<and> im_received_at m' = im_received_at m \<and> im_upstream_uid m' = im_upstream_uid m
     \<and> im_generated m' = im_generated m \<and> im_envelope m' = im_envelope m
     \<and> (im_owner m' = im_owner m \<or> im_upstream_uid m \<noteq> 0 \<and> im_owner m' = NormInbox (im_inbox m))"

definition in_rel :: "inbound \<Rightarrow> inbound \<Rightarrow> bool" where
  "in_rel s t \<longleftrightarrow> bseq (in_recs s) \<le> bseq (in_recs t)
     \<and> (\<forall>n r'. n \<le> bseq (in_recs s) \<longrightarrow> b_get (in_recs t) (seqkey_encode n) = Some r' \<longrightarrow>
          (\<exists>r. b_get (in_recs s) (seqkey_encode n) = Some r \<and> same_origin (ir_msg r) (ir_msg r')))
     \<and> (\<forall>n r. n \<le> bseq (in_recs s) \<longrightarrow> b_get (in_recs s) (seqkey_encode n) = Some r \<longrightarrow> im_upstream_uid (ir_msg r) = 0 \<longrightarrow>
          b_get (in_recs t) (seqkey_encode n) \<noteq> None)"

lemma same_origin_refl: "same_origin m m"
  by (simp add: same_origin_def)

lemma same_origin_trans: "same_origin m m' \<Longrightarrow> same_origin m' m'' \<Longrightarrow> same_origin m m''"
  by (auto simp: same_origin_def)

definition in_good :: "'h in_env \<Rightarrow> inbound \<Rightarrow> inbound \<Rightarrow> bool" where
  "in_good E s t \<longleftrightarrow> in_inv E t \<and> in_rel s t"

lemma in_rel_refl: "in_rel s s"
  by (auto simp: in_rel_def same_origin_refl)

lemma in_rel_trans:
  assumes "in_rel s t" "in_rel t u" shows "in_rel s u"
  unfolding in_rel_def
proof (intro conjI allI impI)
  show "bseq (in_recs s) \<le> bseq (in_recs u)" using assms by (auto simp: in_rel_def)
next
  fix n r' assume n: "n \<le> bseq (in_recs s)" and r': "b_get (in_recs u) (seqkey_encode n) = Some r'"
  have "n \<le> bseq (in_recs t)" using n assms(1) by (auto simp: in_rel_def)
  with r' assms(2) obtain q where "b_get (in_recs t) (seqkey_encode n) = Some q" "same_origin (ir_msg q) (ir_msg r')"
    unfolding in_rel_def by blast
  moreover from this n assms(1) obtain r where "b_get (in_recs s) (seqkey_encode n) = Some r" "same_origin (ir_msg r) (ir_msg q)"
    unfolding in_rel_def by blast
  ultimately show "\<exists>r. b_get (in_recs s) (seqkey_encode n) = Some r \<and> same_origin (ir_msg r) (ir_msg r')"
    using same_origin_trans by blast
next
  fix n r assume n: "n \<le> bseq (in_recs s)"
    and r: "b_get (in_recs s) (seqkey_encode n) = Some r" "im_upstream_uid (ir_msg r) = 0"
  with assms(1) obtain q where q: "b_get (in_recs t) (seqkey_encode n) = Some q" unfolding in_rel_def by blast
  with n assms(1) r have "im_upstream_uid (ir_msg q) = 0" unfolding in_rel_def same_origin_def by fastforce
  moreover have "n \<le> bseq (in_recs t)" using n assms(1) by (auto simp: in_rel_def)
  ultimately show "b_get (in_recs u) (seqkey_encode n) \<noteq> None" using q assms(2) unfolding in_rel_def by blast
qed

section \<open>Operations keep the invariant\<close>

lemma in_loadStored_ok:
  "in_loadStored s mid = Inr (r, key) \<longleftrightarrow>
     (\<exists>n. parse_uint 64 mid = Some n \<and> key = seqkey_encode (word_of_nat n) \<and> b_get (in_recs s) key = Some r)"
  by (auto simp: in_loadStored_def Let_def split: option.splits)

lemma in_loadStored_id: "in_loadStored s (fmt_uint (unat (n :: u64))) =
    (case b_get (in_recs s) (seqkey_encode n) of None \<Rightarrow> Inl InNotFound | Some r \<Rightarrow> Inr (r, seqkey_encode n))"
  using unat_lt64 [of n] by (simp add: in_loadStored_def parse_fmt_uint Let_def)

lemma in_putStored_sel [simp]:
  "in_recs (in_putStored key r s) = b_put key r (in_recs s)" "in_blobs (in_putStored key r s) = in_blobs s"
  "in_synced (in_putStored key r s) = in_synced s"
  by (simp_all add: in_putStored_def)

lemma inv_rec: "in_inv E s \<Longrightarrow> b_get (in_recs s) key = Some r \<Longrightarrow> in_rec_ok E (kv_get (in_blobs s)) (bseq (in_recs s)) key r"
  by (simp add: in_inv_def)

text \<open>Blobs of other messages stay and the one written is clean.\<close>

lemma putBlob_blobs:
  assumes "putBlob E io inbox mid raw generated d = (res, d')"
  shows "kv_get d' (fmt_uint k) = kv_get d (fmt_uint k) \<or> fmt_uint k = mid \<and>
      (\<exists>data. kv_get d' (fmt_uint k) = Some (File data) \<and> clean_for E inbox generated data)"
    and "kv_ok d \<Longrightarrow> kv_ok d'"
    and "res = Inr (clean, shaped) \<Longrightarrow> kv_get d' mid = Some (File clean) \<and> clean_for E inbox generated clean
      \<and> shaped = Shaped (ie_parse E) (ie_codecs E) clean"
proof -
  let ?st = "if generated then stamp_zero\<lparr>sp_trust := TrustTrusted\<rparr> else ie_resolve E inbox raw"
  have c: "clean_for E inbox generated data" if "prov_Sanitize (ie_tp E) (ie_codecs E) (ie_cfs E) raw ?st = Inr data" for data
    using that unfolding clean_for_def by (intro exI [of _ raw] exI [of _ inbox] exI [of _ ?st]) auto
  have pb: "(\<exists>e. d' = d \<and> res = Inl e) \<or> (\<exists>data. prov_Sanitize (ie_tp E) (ie_codecs E) (ie_cfs E) raw ?st = Inr data
      \<and> d' = last (snd (blob_Put (io_put io) (io_sfx io) mid data d))
      \<and> (\<forall>cl sh. res = Inr (cl, sh) \<longrightarrow> fst (blob_Put (io_put io) (io_sfx io) mid data d) = None \<and> cl = data
            \<and> sh = Shaped (ie_parse E) (ie_codecs E) data))"
    using assms by (auto simp: putBlob_def Let_def split: sum.splits prod.splits option.splits)
  from pb show "kv_get d' (fmt_uint k) = kv_get d (fmt_uint k) \<or> fmt_uint k = mid \<and>
      (\<exists>data. kv_get d' (fmt_uint k) = Some (File data) \<and> clean_for E inbox generated data)"
  proof (elim disjE exE conjE)
    fix data assume p: "prov_Sanitize (ie_tp E) (ie_codecs E) (ie_cfs E) raw ?st = Inr data"
      "d' = last (snd (blob_Put (io_put io) (io_sfx io) mid data d))"
    then have "d' \<in> set (snd (blob_Put (io_put io) (io_sfx io) mid data d))" by simp
    from blob_Put_states [OF this, of "fmt_uint k"] temp_name_not_id [of mid "io_sfx io" k] c [OF p(1)]
    show ?thesis by metis
  qed simp
  from pb show "kv_ok d \<Longrightarrow> kv_ok d'"
    by (elim disjE exE conjE) (auto intro!: blob_Put_kv_ok [OF _ last_in_set])
  from pb show "res = Inr (clean, shaped) \<Longrightarrow> kv_get d' mid = Some (File clean) \<and> clean_for E inbox generated clean
      \<and> shaped = Shaped (ie_parse E) (ie_codecs E) clean"
    by (elim disjE exE conjE) (auto simp: blob_Put_result kv_get_put c)
qed

lemma in_rec_ok_blobs:
  assumes "in_rec_ok E bs seq key r" "seq \<le> seq'"
    and "\<And>n. im_id (ir_msg r) = fmt_uint (unat (n :: u64)) \<Longrightarrow> key = seqkey_encode n \<Longrightarrow> bs' (fmt_uint (unat n)) = bs (fmt_uint (unat n)) \<or>
      (\<exists>data. bs' (fmt_uint (unat n)) = Some (File data) \<and> clean_for E (im_inbox (ir_msg r)) (im_generated (ir_msg r)) data)"
  shows "in_rec_ok E bs' seq' key r"
proof -
  from assms(1) obtain n where n: "key = seqkey_encode n" "im_id (ir_msg r) = fmt_uint (unat n)" "n \<le> seq"
    by (auto simp: in_rec_ok_def)
  with assms(2) have "n \<le> seq'" by simp
  with n assms(3) [OF n(2,1)] assms(1) show ?thesis unfolding in_rec_ok_def by metis
qed

lemma clean_for_norm: "NormInbox i = NormInbox j \<Longrightarrow> clean_for E i g data \<Longrightarrow> clean_for E j g data"
  by (auto simp: clean_for_def)

lemma clean_for_mono: "clean_for E i False data \<Longrightarrow> clean_for E i g data"
  by (auto simp: clean_for_def)

text \<open>One record replaced, its blob perhaps rewritten, everything else as before.\<close>

lemma in_good_put:
  assumes inv: "in_inv E s" and g: "b_get (in_recs s) key = Some r"
    and so: "same_origin (ir_msg r) (ir_msg r')"
    and ok: "in_rec_ok E (kv_get d) (bseq (in_recs s)) key r'"
    and blobs: "kv_ok d" "\<And>n. seqkey_encode n \<noteq> key \<Longrightarrow> kv_get d (fmt_uint (unat n)) = kv_get (in_blobs s) (fmt_uint (unat n))"
    and t: "in_recs t = b_put key r' (in_recs s)" "in_blobs t = d"
  shows "in_good E s t"
proof -
  have "in_rec_ok E (kv_get d) (bseq (in_recs s)) k q" if q: "b_get (in_recs t) k = Some q" for k q
  proof (cases "k = key")
    case True
    then show ?thesis using q t ok by simp
  next
    case False
    then have "b_get (in_recs s) k = Some q" using q t by simp
    from in_rec_ok_blobs [OF inv_rec [OF inv this] order_refl] blobs(2) False show ?thesis by blast
  qed
  moreover have "kv_ok (items (in_recs t))" using inv by (simp add: t in_inv_def kv_ok_put)
  ultimately have "in_inv E t" using blobs(1) by (simp add: in_inv_def t)
  moreover have "in_rel s t"
    unfolding in_rel_def using g so by (auto simp: t same_origin_refl split: if_splits)
  ultimately show ?thesis by (simp add: in_good_def)
qed

lemma in_good_refl: "in_inv E s \<Longrightarrow> in_good E s s"
  by (simp add: in_good_def in_rel_refl)

lemma in_good_trans: "in_good E s t \<Longrightarrow> in_good E t u \<Longrightarrow> in_good E s u"
  using in_rel_trans by (auto simp: in_good_def)

text \<open>Only the directory changed, clean blobs written for the message's own inbox at most.\<close>

lemma in_good_blobs:
  assumes inv: "in_inv E s" and d: "kv_ok d"
    and b: "\<And>k r n. b_get (in_recs s) k = Some r \<Longrightarrow> k = seqkey_encode n \<Longrightarrow> im_id (ir_msg r) = fmt_uint (unat n) \<Longrightarrow>
      kv_get d (fmt_uint (unat n)) = kv_get (in_blobs s) (fmt_uint (unat n)) \<or>
      (\<exists>data. kv_get d (fmt_uint (unat n)) = Some (File data) \<and> clean_for E (im_inbox (ir_msg r)) (im_generated (ir_msg r)) data)"
    and t: "in_recs t = in_recs s" "in_blobs t = d"
  shows "in_good E s t"
proof -
  have "in_rec_ok E (kv_get d) (bseq (in_recs s)) k q" if q: "b_get (in_recs s) k = Some q" for k q
    by (rule in_rec_ok_blobs [OF inv_rec [OF inv q] order_refl]) (use b [OF q] in blast)
  then show ?thesis using inv d by (auto simp: in_good_def in_inv_def t in_rel_def same_origin_refl)
qed

lemma in_update_good:
  assumes "\<And>x t. body s = (Inr x, t) \<Longrightarrow> in_good E s t" "in_good E s (s\<lparr>in_blobs := in_blobs (snd (body s))\<rparr>)"
  shows "in_good E s (snd (in_update io body s))"
  using assms by (auto simp: in_update_def split: prod.splits sum.splits)

lemma in_modify_good:
  assumes inv: "in_inv E s"
    and f: "\<And>r r'. f r = Some r' \<Longrightarrow> same_origin (ir_msg r) (ir_msg r') \<and> ir_blobbed r' = ir_blobbed r
      \<and> im_pending (ir_msg r') = im_pending (ir_msg r) \<and> im_owner (ir_msg r') = im_owner (ir_msg r)"
  shows "in_good E s (snd (in_modify io owner inbox mid f s))"
proof -
  let ?body = "\<lambda>s. case in_loadStored s mid of
       Inl e \<Rightarrow> (Inl e, s)
     | Inr (rec, key) \<Rightarrow>
         if \<not> recScoped rec owner inbox then (Inl InNotFound, s)
         else case f rec of
             None \<Rightarrow> (Inr (ir_msg rec), s)
           | Some rec' \<Rightarrow> (Inr (ir_msg rec'), in_putStored key rec' s)"
  have b: "in_blobs (snd (?body s)) = in_blobs s" by (auto split: sum.splits option.splits)
  have g: "in_good E s (snd (?body s))"
  proof (cases "in_loadStored s mid")
    case (Inr p)
    obtain r key where p: "p = (r, key)" by (cases p)
    show ?thesis
    proof (cases "recScoped r owner inbox \<and> f r \<noteq> None")
      case True
      then obtain r' where r': "f r = Some r'" by blast
      from Inr p have gr: "b_get (in_recs s) key = Some r" by (auto simp: in_loadStored_ok)
      have "in_good E s (in_putStored key r' s)"
        by (rule in_good_put [OF inv gr])
          (use f [OF r'] inv_rec [OF inv gr] inv in \<open>auto simp: in_rec_ok_def in_inv_def same_origin_def\<close>)
      then show ?thesis using Inr p True r' by simp
    qed (use Inr p inv in_good_refl in auto)
  qed (use inv in_good_refl in simp)
  show ?thesis
    unfolding in_modify_def
    by (rule in_update_good) (use g b inv in_good_refl in \<open>auto\<close>)
qed

lemma in_SetContent_good:
  assumes inv: "in_inv E s"
  shows "in_good E s (snd (in_SetContentAssessed E io owner inbox (fmt_uint (unat (n :: u64))) raw a s))"
proof -
  let ?mid = "fmt_uint (unat n)" and ?key = "seqkey_encode n"
  let ?body = "\<lambda>s. case in_loadStored s ?mid of
       Inl e \<Rightarrow> (Inl e, s)
     | Inr (rec, key) \<Rightarrow>
         if \<not> recScoped rec owner inbox then (Inl InNotFound, s)
         else case putBlob E io inbox ?mid raw False (in_blobs s) of
             (Inl e, dir) \<Rightarrow> (Inl e, s\<lparr>in_blobs := dir\<rparr>)
           | (Inr (clean, shaped), dir) \<Rightarrow>
               let m = (ir_msg rec)\<lparr>im_pending := False, im_assessment := a, im_bounce_shaped := Some shaped\<rparr>
               in (Inr (m\<lparr>im_raw := clean\<rparr>),
                   in_putStored key (rec\<lparr>ir_msg := m, ir_blobbed := True\<rparr>) (s\<lparr>in_blobs := dir\<rparr>))"
  show ?thesis
  proof (cases "\<exists>r. b_get (in_recs s) ?key = Some r \<and> recScoped r owner inbox")
    case False
    then have "?body s = (Inl InNotFound, s)" by (auto simp: in_loadStored_id split: option.splits)
    then show ?thesis unfolding in_SetContentAssessed_def
      by (intro in_update_good) (use inv in_good_refl in \<open>simp_all del: in_putStored_sel\<close>)
  next
    case True
    then obtain r where r: "b_get (in_recs s) ?key = Some r" "recScoped r owner inbox" by blast
    obtain res d where p: "putBlob E io inbox ?mid raw False (in_blobs s) = (res, d)" by fastforce
    from inv_rec [OF inv r(1)] have rid: "im_id (ir_msg r) = ?mid" by (auto simp: in_rec_ok_def)
    have norm: "NormInbox inbox = NormInbox (im_inbox (ir_msg r))" using r(2) by (simp add: recScoped_def)
    have kd: "kv_ok d" using putBlob_blobs(2) [OF p] inv by (simp add: in_inv_def)
    have other: "kv_get d (fmt_uint k) = kv_get (in_blobs s) (fmt_uint k)" if "k \<noteq> unat n" for k
      using putBlob_blobs(1) [OF p, of k] that by auto
    have bl: "in_good E s (s\<lparr>in_blobs := d\<rparr>)"
    proof (rule in_good_blobs [OF inv kd])
      fix k q m assume q: "b_get (in_recs s) k = Some q" "k = seqkey_encode m" "im_id (ir_msg q) = fmt_uint (unat (m :: u64))"
      show "kv_get d (fmt_uint (unat m)) = kv_get (in_blobs s) (fmt_uint (unat m)) \<or>
        (\<exists>data. kv_get d (fmt_uint (unat m)) = Some (File data) \<and> clean_for E (im_inbox (ir_msg q)) (im_generated (ir_msg q)) data)"
      proof (cases "m = n")
        case True
        then have "q = r" using q r by simp
        then show ?thesis
          using putBlob_blobs(1) [OF p, of "unat m"] clean_for_mono clean_for_norm [OF norm] by blast
      next
        case False
        then have "unat m \<noteq> unat n" by (metis unsigned_word_eqI)
        with other show ?thesis by blast
      qed
    qed simp_all
    show ?thesis
      unfolding in_SetContentAssessed_def
    proof (rule in_update_good)
      have "in_blobs (snd (?body s)) = d"
        using r p by (auto simp: in_loadStored_id Let_def split: sum.splits)
      then show "in_good E s (s\<lparr>in_blobs := in_blobs (snd (?body s))\<rparr>)" using bl by simp
    next
      fix x t assume b: "?body s = (Inr x, t)"
      then obtain clean shaped where c: "res = Inr (clean, shaped)"
        using r p by (auto simp: in_loadStored_id Let_def split: sum.splits)
      let ?m = "(ir_msg r)\<lparr>im_pending := False, im_assessment := a, im_bounce_shaped := Some shaped\<rparr>"
      let ?r = "r\<lparr>ir_msg := ?m, ir_blobbed := True\<rparr>"
      have t: "t = in_putStored ?key ?r (s\<lparr>in_blobs := d\<rparr>)"
        using b r p c by (auto simp: in_loadStored_id Let_def)
      have cl: "kv_get d ?mid = Some (File clean)" "clean_for E inbox False clean"
        using putBlob_blobs(3) [OF p c] by auto
      then have "clean_for E (im_inbox (ir_msg r)) (im_generated (ir_msg r)) clean"
        using clean_for_mono clean_for_norm [OF norm] by blast
      then have "in_rec_ok E (kv_get d) (bseq (in_recs s)) ?key ?r"
        using inv_rec [OF inv r(1)] rid cl(1) by (auto simp: in_rec_ok_def)
      then show "in_good E s t"
      proof (intro in_good_put [OF inv r(1), of ?r d])
        fix m assume "seqkey_encode m \<noteq> ?key"
        then have "unat m \<noteq> unat n" by (metis unsigned_word_eqI)
        then show "kv_get d (fmt_uint (unat m)) = kv_get (in_blobs s) (fmt_uint (unat m))" by (rule other)
      qed (use kd t in \<open>auto simp: same_origin_def\<close>)
    qed
  qed
qed

lemma in_synced_irrelevant: "in_recs t = in_recs u \<Longrightarrow> in_blobs t = in_blobs u \<Longrightarrow> in_good E s u \<Longrightarrow> in_good E s t"
  by (simp add: in_good_def in_inv_def in_rel_def)

text \<open>A new record under the next sequence number.\<close>

lemma in_put_good:
  assumes inv: "in_inv E s" and bud: "unat (bseq (in_recs s)) + 1 < 2 ^ 64"
    and p: "in_put E io now d pending a generated s = (res, t)"
  shows "res = Inr y \<Longrightarrow> in_good E s t" and "in_good E s (s\<lparr>in_blobs := in_blobs t\<rparr>)"
proof -
  let ?n = "bseq (in_recs s) + 1"
  let ?msg = "new_imessage now d pending a generated ?n"
  have lt: "n \<le> bseq (in_recs s) \<Longrightarrow> unat n \<noteq> unat ?n" for n
    using bud by (simp add: unat_succ word_le_nat_alt)
  have up: "bseq (in_recs s) \<le> ?n" using bud by (simp add: word_le_nat_alt unat_succ)
  have sel: "im_id ?msg = fmt_uint (unat ?n)" "im_inbox ?msg = NormInbox (dl_inbox d)" "im_generated ?msg = generated"
    "im_pending ?msg = pending" by (simp_all add: new_imessage_def)
  text \<open>Adding a record that is fine to a state whose other blobs are as before.\<close>
  have add: "in_good E s u"
    if u: "in_recs u = b_put (seqkey_encode ?n) q ((in_recs s)\<lparr>bseq := ?n\<rparr>)" "kv_ok (in_blobs u)"
      "\<And>k. k \<noteq> unat ?n \<Longrightarrow> kv_get (in_blobs u) (fmt_uint k) = kv_get (in_blobs s) (fmt_uint k)"
      and q: "in_rec_ok E (kv_get (in_blobs u)) ?n (seqkey_encode ?n) q" for u q
  proof -
    have "in_rec_ok E (kv_get (in_blobs u)) ?n k r" if r: "b_get (in_recs u) k = Some r" for k r
    proof (cases "k = seqkey_encode ?n")
      case True
      then show ?thesis using r q u(1) by simp
    next
      case False
      then have g: "b_get (in_recs s) k = Some r" using r u(1) by simp
      from inv_rec [OF inv g] obtain m where "k = seqkey_encode m" "m \<le> bseq (in_recs s)" by (auto simp: in_rec_ok_def)
      then have "m \<le> bseq (in_recs s) \<and> k = seqkey_encode m" by simp
      then show ?thesis using in_rec_ok_blobs [OF inv_rec [OF inv g] up] u(3) lt by (metis seqkey_encode_inj)
    qed
    then have "in_inv E u" using inv u by (simp add: in_inv_def kv_ok_put)
    moreover have "in_rel s u"
      unfolding in_rel_def using u(1) up lt by (auto simp: same_origin_refl split: if_splits)
    ultimately show ?thesis by (simp add: in_good_def)
  qed
  have kb: "kv_ok (in_blobs s)" using inv by (simp add: in_inv_def)
  show "in_good E s t" if y: "res = Inr y"
  proof (cases pending)
    case True
    then have t: "t = in_putStored (seqkey_encode ?n) (storedRec ?msg False) (s\<lparr>in_recs := (in_recs s)\<lparr>bseq := ?n\<rparr>\<rparr>)"
      using p by (simp add: in_put_def b_next_def Let_def)
    show ?thesis
      by (rule add [of t "storedRec ?msg False"])
        (use t kb sel True in \<open>auto simp: in_rec_ok_def storedRec_def\<close>)
  next
    case False
    obtain r dir where pb: "putBlob E io (im_inbox ?msg) (im_id ?msg) (dl_raw d) generated (in_blobs s) = (r, dir)" by fastforce
    from p y False pb obtain clean shaped where c: "r = Inr (clean, shaped)"
      by (auto simp: in_put_def b_next_def Let_def split: sum.splits)
    let ?m = "?msg\<lparr>im_raw := clean, im_bounce_shaped := Some shaped\<rparr>"
    have t: "t = in_putStored (seqkey_encode ?n) (storedRec ?m True) (s\<lparr>in_recs := (in_recs s)\<lparr>bseq := ?n\<rparr>, in_blobs := dir\<rparr>)"
      using p False pb c by (simp add: in_put_def b_next_def Let_def)
    have cl: "kv_get dir (fmt_uint (unat ?n)) = Some (File clean)" "clean_for E (im_inbox ?msg) generated clean"
      using putBlob_blobs(3) [OF pb c] sel by auto
    show ?thesis
    proof (rule add [of t "storedRec ?m True"])
      show "kv_get (in_blobs t) (fmt_uint k) = kv_get (in_blobs s) (fmt_uint k)" if "k \<noteq> unat ?n" for k
        using putBlob_blobs(1) [OF pb, of k] that by (simp add: t sel)
      show "in_rec_ok E (kv_get (in_blobs t)) ?n (seqkey_encode ?n) (storedRec ?m True)"
        using cl sel by (auto simp: in_rec_ok_def storedRec_def t)
    qed (use t putBlob_blobs(2) [OF pb kb] in simp_all)
  qed
  show "in_good E s (s\<lparr>in_blobs := in_blobs t\<rparr>)"
  proof (cases pending)
    case True
    then have "in_blobs t = in_blobs s" using p by (auto simp: in_put_def b_next_def Let_def)
    then show ?thesis using inv in_good_refl by simp
  next
    case False
    obtain r dir where pb: "putBlob E io (im_inbox ?msg) (im_id ?msg) (dl_raw d) generated (in_blobs s) = (r, dir)" by fastforce
    have tb: "in_blobs t = dir"
      using p False pb by (auto simp: in_put_def b_next_def Let_def split: sum.splits)
    show ?thesis unfolding tb
    proof (rule in_good_blobs [OF inv putBlob_blobs(2) [OF pb kb]])
      fix k q n assume q: "b_get (in_recs s) k = Some q" "k = seqkey_encode n"
      from inv_rec [OF inv q(1)] q(2) have "n \<le> bseq (in_recs s)" by (auto simp: in_rec_ok_def)
      from lt [OF this] putBlob_blobs(1) [OF pb, of "unat n"]
      have "kv_get dir (fmt_uint (unat n)) = kv_get (in_blobs s) (fmt_uint (unat n))" by (simp add: sel)
      then show "kv_get dir (fmt_uint (unat n)) = kv_get (in_blobs s) (fmt_uint (unat n)) \<or>
        (\<exists>data. kv_get dir (fmt_uint (unat n)) = Some (File data) \<and> clean_for E (im_inbox (ir_msg q)) (im_generated (ir_msg q)) data)"
        by blast
    qed simp_all
  qed
qed

lemma in_add_good:
  assumes "in_inv E s" "unat (bseq (in_recs s)) + 1 < 2 ^ 64"
  shows "in_good E s (snd (in_update io (\<lambda>s. case in_put E io' now d pending a generated s of (r, t) \<Rightarrow> (map_sum id fst r, t)) s))"
proof -
  obtain res t where p: "in_put E io' now d pending a generated s = (res, t)" by fastforce
  show ?thesis
    by (rule in_update_good) (use in_put_good [OF assms p] p in \<open>auto simp: map_sum_def split: sum.splits\<close>)
qed

lemma in_Add_good:
  assumes "in_inv E s" "unat (bseq (in_recs s)) + 1 < 2 ^ 64"
  shows "in_good E s (snd (in_Add E io now d s))" "in_good E s (snd (in_AddGenerated E io now d s))"
  unfolding in_Add_def in_AddGenerated_def using in_add_good [OF assms] by blast+

lemma in_addSynced_good:
  assumes "in_inv E s" "unat (bseq (in_recs s)) + 1 < 2 ^ 64"
  shows "in_good E s (snd (in_addSynced E io now d pending a s))"
proof (cases "dl_upstream_uid d = 0")
  case True
  then show ?thesis using assms in_good_refl by (simp add: in_addSynced_def)
next
  case False
  obtain res t where p: "in_put E io now d pending a False s = (res, t)" by fastforce
  note g = in_put_good [OF assms p]
  have i: "in_good E s t \<Longrightarrow> in_good E s (t\<lparr>in_synced := x\<rparr>)" for x
    by (rule in_synced_irrelevant [of _ t]) simp_all
  show ?thesis
    unfolding in_addSynced_def Let_def if_not_P [OF False]
    by (rule in_update_good) (use g i p assms(1) in_good_refl in \<open>auto split: option.splits sum.splits\<close>)
qed

lemma in_good_same: "in_inv E s \<Longrightarrow> in_recs t = in_recs s \<Longrightarrow> in_blobs t = in_blobs s \<Longrightarrow> in_good E s t"
  using in_synced_irrelevant in_good_refl by metis

lemma in_Remove_good:
  assumes inv: "in_inv E s"
  shows "in_good E s (snd (in_RemoveSynced io rm_ok owner inbox (fmt_uint (unat (n :: u64))) s))"
proof -
  let ?mid = "fmt_uint (unat n)" and ?key = "seqkey_encode n"
  let ?body = "\<lambda>s. case in_loadStored s ?mid of
         Inl e \<Rightarrow> (Inl e, s)
       | Inr (rec, key) \<Rightarrow>
           let m = ir_msg rec
           in if \<not> recScoped rec owner inbox then (Inl InNotFound, s)
              else if im_upstream_uid m = 0 then (Inl (InLocalMessage ?mid), s)
              else (Inr (ir_blobbed rec),
                    s\<lparr>in_recs := b_del key (in_recs s),
                      in_synced := kv_del (syncedKey (im_owner m) (im_inbox m) (im_uid_validity m) (im_upstream_uid m)) (in_synced s)\<rparr>)"
  obtain res t where u: "in_update io ?body s = (res, t)" by fastforce
  have r0: "in_RemoveSynced io rm_ok owner inbox ?mid s = (case (res, t) of (Inl e, t) \<Rightarrow> (Some e, t)
      | (Inr blobbed, t) \<Rightarrow> (None, if blobbed then t\<lparr>in_blobs := snd (blob_Delete rm_ok ?mid (in_blobs t))\<rparr> else t))"
    unfolding in_RemoveSynced_def u by simp
  show ?thesis
  proof (cases "\<exists>r. b_get (in_recs s) ?key = Some r \<and> recScoped r owner inbox \<and> im_upstream_uid (ir_msg r) \<noteq> 0 \<and> io_commit io")
    case False
    then have "(\<exists>e. res = Inl e) \<and> in_recs t = in_recs s \<and> in_blobs t = in_blobs s"
      using u by (auto simp: in_update_def in_loadStored_id Let_def split: option.splits sum.splits if_splits)
    then show ?thesis using in_good_same [OF inv] by (auto simp: r0)
  next
    case True
    then obtain r where r: "b_get (in_recs s) ?key = Some r" "recScoped r owner inbox" "im_upstream_uid (ir_msg r) \<noteq> 0" by blast
    then have t: "in_recs t = b_del ?key (in_recs s)" "in_blobs t = in_blobs s" "res = Inr (ir_blobbed r)"
      using u True by (auto simp: in_update_def in_loadStored_id Let_def)
    let ?w = "snd (in_RemoveSynced io rm_ok owner inbox ?mid s)"
    have w: "in_recs ?w = b_del ?key (in_recs s)"
      "in_blobs ?w = (if ir_blobbed r then snd (blob_Delete rm_ok ?mid (in_blobs s)) else in_blobs s)"
      by (simp_all add: r0 t)
    have kw: "kv_ok (in_blobs ?w)" using inv blob_Delete_kv_ok [of "in_blobs s" rm_ok ?mid]
      unfolding w in_inv_def by (metis prod.collapse)
    have ib: "items (b_del ?key (in_recs s)) = kv_del ?key (items (in_recs s))" by (simp add: b_del_def)
    have "in_rec_ok E (kv_get (in_blobs ?w)) (bseq (in_recs s)) k q" if q: "b_get (in_recs ?w) k = Some q" for k q
    proof -
      from q have q': "b_get (in_recs s) k = Some q" "k \<noteq> ?key" by (auto simp: w split: if_splits)
      have "kv_get (in_blobs ?w) (fmt_uint (unat m)) = kv_get (in_blobs s) (fmt_uint (unat m))" if "k = seqkey_encode m" for m
      proof -
        have "unat m \<noteq> unat n" using that q'(2) by (metis unsigned_word_eqI)
        then show ?thesis using blob_Delete_keeps by (simp add: w)
      qed
      then show ?thesis using in_rec_ok_blobs [OF inv_rec [OF inv q'(1)] order_refl] by blast
    qed
    then have "in_inv E ?w" using inv kw by (simp add: in_inv_def w ib kv_ok_del)
    moreover have "in_rel s ?w"
      unfolding in_rel_def using r by (auto simp: w same_origin_refl split: if_splits)
    ultimately show ?thesis by (simp add: in_good_def)
  qed
qed

lemma rekey_one_good:
  assumes "in_inv E s" "b_get (in_recs s) key = Some r" "needs_rekey r"
  shows "in_good E s (rekey_one (key, r) s)"
proof -
  let ?r = "r\<lparr>ir_msg := (ir_msg r)\<lparr>im_owner := NormInbox (im_inbox (ir_msg r))\<rparr>\<rparr>"
  have "in_good E s (in_putStored key ?r s)"
    by (rule in_good_put [OF assms(1,2)])
      (use assms inv_rec [OF assms(1,2)] in \<open>auto simp: in_rec_ok_def in_inv_def same_origin_def needs_rekey_def\<close>)
  then show ?thesis
    by (rule in_synced_irrelevant [rotated 2]) (simp_all add: rekey_one_def Let_def)
qed

lemma rekey_one_recs:
  "b_get (in_recs (rekey_one (key, r) s)) k =
     (if k = key then Some (r\<lparr>ir_msg := (ir_msg r)\<lparr>im_owner := NormInbox (im_inbox (ir_msg r))\<rparr>\<rparr>) else b_get (in_recs s) k)"
  by (simp add: rekey_one_def Let_def)

lemma rekey_fold_good:
  "in_inv E s \<Longrightarrow> distinct (map fst work) \<Longrightarrow> \<forall>(k, r) \<in> set work. b_get (in_recs s) k = Some r \<and> needs_rekey r \<Longrightarrow>
   in_good E s (fold rekey_one work s)"
proof (induction work arbitrary: s)
  case (Cons w work)
  obtain k r where w: "w = (k, r)" by (cases w)
  have g: "in_good E s (rekey_one w s)" using Cons.prems w by (auto intro: rekey_one_good)
  have "b_get (in_recs (rekey_one w s)) k' = Some r' \<and> needs_rekey r'" if "(k', r') \<in> set work" for k' r'
  proof -
    have "k' \<noteq> k" using that Cons.prems(2) w by force
    then show ?thesis using that Cons.prems(3) by (auto simp: w rekey_one_recs)
  qed
  then have "in_good E (rekey_one w s) (fold rekey_one work (rekey_one w s))"
    using g Cons.prems(2) by (intro Cons.IH) (auto simp: in_good_def)
  with g show ?case using in_good_trans by simp
qed (simp add: in_good_refl)

lemma in_Rekey_good:
  assumes inv: "in_inv E s" shows "in_good E s (snd (in_RekeyOwnersToInbox io s))"
proof -
  let ?work = "filter (\<lambda>e. needs_rekey (snd e)) (items (in_recs s))"
  have k: "kv_ok (items (in_recs s))" using inv by (simp add: in_inv_def)
  have "distinct (map fst ?work)" using kv_ok_distinct [OF k] by (simp add: distinct_map_filter)
  moreover have "\<forall>(k, r) \<in> set ?work. b_get (in_recs s) k = Some r \<and> needs_rekey r"
    using k by (auto simp: b_get_def kv_get_iff)
  ultimately have g: "in_good E s (fold rekey_one ?work s)" by (rule rekey_fold_good [OF inv])
  have "in_blobs (fold rekey_one work s) = in_blobs s" for work :: "(bytes \<times> in_stored) list"
    by (induction work arbitrary: s) (auto simp: rekey_one_def Let_def)
  then show ?thesis
    unfolding in_RekeyOwnersToInbox_def
    by (intro in_update_good) (use g inv in_good_refl in \<open>auto simp: Let_def\<close>)
qed

lemma in_live_id: "b_get (in_recs s) key = Some r \<Longrightarrow> in_live s (im_id (ir_msg r))"
  unfolding in_live_def b_get_def by (rule image_eqI [OF _ kv_get_in]) auto

lemma in_sweep_good:
  assumes inv: "in_inv E s" shows "in_good E s (snd (in_sweepOrphans rd rm_ok s))"
proof -
  let ?d = "snd (snd (blob_SweepOrphans rd rm_ok (in_live s) (in_blobs s)))"
  have t: "snd (in_sweepOrphans rd rm_ok s) = s\<lparr>in_blobs := ?d\<rparr>"
    by (auto simp: in_sweepOrphans_def split: prod.split)
  show ?thesis unfolding t
  proof (rule in_good_blobs [OF inv])
    show "kv_ok ?d" using inv by (simp add: in_inv_def SweepOrphans_kv_ok)
    fix k r n assume r: "b_get (in_recs s) k = Some r" "im_id (ir_msg r) = fmt_uint (unat (n :: u64))"
    from SweepOrphans_keeps [of "in_live s", OF in_live_id [OF r(1)], of rd rm_ok "in_blobs s"] r(2)
    show "kv_get ?d (fmt_uint (unat n)) = kv_get (in_blobs s) (fmt_uint (unat n)) \<or>
      (\<exists>data. kv_get ?d (fmt_uint (unat n)) = Some (File data) \<and> clean_for E (im_inbox (ir_msg r)) (im_generated (ir_msg r)) data)"
      by simp
  qed simp_all
qed

lemma in_open_good: "in_inv E s \<Longrightarrow> in_good E s (snd (in_open db mk rd rm_ok path s))"
  using in_sweep_good [of E s rd rm_ok] in_good_refl
  by (auto simp: in_open_def split: prod.splits option.splits)

section \<open>Runs of the store\<close>

text \<open>Message ids are those the store handed out: the decimal form of a sequence number.\<close>

datatype in_op =
    InAdd io time delivery
  | InAddGenerated io time delivery
  | InAddSynced io time delivery bool "iassessment option"
  | InSetContent io string string u64 bytes "iassessment option"
  | InSetSeen io string string u64 bool
  | InSetKeywords io string string u64 "string list"
  | InClearDirty io string string u64
  | InStamp io string string u64 u32
  | InSetHold io string string u64 string
  | InRemove io "string \<Rightarrow> bool" string string u64
  | InRekey io
  | InReopen bool bool bool "string \<Rightarrow> bool" string

fun in_exec :: "'h in_env \<Rightarrow> inbound \<Rightarrow> in_op \<Rightarrow> inbound" where
  "in_exec E s (InAdd io now d) = snd (in_Add E io now d s)"
| "in_exec E s (InAddGenerated io now d) = snd (in_AddGenerated E io now d s)"
| "in_exec E s (InAddSynced io now d pending a) = snd (in_addSynced E io now d pending a s)"
| "in_exec E s (InSetContent io ow ib n raw a) = snd (in_SetContentAssessed E io ow ib (fmt_uint (unat n)) raw a s)"
| "in_exec E s (InSetSeen io ow ib n seen) = snd (in_SetSeen io ow ib (fmt_uint (unat n)) seen s)"
| "in_exec E s (InSetKeywords io ow ib n kws) = snd (in_SetKeywords io ow ib (fmt_uint (unat n)) kws s)"
| "in_exec E s (InClearDirty io ow ib n) = snd (in_ClearKeywordsDirty io ow ib (fmt_uint (unat n)) s)"
| "in_exec E s (InStamp io ow ib n v) = snd (in_StampUIDValidity io ow ib (fmt_uint (unat n)) v s)"
| "in_exec E s (InSetHold io ow ib n d) = snd (in_SetHoldDecision io ow ib (fmt_uint (unat n)) d s)"
| "in_exec E s (InRemove io rm_ok ow ib n) = snd (in_RemoveSynced io rm_ok ow ib (fmt_uint (unat n)) s)"
| "in_exec E s (InRekey io) = snd (in_RekeyOwnersToInbox io s)"
| "in_exec E s (InReopen db mk rd rm_ok path) = snd (in_open db mk rd rm_ok path s)"

definition in_budget :: "'h in_env \<Rightarrow> nat \<Rightarrow> inbound \<Rightarrow> bool" where
  "in_budget E n s \<longleftrightarrow> in_inv E s \<and> unat (bseq (in_recs s)) + n < 2 ^ 64"

lemma in_exec_good:
  assumes "in_inv E s" "unat (bseq (in_recs s)) + 1 < 2 ^ 64"
  shows "in_good E s (in_exec E s x)"
proof (cases x)
  case (InSetSeen io ow ib n seen)
  then show ?thesis using assms(1)
    by (auto simp: in_SetSeen_def same_origin_def intro!: in_modify_good split: if_splits)
next
  case (InSetKeywords io ow ib n kws)
  then show ?thesis using assms(1)
    by (auto simp: in_SetKeywords_def same_origin_def intro!: in_modify_good)
next
  case (InClearDirty io ow ib n)
  then show ?thesis using assms(1)
    by (auto simp: in_ClearKeywordsDirty_def same_origin_def intro!: in_modify_good split: if_splits)
next
  case (InStamp io ow ib n v)
  then show ?thesis using assms(1) in_good_refl
    by (auto simp: in_StampUIDValidity_def same_origin_def intro!: in_modify_good split: if_splits)
next
  case (InSetHold io ow ib n d)
  then show ?thesis using assms(1)
    by (auto simp: in_SetHoldDecision_def same_origin_def intro!: in_modify_good)
qed (use assms in_Add_good in_addSynced_good in_SetContent_good in_Remove_good in_Rekey_good in_open_good in simp_all)

lemma in_update_recs: "in_recs (snd (in_update io body s)) = in_recs s \<or> in_recs (snd (in_update io body s)) = in_recs (snd (body s))"
  by (auto simp: in_update_def split: prod.splits sum.splits)

lemma in_put_bseq: "in_put E io now d pending a g s = (res, t) \<Longrightarrow> bseq (in_recs t) = bseq (in_recs s) + 1"
  by (auto simp: in_put_def b_next_def Let_def split: if_splits prod.splits sum.splits)

lemma in_modify_bseq: "bseq (in_recs (snd (in_modify io ow ib mid f s))) = bseq (in_recs s)"
  unfolding in_modify_def by (auto simp: in_update_def split: prod.splits sum.splits option.splits if_splits)

lemma rekey_bseq: "bseq (in_recs (fold rekey_one work s)) = bseq (in_recs s)"
  by (induction work arbitrary: s) (auto simp: rekey_one_def Let_def)

lemma in_add_bseq:
  "bseq (in_recs (snd (in_update io (\<lambda>s. case in_put E io' now d pending a g s of (r, t) \<Rightarrow> (map_sum id fst r, t)) s)))
     \<in> {bseq (in_recs s), bseq (in_recs s) + 1}"
proof -
  obtain res t where p: "in_put E io' now d pending a g s = (res, t)" by fastforce
  from in_put_bseq [OF p] show ?thesis by (auto simp: in_update_def p split: sum.splits)
qed

lemma in_addSynced_bseq: "bseq (in_recs (snd (in_addSynced E io now d pending a s))) \<in> {bseq (in_recs s), bseq (in_recs s) + 1}"
proof -
  obtain res t where p: "in_put E io now d pending a False s = (res, t)" by fastforce
  from in_put_bseq [OF p] show ?thesis
    by (auto simp: in_addSynced_def Let_def in_update_def p split: sum.splits option.splits)
qed

lemma in_SetContent_bseq: "bseq (in_recs (snd (in_SetContentAssessed E io ow ib mid raw a s))) = bseq (in_recs s)"
  by (auto simp: in_SetContentAssessed_def in_update_def Let_def split: prod.splits sum.splits if_splits)

lemma in_Remove_bseq: "bseq (in_recs (snd (in_RemoveSynced io rm_ok ow ib mid s))) = bseq (in_recs s)"
  by (auto simp: in_RemoveSynced_def in_update_def Let_def split: prod.splits sum.splits if_splits)

lemma in_exec_bseq: "bseq (in_recs (in_exec E s x)) \<in> {bseq (in_recs s), bseq (in_recs s) + 1}"
proof (cases x)
  case (InAdd io now d)
  then show ?thesis using in_add_bseq by (simp only: in_exec.simps in_Add_def)
next
  case (InAddGenerated io now d)
  then show ?thesis using in_add_bseq by (simp only: in_exec.simps in_AddGenerated_def)
next
  case (InAddSynced io now d pending a)
  then show ?thesis using in_addSynced_bseq by (simp only: in_exec.simps)
next
  case (InRekey io)
  then show ?thesis
    by (auto simp: in_RekeyOwnersToInbox_def in_update_def Let_def rekey_bseq split: prod.splits)
next
  case (InReopen db mk rd rm_ok path)
  then show ?thesis by (auto simp: in_open_def in_sweepOrphans_def split: prod.splits option.splits)
qed (simp_all add: in_SetSeen_def in_SetKeywords_def in_ClearKeywordsDirty_def in_StampUIDValidity_def in_SetHoldDecision_def
       in_modify_bseq in_SetContent_bseq in_Remove_bseq)

lemma in_budget_step: "in_budget E (Suc n) s \<Longrightarrow> in_budget E n (in_exec E s x)"
proof -
  assume b: "in_budget E (Suc n) s"
  then have i: "in_inv E (in_exec E s x)" using in_exec_good [of E s x] by (simp add: in_budget_def in_good_def)
  have u: "unat (bseq (in_recs s) + 1) = unat (bseq (in_recs s)) + 1" using b by (intro unat_succ) (simp add: in_budget_def)
  have "unat (bseq (in_recs (in_exec E s x))) \<le> unat (bseq (in_recs s)) + 1"
    using in_exec_bseq [of E s x] u by auto
  with i b show ?thesis by (simp add: in_budget_def)
qed

interpretation inm: machine_rel "in_exec E" "in_budget E" in_rel for E
proof unfold_locales
  show "in_budget E (Suc n) s \<Longrightarrow> in_budget E n (in_exec E s x)" for n s x by (rule in_budget_step)
  show "in_rel s s" for s by (rule in_rel_refl)
  show "in_rel s t \<Longrightarrow> in_rel t u \<Longrightarrow> in_rel s u" for s t u by (rule in_rel_trans)
  show "in_budget E (Suc n) s \<Longrightarrow> in_rel s (in_exec E s x)" for n s x
    using in_exec_good [of E s x] by (simp add: in_budget_def in_good_def)
qed

section \<open>What the mailbox promises\<close>

lemma in_Get_Inr:
  "in_Get owner inbox mid s = Inr m \<longleftrightarrow>
     (\<exists>r key. in_loadStored s mid = Inr (r, key) \<and> recScoped r owner inbox \<and> in_withRaw s r = Inr m)"
  by (auto simp: in_Get_def split: sum.splits)

lemma in_withRaw_ok:
  assumes "in_rec_ok E (kv_get (in_blobs s)) seq key r" "validKey (im_id (ir_msg r))"
  shows "\<exists>data. in_withRaw s r = Inr (if im_pending (ir_msg r) then ir_msg r else (ir_msg r)\<lparr>im_raw := data\<rparr>)
     \<and> (im_pending (ir_msg r) \<or> clean_for E (im_inbox (ir_msg r)) (im_generated (ir_msg r)) data)"
  using assms by (auto simp: in_withRaw_def Let_def in_rec_ok_def blob_Get_def)

lemma validKey_fmt: "validKey (fmt_uint n)"
proof -
  have d: "\<forall>c \<in> set (fmt_uint n). is_digit c" using fmt_uint_digits [of n] by (simp add: list_all_set)
  have "CHR ''.'' \<notin> set (fmt_uint n)" "CHR ''/'' \<notin> set (fmt_uint n)" "char_of (92 :: nat) \<notin> set (fmt_uint n)"
    using d by (auto simp: is_digit_def)
  moreover have "fmt_uint n \<noteq> ''.''" "fmt_uint n \<noteq> ''..''" using calculation(1) by auto
  ultimately show ?thesis by (simp add: validKey_def)
qed

lemma in_withRaw_inv:
  assumes "in_inv E s" "b_get (in_recs s) key = Some r"
  shows "\<exists>data. in_withRaw s r = Inr (if im_pending (ir_msg r) then ir_msg r else (ir_msg r)\<lparr>im_raw := data\<rparr>)
     \<and> (im_pending (ir_msg r) \<or> clean_for E (im_inbox (ir_msg r)) (im_generated (ir_msg r)) data)"
proof -
  note ok = inv_rec [OF assms]
  then obtain n where "im_id (ir_msg r) = fmt_uint n" by (auto simp: in_rec_ok_def)
  then show ?thesis using in_withRaw_ok [OF ok] validKey_fmt by simp
qed

text \<open>C4: no body reaches a reader unsanitized: after any run of operations of the store, failed writes, failed
  commits, crashes between them and reopenings included, a message that \<open>Get\<close> returns with its content
  carries bytes that \<open>Sanitize\<close> produced under the provenance resolver's stamp for that message's own
  inbox, or, only for a message Darbaan generated itself, under the trusted stamp; and it belongs to the
  owner and inbox that asked.\<close>

theorem inbound_content_sanitized:
  assumes "in_budget E (length xs) s" "in_Get owner inbox mid (run_ops (in_exec E) s xs) = Inr m" "\<not> im_pending m"
  shows "clean_for E (im_inbox m) (im_generated m) (im_raw m)
    \<and> im_owner m = owner \<and> NormInbox (im_inbox m) = NormInbox inbox"
proof -
  let ?t = "run_ops (in_exec E) s xs"
  have "in_budget E 0 ?t" using assms(1) inm.run_inv [of E xs 0 s] by simp
  then have inv: "in_inv E ?t" by (simp add: in_budget_def)
  from assms(2) obtain r key where r: "in_loadStored ?t mid = Inr (r, key)" "recScoped r owner inbox" "in_withRaw ?t r = Inr m"
    by (auto simp: in_Get_Inr)
  then have "b_get (in_recs ?t) key = Some r" by (auto simp: in_loadStored_ok)
  from in_withRaw_inv [OF inv this] r(3) obtain data
    where m: "m = (if im_pending (ir_msg r) then ir_msg r else (ir_msg r)\<lparr>im_raw := data\<rparr>)"
      "im_pending (ir_msg r) \<or> clean_for E (im_inbox (ir_msg r)) (im_generated (ir_msg r)) data" by auto
  with assms(3) have p: "\<not> im_pending (ir_msg r)" by (auto split: if_splits)
  then show ?thesis using m r(2) by (simp add: recScoped_def)
qed

definition inbound_new :: inbound where
  "inbound_new = \<lparr>in_recs = bucket_new, in_synced = [], in_blobs = []\<rparr>"

lemma inbound_new_budget: "n < 2 ^ 64 \<Longrightarrow> in_budget E n inbound_new"
  by (simp add: in_budget_def in_inv_def inbound_new_def bucket_new_def b_get_def kv_get_def)

text \<open>A parser that finds no header fields, so that \<open>Sanitize\<close> adds the stamp to the front.\<close>

definition sample_env :: "(string \<times> string) list in_env" where
  "sample_env = \<lparr>ie_tp = list_textproto (\<lambda>r. Some ([], r)) (\<lambda>h. Some (concat (map (\<lambda>(k, v). k @ '':'' @ v) h))),
     ie_codecs = sample_codecs, ie_cfs = [], ie_parse = (\<lambda>b. None), ie_resolve = default_resolver\<rparr>"

definition sample_delivery :: "u32 \<Rightarrow> u32 \<Rightarrow> delivery" where
  "sample_delivery v uid = \<lparr>dl_owner = ''amy'', dl_inbox = '''', dl_from = '''', dl_to = '''', dl_subject = '''', dl_raw = ''hello'',
     dl_upstream_uid = uid, dl_uid_validity = v, dl_envelope = None, dl_size = 0, dl_keywords = []\<rparr>"

text \<open>What a successful insertion leaves.\<close>

lemma in_put_Get:
  assumes inv: "in_inv E s" and p: "in_put E io now d pending a generated s = (Inr (m, key), t)"
    and t': "in_recs t' = in_recs t" "in_blobs t' = in_blobs t"
  shows "in_Get (dl_owner d) (dl_inbox d) (im_id m) t' = Inr m \<and> im_pending m = pending \<and> im_generated m = generated
    \<and> im_id m = fmt_uint (unat (bseq (in_recs s) + 1)) \<and> key = seqkey_encode (bseq (in_recs s) + 1)
    \<and> im_owner m = dl_owner d \<and> im_inbox m = NormInbox (dl_inbox d) \<and> im_upstream_uid m = dl_upstream_uid d"
proof -
  let ?n = "bseq (in_recs s) + 1"
  let ?msg = "new_imessage now d pending a generated ?n"
  have sel: "im_id ?msg = fmt_uint (unat ?n)" "im_inbox ?msg = NormInbox (dl_inbox d)" "im_owner ?msg = dl_owner d"
    "im_pending ?msg = pending" "im_generated ?msg = generated" "im_raw ?msg = []" "im_upstream_uid ?msg = dl_upstream_uid d"
    by (simp_all add: new_imessage_def imessage_zero_def)
  show ?thesis
  proof (cases pending)
    case True
    then have t: "t = in_putStored (seqkey_encode ?n) (storedRec ?msg False) (s\<lparr>in_recs := (in_recs s)\<lparr>bseq := ?n\<rparr>\<rparr>)"
      "m = ?msg" "key = seqkey_encode ?n" using p by (auto simp: in_put_def b_next_def Let_def)
    have mr: "?msg\<lparr>im_raw := []\<rparr> = ?msg" using sel(6) by (metis imessage.surjective imessage.update_convs(7) imessage.select_convs(7))
    have "in_Get (dl_owner d) (dl_inbox d) (fmt_uint (unat ?n)) t' = Inr ?msg"
      using sel True by (simp add: in_Get_def in_loadStored_id t' t(1) recScoped_def storedRec_def in_withRaw_def mr)
    then show ?thesis using t sel by simp
  next
    case False
    obtain r dir where pb: "putBlob E io (im_inbox ?msg) (im_id ?msg) (dl_raw d) generated (in_blobs s) = (r, dir)" by fastforce
    from p False pb obtain clean shaped where c: "r = Inr (clean, shaped)"
      by (auto simp: in_put_def b_next_def Let_def split: sum.splits)
    let ?m = "?msg\<lparr>im_raw := clean, im_bounce_shaped := Some shaped\<rparr>"
    have t: "t = in_putStored (seqkey_encode ?n) (storedRec ?m True) (s\<lparr>in_recs := (in_recs s)\<lparr>bseq := ?n\<rparr>, in_blobs := dir\<rparr>)"
      "m = ?m" "key = seqkey_encode ?n"
      using p False pb c by (auto simp: in_put_def b_next_def Let_def)
    have k: "kv_get dir (fmt_uint (unat ?n)) = Some (File clean)" using putBlob_blobs(3) [OF pb c] sel by simp
    have mr: "(?m\<lparr>im_raw := []\<rparr>)\<lparr>im_raw := clean\<rparr> = ?m" by simp
    have "in_Get (dl_owner d) (dl_inbox d) (fmt_uint (unat ?n)) t' = Inr ?m"
      using sel False k validKey_fmt
      by (simp add: in_Get_def in_loadStored_id t' t(1) recScoped_def storedRec_def in_withRaw_def blob_Get_def)
    then show ?thesis using t sel by simp
  qed
qed

lemma in_Add_Get:
  assumes "in_inv E s" "fst (in_Add E io now d s) = Inr m"
  shows "in_Get (dl_owner d) (dl_inbox d) (im_id m) (snd (in_Add E io now d s)) = Inr m \<and> \<not> im_pending m
    \<and> \<not> im_generated m \<and> im_upstream_uid m = dl_upstream_uid d"
proof -
  obtain res t where p: "in_put E io now d False None False s = (res, t)" by fastforce
  from assms(2) p obtain key where r: "res = Inr (m, key)" "snd (in_Add E io now d s) = t"
    by (cases res) (auto simp: in_Add_def in_update_def split: sum.splits if_splits)
  from in_put_Get [OF assms(1) p [unfolded r(1)] refl refl] show ?thesis unfolding r(2) by blast
qed

definition sample_mailbox :: inbound where
  "sample_mailbox = snd (in_Add sample_env ok_io 7 (sample_delivery 0 0) inbound_new)"

lemma sample_added: "\<exists>m. in_Get ''amy'' '''' (im_id m) sample_mailbox = Inr m \<and> \<not> im_pending m \<and> im_upstream_uid m = 0
    \<and> in_budget sample_env 100 sample_mailbox"
proof -
  have "\<not> isl (fst (in_Add sample_env ok_io 7 (sample_delivery 0 0) inbound_new))" by code_simp
  then obtain m where m: "fst (in_Add sample_env ok_io 7 (sample_delivery 0 0) inbound_new) = Inr m"
    by (cases "fst (in_Add sample_env ok_io 7 (sample_delivery 0 0) inbound_new)") auto
  have b: "in_budget sample_env (Suc 100) inbound_new" by (rule inbound_new_budget) simp
  from in_budget_step [OF this, of "InAdd ok_io 7 (sample_delivery 0 0)"]
  have "in_budget sample_env 100 sample_mailbox" by (simp add: sample_mailbox_def)
  with in_Add_Get [OF _ m] b show ?thesis
    by (intro exI [of _ m]) (simp add: in_budget_def sample_mailbox_def sample_delivery_def)
qed

theorem inbound_content_sanitized_witness:
  "\<exists>m. in_Get ''amy'' '''' (im_id m) (run_ops (in_exec sample_env) sample_mailbox []) = Inr m
     \<and> clean_for sample_env (im_inbox m) (im_generated m) (im_raw m)"
proof -
  from sample_added obtain m where m: "in_Get ''amy'' '''' (im_id m) sample_mailbox = Inr m" "\<not> im_pending m"
    "in_budget sample_env 100 sample_mailbox" by blast
  then have "in_budget sample_env (length ([] :: in_op list)) sample_mailbox"
    "in_Get ''amy'' '''' (im_id m) (run_ops (in_exec sample_env) sample_mailbox []) = Inr m"
    by (simp_all add: in_budget_def)
  from inbound_content_sanitized [OF this m(2)] m(1) show ?thesis by auto
qed

text \<open>C21: a message without upstream origin, such as a bounce, survives every operation: whatever else happens
  to the store, retractions and the rekeying of owners included, its owner still reads it, under the same
  id, inbox and origin, with its content available; it never becomes another owner's.\<close>

theorem inbound_local_survives:
  assumes "in_budget E (length xs) s" "in_Get owner inbox mid s = Inr m" "im_upstream_uid m = 0"
  shows "\<exists>m'. in_Get owner inbox mid (run_ops (in_exec E) s xs) = Inr m' \<and> same_origin m m' \<and> im_owner m' = owner"
proof -
  let ?t = "run_ops (in_exec E) s xs"
  have rel: "in_rel s ?t" using inm.run_rel [of E xs 0 s] assms(1) by simp
  have "in_budget E 0 ?t" using assms(1) inm.run_inv [of E xs 0 s] by simp
  then have inv: "in_inv E ?t" "in_inv E s" using assms(1) by (auto simp: in_budget_def)
  from assms(2) obtain r key where r: "in_loadStored s mid = Inr (r, key)" "recScoped r owner inbox" "in_withRaw s r = Inr m"
    by (auto simp: in_Get_Inr)
  then obtain k where k: "parse_uint 64 mid = Some k" "key = seqkey_encode (word_of_nat k)" "b_get (in_recs s) key = Some r"
    by (auto simp: in_loadStored_ok)
  obtain data where m: "m = (if im_pending (ir_msg r) then ir_msg r else (ir_msg r)\<lparr>im_raw := data\<rparr>)"
    using in_withRaw_inv [OF inv(2) k(3)] r(3) by auto
  then have up: "im_upstream_uid (ir_msg r) = 0" using assms(3) by (auto split: if_splits)
  have n: "word_of_nat k \<le> bseq (in_recs s)" using inv_rec [OF inv(2) k(3)] k(2) by (auto simp: in_rec_ok_def)
  with rel k up obtain r' where r': "b_get (in_recs ?t) key = Some r'" unfolding in_rel_def by blast
  with rel n k have so: "same_origin (ir_msg r) (ir_msg r')" unfolding in_rel_def by fastforce
  then have sc: "recScoped r' owner inbox" using r(2) up by (auto simp: recScoped_def same_origin_def)
  from in_withRaw_inv [OF inv(1) r'] obtain d' where
    w: "in_withRaw ?t r' = Inr (if im_pending (ir_msg r') then ir_msg r' else (ir_msg r')\<lparr>im_raw := d'\<rparr>)" by blast
  have "in_loadStored ?t mid = Inr (r', key)" using k r' by (simp add: in_loadStored_ok)
  then have "in_Get owner inbox mid ?t = Inr (if im_pending (ir_msg r') then ir_msg r' else (ir_msg r')\<lparr>im_raw := d'\<rparr>)"
    using sc w by (simp add: in_Get_def)
  moreover have "same_origin m (if im_pending (ir_msg r') then ir_msg r' else (ir_msg r')\<lparr>im_raw := d'\<rparr>)"
    using so m by (simp add: same_origin_def)
  ultimately show ?thesis using sc by (intro exI conjI) (auto simp: recScoped_def)
qed

theorem inbound_local_survives_witness:
  "\<exists>mid m'. in_Get ''amy'' '''' mid (run_ops (in_exec sample_env) sample_mailbox
      [InRekey ok_io, InRemove ok_io (\<lambda>k. True) ''amy'' '''' 1]) = Inr m' \<and> im_owner m' = ''amy''"
proof -
  let ?xs = "[InRekey ok_io, InRemove ok_io (\<lambda>k. True) ''amy'' '''' 1]"
  from sample_added obtain m where m: "in_Get ''amy'' '''' (im_id m) sample_mailbox = Inr m" "im_upstream_uid m = 0"
    "in_budget sample_env 100 sample_mailbox" by blast
  then have "in_budget sample_env (length ?xs) sample_mailbox" by (simp add: in_budget_def)
  from inbound_local_survives [OF this m(1,2)] obtain m' where
    "in_Get ''amy'' '''' (im_id m) (run_ops (in_exec sample_env) sample_mailbox ?xs) = Inr m'" "im_owner m' = ''amy''"
    by (elim exE conjE)
  then show ?thesis by - (rule exI [of _ "im_id m"], rule exI [of _ m'], rule conjI)
qed

text \<open>The owner and inbox an operation is scoped to.\<close>

fun op_scope :: "in_op \<Rightarrow> (string \<times> string) option" where
  "op_scope (InSetContent io ow ib n raw a) = Some (ow, ib)"
| "op_scope (InSetSeen io ow ib n seen) = Some (ow, ib)"
| "op_scope (InSetKeywords io ow ib n kws) = Some (ow, ib)"
| "op_scope (InClearDirty io ow ib n) = Some (ow, ib)"
| "op_scope (InStamp io ow ib n v) = Some (ow, ib)"
| "op_scope (InSetHold io ow ib n d) = Some (ow, ib)"
| "op_scope (InRemove io rm_ok ow ib n) = Some (ow, ib)"
| "op_scope x = None"

lemma in_modify_scoped:
  assumes "b_get (in_recs s) (seqkey_encode k) = Some r" "\<not> recScoped r ow ib"
  shows "b_get (in_recs (snd (in_modify io ow ib (fmt_uint (unat (n :: u64))) f s))) (seqkey_encode k) = Some r
    \<and> in_blobs (snd (in_modify io ow ib (fmt_uint (unat n)) f s)) = in_blobs s"
  using assms by (cases "n = k")
    (auto simp: in_modify_def in_update_def in_loadStored_id split: option.splits sum.splits prod.splits if_splits)

lemma SetContent_scoped:
  assumes "b_get (in_recs s) (seqkey_encode k) = Some r" "\<not> recScoped r ow ib"
  shows "b_get (in_recs (snd (in_SetContentAssessed E io ow ib (fmt_uint (unat (n :: u64))) raw a s))) (seqkey_encode k) = Some r
    \<and> kv_get (in_blobs (snd (in_SetContentAssessed E io ow ib (fmt_uint (unat n)) raw a s))) (fmt_uint (unat k))
      = kv_get (in_blobs s) (fmt_uint (unat k))"
proof (cases "n = k")
  case True
  then show ?thesis using assms by (simp add: in_SetContentAssessed_def in_update_def in_loadStored_id)
next
  case False
  then have ne: "unat k \<noteq> unat n" by (metis unsigned_word_eqI)
  obtain res d where p: "putBlob E io ib (fmt_uint (unat n)) raw False (in_blobs s) = (res, d)" by fastforce
  have "kv_get d (fmt_uint (unat k)) = kv_get (in_blobs s) (fmt_uint (unat k))"
    using putBlob_blobs(1) [OF p, of "unat k"] ne by auto
  then show ?thesis using assms False
    by (cases res) (auto simp: in_SetContentAssessed_def in_update_def in_loadStored_id p Let_def split: option.splits)
qed

lemma Remove_scoped:
  assumes "b_get (in_recs s) (seqkey_encode k) = Some r" "\<not> recScoped r ow ib"
  shows "b_get (in_recs (snd (in_RemoveSynced io rm_ok ow ib (fmt_uint (unat (n :: u64))) s))) (seqkey_encode k) = Some r
    \<and> kv_get (in_blobs (snd (in_RemoveSynced io rm_ok ow ib (fmt_uint (unat n)) s))) (fmt_uint (unat k))
      = kv_get (in_blobs s) (fmt_uint (unat k))"
proof (cases "n = k")
  case True
  then show ?thesis using assms by (simp add: in_RemoveSynced_def in_update_def in_loadStored_id Let_def)
next
  case False
  then have "unat k \<noteq> unat n" by (metis unsigned_word_eqI)
  then have "kv_get (snd (blob_Delete rm_ok (fmt_uint (unat n)) d)) (fmt_uint (unat k)) = kv_get d (fmt_uint (unat k))" for d
    by (intro blob_Delete_keeps) simp
  then show ?thesis using assms False
    by (auto simp: in_RemoveSynced_def in_update_def in_loadStored_id Let_def split: option.splits)
qed

text \<open>Mailboxes are isolated: an operation scoped to one owner and inbox neither shows nor changes a message
  of another: the message is not found through it, and its own mailbox reads it after the operation
  exactly as before, content and flags included.\<close>

lemma inbound_scope_isolated:
  assumes "in_inv E s" "in_Get owner inbox (fmt_uint (unat (k :: u64))) s = Inr m" "op_scope x = Some (ow, ib)"
    and "ow \<noteq> owner \<or> NormInbox ib \<noteq> NormInbox inbox"
  shows "in_Get ow ib (fmt_uint (unat k)) s = Inl InNotFound
    \<and> in_Get owner inbox (fmt_uint (unat k)) (in_exec E s x) = Inr m"
proof -
  from assms(2) obtain r where r: "b_get (in_recs s) (seqkey_encode k) = Some r" "recScoped r owner inbox" "in_withRaw s r = Inr m"
    by (auto simp: in_Get_def in_loadStored_id split: option.splits if_splits)
  have ns: "\<not> recScoped r ow ib" using r(2) assms(4) by (auto simp: recScoped_def)
  have idr: "im_id (ir_msg r) = fmt_uint (unat k)" using inv_rec [OF assms(1) r(1)] by (auto simp: in_rec_ok_def)
  have "b_get (in_recs (in_exec E s x)) (seqkey_encode k) = Some r
      \<and> kv_get (in_blobs (in_exec E s x)) (fmt_uint (unat k)) = kv_get (in_blobs s) (fmt_uint (unat k))"
    using assms(3)
    by (cases x) (auto simp: in_SetSeen_def in_SetKeywords_def in_ClearKeywordsDirty_def in_StampUIDValidity_def in_SetHoldDecision_def
        in_modify_scoped [OF r(1) ns] SetContent_scoped [OF r(1) ns] Remove_scoped [OF r(1) ns] r(1))
  then have "in_Get owner inbox (fmt_uint (unat k)) (in_exec E s x) = in_withRaw s r"
    using r(2) idr by (auto simp: in_Get_def in_loadStored_id in_withRaw_def Let_def blob_Get_def)
  then show ?thesis using r ns by (simp add: in_Get_def in_loadStored_id)
qed

lemma sample_mailbox_one: "\<exists>m. in_Get ''amy'' '''' (fmt_uint (unat (1 :: u64))) sample_mailbox = Inr m \<and> im_upstream_uid m = 0
   \<and> in_inv sample_env sample_mailbox"
proof -
  have "\<not> isl (fst (in_Add sample_env ok_io 7 (sample_delivery 0 0) inbound_new))" by code_simp
  then obtain m where m: "fst (in_Add sample_env ok_io 7 (sample_delivery 0 0) inbound_new) = Inr m"
    by (cases "fst (in_Add sample_env ok_io 7 (sample_delivery 0 0) inbound_new)") auto
  obtain res t where p: "in_put sample_env ok_io 7 (sample_delivery 0 0) False None False inbound_new = (res, t)" by fastforce
  from m p obtain key where r: "res = Inr (m, key)" "sample_mailbox = t"
    by (cases res) (auto simp: sample_mailbox_def in_Add_def in_update_def split: sum.splits if_splits)
  have i: "in_inv sample_env inbound_new" using inbound_new_budget [of 0 sample_env] by (simp add: in_budget_def)
  have b: "bseq (in_recs inbound_new) = 0" by (simp add: inbound_new_def bucket_new_def)
  have u: "unat (0 + 1 :: u64) = unat (1 :: u64)" by simp
  from sample_added have "in_inv sample_env sample_mailbox" by (auto simp: in_budget_def)
  with in_put_Get [OF i p [unfolded r(1)], of t] r show ?thesis
    by (auto simp: b sample_delivery_def)
qed

lemma inbound_scope_isolated_witness:
  "\<exists>m. in_Get ''eve'' '''' (fmt_uint (unat (1 :: u64))) sample_mailbox = Inl InNotFound
    \<and> in_Get ''amy'' '''' (fmt_uint (unat (1 :: u64))) (in_exec sample_env sample_mailbox (InSetSeen ok_io ''eve'' '''' 1 True)) = Inr m"
proof -
  from sample_mailbox_one obtain m where m: "in_Get ''amy'' '''' (fmt_uint (unat (1 :: u64))) sample_mailbox = Inr m"
    "in_inv sample_env sample_mailbox" by blast
  have "op_scope (InSetSeen ok_io ''eve'' '''' 1 True) = Some (''eve'', '''')" by simp
  from inbound_scope_isolated [OF m(2,1) this] show ?thesis by auto
qed

section \<open>Synchronisation adds a message once\<close>

text \<open>The index names a record for the coordinates.\<close>

definition indexed :: "inbound \<Rightarrow> bytes \<Rightarrow> bytes \<Rightarrow> bool" where
  "indexed s idx key \<longleftrightarrow> kv_get (in_synced s) idx = Some key \<and> b_get (in_recs s) key \<noteq> None"

text \<open>Everything but a retraction and the rekeying of owners keeps the index entries.\<close>

fun keeps_index :: "in_op \<Rightarrow> bool" where
  "keeps_index (InRemove io rm_ok ow ib n) = False"
| "keeps_index (InRekey io) = False"
| "keeps_index x = True"

lemma in_update_indexed:
  assumes "indexed s idx key" "indexed (snd (body s)) idx key"
  shows "indexed (snd (in_update io body s)) idx key"
  using assms by (auto simp: in_update_def indexed_def split: prod.splits sum.splits)

lemma in_modify_indexed: "indexed s idx key \<Longrightarrow> indexed (snd (in_modify io ow ib mid f s)) idx key"
  unfolding in_modify_def
  by (rule in_update_indexed) (auto simp: indexed_def split: sum.splits prod.splits option.splits if_splits)

lemma in_put_indexed: "indexed s idx key \<Longrightarrow> indexed (snd (in_put E io now d pending a g s)) idx key"
  by (auto simp: indexed_def in_put_def b_next_def Let_def b_get_put split: sum.splits prod.splits)

lemma in_put_synced: "in_synced (snd (in_put E io now d pending a g s)) = in_synced s"
  by (auto simp: in_put_def b_next_def Let_def split: sum.splits prod.splits)

lemma in_addSynced_indexed: "indexed s idx key \<Longrightarrow> indexed (snd (in_addSynced E io now d pending a s)) idx key"
proof (cases "dl_upstream_uid d = 0")
  case False
  assume i: "indexed s idx key"
  show ?thesis
    using False i in_put_indexed [OF i, of E io now d pending a False] in_put_synced [of E io now d pending a False s]
    unfolding in_addSynced_def Let_def
    by (simp, intro in_update_indexed, simp) (auto split: option.splits prod.splits sum.splits simp: indexed_def kv_get_put)
qed (simp add: in_addSynced_def)

lemma in_SetContent_indexed: "indexed s idx key \<Longrightarrow> indexed (snd (in_SetContentAssessed E io ow ib mid raw a s)) idx key"
  unfolding in_SetContentAssessed_def
  by (rule in_update_indexed) (auto simp: indexed_def Let_def split: sum.splits prod.splits)

lemma in_exec_indexed: "indexed s idx key \<Longrightarrow> keeps_index x \<Longrightarrow> indexed (in_exec E s x) idx key"
proof (cases x)
  case (InAdd io now d)
  assume "indexed s idx key"
  with in_put_indexed [OF this, of E io now d False None False] show ?thesis
    by (auto simp: InAdd in_Add_def intro!: in_update_indexed split: prod.splits)
next
  case (InAddGenerated io now d)
  assume "indexed s idx key"
  with in_put_indexed [OF this, of E io now d False None True] show ?thesis
    by (auto simp: InAddGenerated in_AddGenerated_def intro!: in_update_indexed split: prod.splits)
next
  case (InReopen db mk rd rm_ok path)
  assume "indexed s idx key"
  then show ?thesis by (auto simp: InReopen in_open_def in_sweepOrphans_def indexed_def split: prod.splits option.splits)
qed (auto simp: in_addSynced_indexed in_SetContent_indexed in_modify_indexed in_SetSeen_def in_SetKeywords_def
    in_ClearKeywordsDirty_def in_StampUIDValidity_def in_SetHoldDecision_def)

lemma in_run_indexed: "indexed s idx key \<Longrightarrow> list_all keeps_index xs \<Longrightarrow> indexed (run_ops (in_exec E) s xs) idx key"
  by (induction xs arbitrary: s) (auto simp: in_exec_indexed)

lemma in_addSynced_new:
  assumes "in_inv E s" "in_addSynced E io now d pending a s = (Inr (True, m), t)"
  shows "indexed t (syncedKey (dl_owner d) (dl_inbox d) (dl_uid_validity d) (dl_upstream_uid d)) (seqkey_encode (bseq (in_recs s) + 1))
    \<and> im_id m = fmt_uint (unat (bseq (in_recs s) + 1)) \<and> dl_upstream_uid d \<noteq> 0"
proof -
  obtain res u where p: "in_put E io now d pending a False s = (res, u)" by fastforce
  from assms(2) p obtain key where r: "res = Inr (m, key)"
    "t = u\<lparr>in_synced := kv_put (syncedKey (dl_owner d) (dl_inbox d) (dl_uid_validity d) (dl_upstream_uid d)) key (in_synced u)\<rparr>"
    "dl_upstream_uid d \<noteq> 0"
    by (cases res) (auto simp: in_addSynced_def in_update_def Let_def split: if_splits option.splits sum.splits)
  from in_put_Get [OF assms(1) p [unfolded r(1)] refl refl] have m: "im_id m = fmt_uint (unat (bseq (in_recs s) + 1))"
    "key = seqkey_encode (bseq (in_recs s) + 1)" "in_Get (dl_owner d) (dl_inbox d) (im_id m) u = Inr m" by auto
  then have "b_get (in_recs u) key \<noteq> None" by (auto simp: in_Get_def in_loadStored_id split: option.splits)
  with m r show ?thesis by (simp add: indexed_def kv_get_put)
qed

text \<open>A mailbox synchronised again gains no duplicates: once a sync pass has stored a message, whatever else
  happens to the store short of retracting messages or rekeying owners, a pass that meets the same upstream
  coordinates again, under any content, adds nothing: it reports the message as known, under the id it
  was first given, and leaves the store as it was.\<close>

lemma inbound_resync_idempotent:
  assumes "in_budget E (Suc (length xs)) s" "fst (in_addSynced E io now d pending a s) = Inr (True, m)" "list_all keeps_index xs"
    and "dl_owner d' = dl_owner d" "NormInbox (dl_inbox d') = NormInbox (dl_inbox d)"
    and "dl_uid_validity d' = dl_uid_validity d" "dl_upstream_uid d' = dl_upstream_uid d" "io_commit io'"
  shows "\<exists>m'. in_addSynced E io' now' d' pending' a' (run_ops (in_exec E) (snd (in_addSynced E io now d pending a s)) xs)
      = (Inr (False, m'), run_ops (in_exec E) (snd (in_addSynced E io now d pending a s)) xs) \<and> im_id m' = im_id m"
proof -
  let ?t = "snd (in_addSynced E io now d pending a s)" and ?key = "seqkey_encode (bseq (in_recs s) + 1)"
  let ?u = "run_ops (in_exec E) ?t xs"
  let ?idx = "syncedKey (dl_owner d) (dl_inbox d) (dl_uid_validity d) (dl_upstream_uid d)"
  have "in_inv E s" using assms(1) by (simp add: in_budget_def)
  from in_addSynced_new [OF this, of io now d pending a m ?t] assms(2)
  have n: "indexed ?t ?idx ?key" "im_id m = fmt_uint (unat (bseq (in_recs s) + 1))" "dl_upstream_uid d \<noteq> 0"
    by (metis prod.collapse)+
  from in_run_indexed [OF n(1) assms(3)] obtain r where r: "kv_get (in_synced ?u) ?idx = Some ?key" "b_get (in_recs ?u) ?key = Some r"
    by (auto simp: indexed_def)
  from in_budget_step [OF assms(1), of "InAddSynced io now d pending a"] have "in_budget E (length xs) ?t" by simp
  then have "in_inv E ?u" using inm.run_inv [of E xs 0 ?t] by (simp add: in_budget_def)
  from inv_rec [OF this r(2)] n(2) have "im_id (ir_msg r) = im_id m" by (auto simp: in_rec_ok_def)
  moreover have "in_addSynced E io' now' d' pending' a' ?u = (Inr (False, ir_msg r), ?u)"
    using assms(4-8) n(3) r by (simp add: in_addSynced_def syncedKey_def in_update_def Let_def)
  ultimately show ?thesis by blast
qed

lemma inbound_resync_idempotent_witness:
  "\<exists>m m'. fst (in_addSynced sample_env ok_io 7 (sample_delivery 5 9) False None inbound_new) = Inr (True, m)
    \<and> fst (in_addSynced sample_env ok_io 8 (sample_delivery 5 9) True None
        (run_ops (in_exec sample_env) (snd (in_addSynced sample_env ok_io 7 (sample_delivery 5 9) False None inbound_new))
          [InSetSeen ok_io ''amy'' '''' 1 True])) = Inr (False, m') \<and> im_id m' = im_id m"
proof -
  let ?xs = "[InSetSeen ok_io ''amy'' '''' 1 True]"
  let ?r = "fst (in_addSynced sample_env ok_io 7 (sample_delivery 5 9) False None inbound_new)"
  have "case ?r of Inl e \<Rightarrow> False | Inr (b, m) \<Rightarrow> b" by code_simp
  then obtain m where m: "?r = Inr (True, m)" by (auto split: sum.splits)
  have b: "in_budget sample_env (Suc (length ?xs)) inbound_new" by (rule inbound_new_budget) simp
  have c: "io_commit ok_io" by (simp add: ok_io_def)
  from inbound_resync_idempotent [OF b m _ refl refl refl refl c] m show ?thesis
    by (metis fst_conv keeps_index.simps(7) list.pred_inject)
qed

end
