(* ===== verification/Service.thy ===== *)
theory Service
  imports Backend Bounce Approver Opidentity Inbound
begin

text \<open>Model of the outbound half of \<open>internal/admin/service.go\<close> with \<open>change_sender.go\<close>: deciding a held
  message, sending it after the commit, re-sending, rejecting with a bounce, the operator-identity bypass,
  and the queue of \<open>cmd/darbaan/main.go\<close> that applies it on submission.

  The state joins the hold queue, the served mailbox and the log of what was handed to an upstream sender.
  The configuration of the service and the outcome of its third parties (the senders' answers, the
  signer, the MIME writer, the clock) are the record \<open>svc\<close>; how the store calls of one operation end is
  the record \<open>svc_io\<close>.\<close>

section \<open>The service\<close>

record 'h svc =
  sv_senders :: "(string \<times> sender) list"
  sv_identities :: "(string \<times> string) list"
  sv_router :: router
  sv_registry :: "(string \<times> approver) list"
  sv_human :: "string \<Rightarrow> bool"
  sv_inbox_wired :: bool
  sv_sign :: "(bytes \<Rightarrow> bytes option) option"
  sv_domain :: string
  sv_mw :: mime_writer
  sv_date :: string
  sv_now :: time
  sv_in :: "'h in_env"
  sv_operators :: opidentities
  sv_audit_wired :: bool

record svc_io =
  xi_enqueue :: io
  xi_decide :: io
  xi_mark :: io
  xi_claim :: io
  xi_record :: io
  xi_bounce :: io

record mailroom =
  mr_sluice :: sluice
  mr_inbound :: inbound
  mr_sent :: "(string \<times> message) list"

datatype svc_err = SvSluice sluice_err | SvChain run_err | SvUnknownApprover string | SvUnknownInbox string
  | SvNoSender string | SvRewrite string | SvNotResendable string status | SvResendInProgress string | SvAckRequired string

datatype bounce_fail = BounceNotConfigured | BounceGenerate | BounceSign | BounceStore in_err

datatype warn = NoWarn | WarnNoSender | WarnUnknown | WarnTransient | WarnBounced | WarnBounceFailed bounce_fail

record svc_outcome =
  so_id :: string
  so_status :: status
  so_detail :: string
  so_warn :: warn

section \<open>Senders and identities\<close>

definition senderFor :: "'h svc \<Rightarrow> string \<Rightarrow> sender option" where
  "senderFor V inbox = map_of (sv_senders V) (NormInbox inbox)"

definition identityOf :: "'h svc \<Rightarrow> string \<Rightarrow> string" where
  "identityOf V inbox = (case map_of (sv_identities V) (NormInbox inbox) of None \<Rightarrow> '''' | Some i \<Rightarrow> i)"

definition svc_Inboxes :: "'h svc \<Rightarrow> (string \<times> string) list" where
  "svc_Inboxes V = sort_key fst (map (\<lambda>e. (NormInbox (fst e), snd e)) (filter (\<lambda>e. snd e \<noteq> '''') (sv_identities V)))"

definition errNoSender :: "string \<Rightarrow> send_error" where
  "errNoSender inbox = (text_error (''admin: inbox has no configured sender: '' @ NormInbox inbox))\<lparr>se_nosender := True\<rparr>"

text \<open>A message handed to a sender is logged, whatever the sender answers.\<close>

definition sendVia :: "'h svc \<Rightarrow> string \<Rightarrow> message \<Rightarrow> mailroom \<Rightarrow> send_error option \<times> mailroom" where
  "sendVia V inbox m s = (case senderFor V inbox of
       None \<Rightarrow> (Some (errNoSender inbox), s)
     | Some send \<Rightarrow> (send m, s\<lparr>mr_sent := mr_sent s @ [(NormInbox inbox, m)]\<rparr>))"

definition rewriteFrom :: "'h textproto \<Rightarrow> bytes \<Rightarrow> string \<Rightarrow> bytes option" where
  "rewriteFrom T raw identity = (case tp_read T raw of
       None \<Rightarrow> None
     | Some (hdr, body) \<Rightarrow> map_option (\<lambda>h. h @ body) (tp_write T (tp_set T ''From'' identity hdr)))"

section \<open>Bounces\<close>

definition deliverBounce ::
  "'h svc \<Rightarrow> io \<Rightarrow> message \<Rightarrow> string \<Rightarrow> bool \<Rightarrow> mailroom \<Rightarrow> bounce_fail option \<times> mailroom" where
  "deliverBounce V io m reason retryable s = (
     if \<not> sv_inbox_wired V then (Some BounceNotConfigured, s)
     else case sv_sign V of
       None \<Rightarrow> (Some BounceNotConfigured, s)
     | Some sign \<Rightarrow> (case bounce_Generate (sv_mw V) (sv_date V) m reason retryable (sv_domain V) of
         None \<Rightarrow> (Some BounceGenerate, s)
       | Some b \<Rightarrow> (case sign (bn_raw b) of
           None \<Rightarrow> (Some BounceSign, s)
         | Some data \<Rightarrow>
             (case in_AddGenerated (sv_in V) io (sv_now V)
                \<lparr>dl_owner = bn_owner b, dl_inbox = bn_inbox b, dl_from = bn_from b, dl_to = bn_to b,
                 dl_subject = bn_subject b, dl_raw = data, dl_upstream_uid = 0, dl_uid_validity = 0,
                 dl_envelope = None, dl_size = 0, dl_keywords = []\<rparr> (mr_inbound s) of
                (Inl e, t) \<Rightarrow> (Some (BounceStore e), s\<lparr>mr_inbound := t\<rparr>)
              | (Inr _, t) \<Rightarrow> (None, s\<lparr>mr_inbound := t\<rparr>)))))"

section \<open>Deciding\<close>

text \<open>The stages of the chain, the human ones carrying the verdict of the call.\<close>

fun mk_stages :: "'h svc \<Rightarrow> verdict \<Rightarrow> string list \<Rightarrow> svc_err + approver list" where
  "mk_stages V human [] = Inr []"
| "mk_stages V human (n # ns) = (case approver_New (sv_registry V) n of
       None \<Rightarrow> Inl (SvUnknownApprover n)
     | Some a \<Rightarrow> (case mk_stages V human ns of
           Inl e \<Rightarrow> Inl e
         | Inr as \<Rightarrow> Inr ((if sv_human V n then manual_SetVerdict human a else a) # as)))"

definition with_sluice :: "mailroom \<Rightarrow> (sluice_err + message) \<times> sluice \<Rightarrow> (svc_err + message) \<times> mailroom" where
  "with_sluice s r = (map_sum SvSluice id (fst r), s\<lparr>mr_sluice := snd r\<rparr>)"

definition svc_decide ::
  "'h svc \<Rightarrow> io \<Rightarrow> string \<Rightarrow> verdict \<Rightarrow> string \<Rightarrow> string \<Rightarrow> mailroom \<Rightarrow> (svc_err + message) \<times> mailroom" where
  "svc_decide V io mid human asInbox actor s = (case sluice_Get (mr_sluice s) mid of
       Inl e \<Rightarrow> (Inl (SvSluice e), s)
     | Inr msg \<Rightarrow>
         if m_status msg \<noteq> Pending then (Inl (SvSluice (ErrNotPending mid (m_status msg))), s)
         else case mk_stages V human (snd (router_Select (sv_router V) None)) of
           Inl e \<Rightarrow> (Inl e, s)
         | Inr stages \<Rightarrow> (case approver_Run msg stages of
             (oc, Some e) \<Rightarrow> (Inl (SvChain e), s)
           | (oc, None) \<Rightarrow> (case oc_disposition oc of
               DApprove \<Rightarrow> with_sluice s
                 (sluice_Approve io mid (oc_decided_by oc) (oc_released oc) asInbox actor (mr_sluice s))
             | DReject \<Rightarrow> with_sluice s
                 (sluice_Reject io mid (oc_decided_by oc) (oc_reason oc) (oc_retryable oc) actor (mr_sluice s))
             | _ \<Rightarrow> (Inr msg, s))))"

section \<open>Approving and sending\<close>

definition em_dash :: string where
  "em_dash = map char_of [226 :: nat, 128, 148]"

text \<open>What becomes of a send's answer: the detail and the warning, with a bounce for a permanent refusal.\<close>

definition send_outcome ::
  "'h svc \<Rightarrow> io \<Rightarrow> message \<Rightarrow> send_error option \<Rightarrow> string \<Rightarrow> string \<Rightarrow> string \<Rightarrow> svc_outcome \<Rightarrow> mailroom \<Rightarrow> svc_outcome \<times> mailroom" where
  "send_outcome V io m sendErr sent pending detail out s = (case sendErr of
       None \<Rightarrow> (out\<lparr>so_detail := sent\<rparr>, s)
     | Some e \<Rightarrow>
         if se_pending e then (out\<lparr>so_detail := pending\<rparr>, s)
         else if se_nosender e then (out\<lparr>so_detail := detail, so_warn := WarnNoSender\<rparr>, s)
         else if se_unknown e then (out\<lparr>so_detail := detail, so_warn := WarnUnknown\<rparr>, s)
         else if IsPermanent sendErr then
           (case deliverBounce V io m ''upstream delivery failed permanently'' False s of
              (Some f, t) \<Rightarrow> (out\<lparr>so_detail := detail, so_warn := WarnBounceFailed f\<rparr>, t)
            | (None, t) \<Rightarrow> (out\<lparr>so_detail := detail, so_warn := WarnBounced\<rparr>, t))
         else (out\<lparr>so_detail := detail, so_warn := WarnTransient\<rparr>, s))"

text \<open>The message as it goes out: under an inbox's identity its envelope sender and its From header are
  rewritten, the stored record is not.\<close>

definition send_as :: "string \<Rightarrow> bytes \<Rightarrow> message \<Rightarrow> message" where
  "send_as identity rewritten m = m\<lparr>m_from := identity, m_released := Some rewritten\<rparr>"

text \<open>The checks of an approval under another inbox, before anything is committed: its identity and the
  rewritten message.\<close>

definition approve_as_checks :: "'h svc \<Rightarrow> string \<Rightarrow> string \<Rightarrow> mailroom \<Rightarrow> svc_err + (string \<times> bytes)" where
  "approve_as_checks V mid asInbox s = (
     let identity = identityOf V asInbox in
     if identity = '''' then Inl (SvUnknownInbox asInbox)
     else if senderFor V asInbox = None then Inl (SvNoSender (NormInbox asInbox))
     else case sluice_Get (mr_sluice s) mid of
       Inl e \<Rightarrow> Inl (SvSluice e)
     | Inr m \<Rightarrow>
         if m_status m \<noteq> Pending then Inl (SvSluice (ErrNotPending mid (m_status m)))
         else case rewriteFrom (ie_tp (sv_in V)) (send_body m) identity of
             None \<Rightarrow> Inl (SvRewrite identity)
           | Some r \<Rightarrow> Inr (identity, r))"

definition approve_verdict :: verdict where
  "approve_verdict = verdict_zero\<lparr>vd_disposition := DApprove\<rparr>"

text \<open>After the commit: hand over, record, report.\<close>

definition send_recorded ::
  "'h svc \<Rightarrow> svc_io \<Rightarrow> string \<Rightarrow> message \<Rightarrow> message \<Rightarrow> bool \<Rightarrow> string \<Rightarrow> string \<Rightarrow> mailroom
     \<Rightarrow> (svc_err + (send_error option \<times> message)) \<times> mailroom" where
  "send_recorded V x inbox m out resend actor identity s = (
     let (sendErr, s1) = sendVia V inbox out s
     in case sluice_RecordSendAttempt (xi_record x) (m_id m) sendErr resend actor identity (mr_sluice s1) of
          (Inl e, t) \<Rightarrow> (Inl (SvSluice e), s1\<lparr>mr_sluice := t\<rparr>)
        | (Inr final, t) \<Rightarrow> (Inr (sendErr, final), s1\<lparr>mr_sluice := t\<rparr>))"

definition svc_approve ::
  "'h svc \<Rightarrow> svc_io \<Rightarrow> string \<Rightarrow> string \<Rightarrow> string \<Rightarrow> mailroom \<Rightarrow> (svc_err + svc_outcome) \<times> mailroom" where
  "svc_approve V x mid asInbox actor s = (
     case (if asInbox = '''' then Inr ('''', []) else approve_as_checks V mid asInbox s) of
       Inl e \<Rightarrow> (Inl e, s)
     | Inr (identity, rewritten) \<Rightarrow> (case svc_decide V (xi_decide x) mid approve_verdict asInbox actor s of
         (Inl e, t) \<Rightarrow> (Inl e, t)
       | (Inr m, t) \<Rightarrow>
           if m_status m \<noteq> Approved then
             (Inr \<lparr>so_id = m_id m, so_status = m_status m, so_detail = ''no verdict applied'', so_warn = NoWarn\<rparr>, t)
           else
             let (inbox, out) = (if asInbox = '''' then (m_inbox m, m) else (asInbox, send_as identity rewritten m))
             in case send_recorded V x inbox m out False actor identity t of
                 (Inl e, u) \<Rightarrow> (Inl e, u)
               | (Inr (sendErr, final), u) \<Rightarrow>
                   (case send_outcome V (xi_bounce x) m sendErr
                      (if identity \<noteq> '''' then ''approved and sent upstream as '' @ identity else ''approved and sent upstream'')
                      (''approved; no real Sender configured '' @ em_dash @ '' nothing left Darbaan'') (''approved by '' @ m_decided_by m)
                      \<lparr>so_id = m_id m, so_status = m_status final, so_detail = '''', so_warn = NoWarn\<rparr> u
                    of (o', w) \<Rightarrow> (Inr o', w))))"

definition svc_ApproveID :: "'h svc \<Rightarrow> svc_io \<Rightarrow> string \<Rightarrow> string \<Rightarrow> mailroom \<Rightarrow> (svc_err + svc_outcome) \<times> mailroom" where
  "svc_ApproveID V x mid actor s = svc_approve V x mid '''' actor s"

definition svc_ApproveAs :: "'h svc \<Rightarrow> svc_io \<Rightarrow> string \<Rightarrow> string \<Rightarrow> string \<Rightarrow> mailroom \<Rightarrow> (svc_err + svc_outcome) \<times> mailroom" where
  "svc_ApproveAs V x mid asInbox actor s = svc_approve V x mid asInbox actor s"

section \<open>Re-sending\<close>

definition claim_error :: "string \<Rightarrow> message \<Rightarrow> sluice_err \<Rightarrow> svc_err" where
  "claim_error mid m e = (case e of
       ErrResendInProgress \<Rightarrow> SvResendInProgress mid
     | ErrAckRequired \<Rightarrow> SvAckRequired mid
     | ErrNotResendable i st \<Rightarrow> SvNotResendable mid (m_status m)
     | _ \<Rightarrow> SvSluice e)"

text \<open>The inbox and the message to send again, recomputed from the recorded choice.\<close>

definition resend_target :: "'h svc \<Rightarrow> message \<Rightarrow> svc_err + (string \<times> message \<times> string)" where
  "resend_target V m = (if m_as_inbox m = '''' then Inr (m_inbox m, m, '''')
     else let identity = identityOf V (m_as_inbox m) in
       if identity = '''' then Inl (SvUnknownInbox (m_as_inbox m))
       else case rewriteFrom (ie_tp (sv_in V)) (send_body m) identity of
           None \<Rightarrow> Inl (SvRewrite identity)
         | Some r \<Rightarrow> Inr (m_as_inbox m, send_as identity r m, identity))"

definition svc_ReSend :: "'h svc \<Rightarrow> svc_io \<Rightarrow> string \<Rightarrow> bool \<Rightarrow> string \<Rightarrow> mailroom \<Rightarrow> (svc_err + svc_outcome) \<times> mailroom" where
  "svc_ReSend V x mid ack actor s = (case sluice_Get (mr_sluice s) mid of
       Inl e \<Rightarrow> (Inl (SvSluice e), s)
     | Inr m \<Rightarrow>
         if m_status m \<noteq> Approved \<or> m_send_err m = '''' then (Inl (SvNotResendable mid (m_status m)), s)
         else case resend_target V m of
           Inl e \<Rightarrow> (Inl e, s)
         | Inr (inbox, out, identity) \<Rightarrow>
             (case sluice_ClaimResend (xi_claim x) (sv_now V) (m_id m) actor ack (mr_sluice s) of
                (Inl e, t) \<Rightarrow> (Inl (claim_error mid m e), s\<lparr>mr_sluice := t\<rparr>)
              | (Inr _, t) \<Rightarrow>
                  (case send_recorded V x inbox m out True actor identity (s\<lparr>mr_sluice := t\<rparr>) of
                     (Inl e, u) \<Rightarrow> (Inl e, u)
                   | (Inr (sendErr, final), u) \<Rightarrow>
                       (case send_outcome V (xi_bounce x) m sendErr ''re-sent upstream''
                          (''re-send: no real Sender configured '' @ em_dash @ '' nothing left Darbaan'') ''re-send attempted''
                          \<lparr>so_id = m_id m, so_status = m_status final, so_detail = '''', so_warn = NoWarn\<rparr> u
                        of (o', w) \<Rightarrow> (Inr o', w)))))"

section \<open>Rejecting\<close>

definition svc_RejectID ::
  "'h svc \<Rightarrow> svc_io \<Rightarrow> string \<Rightarrow> string \<Rightarrow> bool \<Rightarrow> string \<Rightarrow> mailroom \<Rightarrow> (svc_err + svc_outcome) \<times> mailroom" where
  "svc_RejectID V x mid reason retryable actor s = (
     case svc_decide V (xi_decide x) mid
       \<lparr>vd_disposition = DReject, vd_reason = reason, vd_retryable = retryable, vd_amended = None\<rparr> '''' actor s of
       (Inl e, t) \<Rightarrow> (Inl e, t)
     | (Inr m, t) \<Rightarrow>
         if m_status m \<noteq> Rejected then
           (Inr \<lparr>so_id = m_id m, so_status = m_status m, so_detail = ''no verdict applied'', so_warn = NoWarn\<rparr>, t)
         else
           let detail = ''rejected by '' @ m_decided_by m @ '' ('' @ (if m_retryable m then ''transient'' else ''permanent'') @ ''): '' @ m_reason m;
               out = \<lparr>so_id = m_id m, so_status = Rejected, so_detail = detail, so_warn = NoWarn\<rparr>
           in case deliverBounce V (xi_bounce x) m (m_reason m) (m_retryable m) t of
               (Some f, u) \<Rightarrow> (Inr (out\<lparr>so_warn := WarnBounceFailed f\<rparr>), u)
             | (None, u) \<Rightarrow> (Inr (out\<lparr>so_detail := detail @ ''; bounce delivered''\<rparr>), u))"

section \<open>The bypass\<close>

definition bypassDecidedBy :: string where
  "bypassDecidedBy = ''operator-identity bypass (ADR 0034)''"

definition bypassAuditEvent :: string where
  "bypassAuditEvent = ''bypass''"

definition bypassDetail :: "string list \<Rightarrow> string" where
  "bypassDetail matched = ''every recipient is an operator identity: '' @ join '', '' (take 5 matched)
     @ (if length matched > 5 then '' (+'' @ fmt_uint (length matched - 5) @ '' more)'' else '''')"

definition svc_Bypass ::
  "'h svc \<Rightarrow> svc_io \<Rightarrow> string \<Rightarrow> string list \<Rightarrow> mailroom \<Rightarrow> (svc_err + message) \<times> mailroom" where
  "svc_Bypass V x mid matched s = (
     case sluice_Approve (xi_decide x) mid bypassDecidedBy None '''' '''' (mr_sluice s) of
       (Inl e, t) \<Rightarrow> (Inl (SvSluice e), s\<lparr>mr_sluice := t\<rparr>)
     | (Inr m, t) \<Rightarrow>
         let t' = (if sv_audit_wired V then writeAudit (xi_mark x)
              \<lparr>ar_event = bypassAuditEvent, ar_agent = m_agent m, ar_inbox = m_inbox m, ar_actor = '''',
               ar_message_id = m_id m, ar_detail = bypassDetail matched, ar_retryable = None\<rparr> t else t)
         in case send_recorded V x (m_inbox m) m m False '''' '''' (s\<lparr>mr_sluice := t'\<rparr>) of
             (Inl e, u) \<Rightarrow> (Inl e, u)
           | (Inr (sendErr, final), u) \<Rightarrow> (Inr final, u))"

text \<open>\<open>operatorBypassQueue.Enqueue\<close>: the queue the SMTP face submits to.\<close>

definition bypass_Enqueue ::
  "'h svc \<Rightarrow> (bytes \<Rightarrow> string) \<Rightarrow> svc_io \<Rightarrow> submission \<Rightarrow> mailroom \<Rightarrow> (svc_err + message) \<times> mailroom" where
  "bypass_Enqueue V subj x sub s = (
     case sluice_Enqueue subj (xi_enqueue x) (sv_now V) sub (mr_sluice s) of
       (Inl e, t) \<Rightarrow> (Inl (SvSluice e), s\<lparr>mr_sluice := t\<rparr>)
     | (Inr msg, t) \<Rightarrow>
         let s1 = s\<lparr>mr_sluice := t\<rparr>
         in case op_AllMatch (ie_codecs (sv_in V)) (sv_operators V) (m_rcpt msg) of
             None \<Rightarrow> (Inr msg, s1)
           | Some matched \<Rightarrow> (case svc_Bypass V x (m_id msg) matched s1 of
               (Inl e, u) \<Rightarrow> (Inr msg, u)
             | (Inr released, u) \<Rightarrow> (Inr released, u)))"

section \<open>What one store call clears for sending\<close>

abbreviation decided :: "message \<Rightarrow> bool" where
  "decided m \<equiv> m_status m \<in> {Approved, Sent}"

text \<open>Between two states of the queue no message has become decided unless \<open>P\<close> holds of its id, its
  recipients and who decided it.\<close>

definition ident :: "message \<Rightarrow> string \<times> string list \<times> string" where
  "ident m = (m_id m, m_rcpt m, m_decided_by m)"

definition clears :: "(string \<times> string list \<times> string \<Rightarrow> bool) \<Rightarrow> sluice \<Rightarrow> sluice \<Rightarrow> bool" where
  "clears P s t \<longleftrightarrow> sl_good s t \<and> (\<forall>key r'. b_get (sl_bucket t) key = Some r' \<longrightarrow> decided (st_msg r') \<longrightarrow>
     (\<exists>r. b_get (sl_bucket s) key = Some r \<and> decided (st_msg r)) \<or> P (ident (st_msg r')))"

lemma clears_good: "clears P s t \<Longrightarrow> sl_good s t"
  by (simp add: clears_def)

lemma clears_mono: "clears P s t \<Longrightarrow> (\<And>x. P x \<Longrightarrow> Q x) \<Longrightarrow> clears Q s t"
  unfolding clears_def by blast

lemma decided_ident: "msg_step\<^sup>*\<^sup>* m m' \<Longrightarrow> msg_ok m \<Longrightarrow> decided m \<Longrightarrow> ident m' = ident m"
  using msg_steps_submitted [of m m'] msg_steps_decision [of m m'] by (auto simp: submitted_def decision_def ident_def)

lemma rel_rec:
  assumes "sl_rel s t" "b_get (sl_bucket s) key = Some r"
  obtains r' where "b_get (sl_bucket t) key = Some r'" "rec_rel s t r r'"
  using assms unfolding sl_rel_def by blast

lemma clears_trans:
  assumes "clears P s t" "clears P t u" "sl_inv s"
  shows "clears P s u"
  unfolding clears_def
proof (intro conjI allI impI)
  show "sl_good s u" using assms clears_good good_trans by blast
next
  fix key r'' assume r'': "b_get (sl_bucket u) key = Some r''" "decided (st_msg r'')"
  with assms(2) consider r where "b_get (sl_bucket t) key = Some r" "decided (st_msg r)" | "P (ident (st_msg r''))"
    unfolding clears_def by blast
  then show "(\<exists>r. b_get (sl_bucket s) key = Some r \<and> decided (st_msg r)) \<or> P (ident (st_msg r''))"
  proof cases
    case 1
    have t: "sl_inv t" "sl_rel t u" using assms clears_good by (auto simp: sl_good_def)
    have "msg_ok (st_msg r)" using sl_inv_rec [OF t(1) 1(1)] by (simp add: rec_ok_def)
    moreover have "msg_step\<^sup>*\<^sup>* (st_msg r) (st_msg r'')"
      using rel_rec [OF t(2) 1(1)] r''(1) by (metis option.inject rec_rel_def)
    ultimately have "ident (st_msg r'') = ident (st_msg r)" using decided_ident 1(2) by blast
    then show ?thesis using assms(1) 1 unfolding clears_def by metis
  qed simp
qed

lemma clears_update:
  assumes "sl_good s t" "sl_bucket t = sl_bucket s \<or>
     (\<exists>key r r'. b_get (sl_bucket s) key = Some r \<and> sl_bucket t = b_put key r' (sl_bucket s)
        \<and> (decided (st_msg r') \<longrightarrow> decided (st_msg r) \<or> P (ident (st_msg r'))))"
  shows "clears P s t"
  using assms unfolding clears_def by (auto split: if_splits)

lemma clears_put:
  assumes "sl_good s t" "b_get (sl_bucket s) key = Some r" "sl_bucket t = b_put key r' (sl_bucket s)"
    "decided (st_msg r') \<longrightarrow> decided (st_msg r) \<or> P (ident (st_msg r'))"
  shows "clears P s t"
  by (rule clears_update [OF assms(1)], rule disjI2, rule exI [of _ key], rule exI [of _ r], rule exI [of _ r'])
    (intro conjI assms)

lemma clears_refl: "sl_inv s \<Longrightarrow> clears P s s"
  by (rule clears_update) (simp_all add: good_refl)

lemma clears_same: "sl_inv s \<Longrightarrow> sl_bucket t = sl_bucket s \<Longrightarrow> sl_blobs t = sl_blobs s \<Longrightarrow> clears P s t"
  by (rule clears_update) (simp_all add: good_same)

abbreviation nobody :: "string \<times> string list \<times> string \<Rightarrow> bool" where
  "nobody \<equiv> \<lambda>x. False"

lemma clears_Record:
  assumes "sl_inv s" shows "clears nobody s (snd (sluice_RecordSendAttempt io mid e resend actor ident' s))"
  by (rule clears_update [OF Record_good [OF assms]])
    (auto simp: sluice_RecordSendAttempt_def Let_def dest!: loadStored_get split: sum.split prod.split)

lemma clears_Claim:
  assumes "sl_inv s" shows "clears nobody s (snd (sluice_ClaimResend io now mid actor ack s))"
  by (rule clears_update [OF Claim_good [OF assms]])
    (auto simp: sluice_ClaimResend_def Let_def dest!: loadStored_get split: sum.split prod.split)

lemma transition_bucket:
  "sl_bucket (snd (transitionFromPending io mid ev detail actor rt mutate s)) = sl_bucket s \<or>
    (\<exists>key r. loadStored s mid = Inr (r, key) \<and> m_status (st_msg r) = Pending
       \<and> sl_bucket (snd (transitionFromPending io mid ev detail actor rt mutate s)) = b_put key (r\<lparr>st_msg := mutate (st_msg r)\<rparr>) (sl_bucket s))"
  by (auto simp: transitionFromPending_def Let_def split: sum.split prod.split)

lemma clears_Reject:
  assumes "sl_inv s" shows "clears nobody s (snd (sluice_Reject io mid who reason rt actor s))"
proof (rule clears_update [OF Reject_good [OF assms]])
  from transition_bucket [of io mid "''reject''" reason actor "Some rt" "reject_mutate who reason rt" s]
  show "sl_bucket (snd (sluice_Reject io mid who reason rt actor s)) = sl_bucket s \<or>
     (\<exists>key r r'. b_get (sl_bucket s) key = Some r \<and> sl_bucket (snd (sluice_Reject io mid who reason rt actor s)) = b_put key r' (sl_bucket s)
        \<and> (decided (st_msg r') \<longrightarrow> decided (st_msg r) \<or> nobody (ident (st_msg r'))))"
    unfolding sluice_Reject_def [symmetric] by (fastforce dest: loadStored_get simp: reject_mutate_def)
qed

lemma clears_Approve:
  assumes "sl_inv s"
  shows "clears (\<lambda>(i, rc, w). w = who \<and> (\<exists>m. stored_msg s mid = Some m \<and> m_status m = Pending \<and> m_id m = i \<and> m_rcpt m = rc))
    s (snd (sluice_Approve io mid who rel asi actor s))"
proof (rule clears_update [OF Approve_good [OF assms]])
  from transition_bucket [of io mid "''approve''" who actor None "approve_mutate who rel asi" s]
  show "sl_bucket (snd (sluice_Approve io mid who rel asi actor s)) = sl_bucket s \<or>
     (\<exists>key r r'. b_get (sl_bucket s) key = Some r \<and> sl_bucket (snd (sluice_Approve io mid who rel asi actor s)) = b_put key r' (sl_bucket s)
        \<and> (decided (st_msg r') \<longrightarrow> decided (st_msg r) \<or>
          (\<lambda>(i, rc, w). w = who \<and> (\<exists>m. stored_msg s mid = Some m \<and> m_status m = Pending \<and> m_id m = i \<and> m_rcpt m = rc)) (ident (st_msg r'))))"
    unfolding sluice_Approve_def [symmetric]
    by (fastforce dest: loadStored_get simp: approve_mutate_def stored_msg_def ident_def)
qed

lemma clears_Enqueue:
  assumes "sl_inv s" "unat (bseq (sl_bucket s)) + 1 < 2 ^ 64"
  shows "clears nobody s (snd (sluice_Enqueue subj io now sub s))"
  using Enqueue_good [OF assms] unfolding clears_def
  by (cases rule: Enqueue_cases [of subj io now sub s]) (auto simp: new_message_def split: if_splits)

lemma clears_reconcile: "sl_inv s \<Longrightarrow> clears nobody s (snd (reconcile_loop rfc ios ids s))"
proof (induction rfc ios ids s rule: reconcile_loop.induct)
  case (2 rfc ios mid ids s)
  show ?case
  proof (cases "loadStored s mid")
    case (Inr p)
    obtain r key where p: "p = (r, key)" by (cases p)
    show ?thesis
    proof (cases "m_claim (st_msg r)")
      case (Some c)
      let ?out = "(st_msg r)\<lparr>m_claim := None, m_send_err := OutcomeUnknown ReasonResendInterrupted\<rparr>"
      let ?t = "writeAudit (ios mid) (interrupted_audit rfc mid ?out c) (putStored key (r\<lparr>st_msg := ?out\<rparr>) s)"
      have g: "sl_good s ?t"
        by (rule good_update [OF 2(2) Inr [unfolded p] msg_step.interrupted [OF Some]]) simp_all
      then have t: "clears nobody s ?t"
        by (rule clears_put [OF _ loadStored_get [THEN conjunct1, OF Inr [unfolded p]]]) auto
      show ?thesis
      proof (cases "io_commit (ios mid)")
        case True
        then have "clears nobody ?t (snd (reconcile_loop rfc ios ids ?t))"
          using 2(1) [OF Inr p [symmetric] Some refl] g by (simp add: sl_good_def)
        then show ?thesis using clears_trans [OF t _ 2(2)] Inr p Some True by (simp add: Let_def)
      qed (use Inr p Some 2(2) clears_refl in \<open>simp add: Let_def\<close>)
    qed (use Inr p 2(2) clears_refl in simp)
  qed (use 2(2) clears_refl in simp)
qed (simp add: clears_refl)

lemma clears_open: "sl_inv s \<Longrightarrow> clears nobody s (snd (sluice_open rfc ios db mk rd rm_ok path s))"
proof -
  assume inv: "sl_inv s"
  obtain e t where t: "sluice_sweepOrphans rd rm_ok s = (e, t)" by fastforce
  have g: "sl_good s t" "sl_bucket t = sl_bucket s" using sweep_good [OF inv, of rd rm_ok] sweep_bucket [of rd rm_ok s] t by simp_all
  then have c: "clears nobody s t" by (intro clears_update) auto
  have "clears nobody t (snd (reconcileClaims rfc ios t))"
    unfolding reconcileClaims_def using g(1) clears_reconcile by (simp add: sl_good_def)
  from clears_trans [OF c this inv] show ?thesis
    using inv clears_refl c t by (simp add: sluice_open_def split: option.split)
qed

section \<open>Runs of the service\<close>

text \<open>The calls that reach the mailroom: the SMTP face submits, the operator approves, rejects and
  re-sends, the mailbox changes by itself, and the process restarts on the same files. Each call brings its
  own configuration and its own third parties.\<close>

datatype 'h mr_op =
    MSubmit "'h svc" svc_io submission
  | MApprove "'h svc" svc_io string string string
  | MReject "'h svc" svc_io string string bool string
  | MReSend "'h svc" svc_io string bool string
  | MReopen "string \<Rightarrow> io" bool bool bool "string \<Rightarrow> bool" string
  | MMail "'h in_env" in_op

fun mr_exec :: "(bytes \<Rightarrow> string) \<Rightarrow> (time \<Rightarrow> string) \<Rightarrow> mailroom \<Rightarrow> 'h mr_op \<Rightarrow> mailroom" where
  "mr_exec subj rfc s (MSubmit V x sub) = snd (bypass_Enqueue V subj x sub s)"
| "mr_exec subj rfc s (MApprove V x mid asi actor) = snd (svc_approve V x mid asi actor s)"
| "mr_exec subj rfc s (MReject V x mid reason rt actor) = snd (svc_RejectID V x mid reason rt actor s)"
| "mr_exec subj rfc s (MReSend V x mid ack actor) = snd (svc_ReSend V x mid ack actor s)"
| "mr_exec subj rfc s (MReopen ios db mk rd rm_ok path) =
     s\<lparr>mr_sluice := snd (sluice_open rfc ios db mk rd rm_ok path (mr_sluice s))\<rparr>"
| "mr_exec subj rfc s (MMail E x) = s\<lparr>mr_inbound := in_exec E (mr_inbound s) x\<rparr>"

definition mailroom_empty :: mailroom where
  "mailroom_empty = \<lparr>mr_sluice = sluice_empty, mr_inbound = inbound_new, mr_sent = []\<rparr>"

text \<open>What entitles a message to leave: a run of the configured chain that approves it, in a call of the
  operator, or the bypass matching every recipient.\<close>

definition chain_approves :: "'h svc \<Rightarrow> verdict \<Rightarrow> string \<times> string list \<times> string \<Rightarrow> bool" where
  "chain_approves V v = (\<lambda>(i, rc, w). \<exists>msg stages oc. m_id msg = i \<and> m_rcpt msg = rc
     \<and> mk_stages V v (snd (router_Select (sv_router V) None)) = Inr stages
     \<and> approver_Run msg stages = (oc, None) \<and> oc_disposition oc = DApprove \<and> oc_decided_by oc = w)"

definition reject_verdict :: "string \<Rightarrow> bool \<Rightarrow> verdict" where
  "reject_verdict reason rt = \<lparr>vd_disposition = DReject, vd_reason = reason, vd_retryable = rt, vd_amended = None\<rparr>"

fun authorises :: "'h mr_op \<Rightarrow> string \<times> string list \<times> string \<Rightarrow> bool" where
  "authorises (MSubmit V x sub) (i, rc, w) \<longleftrightarrow> w = bypassDecidedBy
     \<and> op_AllMatch (ie_codecs (sv_in V)) (sv_operators V) rc \<noteq> None"
| "authorises (MApprove V x mid asi actor) y \<longleftrightarrow> chain_approves V approve_verdict y"
| "authorises (MReject V x mid reason rt actor) y \<longleftrightarrow> chain_approves V (reject_verdict reason rt) y"
| "authorises _ y \<longleftrightarrow> False"

text \<open>A message handed to a sender is live when the store holds it, decided, with these recipients and bytes.\<close>

definition live :: "sluice \<Rightarrow> message \<Rightarrow> bool" where
  "live S out \<longleftrightarrow> (\<exists>key r m. b_get (sl_bucket S) key = Some r \<and> withRaw S r = Inr m \<and> decided m
     \<and> m_id m = m_id out \<and> m_agent m = m_agent out \<and> m_rcpt m = m_rcpt out \<and> m_raw m = m_raw out)"

lemma withRaw_sel:
  "withRaw s r = Inr m \<Longrightarrow> m_id m = m_id (st_msg r) \<and> m_rcpt m = m_rcpt (st_msg r) \<and> m_agent m = m_agent (st_msg r)
     \<and> m_status m = m_status (st_msg r) \<and> m_decided_by m = m_decided_by (st_msg r)"
  by (auto simp: withRaw_def split: if_splits sum.splits)


lemma live_good:
  assumes "live S out" "sl_inv S" "sl_good S T" shows "live T out"
proof -
  obtain key r m where r: "b_get (sl_bucket S) key = Some r" "withRaw S r = Inr m" "decided m"
    "m_id m = m_id out" "m_agent m = m_agent out" "m_rcpt m = m_rcpt out" "m_raw m = m_raw out"
    using assms(1) unfolding live_def by blast
  obtain r' where r': "b_get (sl_bucket T) key = Some r'" "rec_rel S T r r'"
    using rel_rec assms(3) r(1) unfolding sl_good_def by blast
  have ok: "rec_ok S key r" "rec_ok T key r'" using sl_inv_rec assms r(1) r'(1) sl_good_def by blast+
  then obtain m' where m': "withRaw T r' = Inr m'" using rec_ok_withRaw by blast
  have steps: "msg_step\<^sup>*\<^sup>* (st_msg r) (st_msg r')" using r'(2) by (simp add: rec_rel_def)
  have sub: "submitted (st_msg r') = submitted (st_msg r)" by (rule msg_steps_submitted [OF steps])
  have dec: "decided (st_msg r')" using msg_steps_decided [OF steps] r(2,3) withRaw_sel by metis
  have "m_raw m' = m_raw m"
    using r'(2) r(2) m' sub
    by (auto simp: rec_rel_def withRaw_def blob_Get_def submitted_def split: if_splits option.splits sum.splits)
  then show ?thesis
    unfolding live_def using r r'(1) m' dec sub withRaw_sel [OF r(2)] withRaw_sel [OF m']
    by (intro exI [of _ key] exI [of _ r'] exI [of _ m']) (simp add: submitted_def)
qed

text \<open>What one call of the service may do: clear messages of which \<open>P\<close> holds, and hand over live ones.\<close>

definition mr_good :: "(string \<times> string list \<times> string \<Rightarrow> bool) \<Rightarrow> mailroom \<Rightarrow> mailroom \<Rightarrow> bool" where
  "mr_good P s t \<longleftrightarrow> clears P (mr_sluice s) (mr_sluice t)
     \<and> (\<exists>new. mr_sent t = mr_sent s @ new \<and> (\<forall>e \<in> set new. live (mr_sluice t) (snd e)))"

abbreviation mr_inv :: "mailroom \<Rightarrow> bool" where
  "mr_inv s \<equiv> sl_inv (mr_sluice s)"

lemma mr_good_inv: "mr_good P s t \<Longrightarrow> mr_inv t"
  using clears_good by (auto simp: mr_good_def sl_good_def)

lemma mr_good_mono: "mr_good P s t \<Longrightarrow> (\<And>x. P x \<Longrightarrow> Q x) \<Longrightarrow> mr_good Q s t"
  unfolding mr_good_def using clears_mono by blast

lemma mr_good_trans:
  assumes "mr_good P s t" "mr_good P t u" "mr_inv s" shows "mr_good P s u"
proof -
  obtain new new' where n: "mr_sent t = mr_sent s @ new" "\<forall>e \<in> set new. live (mr_sluice t) (snd e)"
    "mr_sent u = mr_sent t @ new'" "\<forall>e \<in> set new'. live (mr_sluice u) (snd e)"
    using assms unfolding mr_good_def by blast
  have "sl_inv (mr_sluice t)" "sl_good (mr_sluice t) (mr_sluice u)"
    using assms(1,2) clears_good by (auto simp: mr_good_def sl_good_def)
  then have "\<forall>e \<in> set (new @ new'). live (mr_sluice u) (snd e)" using n live_good by auto
  moreover have "mr_sent u = mr_sent s @ (new @ new')" using n by simp
  moreover have "clears P (mr_sluice s) (mr_sluice u)" using assms clears_trans by (auto simp: mr_good_def)
  ultimately show ?thesis unfolding mr_good_def by blast
qed

lemma mr_good_sluice: "clears P (mr_sluice s) (mr_sluice t) \<Longrightarrow> mr_sent t = mr_sent s \<Longrightarrow> mr_good P s t"
  by (simp add: mr_good_def)

lemma mr_good_same: "mr_inv s \<Longrightarrow> mr_sluice t = mr_sluice s \<Longrightarrow> mr_sent t = mr_sent s \<Longrightarrow> mr_good P s t"
  by (simp add: mr_good_sluice clears_refl)

lemma deliverBounce_sel [simp]:
  "mr_sluice (snd (deliverBounce V io m reason rt s)) = mr_sluice s" "mr_sent (snd (deliverBounce V io m reason rt s)) = mr_sent s"
  by (auto simp: deliverBounce_def split: option.split prod.split sum.split)

lemma send_outcome_sel [simp]:
  "mr_sluice (snd (send_outcome V io m e sent pend detail out s)) = mr_sluice s"
  "mr_sent (snd (send_outcome V io m e sent pend detail out s)) = mr_sent s"
proof -
  obtain f t where t: "deliverBounce V io m ''upstream delivery failed permanently'' False s = (f, t)" by fastforce
  then have "mr_sluice t = mr_sluice s" "mr_sent t = mr_sent s"
    using deliverBounce_sel [of V io m "''upstream delivery failed permanently''" False s] by simp_all
  then show "mr_sluice (snd (send_outcome V io m e sent pend detail out s)) = mr_sluice s"
    "mr_sent (snd (send_outcome V io m e sent pend detail out s)) = mr_sent s"
    by (simp_all add: send_outcome_def t split: option.split)
qed

lemma sendVia_sel: "mr_sluice (snd (sendVia V inbox m s)) = mr_sluice s"
  "\<exists>new. mr_sent (snd (sendVia V inbox m s)) = mr_sent s @ new \<and> (\<forall>e \<in> set new. snd e = m)"
  by (auto simp: sendVia_def split: option.split)

lemma clears_into: "clears nobody s t \<Longrightarrow> clears P s t"
  by (erule clears_mono) simp

lemma send_recorded_good:
  assumes "mr_inv s" "live (mr_sluice s) out"
  shows "mr_good P s (snd (send_recorded V x inbox m out resend actor ident' s))"
proof -
  obtain e s1 where s1: "sendVia V inbox out s = (e, s1)" by fastforce
  obtain new where n: "mr_sent s1 = mr_sent s @ new" "\<forall>e \<in> set new. snd e = out" and sl: "mr_sluice s1 = mr_sluice s"
    using sendVia_sel [of V inbox out s] s1 by auto
  obtain q t where t: "sluice_RecordSendAttempt (xi_record x) (m_id m) e resend actor ident' (mr_sluice s1) = (q, t)" by fastforce
  have c: "clears nobody (mr_sluice s) t"
    using clears_Record [OF assms(1), of "xi_record x" "m_id m" e resend actor ident'] t sl by simp
  moreover have "live t out" using live_good [OF assms(2,1) clears_good [OF c]] .
  ultimately show ?thesis
    using n s1 t clears_into by (auto simp: send_recorded_def mr_good_def split: sum.split)
qed

text \<open>A decision leaves the message it approved live.\<close>

lemma decide_approved:
  assumes "svc_decide V io mid v asi actor s = (Inr m, t)" "m_status m = Approved"
  shows "\<exists>stages oc msg. mk_stages V v (snd (router_Select (sv_router V) None)) = Inr stages \<and> sluice_Get (mr_sluice s) mid = Inr msg
     \<and> approver_Run msg stages = (oc, None) \<and> oc_disposition oc = DApprove
     \<and> sluice_Approve io mid (oc_decided_by oc) (oc_released oc) asi actor (mr_sluice s) = (Inr m, mr_sluice t)"
proof -
  have rej: "m_status m' = Rejected" if "fst (sluice_Reject io mid who reason rt actor S) = Inr m'" for who reason rt S m'
    using that by (auto simp: sluice_Reject_def transitionFromPending_def reject_mutate_def Let_def
        split: sum.splits if_splits prod.splits dest!: withRaw_sel)
  have inr: "q = Inr m' \<longleftrightarrow> map_sum SvSluice id q = Inr m'" for q and m' :: message
    by (cases q) auto
  show ?thesis
    using assms by (auto simp: svc_decide_def with_sluice_def inr [symmetric] prod_eq_iff dest!: rej
        split: sum.splits if_splits prod.splits option.splits disposition.splits)
qed

lemma withRaw_cong: "sl_blobs t = sl_blobs s \<Longrightarrow> withRaw t r = withRaw s r"
  by (simp add: withRaw_def)

lemma mr_good_cong: "mr_good P s u \<Longrightarrow> mr_sluice t = mr_sluice u \<Longrightarrow> mr_sent t = mr_sent u \<Longrightarrow> mr_good P s t"
  by (simp add: mr_good_def)

lemma Approve_live:
  assumes "sluice_Approve io mid who rel asi actor s = (Inr m, t)"
  shows "live t m" and "m_status m = Approved"
proof -
  obtain key r where r: "loadStored s mid = Inr (r, key)" "m_status (st_msg r) = Pending"
    "withRaw (putStored key (r\<lparr>st_msg := approve_mutate who rel asi (st_msg r)\<rparr>) s) (r\<lparr>st_msg := approve_mutate who rel asi (st_msg r)\<rparr>) = Inr m"
    "sl_bucket t = b_put key (r\<lparr>st_msg := approve_mutate who rel asi (st_msg r)\<rparr>) (sl_bucket s)" "sl_blobs t = sl_blobs s"
    using assms by (auto simp: sluice_Approve_def transitionFromPending_def Let_def split: sum.splits if_splits prod.splits)
  show a: "m_status m = Approved" using withRaw_sel [OF r(3)] by (simp add: approve_mutate_def)
  have "withRaw t (r\<lparr>st_msg := approve_mutate who rel asi (st_msg r)\<rparr>) = Inr m"
    unfolding r(3) [symmetric] by (rule withRaw_cong) (simp add: r(5))
  then show "live t m" unfolding live_def using r(4) a by auto
qed

lemma live_send_as [simp]: "live S (send_as identity rewritten m) = live S m"
  by (simp add: live_def send_as_def)

lemma Get_live: "sluice_Get s mid = Inr m \<Longrightarrow> decided m \<Longrightarrow> live s m"
  by (auto simp: sluice_Get_def live_def split: sum.splits dest!: loadStored_get)

lemma Get_stored: "sluice_Get s mid = Inr m \<Longrightarrow> stored_msg s mid = Some x \<Longrightarrow> m_id m = m_id x \<and> m_rcpt m = m_rcpt x"
  by (auto simp: sluice_Get_def stored_msg_def split: sum.splits dest!: withRaw_sel)

lemma decide_good:
  assumes "mr_inv s"
  shows "mr_good (chain_approves V v) s (snd (svc_decide V io mid v asi actor s))"
proof (cases "sluice_Get (mr_sluice s) mid")
  case (Inl e)
  then show ?thesis using assms by (simp add: svc_decide_def mr_good_same)
next
  case (Inr msg)
  show ?thesis
  proof (cases "mk_stages V v (snd (router_Select (sv_router V) None))")
    case (Inl e)
    then show ?thesis using assms Inr by (simp add: svc_decide_def mr_good_same)
  next
    case r: (Inr stages)
    obtain oc err where oc: "approver_Run msg stages = (oc, err)" by fastforce
    let ?A = "snd (sluice_Approve io mid (oc_decided_by oc) (oc_released oc) asi actor (mr_sluice s))"
    let ?R = "snd (sluice_Reject io mid (oc_decided_by oc) (oc_reason oc) (oc_retryable oc) actor (mr_sluice s))"
    have rej: "clears (chain_approves V v) (mr_sluice s) ?R" by (rule clears_into, rule clears_Reject, rule assms)
    have app: "clears (chain_approves V v) (mr_sluice s) ?A" if "err = None" "oc_disposition oc = DApprove"
    proof (rule clears_mono [OF clears_Approve [OF assms]])
      fix y assume y: "case y of (i, rc, w) \<Rightarrow> w = oc_decided_by oc
        \<and> (\<exists>m. stored_msg (mr_sluice s) mid = Some m \<and> m_status m = Pending \<and> m_id m = i \<and> m_rcpt m = rc)"
      obtain i rc w where iw: "y = (i, rc, w)" by (cases y)
      have "m_id msg = i" "m_rcpt msg = rc" "w = oc_decided_by oc" using y iw Get_stored [OF Inr] by auto
      then show "chain_approves V v y" unfolding chain_approves_def iw using r oc that by auto
    qed
    show ?thesis
      using assms Inr r oc app rej
      by (cases err; cases "oc_disposition oc") (simp_all add: svc_decide_def with_sluice_def mr_good_same mr_good_sluice)
  qed
qed

lemma approve_good:
  assumes "mr_inv s" shows "mr_good (chain_approves V approve_verdict) s (snd (svc_approve V x mid asi actor s))"
proof (cases "if asi = '''' then Inr ('''', []) else approve_as_checks V mid asi s")
  case (Inl e)
  then show ?thesis using assms by (simp add: svc_approve_def mr_good_same)
next
  case (Inr p)
  obtain identity rewritten where p: "p = (identity, rewritten)" by (cases p)
  obtain q t where q: "svc_decide V (xi_decide x) mid approve_verdict asi actor s = (q, t)" by fastforce
  have t: "mr_good (chain_approves V approve_verdict) s t" using decide_good [OF assms, of V approve_verdict] q by (metis snd_conv)
  show ?thesis
  proof (cases "\<exists>m. q = Inr m \<and> m_status m = Approved")
    case False
    then show ?thesis using t Inr p q by (auto simp: svc_approve_def split: sum.split)
  next
    case True
    then obtain m where m: "q = Inr m" "m_status m = Approved" by blast
    have "live (mr_sluice t) m" using decide_approved [OF q [unfolded m(1)] m(2)] Approve_live(1) by blast
    then have l: "live (mr_sluice t) (if asi = '''' then m else send_as identity rewritten m)" by simp
    let ?ib = "if asi = '''' then m_inbox m else asi" and ?out = "if asi = '''' then m else send_as identity rewritten m"
    obtain w u where u: "send_recorded V x ?ib m ?out False actor identity t = (w, u)" by fastforce
    have "mr_good nobody t u" using send_recorded_good [OF mr_good_inv [OF t] l] u by (metis snd_conv)
    then have su: "mr_good (chain_approves V approve_verdict) s u"
      using mr_good_trans [OF t _ assms] mr_good_mono by blast
    have "mr_sluice (snd (svc_approve V x mid asi actor s)) = mr_sluice u \<and> mr_sent (snd (svc_approve V x mid asi actor s)) = mr_sent u"
      using Inr p q m u by (cases w; cases "asi = ''''") (simp_all add: svc_approve_def case_prod_beta)
    then show ?thesis using mr_good_cong [OF su] by blast
  qed
qed

lemma reject_good:
  assumes "mr_inv s"
  shows "mr_good (chain_approves V (reject_verdict reason rt)) s (snd (svc_RejectID V x mid reason rt actor s))"
proof -
  obtain q t where q: "svc_decide V (xi_decide x) mid (reject_verdict reason rt) '''' actor s = (q, t)" by fastforce
  have t: "mr_good (chain_approves V (reject_verdict reason rt)) s t"
    using decide_good [OF assms, of V "reject_verdict reason rt"] q by (metis snd_conv)
  have "mr_sluice (snd (svc_RejectID V x mid reason rt actor s)) = mr_sluice t
     \<and> mr_sent (snd (svc_RejectID V x mid reason rt actor s)) = mr_sent t"
  proof (cases q)
    case (Inr m)
    obtain f u where f: "deliverBounce V (xi_bounce x) m (m_reason m) (m_retryable m) t = (f, u)" by fastforce
    then have "mr_sluice u = mr_sluice t" "mr_sent u = mr_sent t"
      using deliverBounce_sel [of V "xi_bounce x" m "m_reason m" "m_retryable m" t] by simp_all
    then show ?thesis using q f Inr
      by (cases f) (simp_all add: svc_RejectID_def reject_verdict_def Let_def)
  qed (use q in \<open>simp add: svc_RejectID_def reject_verdict_def\<close>)
  then show ?thesis using mr_good_cong [OF t] by blast
qed

lemma resend_target_live: "resend_target V m = Inr (inbox, out, identity) \<Longrightarrow> live S out = live S m"
  by (auto simp: resend_target_def Let_def split: if_splits option.splits)

lemma resend_good:
  assumes "mr_inv s" shows "mr_good nobody s (snd (svc_ReSend V x mid ack actor s))"
proof (cases "sluice_Get (mr_sluice s) mid")
  case (Inl e)
  then show ?thesis using assms by (simp add: svc_ReSend_def mr_good_same)
next
  case (Inr m)
  show ?thesis
  proof (cases "m_status m \<noteq> Approved \<or> m_send_err m = '''' \<or> isl (resend_target V m)")
    case True
    then show ?thesis using assms Inr by (auto simp: svc_ReSend_def mr_good_same split: sum.split)
  next
    case False
    then obtain inbox out identity where o: "resend_target V m = Inr (inbox, out, identity)"
      by (cases "resend_target V m") auto
    obtain q t where q: "sluice_ClaimResend (xi_claim x) (sv_now V) (m_id m) actor ack (mr_sluice s) = (q, t)" by fastforce
    let ?s1 = "s\<lparr>mr_sluice := t\<rparr>"
    have t: "mr_good nobody s ?s1"
      using clears_Claim [OF assms, of "xi_claim x" "sv_now V" "m_id m" actor ack] q by (simp add: mr_good_sluice)
    have "live (mr_sluice s) out" using Get_live [OF Inr] False resend_target_live [OF o] by simp
    then have l: "live (mr_sluice ?s1) out"
      using live_good [OF _ assms, of out t] t clears_good by (auto simp: mr_good_def)
    obtain w u where u: "send_recorded V x inbox m out True actor identity ?s1 = (w, u)" by fastforce
    have "mr_good nobody ?s1 u" using send_recorded_good [OF mr_good_inv [OF t] l] u by (metis snd_conv)
    then have su: "mr_good nobody s u" using mr_good_trans [OF t _ assms] by blast
    show ?thesis
    proof (cases q)
      case (Inl e)
      then show ?thesis using t Inr o q False by (simp add: svc_ReSend_def)
    next
      case r: (Inr claimed)
      have "mr_sluice (snd (svc_ReSend V x mid ack actor s)) = mr_sluice u
          \<and> mr_sent (snd (svc_ReSend V x mid ack actor s)) = mr_sent u"
        using Inr o q r u False by (cases w) (simp_all add: svc_ReSend_def case_prod_beta)
      then show ?thesis using mr_good_cong [OF su] by blast
    qed
  qed
qed

lemma bypass_good:
  assumes "mr_inv s" "stored_msg (mr_sluice s) mid = Some m0" "op_AllMatch (ie_codecs (sv_in V)) (sv_operators V) (m_rcpt m0) \<noteq> None"
  shows "mr_good (authorises (MSubmit V x sub)) s (snd (svc_Bypass V x mid matched s))"
proof -
  obtain q t where q: "sluice_Approve (xi_decide x) mid bypassDecidedBy None '''' '''' (mr_sluice s) = (q, t)" by fastforce
  have c: "clears (authorises (MSubmit V x sub)) (mr_sluice s) t"
    using clears_mono [OF clears_Approve [OF assms(1), where who = bypassDecidedBy and mid = mid and io = "xi_decide x"
        and rel = None and asi = "''''" and actor = "''''"], of "authorises (MSubmit V x sub)"]
      q assms(2,3) by auto
  show ?thesis
  proof (cases q)
    case (Inl e)
    then show ?thesis using q c by (simp add: svc_Bypass_def mr_good_sluice)
  next
    case (Inr m)
    let ?t = "if sv_audit_wired V then writeAudit (xi_mark x)
              \<lparr>ar_event = bypassAuditEvent, ar_agent = m_agent m, ar_inbox = m_inbox m, ar_actor = '''',
               ar_message_id = m_id m, ar_detail = bypassDetail matched, ar_retryable = None\<rparr> t else t"
    have inv: "sl_inv t" using clears_good [OF c] by (simp add: sl_good_def)
    have "clears nobody t ?t" by (rule clears_same [OF inv]) simp_all
    then have ct: "clears (authorises (MSubmit V x sub)) (mr_sluice s) ?t"
      using clears_trans [OF c clears_into assms(1)] by blast
    then have t: "mr_good (authorises (MSubmit V x sub)) s (s\<lparr>mr_sluice := ?t\<rparr>)" by (simp add: mr_good_sluice)
    have "live t m" using Approve_live(1) q Inr by blast
    then have l: "live (mr_sluice (s\<lparr>mr_sluice := ?t\<rparr>)) m" using live_good inv good_same by simp
    obtain w u where u: "send_recorded V x (m_inbox m) m m False '''' '''' (s\<lparr>mr_sluice := ?t\<rparr>) = (w, u)" by fastforce
    have "mr_good nobody (s\<lparr>mr_sluice := ?t\<rparr>) u" using send_recorded_good [OF mr_good_inv [OF t] l] u by (metis snd_conv)
    then have su: "mr_good (authorises (MSubmit V x sub)) s u" using mr_good_trans [OF t mr_good_mono assms(1)] by blast
    have "snd (svc_Bypass V x mid matched s) = u" using q Inr u by (cases w) (simp_all add: svc_Bypass_def case_prod_beta)
    then show ?thesis using su by simp
  qed
qed

lemma submit_good:
  assumes "mr_inv s" "unat (bseq (sl_bucket (mr_sluice s))) + 1 < 2 ^ 64"
  shows "mr_good (authorises (MSubmit V x sub)) s (snd (bypass_Enqueue V subj x sub s))"
proof -
  obtain q t where q: "sluice_Enqueue subj (xi_enqueue x) (sv_now V) sub (mr_sluice s) = (q, t)" by fastforce
  have t: "mr_good (authorises (MSubmit V x sub)) s (s\<lparr>mr_sluice := t\<rparr>)"
    using clears_into [OF clears_Enqueue [OF assms, of subj "xi_enqueue x" "sv_now V" sub]] q by (simp add: mr_good_sluice)
  show ?thesis
  proof (cases q)
    case (Inl e)
    then show ?thesis using t q by (simp add: bypass_Enqueue_def)
  next
    case (Inr m)
    note e = Enqueue_ok [OF assms q [unfolded Inr]]
    have st: "stored_msg t (m_id m) = Some (m\<lparr>m_raw := []\<rparr>)"
      using e(1,2) by (simp add: stored_msg_def loadStored_fmt new_message_def storedFrom_def)
    show ?thesis
    proof (cases "op_AllMatch (ie_codecs (sv_in V)) (sv_operators V) (m_rcpt m)")
      case None
      then show ?thesis using t q Inr by (simp add: bypass_Enqueue_def Let_def)
    next
      case (Some matched)
      obtain w u where u: "svc_Bypass V x (m_id m) matched (s\<lparr>mr_sluice := t\<rparr>) = (w, u)" by fastforce
      have "mr_good (authorises (MSubmit V x sub)) (s\<lparr>mr_sluice := t\<rparr>) u"
        using bypass_good [OF mr_good_inv [OF t], of "m_id m" "m\<lparr>m_raw := []\<rparr>" V x sub matched] st Some u by simp
      then show ?thesis using mr_good_trans [OF t _ assms(1)] q Inr Some u
        by (cases w) (simp_all add: bypass_Enqueue_def Let_def)
    qed
  qed
qed

section \<open>Nothing leaves without approval\<close>

lemma exec_mr_good:
  assumes "sl_budget (Suc n) (mr_sluice s)" shows "mr_good (authorises op) s (mr_exec subj rfc s op)"
proof -
  have inv: "mr_inv s" and b: "unat (bseq (sl_bucket (mr_sluice s))) + 1 < 2 ^ 64" using assms by (simp_all add: sl_budget_def)
  show ?thesis
  proof (cases op)
    case (MSubmit V x sub)
    then show ?thesis using submit_good [OF inv b] by simp
  next
    case (MApprove V x mid asi actor)
    show ?thesis unfolding MApprove by (rule mr_good_mono) (use approve_good [OF inv] in simp_all)
  next
    case (MReject V x mid reason rt actor)
    show ?thesis unfolding MReject by (rule mr_good_mono) (use reject_good [OF inv] in simp_all)
  next
    case (MReSend V x mid ack actor)
    show ?thesis unfolding MReSend by (rule mr_good_mono) (use resend_good [OF inv] in simp_all)
  next
    case (MReopen ios db mk rd rm_ok path)
    then show ?thesis using clears_into [OF clears_open [OF inv]] by (simp add: mr_good_sluice)
  next
    case (MMail E y)
    then show ?thesis using inv by (simp add: mr_good_same)
  qed
qed

text \<open>The calls use up at most one sequence number.\<close>

abbreviation mr_seq :: "mailroom \<Rightarrow> u64" where
  "mr_seq s \<equiv> bseq (sl_bucket (mr_sluice s))"

lemma sendVia_seq [simp]: "mr_seq (snd (sendVia V inbox m s)) = mr_seq s"
  by (simp add: sendVia_sel)

lemma send_recorded_seq [simp]: "mr_seq (snd (send_recorded V x inbox m out resend actor ident' s)) = mr_seq s"
proof -
  obtain e s1 where s1: "sendVia V inbox out s = (e, s1)" by fastforce
  then have "mr_seq s1 = mr_seq s" using sendVia_seq [of V inbox out s] by simp
  then show ?thesis using Record_seq [of "xi_record x" "m_id m" e resend actor ident' "mr_sluice s1"]
    by (simp add: send_recorded_def s1 case_prod_beta split: sum.split)
qed

lemma decide_seq [simp]: "mr_seq (snd (svc_decide V io mid v asi actor s)) = mr_seq s"
  by (auto simp: svc_decide_def with_sluice_def sluice_Approve_def sluice_Reject_def
      split: sum.split prod.split option.split disposition.split)

lemma approve_seq [simp]: "mr_seq (snd (svc_approve V x mid asi actor s)) = mr_seq s"
  using decide_seq [of V "xi_decide x" mid approve_verdict asi actor s]
  by (auto simp: svc_approve_def Let_def case_prod_beta split: sum.split)

lemma reject_seq [simp]: "mr_seq (snd (svc_RejectID V x mid reason rt actor s)) = mr_seq s"
  using decide_seq [of V "xi_decide x" mid "reject_verdict reason rt" "''''" actor s]
  by (auto simp: svc_RejectID_def reject_verdict_def Let_def case_prod_beta split: sum.split option.split)

lemma resend_seq [simp]: "mr_seq (snd (svc_ReSend V x mid ack actor s)) = mr_seq s"
  using Claim_seq by (auto simp: svc_ReSend_def case_prod_beta split: sum.split)

lemma bypass_seq [simp]: "mr_seq (snd (svc_Bypass V x mid matched s)) = mr_seq s"
  by (auto simp: svc_Bypass_def Let_def case_prod_beta sluice_Approve_def split: sum.split)

lemma submit_seq:
  assumes "unat (mr_seq s) + 1 < 2 ^ 64"
  shows "unat (mr_seq (snd (bypass_Enqueue V subj x sub s))) \<le> unat (mr_seq s) + 1"
  using Enqueue_seq [OF assms, of subj "xi_enqueue x" "sv_now V" sub]
  by (auto simp: bypass_Enqueue_def Let_def case_prod_beta split: sum.split option.split)

lemma exec_mr_budget:
  assumes "sl_budget (Suc n) (mr_sluice s)" shows "sl_budget n (mr_sluice (mr_exec subj rfc s op))"
proof -
  have b: "unat (mr_seq s) + 1 < 2 ^ 64" using assms by (simp add: sl_budget_def)
  have "unat (mr_seq (mr_exec subj rfc s op)) \<le> unat (mr_seq s) + 1"
    using submit_seq [OF b] by (cases op) simp_all
  then show ?thesis using assms mr_good_inv [OF exec_mr_good [OF assms]] by (simp add: sl_budget_def)
qed

interpretation mrm: machine_rel "mr_exec subj rfc" "\<lambda>n s. sl_budget n (mr_sluice s)" "\<lambda>s t. sl_rel (mr_sluice s) (mr_sluice t)"
  for subj rfc
proof
  show "sl_rel (mr_sluice s) (mr_sluice s)" for s by (rule sl_rel_refl)
  show "sl_rel (mr_sluice s) (mr_sluice t) \<Longrightarrow> sl_rel (mr_sluice t) (mr_sluice u) \<Longrightarrow> sl_rel (mr_sluice s) (mr_sluice u)" for s t u
    by (rule sl_rel_trans)
  show "sl_budget (Suc n) (mr_sluice s) \<Longrightarrow> sl_rel (mr_sluice s) (mr_sluice (mr_exec subj rfc s x))" for n s and x :: "'h mr_op"
    using exec_mr_good clears_good unfolding mr_good_def sl_good_def by blast
qed (rule exec_mr_budget)

lemma run_mr_good:
  "sl_budget (length ops + n) (mr_sluice s) \<Longrightarrow> mr_good (\<lambda>y. \<exists>op \<in> set ops. authorises op y) s (run_ops (mr_exec subj rfc) s ops)"
proof (induction ops arbitrary: s)
  case Nil
  then show ?case by (simp add: mr_good_same sl_budget_def)
next
  case (Cons op ops)
  then have b: "sl_budget (Suc (length ops + n)) (mr_sluice s)" by simp
  let ?t = "mr_exec subj rfc s op" and ?P = "\<lambda>y. \<exists>op' \<in> set (op # ops). authorises op' y"
  have "mr_good ?P s ?t" by (rule mr_good_mono [OF exec_mr_good [OF b]]) simp
  moreover have "mr_good ?P ?t (run_ops (mr_exec subj rfc) ?t ops)"
    by (rule mr_good_mono [OF Cons.IH [OF exec_mr_budget [OF b]]]) auto
  ultimately show ?case using mr_good_trans b by (simp add: sl_budget_def)
qed


definition sample_svc :: "(string \<times> string) list svc" where
  "sample_svc = \<lparr>sv_senders = [(NormInbox ''work'', \<lambda>m. None)], sv_identities = [], sv_router = NewRouter [''manual''] [],
     sv_registry = [(''manual'', manual verdict_zero)], sv_human = (\<lambda>n. n = ''manual''), sv_inbox_wired = True,
     sv_sign = Some Some, sv_domain = ''darbaan'', sv_mw = (\<lambda>h ps. Some ''''),
     sv_date = '''', sv_now = 5, sv_in = sample_env, sv_operators = [], sv_audit_wired = True\<rparr>"

definition sample_svc_io :: svc_io where
  "sample_svc_io = \<lparr>xi_enqueue = ok_io, xi_decide = ok_io, xi_mark = ok_io, xi_claim = ok_io, xi_record = ok_io, xi_bounce = ok_io\<rparr>"

lemma sample_submit: "mr_exec (\<lambda>r. '''') rfc mailroom_empty (MSubmit sample_svc sample_svc_io sample_sub)
    = mailroom_empty\<lparr>mr_sluice := sample_store\<rparr>"
  using sample_enqueue by (simp add: bypass_Enqueue_def sample_svc_def sample_svc_io_def mailroom_empty_def op_AllMatch_def op_Enabled_def)

lemma sample_Get: "sluice_Get sample_store ''1'' = Inr (new_message 5 sample_sub 1)"
proof -
  have "fmt_uint 1 = ''1''" "validKey ''1''" by code_simp+
  then show ?thesis using sample_load
    by (simp add: sluice_Get_def withRaw_def blob_Get_def storedFrom_def new_message_def)
qed

lemma sample_chain: "mk_stages sample_svc approve_verdict (snd (router_Select (sv_router sample_svc) None))
    = Inr [manual_SetVerdict approve_verdict (manual verdict_zero)]"
  by (simp add: sample_svc_def router_Select_def NewRouter_def approver_New_def)

lemma sample_chain_run: "approver_Run msg [manual_SetVerdict approve_verdict (manual verdict_zero)]
    = (outcome_zero\<lparr>oc_disposition := DApprove, oc_released := Some (m_raw msg), oc_decided_by := ''manual''\<rparr>, None)"
  by (simp add: approver_Run_def manual_SetVerdict_def manual_def approve_verdict_def verdict_zero_def)

lemma sample_Approve_any: "\<exists>m t. sluice_Approve ok_io ''1'' who rel asi actor sample_store = (Inr m, t) \<and> m_id m = ''1'' \<and> m_inbox m = ''work''"
proof -
  let ?m = "approve_mutate who rel asi ((new_message 5 sample_sub 1)\<lparr>m_raw := []\<rparr>)"
  have pend: "m_status ((new_message 5 sample_sub 1)\<lparr>m_raw := []\<rparr>) = Pending" by (simp add: new_message_def)
  have "fmt_uint 1 = ''1''" by code_simp
  then have mid: "m_id ?m = ''1''" "m_inbox ?m = ''work''" by (simp_all add: approve_mutate_def sample_sub_def new_message_def)
  have "validKey ''1''" by code_simp
  then have raw: "withRaw (putStored k r sample_store) (storedFrom (\<lambda>r. '''') (new_message 5 sample_sub 1)\<lparr>st_msg := ?m\<rparr>)
     = Inr (?m\<lparr>m_raw := sub_raw sample_sub\<rparr>)" for k r
    using sample_load(2) mid by (simp add: withRaw_def blob_Get_def)
  show ?thesis
    unfolding sluice_Approve_def transitionFromPending_def sample_load(1)
    using pend raw mid by (simp add: Let_def ok_io_def del: One_nat_def)
qed

definition sample_mailroom :: mailroom where
  "sample_mailroom = run_ops (mr_exec (\<lambda>r. '''') (\<lambda>t. '''')) mailroom_empty
     [MSubmit sample_svc sample_svc_io sample_sub, MApprove sample_svc sample_svc_io ''1'' '''' ''op'']"

lemma sample_sent: "\<exists>out. (''work'', out) \<in> set (mr_sent sample_mailroom) \<and> m_id out = ''1''"
proof -
  let ?s = "mailroom_empty\<lparr>mr_sluice := sample_store\<rparr>"
  obtain m t where m: "sluice_Approve ok_io ''1'' ''manual'' (Some ''hi'') '''' ''op'' sample_store = (Inr m, t)" "m_id m = ''1''" "m_inbox m = ''work''"
    using sample_Approve_any by blast
  have msg: "m_raw (new_message 5 sample_sub 1) = ''hi''" "m_status (new_message 5 sample_sub 1) = Pending"
    by (simp_all add: new_message_def sample_sub_def)
  have d: "svc_decide sample_svc ok_io ''1'' approve_verdict '''' ''op'' ?s = (Inr m, ?s\<lparr>mr_sluice := t\<rparr>)"
    using m(1) msg by (simp add: svc_decide_def sample_Get sample_chain sample_chain_run with_sluice_def)
  have a: "m_status m = Approved" by (rule Approve_live(2) [OF m(1)])
  obtain w u where u: "send_recorded sample_svc sample_svc_io (m_inbox m) m m False ''op'' '''' (?s\<lparr>mr_sluice := t\<rparr>) = (w, u)" by fastforce
  have "mr_sent u = [(NormInbox ''work'', m)]"
    using u m(3) by (auto simp: send_recorded_def sendVia_def senderFor_def sample_svc_def mailroom_empty_def split: sum.splits prod.splits)
  moreover have "mr_sent (snd (svc_approve sample_svc sample_svc_io ''1'' '''' ''op'' ?s)) = mr_sent u"
    using d a u by (cases w) (simp_all add: svc_approve_def sample_svc_io_def case_prod_beta)
  ultimately show ?thesis
    using m(2) sample_submit by (simp add: sample_mailroom_def NormInbox_def del: mr_exec.simps(1))
qed


end
