(* ===== verification/Delivery.thy ===== *)
theory Delivery
  imports Service "HOL-Library.Multiset"
begin

text \<open>What the calls of \<open>Service\<close> do together and one at a time: when a failed send can be sent again, and that
  concurrent calls never have two deliveries of one message in flight. Each call of the store is one
  transaction of the database, so concurrent approvals and re-sends interleave at these calls.\<close>

section \<open>A re-send that is answered\<close>

lemma sendVia_Some: "senderFor V inbox = Some send \<Longrightarrow>
    sendVia V inbox out s = (send out, s\<lparr>mr_sent := mr_sent s @ [(NormInbox inbox, out)]\<rparr>)"
  by (simp add: sendVia_def)

lemma Get_load: "sluice_Get s mid = Inr m \<Longrightarrow> sl_inv s \<Longrightarrow>
    \<exists>r key. loadStored s (m_id m) = Inr (r, key) \<and> st_msg r = m\<lparr>m_raw := m_raw (st_msg r)\<rparr>"
proof -
  assume g: "sluice_Get s mid = Inr m" and inv: "sl_inv s"
  then obtain r key where r: "loadStored s mid = Inr (r, key)" "withRaw s r = Inr m"
    by (auto simp: sluice_Get_def split: sum.splits)
  obtain n where n: "key = seqkey_encode n" "m_id (st_msg r) = fmt_uint (unat n)"
    using sl_inv_rec [OF inv] loadStored_get [OF r(1)] by (auto simp: rec_ok_def)
  have "loadStored s (m_id m) = Inr (r, key)"
    using loadStored_get [OF r(1)] n withRaw_sel [OF r(2)] by (simp add: loadStored_fmt)
  moreover have "st_msg r = m\<lparr>m_raw := m_raw (st_msg r)\<rparr>"
    using r(2) by (auto simp: withRaw_def split: if_splits sum.splits)
  ultimately show ?thesis by blast
qed

lemma loadStored_audit: "loadStored (writeAudit io a s) mid = loadStored s mid"
  by (simp only: loadStored_def writeAudit_sel)

lemma load_put: "loadStored s mid = Inr (r, key) \<Longrightarrow> loadStored (putStored key r' s) mid = Inr (r', key)"
  by (auto simp: loadStored_def Let_def split: option.splits)

text \<open>C6: an unsent message can be sent. An approved message with a recorded send failure and no claim,
  whose target resolves and has a sender that now accepts it, is sent by one re-send call: exactly one
  more message is handed over, under the target inbox, the call answers Sent, and the store holds it Sent,
  with no error and no claim, for good. An unknown outcome needs the operator's acknowledgement.\<close>

theorem resend_delivers:
  assumes "sl_inv (mr_sluice s)" "sluice_Get (mr_sluice s) mid = Inr m"
    "m_status m = Approved" "m_send_err m \<noteq> ''''" "m_claim m = None" "IsOutcomeUnknown (m_send_err m) \<longrightarrow> ack"
    "resend_target V m = Inr (inbox, out, identity)" "senderFor V inbox = Some send" "send out = None"
    "io_commit (xi_claim x)" "io_commit (xi_record x)"
  shows "\<exists>t. svc_ReSend V x mid ack actor s = (Inr \<lparr>so_id = m_id m, so_status = Sent, so_detail = ''re-sent upstream'', so_warn = NoWarn\<rparr>, t)
     \<and> mr_sent t = mr_sent s @ [(NormInbox inbox, out)]
     \<and> (\<exists>m'. stored_msg (mr_sluice t) (m_id m) = Some m' \<and> m_status m' = Sent \<and> m_send_err m' = '''' \<and> m_claim m' = None)"
proof -
  obtain r key where r: "loadStored (mr_sluice s) (m_id m) = Inr (r, key)" "st_msg r = m\<lparr>m_raw := m_raw (st_msg r)\<rparr>"
    using Get_load [OF assms(2,1)] by blast
  have rm: "m_status (st_msg r) = Approved" "m_send_err (st_msg r) = m_send_err m" "m_claim (st_msg r) = None"
    unfolding atomize_conj by (subst (1 2 3) r(2)) (simp add: assms(3,5))
  let ?c = "(st_msg r)\<lparr>m_claim := Some \<lparr>rc_since = sv_now V, rc_actor = actor\<rparr>\<rparr>"
  let ?t = "putStored key (r\<lparr>st_msg := ?c\<rparr>) (mr_sluice s)"
  have c: "sluice_ClaimResend (xi_claim x) (sv_now V) (m_id m) actor ack (mr_sluice s) = (Inr ?c, ?t)"
    using r(1) rm assms(4,6,10) by (simp add: sluice_ClaimResend_def Let_def)
  have l: "loadStored ?t (m_id m) = Inr (r\<lparr>st_msg := ?c\<rparr>, key)" by (rule load_put [OF r(1)])
  obtain u where u: "sluice_RecordSendAttempt (xi_record x) (m_id m) None True actor identity ?t
      = (Inr (record_outcome None ?c), u)" "loadStored u (m_id m) = Inr (r\<lparr>st_msg := record_outcome None ?c\<rparr>, key)"
    using l rm(1) assms(11) by (simp add: sluice_RecordSendAttempt_def Let_def load_put [OF l] loadStored_audit)
  let ?u = "s\<lparr>mr_sluice := u, mr_sent := mr_sent s @ [(NormInbox inbox, out)]\<rparr>"
  have "svc_ReSend V x mid ack actor s
      = (Inr \<lparr>so_id = m_id m, so_status = Sent, so_detail = ''re-sent upstream'', so_warn = NoWarn\<rparr>, ?u)"
    using assms(2,3,4,7,9) c u(1)
    by (simp add: svc_ReSend_def send_recorded_def sendVia_Some [OF assms(8)] send_outcome_def record_outcome_def)
  moreover have "stored_msg u (m_id m) = Some (record_outcome None ?c)" using u(2) by (simp add: stored_msg_def)
  ultimately show ?thesis by (auto simp: record_outcome_def)
qed

lemma sample_failed_Get: "\<exists>m. sluice_Get sample_failed ''1'' = Inr m \<and> m_status m = Approved \<and> m_send_err m = ''timeout''
   \<and> m_claim m = None \<and> m_inbox m = ''work'' \<and> m_as_inbox m = '''' \<and> m_id m = ''1''"
proof -
  obtain r where r: "loadStored sample_failed ''1'' = Inr (r, seqkey_encode 1)" "m_status (st_msg r) = Approved"
    "m_send_err (st_msg r) = ''timeout''" "m_claim (st_msg r) = None" "m_inbox (st_msg r) = ''work''"
    "m_as_inbox (st_msg r) = ''''" "m_id (st_msg r) = fmt_uint 1" using sample_failed_load by blast
  have inv: "sl_inv sample_failed" using sample_failed_budget by (simp add: sl_budget_def)
  have "rec_ok sample_failed (seqkey_encode 1) r" using sl_inv_rec [OF inv] loadStored_get [OF r(1)] by blast
  then obtain m where m: "withRaw sample_failed r = Inr m" using rec_ok_withRaw by blast
  then have "\<exists>raw. m = (st_msg r)\<lparr>m_raw := raw\<rparr>"
  proof (cases "st_blobbed r")
    case False
    then have "m = (st_msg r)\<lparr>m_raw := m_raw (st_msg r)\<rparr>" using m by (simp add: withRaw_def)
    then show ?thesis ..
  qed (auto simp: withRaw_def split: sum.splits)
  moreover have "sluice_Get sample_failed ''1'' = Inr m" using r(1) m by (simp add: sluice_Get_def)
  moreover have "fmt_uint 1 = ''1''" by code_simp
  ultimately show ?thesis using r by auto
qed

theorem resend_delivers_witness:
  "\<exists>t. svc_ReSend sample_svc sample_svc_io ''1'' False ''op'' (mailroom_empty\<lparr>mr_sluice := sample_failed\<rparr>)
       = (Inr \<lparr>so_id = ''1'', so_status = Sent, so_detail = ''re-sent upstream'', so_warn = NoWarn\<rparr>, t)
     \<and> length (mr_sent t) = 1"
proof -
  obtain m where m: "sluice_Get sample_failed ''1'' = Inr m" "m_status m = Approved" "m_send_err m = ''timeout''"
    "m_claim m = None" "m_inbox m = ''work''" "m_as_inbox m = ''''" "m_id m = ''1''" using sample_failed_Get by blast
  have inv: "sl_inv sample_failed" using sample_failed_budget by (simp add: sl_budget_def)
  have e: "m_send_err m \<noteq> ''''" "IsOutcomeUnknown (m_send_err m) \<longrightarrow> False" unfolding m(3) by code_simp+
  have t: "resend_target sample_svc m = Inr (''work'', m, '''')" using m by (simp add: resend_target_def)
  have s: "senderFor sample_svc ''work'' = Some (\<lambda>m. None)" by (simp add: senderFor_def sample_svc_def)
  have io: "io_commit (xi_claim sample_svc_io)" "io_commit (xi_record sample_svc_io)" by (simp_all add: sample_svc_io_def ok_io_def)
  have g: "sluice_Get (mr_sluice (mailroom_empty\<lparr>mr_sluice := sample_failed\<rparr>)) ''1'' = Inr m"
    "sl_inv (mr_sluice (mailroom_empty\<lparr>mr_sluice := sample_failed\<rparr>))" using m(1) inv by simp_all
  show ?thesis using resend_delivers [OF g(2,1) m(2) e(1) m(4) e(2) t s refl io, of "''op''"] m(7)
    by (auto simp: mailroom_empty_def)
qed

section \<open>Deliveries in flight\<close>

text \<open>A delivery is in flight from the call that entitles a caller to send (the approval, or the claim of a
  re-send) until that caller records the outcome. Callers run concurrently; a restart ends the deliveries
  of the process. The flights are the multiset of the message numbers. A submission is possible while the
  sequence of the bucket is not used up.\<close>

inductive fl_step :: "(bytes \<Rightarrow> string) \<Rightarrow> (time \<Rightarrow> string) \<Rightarrow> sluice \<times> nat multiset \<Rightarrow> sluice \<times> nat multiset \<Rightarrow> bool"
  for subj rfc where
  submit: "unat (bseq (sl_bucket s)) + 1 < 2 ^ 64 \<Longrightarrow> fl_step subj rfc (s, F) (snd (sluice_Enqueue subj io now sub s), F)"
| approve: "sluice_Approve io mid who rel asi actor s = (Inr m, t) \<Longrightarrow> parse_uint 64 mid = Some n \<Longrightarrow>
    fl_step subj rfc (s, F) (t, add_mset n F)"
| approve_fails: "sluice_Approve io mid who rel asi actor s = (Inl e, t) \<Longrightarrow> fl_step subj rfc (s, F) (t, F)"
| reject: "fl_step subj rfc (s, F) (snd (sluice_Reject io mid who reason rt actor s), F)"
| claim: "sluice_ClaimResend io now mid actor ack s = (Inr m, t) \<Longrightarrow> parse_uint 64 mid = Some n \<Longrightarrow>
    fl_step subj rfc (s, F) (t, add_mset n F)"
| claim_fails: "sluice_ClaimResend io now mid actor ack s = (Inl e, t) \<Longrightarrow> fl_step subj rfc (s, F) (t, F)"
| settle: "n \<in># F \<Longrightarrow> parse_uint 64 mid = Some n \<Longrightarrow>
    fl_step subj rfc (s, F) (snd (sluice_RecordSendAttempt io mid e resend actor ident' s), F - {#n#})"
| restart: "fl_step subj rfc (s, F) (snd (sluice_open rfc ios db mk rd rm_ok path s), {#})"

inductive_cases fl_stepE: "fl_step subj rfc (s, F) (t, G)"

text \<open>The record of a message in flight: approved, and not open to another claim.\<close>

definition flying :: "sluice \<Rightarrow> nat \<Rightarrow> bool" where
  "flying s n \<longleftrightarrow> n < 2 ^ 64 \<and> (\<exists>r. b_get (sl_bucket s) (seqkey_encode (word_of_nat n)) = Some r
     \<and> m_status (st_msg r) = Approved \<and> (m_send_err (st_msg r) = '''' \<or> m_claim (st_msg r) \<noteq> None))"

definition fl_inv :: "sluice \<times> nat multiset \<Rightarrow> bool" where
  "fl_inv = (\<lambda>(s, F). sl_inv s \<and> (\<forall>n. count F n \<le> 1) \<and> (\<forall>n. n \<in># F \<longrightarrow> flying s n))"

text \<open>A call leaves all records but that of its message alone.\<close>

definition only_at :: "string \<Rightarrow> sluice \<Rightarrow> sluice \<Rightarrow> bool" where
  "only_at mid s t \<longleftrightarrow> sl_bucket t = sl_bucket s \<or>
     (\<exists>r key r'. loadStored s mid = Inr (r, key) \<and> sl_bucket t = b_put key r' (sl_bucket s))"

lemma only_at_other:
  assumes "only_at mid s t" "flying s n" "parse_uint 64 mid \<noteq> Some n" shows "flying t n"
proof -
  have "seqkey_encode (word_of_nat n) \<noteq> key" if ld: "loadStored s mid = Inr (r, key)" for r key
  proof
    assume eq: "seqkey_encode (word_of_nat n) = key"
    obtain m where m: "parse_uint 64 mid = Some m" "key = seqkey_encode (word_of_nat m)" using loadStored_get [OF ld] by blast
    then have "(word_of_nat n :: u64) = word_of_nat m" using eq by (metis seqkey_encode_inj)
    then have "n = m" using assms(2) parse_uint_bound [OF m(1)] unat_word_small unfolding flying_def by metis
    then show False using assms(3) m(1) by simp
  qed
  then show ?thesis using assms(1,2) unfolding only_at_def flying_def by auto
qed

lemma only_at_transition: "only_at mid s (snd (transitionFromPending io mid ev detail actor rt mutate s))"
  unfolding only_at_def using transition_bucket by blast

lemma only_at_Claim: "only_at mid s (snd (sluice_ClaimResend io now mid actor ack s))"
  by (auto simp: only_at_def sluice_ClaimResend_def Let_def split: sum.split prod.split)

lemma only_at_Record: "only_at mid s (snd (sluice_RecordSendAttempt io mid e resend actor ident' s))"
  by (auto simp: only_at_def sluice_RecordSendAttempt_def Let_def split: sum.split prod.split)

text \<open>A message in flight cannot be decided or claimed.\<close>

lemma flying_load:
  assumes "flying s n" "parse_uint 64 mid = Some n"
  shows "\<exists>r. loadStored s mid = Inr (r, seqkey_encode (word_of_nat n)) \<and> m_status (st_msg r) = Approved
     \<and> (m_send_err (st_msg r) = '''' \<or> m_claim (st_msg r) \<noteq> None)"
  using assms by (auto simp: flying_def loadStored_def)

lemma flying_transition:
  "flying s n \<Longrightarrow> parse_uint 64 mid = Some n \<Longrightarrow>
    transitionFromPending io mid ev detail actor rt mutate s = (Inl (ErrNotPending mid Approved), s)"
  using flying_load by (fastforce simp: transitionFromPending_def)

lemma flying_claim:
  "flying s n \<Longrightarrow> parse_uint 64 mid = Some n \<Longrightarrow> \<exists>e. sluice_ClaimResend io now mid actor ack s = (Inl e, s)"
  using flying_load by (fastforce simp: sluice_ClaimResend_def Let_def)

lemma flying_kept_transition:
  assumes "flying s n" shows "flying (snd (transitionFromPending io mid ev detail actor rt mutate s)) n"
  using assms only_at_other [OF only_at_transition] flying_transition by (cases "parse_uint 64 mid = Some n") auto

lemma flying_kept_claim: "flying s n \<Longrightarrow> flying (snd (sluice_ClaimResend io now mid actor ack s)) n"
  using only_at_other [OF only_at_Claim] flying_claim by (metis snd_conv)

lemma flying_kept_submit:
  assumes "sl_inv s" "unat (bseq (sl_bucket s)) + 1 < 2 ^ 64" "flying s n"
  shows "flying (snd (sluice_Enqueue subj io now sub s)) n"
proof -
  obtain r where r: "b_get (sl_bucket s) (seqkey_encode (word_of_nat n)) = Some r" using assms(3) by (auto simp: flying_def)
  obtain k where k: "seqkey_encode (word_of_nat n) = seqkey_encode k" "k \<le> bseq (sl_bucket s)"
    using sl_inv_rec [OF assms(1) r] by (auto simp: rec_ok_def)
  have "k < bseq (sl_bucket s) + 1" using k(2) assms(2) by (simp add: word_le_nat_alt word_less_nat_alt unat_succ)
  then have "b_get (sl_bucket (snd (sluice_Enqueue subj io now sub s))) (seqkey_encode (word_of_nat n)) = Some r"
    using r k(1) by (cases rule: Enqueue_cases [of subj io now sub s]) auto
  then show ?thesis using assms(3) r by (simp add: flying_def)
qed

lemma approve_flies:
  assumes "sluice_Approve io mid who rel asi actor s = (Inr m, t)" "parse_uint 64 mid = Some n" "sl_inv s"
  shows "flying t n" and "\<not> flying s n"
proof -
  show "\<not> flying s n" using flying_transition [OF _ assms(2)] assms(1) by (auto simp: sluice_Approve_def)
  obtain r key where r: "loadStored s mid = Inr (r, key)" "m_status (st_msg r) = Pending"
    "sl_bucket t = b_put key (r\<lparr>st_msg := approve_mutate who rel asi (st_msg r)\<rparr>) (sl_bucket s)"
    using assms(1) by (auto simp: sluice_Approve_def transitionFromPending_def Let_def split: sum.splits if_splits prod.splits)
  have "m_send_err (st_msg r) = ''''"
    using sl_inv_rec [OF assms(3)] loadStored_get [OF r(1)] r(2) by (auto simp: rec_ok_def msg_ok_def)
  then show "flying t n" unfolding flying_def
    using r(3) parse_uint_bound [OF assms(2)] loadStored_get [OF r(1)] assms(2) by (auto simp: approve_mutate_def)
qed

lemma claim_flies:
  assumes "sluice_ClaimResend io now mid actor ack s = (Inr m, t)" "parse_uint 64 mid = Some n"
  shows "flying t n" and "\<not> flying s n"
proof -
  show "\<not> flying s n" using flying_claim [OF _ assms(2), of s io now actor ack] assms(1) by auto
  obtain r key c where r: "loadStored s mid = Inr (r, key)" "m_status (st_msg r) = Approved"
    "sl_bucket t = b_put key (r\<lparr>st_msg := (st_msg r)\<lparr>m_claim := Some c\<rparr>\<rparr>) (sl_bucket s)"
    using assms(1) by (auto simp: sluice_ClaimResend_def Let_def split: sum.splits if_splits prod.splits)
  then show "flying t n" unfolding flying_def
    using parse_uint_bound [OF assms(2)] loadStored_get [OF r(1)] assms(2) by auto
qed

lemma fl_inv_add:
  assumes "fl_inv (s, F)" "sl_inv t" "flying t n" "\<not> flying s n" "\<And>k. flying s k \<Longrightarrow> flying t k"
  shows "fl_inv (t, add_mset n F)"
proof -
  have "n \<notin># F" using assms(1,4) by (auto simp: fl_inv_def)
  then have "count F n = 0" by (simp add: not_in_iff)
  then show ?thesis using assms by (auto simp: fl_inv_def)
qed

lemma fl_inv_kept: "fl_inv (s, F) \<Longrightarrow> sl_inv t \<Longrightarrow> (\<And>k. flying s k \<Longrightarrow> flying t k) \<Longrightarrow> fl_inv (t, F)"
  by (auto simp: fl_inv_def)

lemma fl_step_inv: "fl_step subj rfc x y \<Longrightarrow> fl_inv x \<Longrightarrow> fl_inv y"
proof (induction rule: fl_step.induct)
  case (submit s F io now sub)
  then have inv: "sl_inv s" by (simp add: fl_inv_def)
  show ?case
    by (rule fl_inv_kept [OF submit(2)])
      (use inv Enqueue_good [OF inv submit(1)] flying_kept_submit [OF inv submit(1)] in \<open>auto simp: sl_good_def\<close>)
next
  case (approve io mid who rel asi actor s m t n F)
  have inv: "sl_inv s" using approve(3) by (simp add: fl_inv_def)
  have t: "t = snd (transitionFromPending io mid ''approve'' who actor None (approve_mutate who rel asi) s)"
    using approve(1) by (simp add: sluice_Approve_def)
  have "sl_inv t" using Approve_good [OF inv, of io mid who rel asi actor] approve(1) by (simp add: sl_good_def)
  moreover have "flying s k \<Longrightarrow> flying t k" for k unfolding t by (rule flying_kept_transition)
  ultimately show ?case using fl_inv_add [OF approve(3)] approve_flies [OF approve(1,2) inv] by blast
next
  case (approve_fails io mid who rel asi actor s e t F)
  have inv: "sl_inv s" using approve_fails(2) by (simp add: fl_inv_def)
  have t: "t = snd (transitionFromPending io mid ''approve'' who actor None (approve_mutate who rel asi) s)"
    using approve_fails(1) by (simp add: sluice_Approve_def)
  have "sl_inv t" using Approve_good [OF inv, of io mid who rel asi actor] approve_fails(1) by (simp add: sl_good_def)
  moreover have "flying s k \<Longrightarrow> flying t k" for k unfolding t by (rule flying_kept_transition)
  ultimately show ?case using fl_inv_kept [OF approve_fails(2)] by blast
next
  case (reject s F io mid who reason rt actor)
  have inv: "sl_inv s" using reject by (simp add: fl_inv_def)
  show ?case
    by (rule fl_inv_kept [OF reject])
      (use Reject_good [OF inv] flying_kept_transition in \<open>auto simp: sl_good_def sluice_Reject_def\<close>)
next
  case (claim io now mid actor ack s m t n F)
  have inv: "sl_inv s" using claim(3) by (simp add: fl_inv_def)
  have "sl_inv t" using Claim_good [OF inv, of io now mid actor ack] claim(1) by (simp add: sl_good_def)
  moreover have "flying s k \<Longrightarrow> flying t k" for k using flying_kept_claim [of s k io now mid actor ack] claim(1) by simp
  ultimately show ?case using fl_inv_add [OF claim(3)] claim_flies [OF claim(1,2)] by blast
next
  case (claim_fails io now mid actor ack s e t F)
  have inv: "sl_inv s" using claim_fails(2) by (simp add: fl_inv_def)
  have "sl_inv t" using Claim_good [OF inv, of io now mid actor ack] claim_fails(1) by (simp add: sl_good_def)
  moreover have "flying s k \<Longrightarrow> flying t k" for k using flying_kept_claim [of s k io now mid actor ack] claim_fails(1) by simp
  ultimately show ?case using fl_inv_kept [OF claim_fails(2)] by blast
next
  case (settle n F mid s io e resend actor ident')
  let ?t = "snd (sluice_RecordSendAttempt io mid e resend actor ident' s)"
  have inv: "sl_inv s" and one: "\<And>k. count F k \<le> 1" and fly: "\<And>k. k \<in># F \<Longrightarrow> flying s k" using settle(3) by (auto simp: fl_inv_def)
  have "count (F - {#n#}) k \<le> 1" for k using one [of k] by simp
  moreover have "flying ?t k" if k: "k \<in># F - {#n#}" for k
  proof -
    have "k \<noteq> n" using k one [of n] by (auto simp: count_greater_zero_iff [symmetric] simp del: count_greater_zero_iff)
    then show ?thesis using only_at_other [OF only_at_Record fly] settle(2) in_diffD [OF k] by auto
  qed
  moreover have "sl_inv ?t" using Record_good [OF inv] by (simp add: sl_good_def)
  ultimately show ?case by (simp add: fl_inv_def)
next
  case (restart s F ios db mk rd rm_ok path)
  then show ?case using open_good by (simp add: fl_inv_def sl_good_def)
qed

lemma fl_steps_inv: "(fl_step subj rfc)\<^sup>*\<^sup>* x y \<Longrightarrow> fl_inv x \<Longrightarrow> fl_inv y"
  by (induction rule: rtranclp_induct) (auto intro: fl_step_inv)

lemma fl_inv_empty: "fl_inv (sluice_empty, {#})"
  using sl_empty_budget [of 0] by (simp add: fl_inv_def sl_budget_def)

text \<open>C3: one delivery at a time. In every state that concurrent submissions, approvals, rejections, re-sends,
  recordings of outcomes and restarts can reach from the empty queue, each call failing or not, at most one
  delivery of a message is in flight; and while one is, every approval and every re-send of that message,
  under any spelling of its id, acknowledged or not, is refused.\<close>

theorem one_delivery_at_a_time:
  assumes "(fl_step subj rfc)\<^sup>*\<^sup>* (sluice_empty, {#}) (t, F)"
  shows "count F n \<le> 1 \<and> (\<forall>mid. n \<in># F \<and> parse_uint 64 mid = Some n \<longrightarrow>
     isl (fst (sluice_Approve io mid who rel asi actor t)) \<and> isl (fst (sluice_ClaimResend io now mid actor ack t)))"
proof -
  have i: "fl_inv (t, F)" using fl_steps_inv [OF assms fl_inv_empty] .
  have "isl (fst (sluice_Approve io mid who rel asi actor t)) \<and> isl (fst (sluice_ClaimResend io now mid actor ack t))"
    if n: "n \<in># F" and p: "parse_uint 64 mid = Some n" for mid
  proof -
    have f: "flying t n" using i n by (simp add: fl_inv_def)
    obtain e where "sluice_ClaimResend io now mid actor ack t = (Inl e, t)" using flying_claim [OF f p] by blast
    then show ?thesis by (simp add: sluice_Approve_def flying_transition [OF f p])
  qed
  then show ?thesis using i by (simp add: fl_inv_def)
qed

definition sample_flight :: sluice where
  "sample_flight = snd (sluice_Approve ok_io ''1'' ''manual'' None '''' ''op'' sample_store)"

lemma sample_flight_reached: "(fl_step (\<lambda>r. '''') (\<lambda>t. ''''))\<^sup>*\<^sup>* (sluice_empty, {#}) (sample_flight, {#1#})"
proof -
  have "fl_step (\<lambda>r. '''') (\<lambda>t. '''') (sluice_empty, {#}) (snd (sluice_Enqueue (\<lambda>r. '''') ok_io 5 sample_sub sluice_empty), {#})"
    by (rule fl_step.submit) (simp add: sluice_empty_def bucket_new_def)
  then have 1: "fl_step (\<lambda>r. '''') (\<lambda>t. '''') (sluice_empty, {#}) (sample_store, {#})" by (simp add: sample_store_def)
  have "fl_step (\<lambda>r. '''') (\<lambda>t. '''') (sample_store, {#}) (sample_flight, add_mset 1 {#})"
    using fl_step.approve [OF sample_approve sample_parse] by (simp add: sample_flight_def)
  with 1 show ?thesis by (simp add: converse_rtranclp_into_rtranclp)
qed

theorem one_delivery_at_a_time_witness:
  "isl (fst (sluice_ClaimResend ok_io 9 ''1'' ''op2'' True sample_flight))"
  using one_delivery_at_a_time [OF sample_flight_reached, of 1 ok_io "''m''" None "''''" "''op2''" 9 True] sample_parse by simp

end
