(* ===== verification/Imapview.thy ===== *)
theory Imapview
  imports Inbound Mailfilter Agentcfg Inboxcfg
begin

text \<open>Model of the mailbox view of \<open>internal/listener/imap.go\<close>: a session, the names of its mailboxes, which
  messages of an inbox it shows, and the commands LOGIN, SELECT, UNSELECT, STATUS and LIST.

  The server is the record of what \<open>NewIMAPServer\<close> is given. The content fetch, the on-demand sync and
  the label write-through are functions on the store: they may change it (a fetch stores the content it
  got). The filters are an association list in the order in which Go iterates the map. The clock is an
  argument.\<close>

section \<open>The server and its sessions\<close>

text \<open>An error of the content fetch: whether it is \<open>inbound.ErrContentUnavailable\<close>.\<close>

record fetch_error =
  fe_text :: string
  fe_unavailable :: bool

type_synonym content_fetch = "string \<Rightarrow> string \<Rightarrow> string \<Rightarrow> inbound \<Rightarrow> (fetch_error + imessage) \<times> inbound"

record imap_server =
  iv_auth :: auth
  iv_mac :: "string \<Rightarrow> bytes"
  iv_fetch :: content_fetch
  iv_write_keywords :: "(string \<Rightarrow> string \<Rightarrow> string \<Rightarrow> string list \<Rightarrow> string list \<Rightarrow> inbound \<Rightarrow> bool \<times> inbound) option"
  iv_filters :: "(string \<times> filter_set option) list"
  iv_guard :: "guard option"
  iv_hold_spoof :: bool
  iv_mail_owner :: "(string \<Rightarrow> string) option"
  iv_sync_now :: "(string \<Rightarrow> inbound \<Rightarrow> inbound) option"
  iv_serve_stamp :: "(string \<Rightarrow> bytes \<Rightarrow> string \<Rightarrow> string \<Rightarrow> bytes option) option"

record imap_session =
  is_principal :: "principal option"
  is_owner :: string
  is_authed :: bool
  is_selected_inbox :: string
  is_selected :: "imessage list"

definition new_session :: imap_session where
  "new_session = \<lparr>is_principal = None, is_owner = '''', is_authed = False, is_selected_inbox = '''', is_selected = []\<rparr>"

datatype imap_err = ImTLSRequired | ImAuthFailed | ImNoMailbox string | ImReadOnly | ImStore in_err | ImFetch fetch_error

text \<open>The default content fetch reads the store.\<close>

definition store_fetch :: content_fetch where
  "store_fetch owner inbox mid st = (case in_Get owner inbox mid st of
       Inl e \<Rightarrow> (Inl \<lparr>fe_text = ''inbound'', fe_unavailable = False\<rparr>, st)
     | Inr m \<Rightarrow> (Inr m, st))"

definition NewIMAPServer :: "bool \<Rightarrow> bool \<Rightarrow> content_fetch option \<Rightarrow> imap_server \<Rightarrow> imap_err + imap_server" where
  "NewIMAPServer has_tls allow_insecure fetch E = (
     if \<not> has_tls \<and> \<not> allow_insecure then Inl ImTLSRequired
     else Inr (E\<lparr>iv_filters := (if iv_filters E = [] then [(DefaultInboxName, None)] else iv_filters E),
                iv_fetch := (case fetch of None \<Rightarrow> store_fetch | Some f \<Rightarrow> f)\<rparr>))"

section \<open>Mailbox names\<close>

definition imapMailbox :: string where
  "imapMailbox = ''INBOX''"

definition defaultInbox :: "imap_session \<Rightarrow> string" where
  "defaultInbox s = (case is_principal s of
       Some p \<Rightarrow> if pr_default_inbox p \<noteq> '''' then pr_default_inbox p else DefaultInboxName
     | None \<Rightarrow> DefaultInboxName)"

definition session_canRead :: "imap_session \<Rightarrow> string \<Rightarrow> bool" where
  "session_canRead s inbox = CanRead (is_principal s) inbox"

definition mailboxName :: "imap_session \<Rightarrow> string \<Rightarrow> string" where
  "mailboxName s inbox = (if inbox = defaultInbox s then imapMailbox else inbox)"

fun resolve_in :: "imap_session \<Rightarrow> string list \<Rightarrow> string \<Rightarrow> string option" where
  "resolve_in s [] mailbox = None"
| "resolve_in s (i # is) mailbox = (if \<not> session_canRead s i then resolve_in s is mailbox
     else if mailboxName s i = mailbox then Some i else resolve_in s is mailbox)"

definition resolveMailbox :: "imap_server \<Rightarrow> imap_session \<Rightarrow> string \<Rightarrow> string option" where
  "resolveMailbox E s mailbox = resolve_in s (map fst (iv_filters E)) mailbox"

definition mailboxNames :: "imap_server \<Rightarrow> imap_session \<Rightarrow> string list" where
  "mailboxNames E s = sort (map (mailboxName s) (filter (session_canRead s) (map fst (iv_filters E))))"

definition syncedOwner :: "imap_server \<Rightarrow> imap_session \<Rightarrow> string \<Rightarrow> string" where
  "syncedOwner E s inbox = (case iv_mail_owner E of Some f \<Rightarrow> f inbox | None \<Rightarrow> is_owner s)"

section \<open>What a session sees of an inbox\<close>

definition envelopeFromLocals :: "imessage \<Rightarrow> string list" where
  "envelopeFromLocals m = (case im_envelope m of None \<Rightarrow> [] | Some e \<Rightarrow> map ad_mailbox (en_from e))"

definition fetched_raw :: "(fetch_error + imessage) \<Rightarrow> string + bytes" where
  "fetched_raw r = map_sum fe_text im_raw r"

text \<open>\<open>guardHides\<close>. The guard calls the fetch only when it has no body in hand and the message is a candidate.\<close>

definition guardHides :: "imap_server \<Rightarrow> guard \<Rightarrow> imessage \<Rightarrow> string \<Rightarrow> inbound \<Rightarrow> bool \<times> inbound" where
  "guardHides E g m inbox st = (
     let (r, st') = (if length (im_raw m) = 0 \<and> (im_bounce_shaped m = Some True \<or> Candidate (envelopeFromLocals m))
                     then iv_fetch E (im_owner m) inbox (im_id m) st else (Inl \<lparr>fe_text = '''', fe_unavailable = False\<rparr>, st));
         (spoof, err) = guard_Verdict g (envelopeFromLocals m) (im_bounce_shaped m) (im_raw m) (fetched_raw r)
     in (if \<not> spoof then False
         else if iv_hold_spoof E \<and> im_hold_decision m = HoldApproved then False
         else True, st'))"

text \<open>One turn of the loop of \<open>listAndFilter\<close>: whether the message is visible.\<close>

definition displays :: "imap_server \<Rightarrow> stdlib \<Rightarrow> time \<Rightarrow> string \<Rightarrow> filter_set option \<Rightarrow> imessage \<Rightarrow> bool" where
  "displays E L now inbox flt m = (
     if HeldByAssessment m \<and> im_hold_decision m = HoldRejected then True
     else if HeldByAssessment m \<and> im_hold_decision m \<noteq> HoldApproved then False
     else if im_hold_decision m = HoldApproved then True
     else if im_hold_decision m = HoldRejected then True
     else case flt of None \<Rightarrow> True | Some f \<Rightarrow> filter_Decide L (Some f) m now = Allow)"

definition view_one :: "imap_server \<Rightarrow> stdlib \<Rightarrow> time \<Rightarrow> string \<Rightarrow> filter_set option \<Rightarrow> imessage \<Rightarrow> inbound \<Rightarrow> bool \<times> inbound" where
  "view_one E L now inbox flt m st = (case iv_guard E of
       None \<Rightarrow> (displays E L now inbox flt m, st)
     | Some g \<Rightarrow> (case guardHides E g m inbox st of
         (True, st') \<Rightarrow> (iv_hold_spoof E \<and> im_hold_decision m = HoldRejected, st')
       | (False, st') \<Rightarrow> (displays E L now inbox flt m, st')))"

fun view_loop :: "imap_server \<Rightarrow> stdlib \<Rightarrow> time \<Rightarrow> string \<Rightarrow> filter_set option \<Rightarrow> imessage list \<Rightarrow> inbound \<Rightarrow> imessage list \<times> inbound" where
  "view_loop E L now inbox flt [] st = ([], st)"
| "view_loop E L now inbox flt (m # ms) st = (
     let (vis, st1) = view_one E L now inbox flt m st;
         (rest, st2) = view_loop E L now inbox flt ms st1
     in (if vis then m # rest else rest, st2))"

text \<open>\<open>uidOf\<close>: \<open>ParseUint\<close> with 32 bits, whose value is the maximum when the id is out of range.\<close>

definition uidOf :: "imessage \<Rightarrow> u32" where
  "uidOf m = (case parse_uint 32 (im_id m) of
       None \<Rightarrow> if im_id m \<noteq> '''' \<and> list_all is_digit (im_id m) then - 1 else 0
     | Some n \<Rightarrow> word_of_nat n)"

definition listAndFilter ::
  "imap_server \<Rightarrow> stdlib \<Rightarrow> time \<Rightarrow> imap_session \<Rightarrow> string \<Rightarrow> inbound \<Rightarrow> (imessage list \<times> imessage list) \<times> inbound" where
  "listAndFilter E L now s inbox st = (
     let owner = syncedOwner E s inbox;
         synced = in_List owner inbox st;
         full = (if is_owner s \<noteq> owner then sort_key uidOf (synced @ in_List (is_owner s) inbox st) else synced);
         flt = (case map_of (iv_filters E) inbox of None \<Rightarrow> None | Some f \<Rightarrow> f);
         (visible, st') = view_loop E L now inbox flt full st
     in ((full, visible), st'))"

fun uid_next_loop :: "u32 \<Rightarrow> imessage list \<Rightarrow> u32" where
  "uid_next_loop next [] = next"
| "uid_next_loop next (m # ms) = uid_next_loop (if uidOf m \<ge> next then uidOf m + 1 else next) ms"

definition uidNext :: "imessage list \<Rightarrow> u32" where
  "uidNext full = uid_next_loop 1 full"

section \<open>Commands\<close>

definition imap_Login :: "imap_server \<Rightarrow> string \<Rightarrow> string \<Rightarrow> imap_session \<Rightarrow> (imap_err + imap_session)" where
  "imap_Login E username password s = (case auth_Verify (iv_mac E) (iv_auth E) username password of
       None \<Rightarrow> Inl ImAuthFailed
     | Some p \<Rightarrow> if \<not> HasIMAP (Some p) then Inl ImAuthFailed
         else Inr (s\<lparr>is_principal := Some p, is_owner := pr_name p, is_authed := True\<rparr>))"

record select_data =
  sd_flags :: "string list"
  sd_permanent :: "string list"
  sd_messages :: nat
  sd_first_unseen :: nat
  sd_uid_next :: u32
  sd_uid_validity :: u32

definition FlagSeen :: string where
  "FlagSeen = CHR 0x5C # ''Seen''"

definition FlagWildcard :: string where
  "FlagWildcard = CHR 0x5C # ''*''"

fun first_unseen :: "nat \<Rightarrow> imessage list \<Rightarrow> nat" where
  "first_unseen i [] = 0"
| "first_unseen i (m # ms) = (if \<not> im_seen m then i else first_unseen (i + 1) ms)"

fun keywords_in_use :: "string list \<Rightarrow> string list \<Rightarrow> string list" where
  "keywords_in_use seen [] = []"
| "keywords_in_use seen (k # ks) = (if k \<in> set seen then keywords_in_use seen ks else k # keywords_in_use (k # seen) ks)"

text \<open>SELECT of an unknown mailbox changes nothing; a store error would leave the old selection with the new
  inbox, but this store's listing does not fail.\<close>

definition imap_Select ::
  "imap_server \<Rightarrow> stdlib \<Rightarrow> time \<Rightarrow> string \<Rightarrow> imap_session \<Rightarrow> inbound \<Rightarrow> (imap_err + select_data) \<times> imap_session \<times> inbound" where
  "imap_Select E L now mailbox s st = (case resolveMailbox E s mailbox of
       None \<Rightarrow> (Inl (ImNoMailbox mailbox), s, st)
     | Some inbox \<Rightarrow>
         let ((full, visible), st') = listAndFilter E L now s inbox st;
             kws = keywords_in_use [] (concat (map im_keywords visible))
         in (Inr \<lparr>sd_flags = FlagSeen # kws, sd_permanent = (FlagSeen # kws) @ [FlagWildcard],
                 sd_messages = length visible, sd_first_unseen = first_unseen 1 visible,
                 sd_uid_next = uidNext full, sd_uid_validity = 1\<rparr>,
             s\<lparr>is_selected_inbox := inbox, is_selected := visible\<rparr>, st'))"

definition imap_Unselect :: "imap_session \<Rightarrow> imap_session" where
  "imap_Unselect s = s\<lparr>is_selected := []\<rparr>"

record status_options =
  so_messages :: bool
  so_unseen :: bool
  so_uid_next :: bool
  so_uid_validity :: bool

record status_data =
  st_messages :: "nat option"
  st_unseen :: "nat option"
  st_uid_next :: "u32 option"
  st_uid_validity :: "u32 option"

definition imap_Status ::
  "imap_server \<Rightarrow> stdlib \<Rightarrow> time \<Rightarrow> string \<Rightarrow> status_options \<Rightarrow> imap_session \<Rightarrow> inbound \<Rightarrow> (imap_err + status_data) \<times> inbound" where
  "imap_Status E L now mailbox options s st = (case resolveMailbox E s mailbox of
       None \<Rightarrow> (Inl (ImNoMailbox mailbox), st)
     | Some inbox \<Rightarrow>
         let st1 = (case iv_sync_now E of None \<Rightarrow> st | Some sync \<Rightarrow> sync inbox st);
             ((full, visible), st2) = listAndFilter E L now s inbox st1
         in (Inr \<lparr>st_messages = (if so_messages options then Some (length visible) else None),
                 st_unseen = (if so_unseen options then Some (length (filter (\<lambda>m. \<not> im_seen m) visible)) else None),
                 st_uid_next = (if so_uid_next options then Some (uidNext full) else None),
                 st_uid_validity = (if so_uid_validity options then Some 1 else None)\<rparr>, st2))"

definition imap_List :: "imap_server \<Rightarrow> imap_session \<Rightarrow> string list \<Rightarrow> string list" where
  "imap_List E s patterns = (if patterns = [] then [] else mailboxNames E s)"

section \<open>Mailbox names\<close>

lemma resolve_in_Some: "resolve_in s is name = Some i \<Longrightarrow> i \<in> set is \<and> session_canRead s i \<and> mailboxName s i = name"
  by (induction "is") (auto split: if_splits)

lemma resolve_in_None: "resolve_in s is name = None \<longleftrightarrow> (\<forall>i \<in> set is. session_canRead s i \<longrightarrow> mailboxName s i \<noteq> name)"
  by (induction "is") auto

text \<open>LIST names exactly the mailboxes that SELECT and STATUS open, and each is a configured inbox the session
  may read.\<close>

lemma mailbox_names_iff: "name \<in> set (mailboxNames E s) \<longleftrightarrow> (\<exists>i. resolveMailbox E s name = Some i)"
proof -
  have "(\<exists>i. resolveMailbox E s name = Some i) \<longleftrightarrow> resolveMailbox E s name \<noteq> None" by blast
  also have "\<dots> \<longleftrightarrow> (\<exists>i \<in> set (map fst (iv_filters E)). session_canRead s i \<and> mailboxName s i = name)"
    unfolding resolveMailbox_def resolve_in_None by blast
  also have "\<dots> \<longleftrightarrow> name \<in> set (mailboxNames E s)" by (auto simp: mailboxNames_def image_iff)
  finally show ?thesis by blast
qed

lemma resolve_reads: "resolveMailbox E s name = Some i \<Longrightarrow> i \<in> fst ` set (iv_filters E) \<and> session_canRead s i \<and> mailboxName s i = name"
  unfolding resolveMailbox_def using resolve_in_Some by fastforce

text \<open>The iteration order of the map matters only when two inboxes have the same name: when an inbox other
  than the default one is called INBOX.\<close>

lemma mailboxName_inj:
  "mailboxName s i = mailboxName s j \<Longrightarrow> i = imapMailbox \<longrightarrow> i = defaultInbox s \<Longrightarrow> j = imapMailbox \<longrightarrow> j = defaultInbox s \<Longrightarrow> i = j"
  by (auto simp: mailboxName_def split: if_splits)

lemma resolve_order:
  assumes "\<And>i. i \<in> set is \<Longrightarrow> session_canRead s i \<Longrightarrow> i = imapMailbox \<Longrightarrow> i = defaultInbox s" "set js = set is"
  shows "resolve_in s is name = resolve_in s js name"
proof (cases "resolve_in s is name")
  case None
  then have "resolve_in s js name = None" using assms(2) by (simp add: resolve_in_None)
  with None show ?thesis by simp
next
  case (Some i)
  note i = resolve_in_Some [OF Some]
  then have "resolve_in s js name \<noteq> None" using assms(2) by (auto simp: resolve_in_None)
  then obtain j where j: "resolve_in s js name = Some j" by blast
  note j' = resolve_in_Some [OF j]
  have "i = j"
  proof (rule mailboxName_inj)
    show "mailboxName s i = mailboxName s j" using i j' by simp
    show "i = imapMailbox \<longrightarrow> i = defaultInbox s" using assms(1) i by blast
    show "j = imapMailbox \<longrightarrow> j = defaultInbox s" using assms j' by blast
  qed
  with Some j show ?thesis by simp
qed

definition clash_session :: imap_session where
  "clash_session = new_session\<lparr>is_principal := Some \<lparr>pr_name = ''bot'', pr_password = '''', pr_default_inbox = ''work'',
     pr_reads = None, pr_sends = None\<rparr>\<rparr>"

text \<open>With an inbox called INBOX beside the default one, which of the two SELECT INBOX opens depends on the
  iteration order.\<close>

lemma inbox_name_clash:
  "resolve_in clash_session [''work'', ''INBOX''] ''INBOX'' = Some ''work''
   \<and> resolve_in clash_session [''INBOX'', ''work''] ''INBOX'' = Some ''INBOX''"
  by code_simp

section \<open>The view\<close>

lemma view_loop_subset: "set (fst (view_loop E L now inbox flt ms st)) \<subseteq> set ms"
proof (induction ms arbitrary: st)
  case (Cons x xs)
  show ?case using Cons.IH [of "snd (view_one E L now inbox flt x st)"] by (auto simp: Let_def case_prod_beta)
qed simp

lemma view_loop_member:
  "m \<in> set (fst (view_loop E L now inbox flt ms st)) \<Longrightarrow> \<exists>st1. fst (view_one E L now inbox flt m st1)"
proof (induction ms arbitrary: st)
  case (Cons x xs)
  then show ?case by (cases "fst (view_one E L now inbox flt x st)") (auto simp: Let_def case_prod_beta)
qed simp

text \<open>What each way of being shown needs.\<close>

lemma view_one_cleared:
  assumes "fst (view_one E L now inbox flt m st)"
  shows "im_hold_decision m \<in> {HoldApproved, HoldRejected} \<or>
    (\<not> HeldByAssessment m \<and> (case flt of None \<Rightarrow> True | Some f \<Rightarrow> filter_Decide L (Some f) m now = Allow)
      \<and> (case iv_guard E of None \<Rightarrow> True | Some g \<Rightarrow> \<not> fst (guardHides E g m inbox st)))"
  using assms by (auto simp: view_one_def displays_def split: option.splits prod.splits bool.splits if_splits)

lemma in_List_mem: "m \<in> set (in_List owner inbox st) \<longleftrightarrow>
    (\<exists>key r. (key, r) \<in> set (items (in_recs st)) \<and> recScoped r owner inbox \<and> m = (ir_msg r)\<lparr>im_raw := []\<rparr>)"
  by (force simp: in_List_def)

lemma in_List_owner: "m \<in> set (in_List owner inbox st) \<Longrightarrow> im_owner m = owner \<and> NormInbox (im_inbox m) = NormInbox inbox"
  by (auto simp: in_List_mem recScoped_def)

lemma listAndFilter_parts:
  assumes "listAndFilter E L now s inbox st = ((full, visible), st')"
  shows "set full = set (in_List (syncedOwner E s inbox) inbox st) \<union> set (in_List (is_owner s) inbox st)"
    and "visible = fst (view_loop E L now inbox (case map_of (iv_filters E) inbox of None \<Rightarrow> None | Some f \<Rightarrow> f) full st)"
  using assms by (auto simp: listAndFilter_def Let_def case_prod_beta split: if_splits)

lemma select_cleared:
  assumes "imap_Select E L now mailbox s st = (Inr d, s', st')" "m \<in> set (is_selected s')"
  shows "\<exists>inbox. resolveMailbox E s mailbox = Some inbox \<and> inbox = is_selected_inbox s' \<and> session_canRead s inbox
     \<and> NormInbox (im_inbox m) = NormInbox inbox \<and> im_owner m \<in> {syncedOwner E s inbox, is_owner s}
     \<and> (im_hold_decision m \<in> {HoldApproved, HoldRejected} \<or>
         \<not> HeldByAssessment m
         \<and> (case map_of (iv_filters E) inbox of Some (Some f) \<Rightarrow> filter_Decide L (Some f) m now = Allow | _ \<Rightarrow> True)
         \<and> (case iv_guard E of None \<Rightarrow> True | Some g \<Rightarrow> \<exists>st1. \<not> fst (guardHides E g m inbox st1)))"
proof -
  obtain inbox where i: "resolveMailbox E s mailbox = Some inbox"
    using assms(1) by (auto simp: imap_Select_def split: option.splits)
  obtain full visible st2 where l: "listAndFilter E L now s inbox st = ((full, visible), st2)" by (metis prod.exhaust)
  have s': "s' = s\<lparr>is_selected_inbox := inbox, is_selected := visible\<rparr>"
    using assms(1) i l by (simp add: imap_Select_def Let_def)
  let ?flt = "case map_of (iv_filters E) inbox of None \<Rightarrow> None | Some f \<Rightarrow> f"
  have v: "m \<in> set (fst (view_loop E L now inbox ?flt full st))"
    using assms(2) s' listAndFilter_parts(2) [OF l] by simp
  then have "m \<in> set full" using view_loop_subset by blast
  then have o: "NormInbox (im_inbox m) = NormInbox inbox" "im_owner m \<in> {syncedOwner E s inbox, is_owner s}"
    using listAndFilter_parts(1) [OF l] in_List_owner by blast+
  obtain st1 where "fst (view_one E L now inbox ?flt m st1)" using view_loop_member [OF v] by blast
  from view_one_cleared [OF this] have
    "im_hold_decision m \<in> {HoldApproved, HoldRejected} \<or>
         \<not> HeldByAssessment m
         \<and> (case map_of (iv_filters E) inbox of Some (Some f) \<Rightarrow> filter_Decide L (Some f) m now = Allow | _ \<Rightarrow> True)
         \<and> (case iv_guard E of None \<Rightarrow> True | Some g \<Rightarrow> \<exists>st1. \<not> fst (guardHides E g m inbox st1))"
    by (auto split: option.splits)
  then show ?thesis using i resolve_reads [OF i] o s' by auto
qed

text \<open>What a session is shown. Whatever a session selects, each message it is shown is stored under the
  inbox selected, which the session may read; and either an operator decided it, or no assessment holds it,
  the inbox's filter allows it, and the guard, when there is one, does not take it for a forged bounce.\<close>

lemma select_shows_only_cleared:
  assumes "imap_Select E L now mailbox s st = (Inr d, s', st')" "m \<in> set (is_selected s')"
  shows "session_canRead s (is_selected_inbox s') \<and> NormInbox (im_inbox m) = NormInbox (is_selected_inbox s')
     \<and> (im_hold_decision m \<in> {HoldApproved, HoldRejected} \<or>
         \<not> HeldByAssessment m
         \<and> (case map_of (iv_filters E) (is_selected_inbox s') of
              Some (Some f) \<Rightarrow> filter_Decide L (Some f) m now = Allow | _ \<Rightarrow> True)
         \<and> (case iv_guard E of None \<Rightarrow> True | Some g \<Rightarrow> \<exists>st1. \<not> fst (guardHides E g m (is_selected_inbox s') st1)))"
  using select_cleared [OF assms] by blast

section \<open>UIDs\<close>

lemma view_loop_sorted_wrt: "sorted_wrt P ms \<Longrightarrow> sorted_wrt P (fst (view_loop E L now inbox flt ms st))"
proof (induction ms arbitrary: st)
  case (Cons x xs)
  then show ?case
    using Cons.IH [of "snd (view_one E L now inbox flt x st)"]
      view_loop_subset [of E L now inbox flt xs "snd (view_one E L now inbox flt x st)"]
    by (auto simp: Let_def case_prod_beta)
qed simp

lemma unat_small32: "n < 2 ^ 32 \<Longrightarrow> unat (word_of_nat n :: u32) = n"
  by (simp add: unat_of_nat take_bit_nat_eq_self)

lemma rec_number:
  assumes "in_inv Env st" "(key, r) \<in> set (items (in_recs st))" "unat (bseq (in_recs st)) < 2 ^ 32"
  shows "\<exists>n. key = seqkey_encode n \<and> n \<le> bseq (in_recs st) \<and> unat (uidOf ((ir_msg r)\<lparr>im_raw := x\<rparr>)) = unat n"
proof -
  have "kv_ok (items (in_recs st))" using assms(1) by (simp add: in_inv_def)
  from kv_get_iff [OF this, of key r] have "kv_get (items (in_recs st)) key = Some r" using assms(2) by simp
  then have "in_rec_ok Env (kv_get (in_blobs st)) (bseq (in_recs st)) key r" using assms(1) by (simp add: in_inv_def b_get_def)
  then obtain n where n: "key = seqkey_encode n" "im_id (ir_msg r) = fmt_uint (unat n)" "n \<le> bseq (in_recs st)"
    by (auto simp: in_rec_ok_def)
  have l: "unat n < 2 ^ 32" using n(3) assms(3) by (simp add: word_le_nat_alt)
  then have "uidOf ((ir_msg r)\<lparr>im_raw := x\<rparr>) = word_of_nat (unat n)"
    using n(2) parse_fmt_uint [OF l] by (simp add: uidOf_def)
  moreover have "unat (word_of_nat (unat n) :: u32) = unat n" using l by (intro unat_small32)
  ultimately have "unat (uidOf ((ir_msg r)\<lparr>im_raw := x\<rparr>)) = unat n" by (simp only:)
  with n show ?thesis by blast
qed

lemma uid_succ: "unat (u :: u32) + 1 < 2 ^ 32 \<Longrightarrow> u < u + 1"
proof -
  assume a: "unat u + 1 < 2 ^ 32"
  have "u + 1 = word_of_nat (unat u + 1)" by simp
  moreover have "unat (word_of_nat (unat u + 1) :: u32) = unat u + 1" using a by (rule unat_small32)
  ultimately have "unat (u + 1) = unat u + 1" by (simp only:)
  then show ?thesis by (simp add: word_less_nat_alt)
qed

lemma List_uids:
  assumes "in_inv Env st" "unat (bseq (in_recs st)) < 2 ^ 32"
  shows "sorted_wrt (<) (map uidOf (in_List owner inbox st))"
proof -
  have "sorted_wrt (\<lambda>a b. fst a < fst b) (filter (\<lambda>e. recScoped (snd e) owner inbox) (items (in_recs st)))"
    using assms(1) by (intro sorted_wrt_filter) (simp add: in_inv_def kv_ok_def)
  then have "sorted_wrt (\<lambda>a b. uidOf ((ir_msg (snd a))\<lparr>im_raw := []\<rparr>) < uidOf ((ir_msg (snd b))\<lparr>im_raw := []\<rparr>))
     (filter (\<lambda>e. recScoped (snd e) owner inbox) (items (in_recs st)))"
  proof (rule sorted_wrt_mono_rel [rotated])
    fix a b assume ab: "a \<in> set (filter (\<lambda>e. recScoped (snd e) owner inbox) (items (in_recs st)))"
      "b \<in> set (filter (\<lambda>e. recScoped (snd e) owner inbox) (items (in_recs st)))" "fst a < fst b"
    then have "(fst a, snd a) \<in> set (items (in_recs st))" "(fst b, snd b) \<in> set (items (in_recs st))" by auto
    from rec_number [OF assms(1) this(1) assms(2), of "[]"] rec_number [OF assms(1) this(2) assms(2), of "[]"]
    obtain n k where "fst a = seqkey_encode n" "unat (uidOf ((ir_msg (snd a))\<lparr>im_raw := []\<rparr>)) = unat n"
      "fst b = seqkey_encode k" "unat (uidOf ((ir_msg (snd b))\<lparr>im_raw := []\<rparr>)) = unat k" by blast
    then show "uidOf ((ir_msg (snd a))\<lparr>im_raw := []\<rparr>) < uidOf ((ir_msg (snd b))\<lparr>im_raw := []\<rparr>)"
      using ab(3) by (simp add: word_less_nat_alt)
  qed
  then show ?thesis by (simp add: in_List_def sorted_wrt_map)
qed

lemma List_uid_inj:
  assumes "in_inv Env st" "unat (bseq (in_recs st)) < 2 ^ 32" "m \<in> set (in_List o1 inbox st)" "m' \<in> set (in_List o2 inbox st)"
    "uidOf m = uidOf m'"
  shows "m = m'"
proof -
  obtain k r k' r' where r: "(k, r) \<in> set (items (in_recs st))" "m = (ir_msg r)\<lparr>im_raw := []\<rparr>"
    "(k', r') \<in> set (items (in_recs st))" "m' = (ir_msg r')\<lparr>im_raw := []\<rparr>"
    using assms(3,4) unfolding in_List_mem by blast
  obtain n n' where n: "k = seqkey_encode n" "unat (uidOf m) = unat n" "k' = seqkey_encode n'" "unat (uidOf m') = unat n'"
    using rec_number [OF assms(1) r(1) assms(2), of "[]"] rec_number [OF assms(1) r(3) assms(2), of "[]"] r(2,4) by auto
  have "n = n'" using assms(5) n by (simp add: word_unat_eq_iff)
  then have "k = k'" using n by simp
  then have "r = r'" using r(1,3) assms(1) kv_get_iff by (metis in_inv_def option.inject)
  with r show ?thesis by simp
qed

lemma uid_next_above:
  assumes "\<And>m. m \<in> set ms \<Longrightarrow> unat (uidOf m) + 1 < 2 ^ 32"
  shows "next \<le> uid_next_loop next ms \<and> (\<forall>m \<in> set ms. uidOf m < uid_next_loop next ms)"
  using assms
proof (induction ms arbitrary: "next")
  case (Cons m ms)
  have u: "uidOf m < uidOf m + 1" using Cons.prems [of m] by (intro uid_succ) simp
  let ?n = "if uidOf m \<ge> next then uidOf m + 1 else next"
  have i: "?n \<le> uid_next_loop ?n ms" "\<forall>m \<in> set ms. uidOf m < uid_next_loop ?n ms" using Cons.IH [of ?n] Cons.prems by auto
  have "next \<le> ?n" "uidOf m < ?n" using u by (auto simp: not_le)
  with i(1) have "next \<le> uid_next_loop ?n ms" "uidOf m < uid_next_loop ?n ms" by (auto intro: order_trans order_less_le_trans)
  with i(2) show ?case by simp
qed simp

text \<open>The view is an IMAP mailbox. In a well-formed store that has handed out fewer than 2^32 - 1 ids, the
  UIDs of an inbox, merged from its own mail and the agent's, ascend strictly, so do those of the visible
  messages, and UIDNEXT is above every UID, hidden messages included.\<close>

lemma uids_ascend_below_uidnext:
  assumes "in_inv Env st" "unat (bseq (in_recs st)) + 1 < 2 ^ 32" "listAndFilter E L now s inbox st = ((full, visible), st')"
  shows "sorted_wrt (<) (map uidOf full) \<and> sorted_wrt (<) (map uidOf visible) \<and> (\<forall>m \<in> set full. uidOf m < uidNext full)"
proof -
  have b: "unat (bseq (in_recs st)) < 2 ^ 32" using assms(2) by simp
  let ?a = "in_List (syncedOwner E s inbox) inbox st" and ?b = "in_List (is_owner s) inbox st"
  have f: "sorted_wrt (<) (map uidOf full)"
  proof (cases "is_owner s = syncedOwner E s inbox")
    case True
    then show ?thesis using assms(3) List_uids [OF assms(1) b, of "is_owner s" inbox]
      by (auto simp: listAndFilter_def Let_def case_prod_beta)
  next
    case False
    then have full: "full = sort_key uidOf (?a @ ?b)" using assms(3) by (auto simp: listAndFilter_def Let_def case_prod_beta)
    have "distinct (map uidOf ?a)" "distinct (map uidOf ?b)"
      using List_uids [OF assms(1) b] strict_sorted_iff by blast+
    moreover have "set (map uidOf ?a) \<inter> set (map uidOf ?b) = {}"
    proof -
      have "uidOf m \<noteq> uidOf m'" if "m \<in> set ?a" "m' \<in> set ?b" for m m'
        using List_uid_inj [OF assms(1) b that] in_List_owner [OF that(1)] in_List_owner [OF that(2)] False by auto
      then show ?thesis by auto
    qed
    ultimately have "distinct (map uidOf (?a @ ?b))" by simp
    then have "distinct (map uidOf full)" unfolding full distinct_map distinct_sort set_sort by simp
    then show ?thesis unfolding full by (simp add: strict_sorted_iff)
  qed
  have "visible = fst (view_loop E L now inbox (case map_of (iv_filters E) inbox of None \<Rightarrow> None | Some f \<Rightarrow> f) full st)"
    by (rule listAndFilter_parts(2) [OF assms(3)])
  then have v: "sorted_wrt (<) (map uidOf visible)" using f view_loop_sorted_wrt by (simp add: sorted_wrt_map)
  have "unat (uidOf m) + 1 < 2 ^ 32" if m: "m \<in> set full" for m
  proof -
    obtain key r where r: "(key, r) \<in> set (items (in_recs st))" "m = (ir_msg r)\<lparr>im_raw := []\<rparr>"
      using m listAndFilter_parts(1) [OF assms(3)] in_List_mem by blast
    obtain n where "n \<le> bseq (in_recs st)" "unat (uidOf m) = unat n"
      using rec_number [OF assms(1) r(1) b, of "[]"] r(2) by blast
    then show ?thesis using assms(2) by (simp add: word_le_nat_alt)
  qed
  then have "\<forall>m \<in> set full. uidOf m < uidNext full" unfolding uidNext_def using uid_next_above by blast
  with f v show ?thesis by blast
qed

definition sample_imap :: imap_server where
  "sample_imap = \<lparr>iv_auth = [], iv_mac = (\<lambda>s. s), iv_fetch = store_fetch, iv_write_keywords = None,
     iv_filters = [(DefaultInboxName, None)], iv_guard = None, iv_hold_spoof = False, iv_mail_owner = None,
     iv_sync_now = None, iv_serve_stamp = None\<rparr>"

definition sample_imap_session :: imap_session where
  "sample_imap_session = new_session\<lparr>is_principal := Some \<lparr>pr_name = ''amy'', pr_password = '''', pr_default_inbox = '''',
     pr_reads = None, pr_sends = None\<rparr>, is_owner := ''amy''\<rparr>"

definition sample_pending :: imessage where
  "sample_pending = imessage_zero\<lparr>im_id := ''1'', im_owner := ''amy'', im_inbox := DefaultInboxName, im_pending := True\<rparr>"

definition sample_box :: inbound where
  "sample_box = \<lparr>in_recs = \<lparr>items = [(seqkey_encode 1, \<lparr>ir_msg = sample_pending, ir_blobbed = False, ir_dirty = False\<rparr>)], bseq = 1\<rparr>,
     in_synced = [], in_blobs = []\<rparr>"

lemma sample_box_list: "in_List ''amy'' DefaultInboxName sample_box = [sample_pending]"
  by (simp add: in_List_def sample_box_def sample_pending_def recScoped_def imessage_zero_def)

lemma sample_box_view: "listAndFilter sample_imap sample_stdlib 9 sample_imap_session DefaultInboxName sample_box
    = (([sample_pending], [sample_pending]), sample_box)"
proof -
  have "is_owner sample_imap_session = ''amy''" by (simp add: sample_imap_session_def)
  moreover have "syncedOwner sample_imap sample_imap_session DefaultInboxName = ''amy''"
    by (simp add: syncedOwner_def sample_imap_def sample_imap_session_def)
  moreover have "displays sample_imap sample_stdlib 9 DefaultInboxName None sample_pending"
    by (simp add: displays_def HeldByAssessment_def sample_pending_def imessage_zero_def)
  moreover have "iv_guard sample_imap = None" "map_of (iv_filters sample_imap) DefaultInboxName = Some None"
    by (simp_all add: sample_imap_def)
  ultimately show ?thesis by (simp add: listAndFilter_def Let_def sample_box_list view_one_def)
qed

lemma sample_box_inv: "in_inv sample_env sample_box"
proof -
  have "fmt_uint 1 = ''1''" by code_simp
  then have "in_rec_ok sample_env (kv_get []) 1 (seqkey_encode 1) \<lparr>ir_msg = sample_pending, ir_blobbed = False, ir_dirty = False\<rparr>"
    by (auto simp: in_rec_ok_def sample_pending_def intro!: exI [of _ 1])
  then show ?thesis by (auto simp: in_inv_def sample_box_def kv_ok_def b_get_def kv_get_def split: if_splits)
qed

lemma uids_ascend_below_uidnext_witness: "uidOf sample_pending < uidNext [sample_pending]"
proof -
  have "unat (bseq (in_recs sample_box)) + 1 < 2 ^ 32" by (simp add: sample_box_def)
  from uids_ascend_below_uidnext [OF sample_box_inv this sample_box_view] show ?thesis by simp
qed

lemma select_shows_only_cleared_witness:
  "\<exists>d s'. imap_Select sample_imap sample_stdlib 9 ''INBOX'' sample_imap_session sample_box = (Inr d, s', sample_box)
     \<and> is_selected s' = [sample_pending] \<and> session_canRead sample_imap_session (is_selected_inbox s')"
proof -
  have "resolveMailbox sample_imap sample_imap_session ''INBOX'' = Some DefaultInboxName" by code_simp
  then obtain d s' where s: "imap_Select sample_imap sample_stdlib 9 ''INBOX'' sample_imap_session sample_box = (Inr d, s', sample_box)"
    "is_selected s' = [sample_pending]"
    by (simp add: imap_Select_def sample_box_view Let_def)
  have "sample_pending \<in> set (is_selected s')" using s(2) by simp
  from select_shows_only_cleared [OF s(1) this] s show ?thesis by blast
qed

section \<open>From the credentials to the messages shown\<close>

lemma login_principal:
  "imap_Login E u pw s = Inr s' \<Longrightarrow> \<exists>p. auth_Verify (iv_mac E) (iv_auth E) u pw = Some p \<and> s' = s\<lparr>is_principal := Some p, is_owner := pr_name p, is_authed := True\<rparr>"
  by (auto simp: imap_Login_def split: option.splits if_splits)

lemma Verify_name: "auth_Verify mac (NewAuth mac ps) u pw = Some p \<Longrightarrow> pr_name p = u"
  by (auto dest!: auth_Verify_Some)

text \<open>C8: an agent sees what it was granted. When a server of configured agents lets an agent log in and
  select a mailbox, the agent is a configured one that gave its own password, and every message it is shown
  lies in the selected inbox, for which one of its grants gives read access, and belongs to the mail of that
  inbox or to the agent itself; a session of an agent without a read grant does not come into being.\<close>

theorem agent_sees_only_granted:
  assumes "resolvePrincipals env user inboxes agents = Inr (ps, decoupled)" "agents \<noteq> []"
    and "iv_auth E = NewAuth (iv_mac E) ps" "iv_mail_owner E = Some (mailOwner user decoupled)"
    and "imap_Login E u pw new_session = Inr s" "imap_Select E L now mailbox s st = (Inr d, s', st')"
    and "m \<in> set (is_selected s')"
  shows "\<exists>a \<in> set agents. ag_name a = u \<and> \<not> SendOnly a \<and> iv_mac E pw = iv_mac E (env (PasswordEnv u))
    \<and> (\<exists>g \<in> set (ag_grants a). gr_inbox g = is_selected_inbox s' \<and> HasAccess g AccessRead)
    \<and> NormInbox (im_inbox m) = NormInbox (is_selected_inbox s') \<and> im_owner m \<in> {NormInbox (is_selected_inbox s'), u}"
proof -
  obtain p where p: "auth_Verify (iv_mac E) (NewAuth (iv_mac E) ps) u pw = Some p"
    "s = new_session\<lparr>is_principal := Some p, is_owner := pr_name p, is_authed := True\<rparr>"
    using login_principal [OF assms(5)] assms(3) by auto
  have hi: "HasIMAP (Some p)" using assms(3,5) p(1) by (auto simp: imap_Login_def split: if_splits)
  note n = Verify_name [OF p(1)]
  obtain a where a: "a \<in> set agents" "ag_name a = u" "iv_mac E pw = iv_mac E (env (PasswordEnv u))"
    "\<And>i. CanRead (Some p) i \<longleftrightarrow> (\<exists>g \<in> set (ag_grants a). gr_inbox g = i \<and> HasAccess g AccessRead)"
    "HasIMAP (Some p) \<longleftrightarrow> \<not> SendOnly a" decoupled
    using agent_confined_to_grants [OF assms(1,2) p(1)] by blast
  obtain inbox where i: "inbox = is_selected_inbox s'" "session_canRead s inbox"
    "NormInbox (im_inbox m) = NormInbox inbox" "im_owner m \<in> {syncedOwner E s inbox, is_owner s}"
    using select_cleared [OF assms(6,7)] by blast
  have "syncedOwner E s inbox = NormInbox inbox" using assms(4) a(6) by (simp add: syncedOwner_def mailOwner_def)
  moreover have "is_owner s = u" using p(2) n by simp
  moreover have "CanRead (Some p) inbox" using i(2) p(2) by (simp add: session_canRead_def)
  ultimately show ?thesis using a hi i by auto
qed

definition sample_agent_imap :: imap_server where
  "sample_agent_imap = sample_imap\<lparr>iv_auth := NewAuth (\<lambda>s. s) (fst (projr (resolvePrincipals (\<lambda>v. v) '''' [sample_inbox] sample_agents))),
     iv_filters := [(''work'', None)], iv_mail_owner := Some (mailOwner '''' True)\<rparr>"

definition sample_shared :: imessage where
  "sample_shared = sample_pending\<lparr>im_owner := ''work'', im_inbox := ''work''\<rparr>"

definition sample_work_box :: inbound where
  "sample_work_box = sample_box\<lparr>in_recs := \<lparr>items = [(seqkey_encode 1, \<lparr>ir_msg = sample_shared, ir_blobbed = False, ir_dirty = False\<rparr>)], bseq = 1\<rparr>\<rparr>"

lemma sample_work_list: "in_List ''work'' ''work'' sample_work_box = [sample_shared]" "in_List ''amy'' ''work'' sample_work_box = []"
  by (simp_all add: in_List_def sample_work_box_def sample_shared_def sample_pending_def recScoped_def imessage_zero_def)

lemma sample_work_view:
  assumes "is_owner s = ''amy''"
  shows "listAndFilter sample_agent_imap L 9 s ''work'' sample_work_box = (([sample_shared], [sample_shared]), sample_work_box)"
proof -
  have "syncedOwner sample_agent_imap s ''work'' = ''work''"
    by (simp add: syncedOwner_def sample_agent_imap_def mailOwner_def NormInbox_def)
  moreover have "displays sample_agent_imap L 9 ''work'' None sample_shared"
    by (simp add: displays_def HeldByAssessment_def sample_shared_def sample_pending_def imessage_zero_def)
  moreover have "iv_guard sample_agent_imap = None" "map_of (iv_filters sample_agent_imap) ''work'' = Some None"
    by (simp_all add: sample_agent_imap_def sample_imap_def)
  ultimately show ?thesis
    using sample_work_list assms by (simp add: listAndFilter_def Let_def view_one_def)
qed

lemma sample_work_select:
  assumes "is_owner s = ''amy''" "resolveMailbox sample_agent_imap s ''INBOX'' = Some ''work''"
  shows "\<exists>d s'. imap_Select sample_agent_imap L 9 ''INBOX'' s sample_work_box = (Inr d, s', sample_work_box) \<and> is_selected s' = [sample_shared]"
  using sample_work_view [OF assms(1)] assms(2) by (simp add: imap_Select_def Let_def)

theorem agent_sees_only_granted_witness:
  "\<exists>s d s'. imap_Login sample_agent_imap ''amy'' (PasswordEnv ''amy'') new_session = Inr s
     \<and> imap_Select sample_agent_imap sample_stdlib 9 ''INBOX'' s sample_work_box = (Inr d, s', sample_work_box)
     \<and> is_selected s' = [sample_shared] \<and> im_owner sample_shared \<in> {NormInbox (is_selected_inbox s'), ''amy''}"
proof -
  let ?r = "resolvePrincipals (\<lambda>v. v) '''' [sample_inbox] sample_agents"
  have "\<not> isl ?r" "snd (projr ?r)" by code_simp+
  then have r: "?r = Inr (fst (projr ?r), True)" by (metis (full_types) prod.collapse sum.collapse(2))
  have "\<not> isl (imap_Login sample_agent_imap ''amy'' (PasswordEnv ''amy'') new_session)" by code_simp
  then obtain s where s: "imap_Login sample_agent_imap ''amy'' (PasswordEnv ''amy'') new_session = Inr s"
    by (cases "imap_Login sample_agent_imap ''amy'' (PasswordEnv ''amy'') new_session") auto
  have "resolveMailbox sample_agent_imap (projr (imap_Login sample_agent_imap ''amy'' (PasswordEnv ''amy'') new_session)) ''INBOX'' = Some ''work''"
    "is_owner (projr (imap_Login sample_agent_imap ''amy'' (PasswordEnv ''amy'') new_session)) = ''amy''" by code_simp+
  with s have "resolveMailbox sample_agent_imap s ''INBOX'' = Some ''work''" "is_owner s = ''amy''" by simp_all
  from sample_work_select [OF this(2,1)] obtain d s'
    where q: "imap_Select sample_agent_imap sample_stdlib 9 ''INBOX'' s sample_work_box = (Inr d, s', sample_work_box)"
      "is_selected s' = [sample_shared]" by blast
  have ne: "sample_agents \<noteq> []" by (simp add: sample_agents_def)
  have e: "iv_auth sample_agent_imap = NewAuth (iv_mac sample_agent_imap) (fst (projr ?r))"
    "iv_mail_owner sample_agent_imap = Some (mailOwner '''' True)" by (simp_all add: sample_agent_imap_def sample_imap_def)
  have m: "sample_shared \<in> set (is_selected s')" using q(2) by simp
  from agent_sees_only_granted [OF r ne e s q(1) m] show ?thesis using s q by blast
qed

end
