(* ===== verification/Holds.thy ===== *)
theory Holds
  imports Imapview AuditLog
begin

text \<open>Model of the inbound half of \<open>internal/admin/service.go\<close>: the queue of messages held for a human
  (\<open>HeldList\<close>, \<open>HeldContent\<close>, \<open>ExposeHeld\<close>, \<open>DropHeld\<close>), and the filtered, paged listing of the audit log
  (\<open>AuditList\<close>). Wiring that may be missing is an option.\<close>

section \<open>The held queue\<close>

record holds_service =
  hs_inbox_wired :: bool
  hs_filters :: "(string \<times> filter_set option) list"
  hs_mail_owner :: "(string \<Rightarrow> string) option"
  hs_guard :: "guard option"
  hs_hold_spoof :: bool
  hs_audit_wired :: bool

datatype held_err = HoldsUnavailable | NotHeld | HeldStore in_err

definition hs_inboxOwner :: "holds_service \<Rightarrow> string \<Rightarrow> string" where
  "hs_inboxOwner H inbox = (case hs_mail_owner H of Some f \<Rightarrow> f inbox | None \<Rightarrow> '''')"

definition hs_inboxNames :: "holds_service \<Rightarrow> string list" where
  "hs_inboxNames H = sort (map fst (hs_filters H))"

definition in_err_text :: "in_err \<Rightarrow> string" where
  "in_err_text e = ''inbound''"

text \<open>The body the guard asks for is read from the store; a listed message carries none.\<close>

definition guardHoldsSpoof :: "holds_service \<Rightarrow> inbound \<Rightarrow> imessage \<Rightarrow> string \<Rightarrow> bool" where
  "guardHoldsSpoof H st m inbox = (case hs_guard H of
       None \<Rightarrow> False
     | Some g \<Rightarrow> if \<not> hs_hold_spoof H then False
         else fst (guard_Verdict g (envelopeFromLocals m) (im_bounce_shaped m) (im_raw m)
           (map_sum in_err_text im_raw (in_Get (hs_inboxOwner H inbox) inbox (im_id m) st))))"

definition holds_one :: "holds_service \<Rightarrow> stdlib \<Rightarrow> time \<Rightarrow> inbound \<Rightarrow> string \<Rightarrow> imessage \<Rightarrow> bool" where
  "holds_one H L now st inbox m = (if im_hold_decision m \<noteq> '''' then False
     else (case map_of (hs_filters H) inbox of Some (Some f) \<Rightarrow> filter_Decide L (Some f) m now = Hold | _ \<Rightarrow> False)
       \<or> guardHoldsSpoof H st m inbox \<or> HeldByAssessment m)"

definition HeldList :: "holds_service \<Rightarrow> stdlib \<Rightarrow> time \<Rightarrow> inbound \<Rightarrow> imessage list" where
  "HeldList H L now st = (if \<not> hs_inbox_wired H then []
     else concat (map (\<lambda>inbox. filter (holds_one H L now st inbox) (in_List (hs_inboxOwner H inbox) inbox st)) (hs_inboxNames H)))"

definition heldMessage :: "holds_service \<Rightarrow> stdlib \<Rightarrow> time \<Rightarrow> string \<Rightarrow> inbound \<Rightarrow> held_err + imessage" where
  "heldMessage H L now mid st = (case find (\<lambda>m. im_id m = mid) (HeldList H L now st) of
       None \<Rightarrow> Inl NotHeld
     | Some m \<Rightarrow> (case in_Get (im_owner m) (im_inbox m) (im_id m) st of Inl e \<Rightarrow> Inl (HeldStore e) | Inr g \<Rightarrow> Inr g))"

definition HeldContent :: "holds_service \<Rightarrow> stdlib \<Rightarrow> time \<Rightarrow> string \<Rightarrow> inbound \<Rightarrow> held_err + bytes" where
  "HeldContent H L now mid st = (if \<not> hs_inbox_wired H then Inl HoldsUnavailable
     else case find (\<lambda>m. im_id m = mid) (HeldList H L now st) of
       None \<Rightarrow> Inl NotHeld
     | Some m \<Rightarrow> (case in_Get (im_owner m) (im_inbox m) (im_id m) st of Inl e \<Rightarrow> Inl (HeldStore e) | Inr g \<Rightarrow> Inr (im_raw g)))"

section \<open>Deciding a hold\<close>

definition hold_audit :: "imessage \<Rightarrow> string \<Rightarrow> string \<Rightarrow> arec" where
  "hold_audit m dcs actor = \<lparr>ar_event = (if dcs = HoldApproved then ''expose'' else ''drop''), ar_agent = '''',
     ar_inbox = im_inbox m, ar_actor = actor, ar_message_id = im_id m, ar_detail = '''', ar_retryable = None\<rparr>"

definition auditHold :: "holds_service \<Rightarrow> bool \<Rightarrow> imessage \<Rightarrow> string \<Rightarrow> string \<Rightarrow> arec list \<Rightarrow> arec list" where
  "auditHold H append_ok m dcs actor lg = (if \<not> hs_audit_wired H then lg
     else if append_ok then lg @ [hold_audit m dcs actor] else lg)"

fun set_hold_loop ::
  "holds_service \<Rightarrow> io \<Rightarrow> string \<Rightarrow> string \<Rightarrow> string \<Rightarrow> string list \<Rightarrow> inbound \<times> arec list \<Rightarrow> (in_err + imessage) \<times> inbound \<times> arec list" where
  "set_hold_loop H io mid dcs actor [] (st, lg) = (Inl InNotFound, st, lg)"
| "set_hold_loop H io mid dcs actor (inbox # is) (st, lg) = (
     case in_SetHoldDecision io (hs_inboxOwner H inbox) inbox mid dcs st of
       (Inr m, t) \<Rightarrow> (Inr m, t, auditHold H (io_audit io) m dcs actor lg)
     | (Inl e, t) \<Rightarrow> if \<not> in_not_found e then (Inl e, t, lg) else set_hold_loop H io mid dcs actor is (t, lg))"

definition setHold :: "holds_service \<Rightarrow> io \<Rightarrow> string \<Rightarrow> string \<Rightarrow> string \<Rightarrow> inbound \<times> arec list \<Rightarrow> (in_err + imessage) \<times> inbound \<times> arec list" where
  "setHold H io mid dcs actor s = set_hold_loop H io mid dcs actor (hs_inboxNames H) s"

definition ExposeHeld :: "holds_service \<Rightarrow> io \<Rightarrow> string \<Rightarrow> string \<Rightarrow> inbound \<times> arec list \<Rightarrow> (in_err + imessage) \<times> inbound \<times> arec list" where
  "ExposeHeld H io mid actor s = setHold H io mid HoldApproved actor s"

definition DropHeld :: "holds_service \<Rightarrow> io \<Rightarrow> string \<Rightarrow> string \<Rightarrow> inbound \<times> arec list \<Rightarrow> (in_err + imessage) \<times> inbound \<times> arec list" where
  "DropHeld H io mid actor s = setHold H io mid HoldRejected actor s"

section \<open>Listing the audit log\<close>

text \<open>The zero time is 0; \<open>parse\<close> is \<open>time.Parse\<close> with the format of the entries. The log is off, cannot be
  read, or is the chain of theory \<open>AuditLog\<close>.\<close>

record audit_filter =
  af_agent :: string
  af_message_id :: string
  af_since :: time
  af_until :: time

datatype audit_wiring = AuditOff | AuditOpaque | AuditReadable alog

datatype list_err = AuditDisabled | AuditNotListable | AuditPage audit_err

definition af_match :: "(string \<Rightarrow> time option) \<Rightarrow> audit_filter \<Rightarrow> aentry \<Rightarrow> bool" where
  "af_match parse f e = (
     if af_agent f \<noteq> '''' \<and> ar_agent (ae_record e) \<noteq> af_agent f then False
     else if af_message_id f \<noteq> '''' \<and> ar_message_id (ae_record e) \<noteq> af_message_id f then False
     else if af_since f \<noteq> 0 \<or> af_until f \<noteq> 0 then
       (case parse (ae_time e) of
          None \<Rightarrow> False
        | Some t \<Rightarrow> if af_since f \<noteq> 0 \<and> t < af_since f then False
            else if af_until f \<noteq> 0 \<and> \<not> t < af_until f then False else True)
     else True)"

definition auditScanBatch :: nat where
  "auditScanBatch = 256"

definition auditListMaxLimit :: int where
  "auditListMaxLimit = 1000"

fun scan_page :: "(aentry \<Rightarrow> bool) \<Rightarrow> nat \<Rightarrow> aentry list \<Rightarrow> u64 \<Rightarrow> aentry list \<Rightarrow> aentry list \<times> u64 \<times> bool" where
  "scan_page p limit out cursor [] = (out, cursor, False)"
| "scan_page p limit out cursor (e # es) = (
     if \<not> p e then scan_page p limit out (ae_seq e) es
     else let out' = out @ [e]
       in if length out' = limit then (out', ae_seq e, True) else scan_page p limit out' (ae_seq e) es)"

text \<open>The fuel bounds the batches.\<close>

fun list_loop :: "nat \<Rightarrow> (aentry \<Rightarrow> bool) \<Rightarrow> nat \<Rightarrow> alog \<Rightarrow> aentry list \<Rightarrow> u64 \<Rightarrow> (list_err + (aentry list \<times> u64)) option" where
  "list_loop 0 p limit lg out cursor = None"
| "list_loop (Suc fuel) p limit lg out cursor = (case audit_Page cursor (int auditScanBatch) lg of
       Inl e \<Rightarrow> Some (Inl (AuditPage e))
     | Inr page \<Rightarrow> (case scan_page p limit out cursor page of
         (out', cursor', full) \<Rightarrow>
           if full then Some (Inr (out', cursor'))
           else if length page < auditScanBatch then Some (Inr (out', 0))
           else list_loop fuel p limit lg out' cursor'))"

definition AuditList ::
  "nat \<Rightarrow> (string \<Rightarrow> time option) \<Rightarrow> audit_wiring \<Rightarrow> audit_filter \<Rightarrow> u64 \<Rightarrow> int \<Rightarrow> (list_err + (aentry list \<times> u64)) option" where
  "AuditList fuel parse w f after limit = (case w of
       AuditOff \<Rightarrow> Some (Inl AuditDisabled)
     | AuditOpaque \<Rightarrow> Some (Inl AuditNotListable)
     | AuditReadable lg \<Rightarrow> if limit \<le> 0 then Some (Inr ([], 0))
         else list_loop fuel (af_match parse f) (nat (min limit auditListMaxLimit)) lg [] after)"

section \<open>The listing is the filtered log\<close>

lemma scan_page_spec:
  assumes "length out < n"
  shows "scan_page p n out cur page = (if n - length out \<le> length (filter p page)
     then (out @ take (n - length out) (filter p page), ae_seq (filter p page ! (n - length out - 1)), True)
     else (out @ filter p page, if page = [] then cur else ae_seq (last page), False))"
  using assms
proof (induction page arbitrary: out cur)
  case (Cons e es)
  show ?case
  proof (cases "p e")
    case False
    then show ?thesis using Cons.IH [OF Cons.prems, of "ae_seq e"] by simp
  next
    case p: True
    show ?thesis
    proof (cases "length out + 1 = n")
      case True
      then have "n - length out = 1" by simp
      then show ?thesis using p True by simp
    next
      case False
      then have l: "length (out @ [e]) < n" using Cons.prems by simp
      have k: "n - length out = Suc (n - length (out @ [e]))" using l by simp
      obtain j where j: "n - length (out @ [e]) = Suc j" using l by (metis Suc_diff_Suc)
      show ?thesis using p l Cons.IH [OF l, of "ae_seq e"] unfolding k j by (simp add: Let_def)
    qed
  qed
qed simp

lemma list_loop_spec:
  assumes "chain_ok sha enc es b" "length es + 1 < 2 ^ 64"
  shows "length out < n \<Longrightarrow> c \<le> length es \<Longrightarrow> length es < c + fuel * auditScanBatch \<Longrightarrow>
    list_loop fuel p n b out (word_of_nat c) = Some (Inr (
      if n - length out \<le> length (filter p (drop c es))
      then (out @ take (n - length out) (filter p (drop c es)), ae_seq (filter p (drop c es) ! (n - length out - 1)))
      else (out @ filter p (drop c es), 0)))"
proof (induction fuel arbitrary: out c)
  case (Suc fuel)
  have c: "c + 1 < 2 ^ 64" using Suc.prems(2) assms(2) by simp
  then have cu: "unat (word_of_nat c :: u64) = c" by (intro unat_word_small) simp
  let ?page = "take auditScanBatch (drop c es)" and ?rest = "drop (c + auditScanBatch) es"
  have page: "audit_Page (word_of_nat c) (int auditScanBatch) b = Inr ?page"
    using audit_page_spec [OF assms(1), of "word_of_nat c" "int auditScanBatch"] c cu by simp
  have split: "filter p (drop c es) = filter p ?page @ filter p ?rest"
    by (metis append_take_drop_id drop_drop filter_append add.commute)
  show ?case
  proof (cases "n - length out \<le> length (filter p ?page)")
    case True
    moreover have "filter p (drop c es) ! (n - length out - 1) = filter p ?page ! (n - length out - 1)"
      unfolding split by (rule nth_append_left) (use True Suc.prems(1) in linarith)
    ultimately show ?thesis
      using page scan_page_spec [OF Suc.prems(1), of p "word_of_nat c" ?page] by (simp add: split)
  next
    case False
    note sc = scan_page_spec [OF Suc.prems(1), of p "word_of_nat c" ?page]
    show ?thesis
    proof (cases "length ?page < auditScanBatch")
      case short: True
      then have "?rest = []" by simp
      then have f: "filter p (drop c es) = filter p ?page" using split by simp
      show ?thesis unfolding f
        using False short by (simp add: page sc del: length_take)
    next
      case long: False
      then have len: "c + auditScanBatch \<le> length es" by (auto simp: auditScanBatch_def)
      then have ne: "?page \<noteq> []" by (auto simp: auditScanBatch_def)
      have "last ?page = es ! (c + auditScanBatch - 1)"
        using len ne by (subst last_conv_nth) (auto simp: auditScanBatch_def add.commute)
      then have cur: "ae_seq (last ?page) = word_of_nat (c + auditScanBatch)"
        using chain_from_seq [of sha enc "''''" 1 es "c + auditScanBatch - 1"] assms(1) len
        by (simp add: chain_ok_def auditScanBatch_def add.commute del: of_nat_add of_nat_Suc)
      have out: "length (out @ filter p ?page) < n" using False Suc.prems(1) by simp
      have fuel: "length es < (c + auditScanBatch) + fuel * auditScanBatch" using Suc.prems(3) by simp
      have k: "n - length (out @ filter p ?page) = (n - length out) - length (filter p ?page)" by simp
      show ?thesis
        using page sc False long Suc.IH [OF out len fuel] ne
        unfolding split k cur
        by (auto simp: nth_append simp del: of_nat_add)
    qed
  qed
qed simp

text \<open>C26: the listing is the filtered log. On an intact log \<open>AuditList\<close> returns, however the batches fall, the
  first matching entries behind the resume position, as many as asked for and never more than 1000; the
  position it hands back is that of the last entry returned when the page is full, and 0 when the log was
  read to its end. One batch more than the log holds is enough.\<close>

theorem audit_list_is_filtered_log:
  fixes parse :: "string \<Rightarrow> time option" and f :: audit_filter and limit :: int
  assumes "chain_ok sha enc es b" "length es + 1 < 2 ^ 64" "unat after \<le> length es" "0 < limit"
    and "length es < unat after + fuel * auditScanBatch"
  defines "hits \<equiv> filter (af_match parse f) (drop (unat after) es)" and "n \<equiv> nat (min limit 1000)"
  shows "AuditList fuel parse (AuditReadable b) f after limit = Some (Inr (take n hits,
     if n \<le> length hits then ae_seq (last (take n hits)) else 0))"
proof -
  have n: "0 < n" "nat (min limit auditListMaxLimit) = n" using assms(4) by (simp_all add: n_def auditListMaxLimit_def)
  have a: "word_of_nat (unat after) = after" by simp
  have l: "last (take n hits) = hits ! (n - 1)" if "n \<le> length hits"
  proof -
    have "take n hits \<noteq> []" using n(1) that by auto
    then show ?thesis using that n(1) by (simp add: last_conv_nth)
  qed
  show ?thesis
    using list_loop_spec [OF assms(1,2), of "[]" n "unat after" fuel "af_match parse f"] assms(3,4,5) n l
    unfolding a hits_def [symmetric] by (simp add: AuditList_def)
qed

theorem audit_list_is_filtered_log_witness:
  "\<exists>es. AuditList 1 (\<lambda>t. None) (AuditReadable (sample_log (\<lambda>x. x) (\<lambda>p. ''{}'')))
     \<lparr>af_agent = '''', af_message_id = '''', af_since = 0, af_until = 0\<rparr> 0 5 = Some (Inr (es, 0)) \<and> length es = 1"
proof -
  obtain es where es: "chain_ok (\<lambda>x. x) (\<lambda>p. ''{}'') es (sample_log (\<lambda>x. x) (\<lambda>p. ''{}''))" "length es = 1"
    using sample_log_chain by blast
  have "filter (af_match (\<lambda>t. None) \<lparr>af_agent = '''', af_message_id = '''', af_since = 0, af_until = 0\<rparr>) es = es"
    by (simp add: af_match_def)
  then show ?thesis
    using audit_list_is_filtered_log [OF es(1), of 0 5 1 "\<lambda>t. None" "\<lparr>af_agent = '''', af_message_id = '''', af_since = 0, af_until = 0\<rparr>"] es(2)
    by (simp add: auditScanBatch_def)
qed

section \<open>The queue and the view\<close>

text \<open>The admin service and the IMAP face wired alike, as \<open>serve\<close> does, and a content fetch that reads what
  the store holds.\<close>

definition wired_alike :: "holds_service \<Rightarrow> imap_server \<Rightarrow> inbound \<Rightarrow> bool" where
  "wired_alike H E st \<longleftrightarrow> hs_inbox_wired H \<and> hs_filters H = iv_filters E \<and> hs_guard H = iv_guard E
     \<and> hs_hold_spoof H = iv_hold_spoof E \<and> hs_mail_owner H = iv_mail_owner E \<and> hs_mail_owner H \<noteq> None
     \<and> (\<forall>ow ib k. iv_fetch E ow ib k st = store_fetch ow ib k st)
     \<and> distinct (map fst (iv_filters E)) \<and> '''' \<notin> fst ` set (iv_filters E)"

text \<open>A forged bounce, as both sides judge it.\<close>

definition spoof :: "holds_service \<Rightarrow> inbound \<Rightarrow> imessage \<Rightarrow> string \<Rightarrow> bool" where
  "spoof H st m inbox = (case hs_guard H of None \<Rightarrow> False
     | Some g \<Rightarrow> guardHoldsSpoof (H\<lparr>hs_hold_spoof := True\<rparr>) st m inbox)"

lemma Verdict_err: "fst (guard_Verdict g lps sh raw (Inl e)) = fst (guard_Verdict g lps sh raw (Inl e'))"
  by (simp add: guard_Verdict_def)

lemma Verdict_idle:
  "\<not> (length raw = 0 \<and> (sh = Some True \<or> Candidate lps)) \<Longrightarrow> guard_Verdict g lps sh raw x = guard_Verdict g lps sh raw y"
  by (auto simp: guard_Verdict_def)

lemma guardHides_spoof:
  assumes "wired_alike H E st" "iv_guard E = Some g" "im_owner m = hs_inboxOwner H inbox"
  shows "guardHides E g m inbox st = (spoof H st m inbox \<and> \<not> (iv_hold_spoof E \<and> im_hold_decision m = HoldApproved), st)"
proof -
  let ?lps = "envelopeFromLocals m" and ?get = "in_Get (im_owner m) inbox (im_id m) st"
  have f: "iv_fetch E (im_owner m) inbox (im_id m) st = store_fetch (im_owner m) inbox (im_id m) st"
    and g: "hs_guard H = Some g" using assms(1,2) by (simp_all add: wired_alike_def)
  have st: "snd (store_fetch (im_owner m) inbox (im_id m) st) = st" by (simp add: store_fetch_def split: sum.split)
  have same: "fst (guard_Verdict g ?lps (im_bounce_shaped m) (im_raw m) (fetched_raw (fst (store_fetch (im_owner m) inbox (im_id m) st))))
     = fst (guard_Verdict g ?lps (im_bounce_shaped m) (im_raw m) (map_sum in_err_text im_raw ?get))"
    by (cases ?get) (simp_all add: store_fetch_def fetched_raw_def in_err_text_def)
  let ?need = "length (im_raw m) = 0 \<and> (im_bounce_shaped m = Some True \<or> Candidate ?lps)"
  have sp0: "spoof H st m inbox = fst (guard_Verdict g ?lps (im_bounce_shaped m) (im_raw m) (map_sum in_err_text im_raw ?get))"
    using g assms(3) by (simp add: spoof_def guardHoldsSpoof_def hs_inboxOwner_def)
  have sp: "spoof H st m inbox = fst (guard_Verdict g ?lps (im_bounce_shaped m) (im_raw m)
      (fetched_raw (fst (if ?need then store_fetch (im_owner m) inbox (im_id m) st else (Inl \<lparr>fe_text = '''', fe_unavailable = False\<rparr>, st)))))"
  proof (cases ?need)
    case False
    from Verdict_idle [OF this, of g "fetched_raw (Inl \<lparr>fe_text = '''', fe_unavailable = False\<rparr>)"] show ?thesis
      using False sp0 by (metis fst_conv)
  qed (use same sp0 in simp)
  have "snd (if ?need then store_fetch (im_owner m) inbox (im_id m) st else (Inl \<lparr>fe_text = '''', fe_unavailable = False\<rparr>, st)) = st"
    using st by simp
  then show ?thesis unfolding sp guardHides_def f by (simp add: case_prod_beta Let_def)
qed

lemma view_one_pure:
  assumes "wired_alike H E st" "im_owner m = hs_inboxOwner H inbox"
  shows "view_one E L now inbox flt m st = (
     if spoof H st m inbox \<and> \<not> (iv_hold_spoof E \<and> im_hold_decision m = HoldApproved)
     then iv_hold_spoof E \<and> im_hold_decision m = HoldRejected else displays E L now inbox flt m, st)"
proof (cases "iv_guard E")
  case None
  then have "\<not> spoof H st m inbox" using assms(1) by (simp add: spoof_def wired_alike_def)
  then show ?thesis using None by (simp add: view_one_def)
next
  case (Some g)
  define X where "X \<longleftrightarrow> spoof H st m inbox \<and> \<not> (iv_hold_spoof E \<and> im_hold_decision m = HoldApproved)"
  have "guardHides E g m inbox st = (X, st)" unfolding X_def by (rule guardHides_spoof [OF assms(1) Some assms(2)])
  then show ?thesis unfolding view_one_def Some X_def [symmetric] by (cases X) simp_all
qed

lemma view_loop_pure:
  assumes "\<And>m. m \<in> set ms \<Longrightarrow> view_one E L now inbox flt m st = (f m, st)"
  shows "view_loop E L now inbox flt ms st = (filter f ms, st)"
  using assms by (induction ms) (auto simp: Let_def)

text \<open>The messages of an inbox itself, in the view of a session that owns none of them.\<close>

lemma HeldList_mem:
  assumes "wired_alike H E st" "inbox \<in> fst ` set (iv_filters E)" "m \<in> set (in_List (hs_inboxOwner H inbox) inbox st)"
  shows "m \<in> set (HeldList H L now st) \<longleftrightarrow> holds_one H L now st inbox m"
proof
  assume "m \<in> set (HeldList H L now st)"
  then obtain ib where ib: "ib \<in> fst ` set (iv_filters E)" "m \<in> set (in_List (hs_inboxOwner H ib) ib st)" "holds_one H L now st ib m"
    using assms(1) by (auto simp: HeldList_def hs_inboxNames_def wired_alike_def)
  have "NormInbox ib = NormInbox inbox" using in_List_owner [OF ib(2)] in_List_owner [OF assms(3)] by simp
  moreover have "'''' \<notin> fst ` set (iv_filters E)" using assms(1) by (simp add: wired_alike_def)
  then have "ib \<noteq> ''''" "inbox \<noteq> ''''" using assms(2) ib(1) by metis+
  ultimately have "ib = inbox" by (simp add: NormInbox_def)
  with ib show "holds_one H L now st inbox m" by simp
next
  assume "holds_one H L now st inbox m"
  then show "m \<in> set (HeldList H L now st)"
    using assms by (auto simp: HeldList_def hs_inboxNames_def wired_alike_def)
qed

lemma decisions_distinct: "HoldApproved \<noteq> HoldRejected" "HoldApproved \<noteq> ''''" "HoldRejected \<noteq> ''''"
  by (simp_all add: HoldApproved_def HoldRejected_def)

lemma shown_iff:
  assumes w: "wired_alike H E st" and o: "im_owner m = hs_inboxOwner H inbox"
    and d: "im_hold_decision m \<in> {'''', HoldApproved, HoldRejected}"
  shows "fst (view_one E L now inbox flt m st) \<longleftrightarrow>
    (if im_hold_decision m = '''' then \<not> spoof H st m inbox \<and> \<not> HeldByAssessment m
        \<and> (case flt of None \<Rightarrow> True | Some f \<Rightarrow> filter_Decide L (Some f) m now = Allow)
     else \<not> spoof H st m inbox \<or> iv_hold_spoof E)"
  unfolding view_one_pure [OF w o] using d decisions_distinct by (auto simp: displays_def)

lemma view_one_state:
  assumes "wired_alike H E st" shows "snd (view_one E L now inbox flt m st) = st"
proof -
  have "snd (store_fetch ow ib k st) = st" for ow ib k by (simp add: store_fetch_def split: sum.split)
  moreover have "iv_fetch E ow ib k st = store_fetch ow ib k st" for ow ib k using assms by (simp add: wired_alike_def)
  ultimately have "snd (guardHides E g m inbox st) = st" for g by (simp add: guardHides_def Let_def case_prod_beta)
  then show ?thesis by (auto simp: view_one_def split: option.split prod.split bool.split) (metis snd_conv)+
qed

text \<open>C27: nothing is withheld in silence. With the admin service and the IMAP face wired alike and the fetch
  reading the store, a message of an inbox is shown exactly when it is not in the operator's held queue, not
  undecided and hidden by a rule, and not a forged bounce that the configuration drops. So a message in the
  held queue is never shown, and one withheld for any reason but a rule or the drop is in the queue.\<close>

theorem shown_or_held_or_hidden:
  assumes "wired_alike H E st" "(inbox, flt) \<in> set (iv_filters E)"
    and "m \<in> set (in_List (hs_inboxOwner H inbox) inbox st)" "im_hold_decision m \<in> {'''', HoldApproved, HoldRejected}"
    and "listAndFilter E L now s inbox st = ((full, visible), st')"
  shows "m \<in> set visible \<longleftrightarrow> m \<notin> set (HeldList H L now st)
    \<and> \<not> (im_hold_decision m = '''' \<and> (case flt of None \<Rightarrow> False | Some f \<Rightarrow> filter_Decide L (Some f) m now = Hide))
    \<and> \<not> (spoof H st m inbox \<and> \<not> iv_hold_spoof E)"
proof -
  have own: "im_owner m = hs_inboxOwner H inbox" using in_List_owner [OF assms(3)] by simp
  have "distinct (map fst (iv_filters E))" using assms(1) by (simp add: wired_alike_def)
  then have flt: "map_of (iv_filters E) inbox = Some flt" using assms(2) by simp
  have "syncedOwner E s inbox = hs_inboxOwner H inbox"
    using assms(1) by (auto simp: wired_alike_def syncedOwner_def hs_inboxOwner_def split: option.split)
  then have full: "m \<in> set full" using listAndFilter_parts(1) [OF assms(5)] assms(3) by simp
  have "view_one E L now inbox flt x st = (fst (view_one E L now inbox flt x st), st)" for x
    using view_one_state [OF assms(1)] by (metis prod.collapse)
  from view_loop_pure [OF this] have "m \<in> set visible \<longleftrightarrow> fst (view_one E L now inbox flt m st)"
    using listAndFilter_parts(2) [OF assms(5)] full flt by simp
  moreover have "m \<in> set (HeldList H L now st) \<longleftrightarrow> holds_one H L now st inbox m"
    using HeldList_mem [OF assms(1) _ assms(3)] assms(2) by force
  moreover have "hs_filters H = iv_filters E" "hs_hold_spoof H = iv_hold_spoof E" using assms(1) by (simp_all add: wired_alike_def)
  moreover have "guardHoldsSpoof H st m inbox \<longleftrightarrow> spoof H st m inbox \<and> hs_hold_spoof H"
    by (auto simp: spoof_def guardHoldsSpoof_def hs_inboxOwner_def split: option.split)
  ultimately show ?thesis
    using shown_iff [OF assms(1) own assms(4), of L now flt] flt
    by (cases flt; cases "filter_Decide L flt m now") (auto simp: holds_one_def)
qed

definition sample_holds :: holds_service where
  "sample_holds = \<lparr>hs_inbox_wired = True, hs_filters = [(''work'', None)], hs_mail_owner = Some (mailOwner '''' True),
     hs_guard = None, hs_hold_spoof = False, hs_audit_wired = True\<rparr>"

theorem shown_or_held_or_hidden_witness:
  "sample_shared \<notin> set (HeldList sample_holds sample_stdlib 9 sample_work_box)"
proof -
  have w: "wired_alike sample_holds sample_agent_imap sample_work_box"
    by (simp add: wired_alike_def sample_holds_def sample_agent_imap_def sample_imap_def)
  have f: "(''work'', None) \<in> set (iv_filters sample_agent_imap)" by (simp add: sample_agent_imap_def)
  have m: "sample_shared \<in> set (in_List (hs_inboxOwner sample_holds ''work'') ''work'' sample_work_box)"
    using sample_work_list by (simp add: hs_inboxOwner_def sample_holds_def mailOwner_def NormInbox_def)
  have d: "im_hold_decision sample_shared \<in> {'''', HoldApproved, HoldRejected}"
    by (simp add: sample_shared_def sample_pending_def imessage_zero_def)
  have "is_owner sample_imap_session = ''amy''" by (simp add: sample_imap_session_def)
  from shown_or_held_or_hidden [OF w f m d sample_work_view [OF this, of sample_stdlib]] show ?thesis by simp
qed

text \<open>The two sides part when the body of a candidate is not in the store and cannot be fetched: the IMAP face
  takes the failed fetch for a forgery and hides the message, while the held queue judges the empty body the
  store has, which is no bounce. The operator never sees it.\<close>

lemma fmt_one: "fmt_uint 1 = ''1''"
  by code_simp

definition unfetched :: imessage where
  "unfetched = sample_shared\<lparr>im_bounce_shaped := Some True\<rparr>"

definition unfetched_box :: inbound where
  "unfetched_box = sample_box\<lparr>in_recs := \<lparr>items = [(seqkey_encode 1, \<lparr>ir_msg = unfetched, ir_blobbed = False, ir_dirty = False\<rparr>)], bseq = 1\<rparr>\<rparr>"

definition strict_guard :: guard where
  "strict_guard = \<lparr>gd_shaped = (\<lambda>r. r \<noteq> []), gd_verify = (\<lambda>r. Inr False)\<rparr>"

lemma unfetched_spoof_unseen:
  "view_one (sample_agent_imap\<lparr>iv_guard := Some strict_guard, iv_hold_spoof := True,
       iv_fetch := (\<lambda>ow ib k st. (Inl \<lparr>fe_text = ''upstream down'', fe_unavailable = False\<rparr>, st))\<rparr>)
     sample_stdlib 9 ''work'' None unfetched unfetched_box = (False, unfetched_box)
   \<and> HeldList (sample_holds\<lparr>hs_guard := Some strict_guard, hs_hold_spoof := True\<rparr>) sample_stdlib 9 unfetched_box = []"
proof
  have u: "im_raw unfetched = []" "im_bounce_shaped unfetched = Some True" "im_hold_decision unfetched = ''''" "im_pending unfetched"
    "im_assessment unfetched = None" "im_owner unfetched = ''work''" "im_inbox unfetched = ''work''" "im_id unfetched = ''1''"
    by (simp_all add: unfetched_def sample_shared_def sample_pending_def imessage_zero_def)
  show "view_one (sample_agent_imap\<lparr>iv_guard := Some strict_guard, iv_hold_spoof := True,
       iv_fetch := (\<lambda>ow ib k st. (Inl \<lparr>fe_text = ''upstream down'', fe_unavailable = False\<rparr>, st))\<rparr>)
     sample_stdlib 9 ''work'' None unfetched unfetched_box = (False, unfetched_box)"
    using u by (simp add: view_one_def guardHides_def guard_Verdict_def fetched_raw_def HoldApproved_def HoldRejected_def)
  have "parse_uint 64 ''1'' = Some 1" using parse_fmt_uint [of 1 64] fmt_one by simp
  then have g: "in_Get ''work'' ''work'' ''1'' unfetched_box = Inr unfetched"
    using u by (simp add: in_Get_def in_loadStored_def Let_def unfetched_box_def b_get_def kv_get_def recScoped_def in_withRaw_def)
  have l: "in_List ''work'' ''work'' unfetched_box = [unfetched]"
    using u by (simp add: in_List_def unfetched_box_def recScoped_def)
  show "HeldList (sample_holds\<lparr>hs_guard := Some strict_guard, hs_hold_spoof := True\<rparr>) sample_stdlib 9 unfetched_box = []"
    using u l g by (simp add: HeldList_def hs_inboxNames_def hs_inboxOwner_def sample_holds_def mailOwner_def NormInbox_def holds_one_def
        guardHoldsSpoof_def guard_Verdict_def IsSpoof_def strict_guard_def HeldByAssessment_def)
qed

end
