(* ===== verification/Imapfetch.thy ===== *)
theory Imapfetch
  imports Imapview
begin

text \<open>Model of the commands of \<open>internal/listener/imap.go\<close> that work on a selected mailbox: FETCH, STORE and
  SEARCH, with the lazy, memoized resolution of a message's content and the tombstone of a rejected one.

  The IMAP library is a record of functions: the structure and the sections it cuts out of a message, and
  the envelope it parses. Writing to the connection does not fail. A number set is its membership test.\<close>

section \<open>Resolving content\<close>

text \<open>The state of one resolver: what it returned the first time, and the store behind it.\<close>

record raw_state =
  rs_memo :: "(fetch_error + bytes) option"
  rs_store :: inbound

type_synonym raw_func = "raw_state \<Rightarrow> (fetch_error + bytes) \<times> raw_state"

definition tombstoneSubject :: string where
  "tombstoneSubject = ''[message reviewed out]''"

definition tombstoneRaw :: bytes where
  "tombstoneRaw = ''From: Darbaan <darbaan@localhost>'' @ crlf @ ''Subject: '' @ tombstoneSubject @ crlf
     @ ''Content-Type: text/plain; charset=utf-8'' @ crlf @ crlf
     @ ''A message was received here and was reviewed out by the operator. Its content is not delivered to the agent.'' @ crlf"

definition envelope_zero :: envelope where
  "envelope_zero = \<lparr>en_date = 0, en_subject = '''', en_from = [], en_sender = [], en_reply_to = [], en_to = [], en_cc = [],
     en_bcc = [], en_in_reply_to = [], en_message_id = ''''\<rparr>"

definition tombstoneInboundEnvelope :: envelope where
  "tombstoneInboundEnvelope = envelope_zero\<lparr>en_subject := tombstoneSubject,
     en_from := [\<lparr>ad_name = ''Darbaan'', ad_mailbox = ''darbaan'', ad_host = ''localhost''\<rparr>]\<rparr>"

definition tombstoneMessage :: "imessage \<Rightarrow> imessage" where
  "tombstoneMessage m = imessage_zero\<lparr>im_id := im_id m, im_owner := im_owner m, im_inbox := im_inbox m,
     im_received_at := im_received_at m, im_seen := im_seen m, im_size := int (length tombstoneRaw),
     im_envelope := Some tombstoneInboundEnvelope\<rparr>"

definition isTombstone :: "imessage \<Rightarrow> bool" where
  "isTombstone m \<longleftrightarrow> im_hold_decision m = HoldRejected"

definition tombstoneResolver :: raw_func where
  "tombstoneResolver rs = (Inr tombstoneRaw, rs)"

definition fmt_int :: "int \<Rightarrow> string" where
  "fmt_int n = (if n < 0 then ''-'' @ fmt_uint (nat (- n)) else fmt_uint (nat n))"

definition riskAdvisory :: "iassessment option \<Rightarrow> string \<times> string" where
  "riskAdvisory a = (case a of None \<Rightarrow> ('''', '''')
     | Some x \<Rightarrow> if ia_not_cleared x \<or> ia_band x = '''' then ('''', '''')
         else (ia_band x @ ''; score='' @ fmt_int (ia_score x), join '', '' (ia_factors x)))"

text \<open>The gates between a freshly fetched record and its body, and the stamp put on what passes.\<close>

definition gate_raw :: "imap_server \<Rightarrow> imap_session \<Rightarrow> imessage \<Rightarrow> inbound \<Rightarrow> bytes \<times> inbound" where
  "gate_raw E s full st = (
     if HeldByAssessment full \<and> im_hold_decision full \<noteq> HoldApproved then ([], st)
     else let (hidden, st1) = (case iv_guard E of None \<Rightarrow> (False, st) | Some g \<Rightarrow> guardHides E g full (is_selected_inbox s) st)
       in if hidden then ([], st1)
          else case iv_serve_stamp E of
              None \<Rightarrow> (im_raw full, st1)
            | Some stamp \<Rightarrow> if im_generated full then (im_raw full, st1)
                else let (risk, factors) = riskAdvisory (im_assessment full)
                  in (case stamp (is_selected_inbox s) (im_raw full) risk factors of None \<Rightarrow> [] | Some b \<Rightarrow> b, st1))"

definition rawResolver :: "imap_server \<Rightarrow> imap_session \<Rightarrow> imessage \<Rightarrow> raw_func" where
  "rawResolver E s m rs = (case rs_memo rs of
       Some r \<Rightarrow> (r, rs)
     | None \<Rightarrow>
         let (res, st) = (case iv_fetch E (im_owner m) (is_selected_inbox s) (im_id m) (rs_store rs) of
               (Inl e, st) \<Rightarrow> ((if fe_unavailable e then Inr [] else Inl e), st)
             | (Inr full, st) \<Rightarrow> (case gate_raw E s full st of (raw, st') \<Rightarrow> (Inr raw, st')))
         in (res, rs\<lparr>rs_memo := Some res, rs_store := st\<rparr>))"

text \<open>The resolver of a message, real or tombstone.\<close>

definition resolver_of :: "imap_server \<Rightarrow> imap_session \<Rightarrow> imessage \<Rightarrow> raw_func" where
  "resolver_of E s m = (if isTombstone m then tombstoneResolver else rawResolver E s m)"

definition fresh :: "inbound \<Rightarrow> raw_state" where
  "fresh st = \<lparr>rs_memo = None, rs_store = st\<rparr>"

definition sizeOf :: "imessage \<Rightarrow> raw_func \<Rightarrow> raw_state \<Rightarrow> (fetch_error + int) \<times> raw_state" where
  "sizeOf m getRaw rs = (if im_size m > 0 then (Inr (im_size m), rs)
     else case getRaw rs of (Inl e, rs') \<Rightarrow> (Inl e, rs') | (Inr raw, rs') \<Rightarrow> (Inr (int (length raw)), rs'))"

section \<open>FETCH\<close>

record ('sec, 'str) imap_lib =
  lb_structure :: "bytes \<Rightarrow> 'str"
  lb_section :: "'sec \<Rightarrow> bytes \<Rightarrow> bytes"
  lb_peek :: "'sec \<Rightarrow> bool"
  lb_envelope :: "bytes \<Rightarrow> envelope option"

record 'sec fetch_options =
  fo_flags :: bool
  fo_internal_date :: bool
  fo_size :: bool
  fo_envelope :: bool
  fo_structure :: bool
  fo_sections :: "'sec list"

datatype ('sec, 'str) response = RUid u32 | RFlags "string list" | RDate time | RSize int | REnvelope envelope
  | RStructure 'str | RSection 'sec bytes

definition flagList :: "imessage \<Rightarrow> string list" where
  "flagList m = (if im_seen m then [FlagSeen] else []) @ im_keywords m"

definition envelopeFor :: "('sec, 'str) imap_lib \<Rightarrow> imessage \<Rightarrow> raw_func \<Rightarrow> raw_state \<Rightarrow> (fetch_error + envelope option) \<times> raw_state" where
  "envelopeFor B m getRaw rs = (case im_envelope m of
       Some e \<Rightarrow> (Inr (Some e), rs)
     | None \<Rightarrow> (case getRaw rs of (Inl e, rs') \<Rightarrow> (Inl e, rs') | (Inr raw, rs') \<Rightarrow> (Inr (lb_envelope B raw), rs')))"

text \<open>One step of a response: it adds its, or ends the command with an error.\<close>

type_synonym ('sec, 'str) writer = "('sec, 'str) response list \<times> fetch_error option \<times> raw_state"

definition then_write ::
  "('sec, 'str) writer \<Rightarrow> (raw_state \<Rightarrow> (fetch_error + ('sec, 'str) response list) \<times> raw_state) \<Rightarrow> ('sec, 'str) writer" where
  "then_write w f = (case w of
       (its, Some e, rs) \<Rightarrow> (its, Some e, rs)
     | (its, None, rs) \<Rightarrow> (case f rs of (Inl e, rs') \<Rightarrow> (its, Some e, rs') | (Inr new, rs') \<Rightarrow> (its @ new, None, rs')))"

definition write_flags :: "'sec fetch_options \<Rightarrow> imessage \<Rightarrow> bool \<Rightarrow> ('sec, 'str) response list" where
  "write_flags opts m tombstone = (if fo_flags opts
     then [RFlags (flagList (if tombstone then tombstoneMessage m else m))] else [])"

definition write_size ::
  "'sec fetch_options \<Rightarrow> imessage \<Rightarrow> raw_func \<Rightarrow> bool \<Rightarrow> raw_state \<Rightarrow> (fetch_error + ('sec, 'str) response list) \<times> raw_state" where
  "write_size opts m getRaw tombstone rs = (if \<not> fo_size opts then (Inr [], rs)
     else if tombstone then (case getRaw rs of (Inl e, rs') \<Rightarrow> (Inl e, rs') | (Inr raw, rs') \<Rightarrow> (Inr [RSize (int (length raw))], rs'))
     else case sizeOf m getRaw rs of (Inl e, rs') \<Rightarrow> (Inl e, rs') | (Inr n, rs') \<Rightarrow> (Inr [RSize n], rs'))"

definition write_envelope ::
  "('sec, 'str) imap_lib \<Rightarrow> 'sec fetch_options \<Rightarrow> imessage \<Rightarrow> raw_func \<Rightarrow> bool \<Rightarrow> raw_state \<Rightarrow>
    (fetch_error + ('sec, 'str) response list) \<times> raw_state" where
  "write_envelope B opts m getRaw tombstone rs = (if \<not> fo_envelope opts then (Inr [], rs)
     else if tombstone then (Inr [REnvelope tombstoneInboundEnvelope], rs)
     else case envelopeFor B m getRaw rs of
         (Inl e, rs') \<Rightarrow> (Inl e, rs')
       | (Inr None, rs') \<Rightarrow> (Inr [], rs')
       | (Inr (Some env), rs') \<Rightarrow> (Inr [REnvelope env], rs'))"

definition write_structure ::
  "('sec, 'str) imap_lib \<Rightarrow> 'sec fetch_options \<Rightarrow> raw_func \<Rightarrow> raw_state \<Rightarrow> (fetch_error + ('sec, 'str) response list) \<times> raw_state" where
  "write_structure B opts getRaw rs = (if \<not> fo_structure opts then (Inr [], rs)
     else case getRaw rs of (Inl e, rs') \<Rightarrow> (Inl e, rs') | (Inr raw, rs') \<Rightarrow> (Inr [RStructure (lb_structure B raw)], rs'))"

definition write_section ::
  "('sec, 'str) imap_lib \<Rightarrow> raw_func \<Rightarrow> 'sec \<Rightarrow> raw_state \<Rightarrow> (fetch_error + ('sec, 'str) response list) \<times> raw_state" where
  "write_section B getRaw bs rs = (case getRaw rs of
       (Inl e, rs') \<Rightarrow> (Inl e, rs') | (Inr raw, rs') \<Rightarrow> (Inr [RSection bs (lb_section B bs raw)], rs'))"

definition fetchMessage ::
  "('sec, 'str) imap_lib \<Rightarrow> imessage \<Rightarrow> 'sec fetch_options \<Rightarrow> raw_func \<Rightarrow> bool \<Rightarrow> raw_state \<Rightarrow> ('sec, 'str) writer" where
  "fetchMessage B m opts getRaw tombstone rs = (
     let w0 = ([RUid (uidOf m)] @ write_flags opts m tombstone
                 @ (if fo_internal_date opts then [RDate (im_received_at m)] else []), None, rs);
         w1 = then_write w0 (write_size opts m getRaw tombstone);
         w2 = then_write w1 (write_envelope B opts m getRaw tombstone);
         w3 = then_write w2 (write_structure B opts getRaw)
     in foldl (\<lambda>w bs. then_write w (write_section B getRaw bs)) w3 (fo_sections opts))"

datatype num_set = SeqSet "nat \<Rightarrow> bool" | UidSet "u32 \<Rightarrow> bool"

definition in_num_set :: "num_set \<Rightarrow> nat \<Rightarrow> imessage \<Rightarrow> bool" where
  "in_num_set ns seqNum m = (case ns of SeqSet f \<Rightarrow> f seqNum | UidSet f \<Rightarrow> f (uidOf m))"

text \<open>One message of a FETCH: its responses, the message as it stands afterwards, the error and the store.\<close>

definition fetch_one ::
  "imap_server \<Rightarrow> ('sec, 'str) imap_lib \<Rightarrow> io \<Rightarrow> imap_session \<Rightarrow> 'sec fetch_options \<Rightarrow> imessage \<Rightarrow> inbound \<Rightarrow>
    ('sec, 'str) response list \<times> imessage \<times> imap_err option \<times> inbound" where
  "fetch_one E B io s opts m st = (
     let markSeen = list_ex (\<lambda>bs. \<not> lb_peek B bs) (fo_sections opts);
         (err, m1, st1) = (if markSeen \<and> \<not> im_seen m
            then (case in_SetSeen io (im_owner m) (is_selected_inbox s) (im_id m) True st of
                    (Inl e, t) \<Rightarrow> (Some (ImStore e), m, t) | (Inr _, t) \<Rightarrow> (None, m\<lparr>im_seen := True\<rparr>, t))
            else (None, m, st))
     in case err of
          Some e \<Rightarrow> ([], m1, Some e, st1)
        | None \<Rightarrow> (case fetchMessage B m1 opts (resolver_of E s m1) (isTombstone m1) (fresh st1) of
            (its, ferr, rs) \<Rightarrow> (its, m1, map_option ImFetch ferr, rs_store rs)))"

fun fetch_loop ::
  "imap_server \<Rightarrow> ('sec, 'str) imap_lib \<Rightarrow> io \<Rightarrow> imap_session \<Rightarrow> 'sec fetch_options \<Rightarrow> num_set \<Rightarrow> nat \<Rightarrow> imessage list \<Rightarrow> inbound \<Rightarrow>
    (nat \<times> ('sec, 'str) response list) list \<times> imessage list \<times> imap_err option \<times> inbound" where
  "fetch_loop E B io s opts ns i [] st = ([], [], None, st)"
| "fetch_loop E B io s opts ns i (m # ms) st = (
     if \<not> in_num_set ns i m then
       (case fetch_loop E B io s opts ns (i + 1) ms st of (out, ms', err, st') \<Rightarrow> (out, m # ms', err, st'))
     else case fetch_one E B io s opts m st of
         (its, m', Some e, st1) \<Rightarrow> ([(i, its)], m' # ms, Some e, st1)
       | (its, m', None, st1) \<Rightarrow>
           (case fetch_loop E B io s opts ns (i + 1) ms st1 of (out, ms', err, st') \<Rightarrow> ((i, its) # out, m' # ms', err, st')))"

definition imap_Fetch ::
  "imap_server \<Rightarrow> ('sec, 'str) imap_lib \<Rightarrow> io \<Rightarrow> num_set \<Rightarrow> 'sec fetch_options \<Rightarrow> imap_session \<Rightarrow> inbound \<Rightarrow>
    (nat \<times> ('sec, 'str) response list) list \<times> imap_err option \<times> imap_session \<times> inbound" where
  "imap_Fetch E B io ns opts s st = (case fetch_loop E B io s opts ns 1 (is_selected s) st of
     (out, ms, err, st') \<Rightarrow> (out, err, s\<lparr>is_selected := ms\<rparr>, st'))"

section \<open>STORE\<close>

datatype store_op = StoreSet | StoreAdd | StoreDel

definition keywordFlags :: "string list \<Rightarrow> string list" where
  "keywordFlags flags = filter (\<lambda>f. \<not> has_prefix f [CHR 0x5C]) flags"

definition seenFromStoreFlags :: "store_op \<Rightarrow> string list \<Rightarrow> bool \<times> bool" where
  "seenFromStoreFlags sop flags = (let hasSeen = FlagSeen \<in> set flags in
     case sop of StoreAdd \<Rightarrow> (True, hasSeen) | StoreDel \<Rightarrow> (False, hasSeen) | StoreSet \<Rightarrow> (hasSeen, True))"

fun add_keywords :: "string list \<Rightarrow> string list \<Rightarrow> string list \<times> string list" where
  "add_keywords cur [] = (cur, [])"
| "add_keywords cur (k # ks) = (if k \<in> set cur then add_keywords cur ks
     else case add_keywords (cur @ [k]) ks of (c, added) \<Rightarrow> (c, k # added))"

fun del_keywords :: "string list \<Rightarrow> string list \<Rightarrow> string list \<times> string list" where
  "del_keywords cur [] = (cur, [])"
| "del_keywords cur (k # ks) = (if k \<in> set cur then (case del_keywords (removeAll k cur) ks of (c, removed) \<Rightarrow> (c, k # removed))
     else del_keywords cur ks)"

text \<open>A Go set is a list without duplicates.\<close>

definition applyKeywordOp :: "string list \<Rightarrow> store_op \<Rightarrow> string list \<Rightarrow> string list \<times> string list \<times> string list" where
  "applyKeywordOp current sop kw = (
     let cur = remdups current;
         (next', added, removed) = (case sop of
             StoreAdd \<Rightarrow> (case add_keywords cur kw of (c, a) \<Rightarrow> (c, a, []))
           | StoreDel \<Rightarrow> (case del_keywords cur kw of (c, r) \<Rightarrow> (c, [], r))
           | StoreSet \<Rightarrow> (remdups kw, filter (\<lambda>k. k \<notin> set cur) kw, filter (\<lambda>k. k \<notin> set kw) cur))
     in (sort next', sort added, sort removed))"

text \<open>One message of a STORE; the \<open>io\<close> records are those of the three writes to the store.\<close>

definition store_seen :: "io \<Rightarrow> string \<Rightarrow> bool \<Rightarrow> bool \<Rightarrow> imessage \<Rightarrow> inbound \<Rightarrow> in_err option \<times> imessage \<times> inbound" where
  "store_seen io inbox touches seen m st = (if touches \<and> im_seen m \<noteq> seen
     then (case in_SetSeen io (im_owner m) inbox (im_id m) seen st of
             (Inl e, t) \<Rightarrow> (Some e, m, t) | (Inr _, t) \<Rightarrow> (None, m\<lparr>im_seen := seen\<rparr>, t))
     else (None, m, st))"

definition store_keywords ::
  "imap_server \<Rightarrow> io \<Rightarrow> io \<Rightarrow> string \<Rightarrow> store_op \<Rightarrow> string list \<Rightarrow> imessage \<Rightarrow> inbound \<Rightarrow> in_err option \<times> imessage \<times> inbound" where
  "store_keywords E io io2 inbox sop kw m st = (if \<not> (sop = StoreSet \<or> kw \<noteq> []) then (None, m, st)
     else let (next', added, removed) = applyKeywordOp (im_keywords m) sop kw in
       if added = [] \<and> removed = [] then (None, m, st)
       else case in_SetKeywords io (im_owner m) inbox (im_id m) next' st of
           (Inl e, t) \<Rightarrow> (Some e, m, t)
         | (Inr _, t) \<Rightarrow>
             let m' = m\<lparr>im_keywords := next'\<rparr> in
             (case iv_write_keywords E of
                None \<Rightarrow> (None, m', t)
              | Some write \<Rightarrow> if im_upstream_uid m = 0 then (None, m', t)
                  else (case write (im_owner m) inbox (im_id m) added removed t of
                      (False, t') \<Rightarrow> (None, m', t')
                    | (True, t') \<Rightarrow> (None, m', snd (in_ClearKeywordsDirty io2 (im_owner m) inbox (im_id m) t')))))"

definition store_one ::
  "imap_server \<Rightarrow> io \<Rightarrow> io \<Rightarrow> io \<Rightarrow> string \<Rightarrow> store_op \<Rightarrow> string list \<Rightarrow> imessage \<Rightarrow> inbound \<Rightarrow> imap_err option \<times> imessage \<times> inbound" where
  "store_one E io1 io2 io3 inbox sop flags m st = (
     let (seen, touches) = seenFromStoreFlags sop flags
     in case store_seen io1 inbox touches seen m st of
          (Some e, m1, st1) \<Rightarrow> (Some (ImStore e), m1, st1)
        | (None, m1, st1) \<Rightarrow> (case store_keywords E io2 io3 inbox sop (keywordFlags flags) m1 st1 of
            (err, m2, st2) \<Rightarrow> (map_option ImStore err, m2, st2)))"

text \<open>The loop: after an error nothing more is done. Each message has its three \<open>io\<close> records.\<close>

fun store_loop ::
  "imap_server \<Rightarrow> (string \<Rightarrow> io \<times> io \<times> io) \<Rightarrow> string \<Rightarrow> num_set \<Rightarrow> store_op \<Rightarrow> bool \<Rightarrow> string list \<Rightarrow> nat \<Rightarrow> imessage list \<Rightarrow> inbound \<Rightarrow>
    (nat \<times> u32 \<times> string list) list \<times> imessage list \<times> imap_err option \<times> inbound" where
  "store_loop E ios inbox ns sop silent flags i [] st = ([], [], None, st)"
| "store_loop E ios inbox ns sop silent flags i (m # ms) st = (
     if \<not> in_num_set ns i m then
       (case store_loop E ios inbox ns sop silent flags (i + 1) ms st of (out, ms', err, st') \<Rightarrow> (out, m # ms', err, st'))
     else case ios (im_id m) of (io1, io2, io3) \<Rightarrow>
       (case store_one E io1 io2 io3 inbox sop flags m st of
          (Some e, m', st1) \<Rightarrow> ([], m' # ms, Some e, st1)
        | (None, m', st1) \<Rightarrow>
            (case store_loop E ios inbox ns sop silent flags (i + 1) ms st1 of
               (out, ms', err, st') \<Rightarrow> ((if silent then out else (i, uidOf m', flagList m') # out), m' # ms', err, st'))))"

definition imap_Store ::
  "imap_server \<Rightarrow> (string \<Rightarrow> io \<times> io \<times> io) \<Rightarrow> num_set \<Rightarrow> store_op \<Rightarrow> bool \<Rightarrow> string list \<Rightarrow> imap_session \<Rightarrow> inbound \<Rightarrow>
    (nat \<times> u32 \<times> string list) list \<times> imap_err option \<times> imap_session \<times> inbound" where
  "imap_Store E ios ns sop silent flags s st =
     (case store_loop E ios (is_selected_inbox s) ns sop silent flags 1 (is_selected s) st of
        (out, ms, err, st') \<Rightarrow> (out, err, s\<lparr>is_selected := ms\<rparr>, st'))"

section \<open>SEARCH\<close>

record flat_criteria =
  sc_seq :: "(nat \<Rightarrow> bool) list"
  sc_uid :: "(u32 \<Rightarrow> bool) list"
  sc_since :: time
  sc_before :: time
  sc_flag :: "string list"
  sc_not_flag :: "string list"
  sc_larger :: int
  sc_smaller :: int
  sc_header :: "(string \<times> string) list"
  sc_text :: "string list"
  sc_body :: "string list"

text \<open>The criteria with the lists of their \<open>Not\<close> and their \<open>Or\<close> fields.\<close>

datatype criteria = Criteria flat_criteria "criteria list" "(criteria \<times> criteria) list"

definition day :: duration where
  "day = 24 * 3600 * 10 ^ 9"

definition dateOnly :: "time \<Rightarrow> int" where
  "dateOnly t = t div day"

definition matchDate :: "time \<Rightarrow> time \<Rightarrow> time \<Rightarrow> bool" where
  "matchDate t since before = (
     if since \<noteq> 0 \<and> dateOnly t < dateOnly since then False
     else if before \<noteq> 0 \<and> \<not> dateOnly t < dateOnly before then False else True)"

definition hasFlag :: "imessage \<Rightarrow> string \<Rightarrow> bool" where
  "hasFlag m f \<longleftrightarrow> f = FlagSeen \<and> im_seen m"

definition formatAddr :: "address \<Rightarrow> string" where
  "formatAddr a = (let addr = addr_string a in if ad_name a \<noteq> '''' then ad_name a @ '' <'' @ addr @ ''>'' else addr)"

definition formatAddrs :: "address list \<Rightarrow> string" where
  "formatAddrs as = (if as = [] then '''' else join '', '' (map formatAddr as))"

definition envelopeHeader :: "stdlib \<Rightarrow> envelope \<Rightarrow> string \<Rightarrow> string option" where
  "envelopeHeader L e key = (let k = to_lower key in
     if k = ''subject'' then Some (en_subject e)
     else if k = ''from'' then Some (formatAddrs (en_from e))
     else if k = ''sender'' then Some (formatAddrs (en_sender e))
     else if k = ''reply-to'' then Some (formatAddrs (en_reply_to e))
     else if k = ''to'' then Some (formatAddrs (en_to e))
     else if k = ''cc'' then Some (formatAddrs (en_cc e))
     else if k = ''bcc'' then Some (formatAddrs (en_bcc e))
     else if k = ''message-id'' then Some (en_message_id e)
     else if k = ''in-reply-to'' then Some (join '' '' (en_in_reply_to e))
     else if k = ''date'' then Some (if en_date e = 0 then '''' else sl_rfc1123z L (en_date e))
     else None)"

definition matchHeader :: "stdlib \<Rightarrow> imessage \<Rightarrow> string \<times> string \<Rightarrow> raw_func \<Rightarrow> raw_state \<Rightarrow> (fetch_error + bool) \<times> raw_state" where
  "matchHeader L m h getRaw rs = (
     case (case im_envelope m of None \<Rightarrow> None | Some e \<Rightarrow> envelopeHeader L e (fst h)) of
       Some v \<Rightarrow> (Inr (if snd h = '''' then v \<noteq> '''' else contains_str (to_lower v) (to_lower (snd h))), rs)
     | None \<Rightarrow> (case getRaw rs of
         (Inl e, rs') \<Rightarrow> (Inl e, rs')
       | (Inr raw, rs') \<Rightarrow> (Inr (let low = to_lower raw in contains_str low (to_lower (fst h))
             \<and> (snd h = '''' \<or> contains_str low (to_lower (snd h)))), rs')))"

text \<open>A criterion that needs content answers, fails, or lets the next one decide.\<close>

definition and_then :: "(fetch_error + bool) \<times> raw_state \<Rightarrow> (raw_state \<Rightarrow> (fetch_error + bool) \<times> raw_state) \<Rightarrow> (fetch_error + bool) \<times> raw_state" where
  "and_then r f = (case r of (Inr True, rs) \<Rightarrow> f rs | other \<Rightarrow> other)"

definition match_size :: "imessage \<Rightarrow> int \<Rightarrow> int \<Rightarrow> raw_func \<Rightarrow> raw_state \<Rightarrow> (fetch_error + bool) \<times> raw_state" where
  "match_size m larger smaller getRaw rs = (if larger \<noteq> 0 \<or> smaller \<noteq> 0 then
       (case sizeOf m getRaw rs of
          (Inl e, rs') \<Rightarrow> (Inl e, rs')
        | (Inr sz, rs') \<Rightarrow> (Inr (\<not> (larger \<noteq> 0 \<and> sz \<le> larger) \<and> \<not> (smaller \<noteq> 0 \<and> sz \<ge> smaller)), rs'))
     else (Inr True, rs))"

fun match_headers :: "stdlib \<Rightarrow> imessage \<Rightarrow> (string \<times> string) list \<Rightarrow> raw_func \<Rightarrow> raw_state \<Rightarrow> (fetch_error + bool) \<times> raw_state" where
  "match_headers L m [] getRaw rs = (Inr True, rs)"
| "match_headers L m (h # hs) getRaw rs = and_then (matchHeader L m h getRaw rs) (match_headers L m hs getRaw)"

definition match_content :: "string list \<Rightarrow> string list \<Rightarrow> raw_func \<Rightarrow> raw_state \<Rightarrow> (fetch_error + bool) \<times> raw_state" where
  "match_content txt bdy getRaw rs = (if txt \<noteq> [] \<or> bdy \<noteq> [] then
       (case getRaw rs of
          (Inl e, rs') \<Rightarrow> (Inl e, rs')
        | (Inr raw, rs') \<Rightarrow> (Inr (list_all (\<lambda>t. contains_str (to_lower raw) (to_lower t)) (txt @ bdy)), rs'))
     else (Inr True, rs))"

definition match_meta :: "nat \<Rightarrow> imessage \<Rightarrow> flat_criteria \<Rightarrow> bool" where
  "match_meta n m c = (
     if \<not> list_all (\<lambda>f. f n) (sc_seq c) then False
     else if \<not> list_all (\<lambda>f. f (uidOf m)) (sc_uid c) then False
     else if \<not> matchDate (im_received_at m) (sc_since c) (sc_before c) then False
     else if \<not> list_all (hasFlag m) (sc_flag c) then False
     else \<not> list_ex (hasFlag m) (sc_not_flag c))"

definition match_flat :: "stdlib \<Rightarrow> nat \<Rightarrow> imessage \<Rightarrow> raw_func \<Rightarrow> flat_criteria \<Rightarrow> raw_state \<Rightarrow> (fetch_error + bool) \<times> raw_state" where
  "match_flat L n m getRaw c rs = (if \<not> match_meta n m c then (Inr False, rs)
     else and_then (and_then (match_size m (sc_larger c) (sc_smaller c) getRaw rs)
       (match_headers L m (sc_header c) getRaw)) (match_content (sc_text c) (sc_body c) getRaw))"

type_synonym matcher = "raw_state \<Rightarrow> (fetch_error + bool) \<times> raw_state"

fun match_not :: "matcher list \<Rightarrow> matcher" where
  "match_not [] rs = (Inr True, rs)"
| "match_not (c # cs) rs = (case c rs of
       (Inl e, rs') \<Rightarrow> (Inl e, rs')
     | (Inr ok, rs') \<Rightarrow> if ok then (Inr False, rs') else match_not cs rs')"

fun match_or :: "(matcher \<times> matcher) list \<Rightarrow> matcher" where
  "match_or [] rs = (Inr True, rs)"
| "match_or ((a, b) # os) rs = (case a rs of
       (Inl e, rs') \<Rightarrow> (Inl e, rs')
     | (Inr ok, rs') \<Rightarrow> if ok then match_or os rs'
         else (case b rs' of
             (Inl e, rs'') \<Rightarrow> (Inl e, rs'')
           | (Inr ok', rs'') \<Rightarrow> if ok' then match_or os rs'' else (Inr False, rs'')))"

primrec matchSearch :: "stdlib \<Rightarrow> nat \<Rightarrow> imessage \<Rightarrow> raw_func \<Rightarrow> criteria \<Rightarrow> matcher" where
  "matchSearch L n m getRaw (Criteria c nt orr) = (\<lambda>rs.
     and_then (and_then (match_flat L n m getRaw c rs) (match_not (map (matchSearch L n m getRaw) nt)))
       (match_or (map (map_prod (matchSearch L n m getRaw) (matchSearch L n m getRaw)) orr)))"

text \<open>One message of a SEARCH: a message whose content cannot be resolved is no match.\<close>

definition search_one :: "imap_server \<Rightarrow> stdlib \<Rightarrow> imap_session \<Rightarrow> criteria \<Rightarrow> nat \<Rightarrow> imessage \<Rightarrow> inbound \<Rightarrow> bool \<times> inbound" where
  "search_one E L s c n m st = (
     case matchSearch L n (if isTombstone m then tombstoneMessage m else m) (resolver_of E s m) c (fresh st) of
       (Inl e, rs) \<Rightarrow> (False, rs_store rs)
     | (Inr ok, rs) \<Rightarrow> (ok, rs_store rs))"

fun search_loop :: "imap_server \<Rightarrow> stdlib \<Rightarrow> imap_session \<Rightarrow> criteria \<Rightarrow> nat \<Rightarrow> imessage list \<Rightarrow> inbound \<Rightarrow> (nat \<times> u32) list \<times> inbound" where
  "search_loop E L s c n [] st = ([], st)"
| "search_loop E L s c n (m # ms) st = (
     let (ok, st1) = search_one E L s c n m st; (hits, st2) = search_loop E L s c (n + 1) ms st1
     in (if ok then (n, uidOf m) # hits else hits, st2))"

record search_data =
  sr_hits :: "(nat \<times> u32) list"
  sr_min :: nat
  sr_max :: nat
  sr_count :: nat

text \<open>\<open>uid\<close> says whether the numbers reported are UIDs.\<close>

definition imap_Search :: "imap_server \<Rightarrow> stdlib \<Rightarrow> bool \<Rightarrow> criteria \<Rightarrow> imap_session \<Rightarrow> inbound \<Rightarrow> search_data \<times> inbound" where
  "imap_Search E L uid c s st = (
     let (hits, st') = search_loop E L s c 1 (is_selected s) st;
         nums = map (\<lambda>(n, u). if uid then unat u else n) hits
     in (\<lparr>sr_hits = hits, sr_min = foldl (\<lambda>a n. if a = 0 \<or> n < a then n else a) 0 nums, sr_max = foldl max 0 nums,
          sr_count = length hits\<rparr>, st'))"

section \<open>The read-only commands\<close>

definition imap_readOnly :: "imap_err" where
  "imap_readOnly = ImReadOnly"

section \<open>A rejected message reveals nothing\<close>

text \<open>Two snapshots of a rejected message that agree in what darbaan itself tracks.\<close>

definition same_track :: "imessage \<Rightarrow> imessage \<Rightarrow> bool" where
  "same_track m m' \<longleftrightarrow> m = m' \<or> isTombstone m \<and> isTombstone m' \<and> im_id m = im_id m' \<and> im_owner m = im_owner m'
     \<and> im_inbox m = im_inbox m' \<and> im_received_at m = im_received_at m' \<and> im_seen m = im_seen m'"

lemma same_track_refl [simp]: "same_track m m"
  by (simp add: same_track_def)

lemma same_track_sel:
  assumes "same_track m m'"
  shows "uidOf m = uidOf m'" "isTombstone m = isTombstone m'" "im_seen m = im_seen m'" "im_id m = im_id m'"
    "im_owner m = im_owner m'" "im_received_at m = im_received_at m'" "resolver_of E s m = resolver_of E s m'"
  using assms by (auto simp: same_track_def uidOf_def resolver_of_def)

lemma tombstone_same: "same_track m m' \<Longrightarrow> isTombstone m \<Longrightarrow> tombstoneMessage m = tombstoneMessage m'"
  by (auto simp: same_track_def tombstoneMessage_def)

lemma fetchMessage_tombstone:
  fixes B :: "('sec, 'str) imap_lib"
  assumes "same_track m m'" "isTombstone m"
  shows "fetchMessage B m opts getRaw True rs = fetchMessage B m' opts getRaw True rs"
proof -
  have f: "(write_flags opts m True :: ('sec, 'str) response list) = write_flags opts m' True"
    using tombstone_same [OF assms] by (simp add: write_flags_def)
  have z: "(write_size opts m getRaw True :: raw_state \<Rightarrow> (fetch_error + ('sec, 'str) response list) \<times> raw_state)
      = write_size opts m' getRaw True" by (rule ext) (simp add: write_size_def)
  have e: "write_envelope B opts m getRaw True = write_envelope B opts m' getRaw True" by (rule ext) (simp add: write_envelope_def)
  show ?thesis unfolding fetchMessage_def f z e same_track_sel(1,6) [OF assms(1)] ..
qed

lemma same_track_seen: "same_track m m' \<Longrightarrow> same_track (m\<lparr>im_seen := b\<rparr>) (m'\<lparr>im_seen := b\<rparr>)"
  by (auto simp: same_track_def isTombstone_def)

lemma fetchMessage_same:
  assumes "same_track m m'"
  shows "fetchMessage B m opts (resolver_of E s m) (isTombstone m) rs = fetchMessage B m' opts (resolver_of E s m') (isTombstone m') rs"
proof (cases "isTombstone m")
  case True
  then show ?thesis using fetchMessage_tombstone [OF assms True] same_track_sel(2,7) [OF assms] by simp
next
  case False
  then have "m = m'" using assms by (simp add: same_track_def)
  then show ?thesis by simp
qed

lemma fetch_one_same:
  assumes "same_track m m'" "fetch_one E B io s opts m st = (out, m1, err, st1)"
  shows "\<exists>m2. fetch_one E B io s opts m' st = (out, m2, err, st1) \<and> same_track m1 m2"
proof -
  define mk where "mk \<longleftrightarrow> list_ex (\<lambda>bs. \<not> lb_peek B bs) (fo_sections opts) \<and> \<not> im_seen m"
  note sel = same_track_sel [OF assms(1)]
  obtain r t where r: "in_SetSeen io (im_owner m) (is_selected_inbox s) (im_id m) True st = (r, t)" by fastforce
  have one: "fetch_one E B io s opts x st = (
      if mk \<and> isl r then ([], x, Some (ImStore (projl r)), t)
      else let x1 = (if mk then x\<lparr>im_seen := True\<rparr> else x); st1 = (if mk then t else st)
        in case fetchMessage B x1 opts (resolver_of E s x1) (isTombstone x1) (fresh st1) of
            (its, ferr, rs) \<Rightarrow> (its, x1, map_option ImFetch ferr, rs_store rs))" if "x = m \<or> x = m'" for x
    using that sel r unfolding fetch_one_def mk_def by (cases r) (auto simp: Let_def)
  have "same_track (if mk then m\<lparr>im_seen := True\<rparr> else m) (if mk then m'\<lparr>im_seen := True\<rparr> else m')"
    using assms(1) same_track_seen by simp
  from fetchMessage_same [OF this, of B opts E s "fresh (if mk then t else st)"] this assms
  show ?thesis unfolding one [of m, simplified] one [of m', simplified]
    by (auto simp: Let_def split: if_splits prod.splits)
qed

lemma fetch_loop_same:
  "list_all2 same_track ms ms' \<Longrightarrow> fetch_loop E B io s opts ns i ms st = (out, rest, err, st1) \<Longrightarrow>
    \<exists>rest'. fetch_loop E B io s opts ns i ms' st = (out, rest', err, st1) \<and> list_all2 same_track rest rest'"
proof (induction ms ms' arbitrary: i st out rest err st1 rule: list_all2_induct)
  case (Cons m ms m' ms')
  show ?case
  proof (cases "in_num_set ns i m")
    case False
    obtain o2 r2 e2 t2 where q: "fetch_loop E B io s opts ns (i + 1) ms st = (o2, r2, e2, t2)" by (metis prod.exhaust)
    obtain r3 where "fetch_loop E B io s opts ns (i + 1) ms' st = (o2, r3, e2, t2)" "list_all2 same_track r2 r3"
      using Cons.IH [OF q] by blast
    moreover have "\<not> in_num_set ns i m'" using False same_track_sel [OF Cons.hyps(1)] by (simp add: in_num_set_def split: num_set.splits)
    moreover have "out = o2" "rest = m # r2" "err = e2" "st1 = t2" using Cons.prems False q by simp_all
    ultimately show ?thesis using Cons.hyps(1) by (intro exI [of _ "m' # r3"]) simp
  next
    case True
    then have n: "in_num_set ns i m'" using same_track_sel [OF Cons.hyps(1)] by (simp add: in_num_set_def split: num_set.splits)
    obtain o1 m1 e1 t1 where p: "fetch_one E B io s opts m st = (o1, m1, e1, t1)" by (metis prod.exhaust)
    obtain m2 where p': "fetch_one E B io s opts m' st = (o1, m2, e1, t1)" "same_track m1 m2"
      using fetch_one_same [OF Cons.hyps(1) p] by blast
    show ?thesis
    proof (cases e1)
      case (Some e)
      moreover have "out = [(i, o1)]" "rest = m1 # ms" "err = Some e" "st1 = t1" using Cons.prems p True Some by simp_all
      ultimately show ?thesis using Cons.hyps p' n by (intro exI [of _ "m2 # ms'"]) simp
    next
      case None
      obtain o2 r2 e2 t2 where q: "fetch_loop E B io s opts ns (i + 1) ms t1 = (o2, r2, e2, t2)" by (metis prod.exhaust)
      obtain r3 where "fetch_loop E B io s opts ns (i + 1) ms' t1 = (o2, r3, e2, t2)" "list_all2 same_track r2 r3"
        using Cons.IH [OF q] by blast
      moreover have "out = (i, o1) # o2" "rest = m1 # r2" "err = e2" "st1 = t2" using Cons.prems p True None q by simp_all
      ultimately show ?thesis using None p' n by (intro exI [of _ "m2 # r3"]) simp
    qed
  qed
qed simp

lemma search_one_same:
  assumes "same_track m m'" shows "search_one E L s c n m st = search_one E L s c n m' st"
proof (cases "isTombstone m")
  case True
  then show ?thesis
    using tombstone_same [OF assms True] same_track_sel(2,7) [OF assms] by (simp add: search_one_def)
next
  case False
  then have "m = m'" using assms by (simp add: same_track_def)
  then show ?thesis by simp
qed

lemma search_loop_same: "list_all2 same_track ms ms' \<Longrightarrow> search_loop E L s c n ms st = search_loop E L s c n ms' st"
proof (induction ms ms' arbitrary: n st rule: list_all2_induct)
  case (Cons m ms m' ms')
  show ?case unfolding search_loop.simps search_one_same [OF Cons.hyps(1)] Cons.IH same_track_sel(1) [OF Cons.hyps(1)] ..
qed simp

text \<open>The loops read the selected inbox only.\<close>

lemma selected_inbox: "is_selected_inbox (s\<lparr>is_selected := ms\<rparr>) = is_selected_inbox s"
  by simp

lemma rawResolver_selected: "rawResolver E (s\<lparr>is_selected := ms\<rparr>) m = rawResolver E s m"
  unfolding rawResolver_def [abs_def] gate_raw_def selected_inbox ..

lemma resolver_selected: "resolver_of E (s\<lparr>is_selected := ms\<rparr>) m = resolver_of E s m"
  by (simp add: resolver_of_def rawResolver_selected)

lemma fetch_loop_selected: "fetch_loop E B io (s\<lparr>is_selected := ms\<rparr>) opts ns i xs st = fetch_loop E B io s opts ns i xs st"
proof (induction xs arbitrary: i st)
  case (Cons x xs)
  have "fetch_one E B io (s\<lparr>is_selected := ms\<rparr>) opts x st = fetch_one E B io s opts x st"
    unfolding fetch_one_def resolver_selected selected_inbox ..
  then show ?case unfolding fetch_loop.simps Cons.IH by (simp only:)
qed simp

lemma search_loop_selected: "search_loop E L (s\<lparr>is_selected := ms\<rparr>) c n xs st = search_loop E L s c n xs st"
proof (induction xs arbitrary: n st)
  case (Cons x xs)
  show ?case unfolding search_loop.simps search_one_def resolver_selected Cons.IH ..
qed simp


section \<open>What body is served\<close>

text \<open>The bytes of a message that passed every gate: a record freshly fetched for it, not held by the assessment
  unless an operator approved it, not taken for a forged bounce, and stamped for the selected inbox unless
  darbaan generated it or no stamp is configured.\<close>

definition passed :: "imap_server \<Rightarrow> imap_session \<Rightarrow> imessage \<Rightarrow> bytes \<Rightarrow> bool" where
  "passed E s m raw \<longleftrightarrow> (\<exists>st full st1. iv_fetch E (im_owner m) (is_selected_inbox s) (im_id m) st = (Inr full, st1)
     \<and> (HeldByAssessment full \<longrightarrow> im_hold_decision full = HoldApproved)
     \<and> (case iv_guard E of None \<Rightarrow> True | Some g \<Rightarrow> \<not> fst (guardHides E g full (is_selected_inbox s) st1))
     \<and> (case iv_serve_stamp E of None \<Rightarrow> raw = im_raw full
        | Some stamp \<Rightarrow> if im_generated full then raw = im_raw full
            else stamp (is_selected_inbox s) (im_raw full) (fst (riskAdvisory (im_assessment full))) (snd (riskAdvisory (im_assessment full))) = Some raw))"

definition served :: "imap_server \<Rightarrow> imap_session \<Rightarrow> imessage \<Rightarrow> bytes \<Rightarrow> bool" where
  "served E s m raw \<longleftrightarrow> (if isTombstone m then raw = tombstoneRaw else raw = [] \<or> passed E s m raw)"

lemma passedI:
  assumes "iv_fetch E (im_owner m) (is_selected_inbox s) (im_id m) st = (Inr full, st1)"
    and "HeldByAssessment full \<longrightarrow> im_hold_decision full = HoldApproved"
    and "case iv_guard E of None \<Rightarrow> True | Some g \<Rightarrow> \<not> fst (guardHides E g full (is_selected_inbox s) st1)"
    and "case iv_serve_stamp E of None \<Rightarrow> raw = im_raw full
        | Some stamp \<Rightarrow> if im_generated full then raw = im_raw full
            else stamp (is_selected_inbox s) (im_raw full) (fst (riskAdvisory (im_assessment full))) (snd (riskAdvisory (im_assessment full))) = Some raw"
  shows "passed E s m raw"
  unfolding passed_def using assms by blast

lemma gate_raw_passed:
  assumes "iv_fetch E (im_owner m) (is_selected_inbox s) (im_id m) st = (Inr full, st1)" "gate_raw E s full st1 = (raw, st2)"
  shows "raw = [] \<or> passed E s m raw"
proof (cases "HeldByAssessment full \<and> im_hold_decision full \<noteq> HoldApproved")
  case True
  then show ?thesis using assms(2) by (simp add: gate_raw_def)
next
  case False
  obtain hidden st3 where h: "(case iv_guard E of None \<Rightarrow> (False, st1) | Some g \<Rightarrow> guardHides E g full (is_selected_inbox s) st1) = (hidden, st3)"
    by fastforce
  then have g: "\<not> hidden \<Longrightarrow> (case iv_guard E of None \<Rightarrow> True | Some g \<Rightarrow> \<not> fst (guardHides E g full (is_selected_inbox s) st1))"
    by (auto split: option.splits)
  show ?thesis
  proof (cases hidden)
    case True
    then show ?thesis using assms(2) h False by (auto simp: gate_raw_def)
  next
    case nh: False
    show ?thesis
    proof (cases "iv_serve_stamp E")
      case None
      then have "raw = im_raw full" using assms(2) h nh False by (auto simp: gate_raw_def)
      then have "passed E s m raw"
        by (intro passedI [OF assms(1) _ g [OF nh]]) (simp_all only: None option.case, use False in blast)
      then show ?thesis by simp
    next
      case (Some stamp)
      let ?r = "riskAdvisory (im_assessment full)"
      have "raw = (if im_generated full then im_raw full
          else case stamp (is_selected_inbox s) (im_raw full) (fst ?r) (snd ?r) of None \<Rightarrow> [] | Some b \<Rightarrow> b)"
        using assms(2) h nh False Some by (auto simp: gate_raw_def case_prod_beta)
      then consider "raw = []" | "if im_generated full then raw = im_raw full
          else stamp (is_selected_inbox s) (im_raw full) (fst ?r) (snd ?r) = Some raw"
        by (cases "im_generated full"; cases "stamp (is_selected_inbox s) (im_raw full) (fst ?r) (snd ?r)") simp_all
      then show ?thesis
      proof cases
        case 2
        have "passed E s m raw"
          by (rule passedI [OF assms(1) _ g [OF nh]]) (use False in blast, use 2 in \<open>simp only: Some option.case\<close>)
        then show ?thesis by simp
      qed simp
    qed
  qed
qed

text \<open>What a resolver yields, now or from its memo, satisfies \<open>P\<close>.\<close>

definition memo_ok :: "(bytes \<Rightarrow> bool) \<Rightarrow> raw_state \<Rightarrow> bool" where
  "memo_ok P rs \<longleftrightarrow> (\<forall>raw. rs_memo rs = Some (Inr raw) \<longrightarrow> P raw)"

definition yields :: "(bytes \<Rightarrow> bool) \<Rightarrow> raw_func \<Rightarrow> bool" where
  "yields P getRaw \<longleftrightarrow> (\<forall>rs r rs'. memo_ok P rs \<longrightarrow> getRaw rs = (r, rs') \<longrightarrow> memo_ok P rs' \<and> (\<forall>raw. r = Inr raw \<longrightarrow> P raw))"

lemma resolver_yields: "yields (served E s m) (resolver_of E s m)"
proof (cases "isTombstone m")
  case True
  then show ?thesis by (simp add: yields_def resolver_of_def tombstoneResolver_def served_def)
next
  case False
  have "memo_ok (served E s m) rs' \<and> (\<forall>raw. r = Inr raw \<longrightarrow> served E s m raw)"
    if ok: "memo_ok (served E s m) rs" and r: "rawResolver E s m rs = (r, rs')" for rs r rs'
  proof (cases "rs_memo rs")
    case (Some q)
    then show ?thesis using r ok by (auto simp: rawResolver_def memo_ok_def)
  next
    case None
    obtain q st1 where q: "iv_fetch E (im_owner m) (is_selected_inbox s) (im_id m) (rs_store rs) = (q, st1)" by fastforce
    have "r = Inr raw \<Longrightarrow> served E s m raw" for raw
    proof (cases q)
      case (Inl e)
      then show "r = Inr raw \<Longrightarrow> served E s m raw" using r None q False
        by (auto simp: rawResolver_def served_def split: if_splits)
    next
      case (Inr full)
      obtain b st2 where b: "gate_raw E s full st1 = (b, st2)" by fastforce
      then have "r = Inr b" using r None q Inr by (simp add: rawResolver_def)
      moreover have "b = [] \<or> passed E s m b" using gate_raw_passed [OF q [unfolded Inr] b] .
      ultimately show "r = Inr raw \<Longrightarrow> served E s m raw" using False by (auto simp: served_def)
    qed
    moreover have "rs_memo rs' = Some r" using r None by (auto simp: rawResolver_def Let_def case_prod_beta)
    ultimately show ?thesis by (auto simp: memo_ok_def)
  qed
  then show ?thesis using False by (simp add: yields_def resolver_of_def)
qed

definition body_ok :: "('sec, 'str) imap_lib \<Rightarrow> (bytes \<Rightarrow> bool) \<Rightarrow> ('sec, 'str) response \<Rightarrow> bool" where
  "body_ok B P r = (case r of
       RSection bs x \<Rightarrow> \<exists>raw. P raw \<and> x = lb_section B bs raw
     | RStructure y \<Rightarrow> \<exists>raw. P raw \<and> y = lb_structure B raw
     | _ \<Rightarrow> True)"

definition writer_ok :: "('sec, 'str) imap_lib \<Rightarrow> (bytes \<Rightarrow> bool) \<Rightarrow> ('sec, 'str) writer \<Rightarrow> bool" where
  "writer_ok B P w \<longleftrightarrow> (\<forall>r \<in> set (fst w). body_ok B P r) \<and> memo_ok P (snd (snd w))"

lemma then_write_ok:
  assumes "writer_ok B P w"
    and "\<And>rs r rs'. memo_ok P rs \<Longrightarrow> f rs = (r, rs') \<Longrightarrow> memo_ok P rs' \<and> (\<forall>new. r = Inr new \<longrightarrow> (\<forall>x \<in> set new. body_ok B P x))"
  shows "writer_ok B P (then_write w f)"
proof -
  obtain its e rs where w: "w = (its, e, rs)" by (metis prod.exhaust)
  obtain r rs' where r: "f rs = (r, rs')" by fastforce
  have "memo_ok P rs" using assms(1) w by (simp add: writer_ok_def)
  then show ?thesis using assms(1) assms(2) [OF _ r] w r
    by (cases e; cases r) (auto simp: then_write_def writer_ok_def)
qed

lemma fetchMessage_body:
  assumes "yields P getRaw" "memo_ok P rs"
  shows "\<forall>r \<in> set (fst (fetchMessage B m opts getRaw tombstone rs)). body_ok B P r"
proof -
  note y = assms(1) [unfolded yields_def, rule_format]
  have ex: "\<exists>r. P r \<and> f raw = f r" if "memo_ok P rs" "getRaw rs = (Inr raw, rs')"
    for rs rs' raw and f :: "bytes \<Rightarrow> 'x" using y [OF that] by blast
  let ?w0 = "([RUid (uidOf m)] @ write_flags opts m tombstone
                 @ (if fo_internal_date opts then [RDate (im_received_at m)] else []), None, rs)"
  have 0: "writer_ok B P ?w0" using assms(2) by (auto simp: writer_ok_def body_ok_def write_flags_def split: if_splits)
  have 1: "writer_ok B P (then_write ?w0 (write_size opts m getRaw tombstone))"
    by (rule then_write_ok [OF 0])
      (auto simp: write_size_def sizeOf_def body_ok_def dest: y split: if_splits prod.splits sum.splits)
  have 2: "writer_ok B P (then_write (then_write ?w0 (write_size opts m getRaw tombstone)) (write_envelope B opts m getRaw tombstone))"
    by (rule then_write_ok [OF 1])
      (auto simp: write_envelope_def envelopeFor_def body_ok_def dest: y split: if_splits prod.splits sum.splits option.splits)
  have 3: "writer_ok B P (then_write (then_write (then_write ?w0 (write_size opts m getRaw tombstone))
      (write_envelope B opts m getRaw tombstone)) (write_structure B opts getRaw))"
    by (rule then_write_ok [OF 2])
      (auto simp: write_structure_def body_ok_def dest: y intro: ex split: if_splits prod.splits sum.splits)
  have sec: "writer_ok B P w \<Longrightarrow> writer_ok B P (foldl (\<lambda>w bs. then_write w (write_section B getRaw bs)) w bss)" for w bss
  proof (induction bss arbitrary: w)
    case (Cons bs bss)
    have "writer_ok B P (then_write w (write_section B getRaw bs))"
      by (rule then_write_ok [OF Cons.prems])
        (auto simp: write_section_def body_ok_def dest: y intro: ex split: prod.splits sum.splits)
    then show ?case using Cons.IH by simp
  qed simp
  show ?thesis using sec [OF 3] by (simp add: fetchMessage_def writer_ok_def)
qed

lemma served_seen: "served E s (m\<lparr>im_seen := b\<rparr>) = served E s m"
  by (rule ext) (simp add: served_def passed_def isTombstone_def)

lemma fetch_one_body:
  assumes "fetch_one E B io s opts m st = (its, m', err, st')" "r \<in> set its"
  shows "body_ok B (served E s m) r"
proof -
  have body: "body_ok B (served E s m1) r"
    if "fetchMessage B m1 opts (resolver_of E s m1) (isTombstone m1) (fresh st1) = (its, e, rs)" for m1 st1 e rs
    using fetchMessage_body [OF resolver_yields, of E s m1 "fresh st1" B m1 opts "isTombstone m1"] assms(2) that
    by (simp add: memo_ok_def fresh_def)
  show ?thesis using assms body body [of "m\<lparr>im_seen := True\<rparr>", unfolded served_seen] unfolding fetch_one_def
    by (auto simp: Let_def split: if_splits prod.splits sum.splits)
qed

lemma fetch_loop_body:
  "fetch_loop E B io s opts ns k ms st = (out, ms', err, st') \<Longrightarrow> (i, its) \<in> set out \<Longrightarrow> r \<in> set its \<Longrightarrow>
    k \<le> i \<and> i < k + length ms \<and> body_ok B (served E s (ms ! (i - k))) r"
proof (induction ms arbitrary: k st out ms' err st')
  case (Cons m ms)
  have tail: "k \<le> i \<and> i < k + length (m # ms) \<and> body_ok B (served E s ((m # ms) ! (i - k))) r"
    if "fetch_loop E B io s opts ns (k + 1) ms t = (o2, r2, e2, t2)" "(i, its) \<in> set o2" for t o2 r2 e2 t2
    using Cons.IH [OF that Cons.prems(3)] by (auto simp: nth_Cons' Suc_diff_le)
  show ?case
  proof (cases "in_num_set ns k m")
    case False
    obtain o2 r2 e2 t2 where q: "fetch_loop E B io s opts ns (k + 1) ms st = (o2, r2, e2, t2)" by (metis prod.exhaust)
    then show ?thesis using tail [OF q] Cons.prems False by simp
  next
    case True
    obtain o1 m1 e1 t1 where p: "fetch_one E B io s opts m st = (o1, m1, e1, t1)" by (metis prod.exhaust)
    have one: "(i, its) = (k, o1) \<Longrightarrow> body_ok B (served E s m) r" using fetch_one_body [OF p] Cons.prems(3) by simp
    obtain o2 r2 e2 t2 where q: "fetch_loop E B io s opts ns (k + 1) ms t1 = (o2, r2, e2, t2)" by (metis prod.exhaust)
    show ?thesis
    proof (cases e1)
      case (Some e)
      then have "(i, its) = (k, o1)" using Cons.prems p True by auto
      then show ?thesis using one by simp
    next
      case None
      then have "(i, its) = (k, o1) \<or> (i, its) \<in> set o2" using Cons.prems p q True by auto
      then show ?thesis using one tail [OF q] by auto
    qed
  qed
qed simp

text \<open>C25: no message body reaches a client past the gates. Whatever FETCH answers for the message at a sequence
  number, each body section and each body structure is cut from bytes the code was allowed to serve: the
  fixed withheld notice for a rejected message, else nothing at all, else the bytes of a record fetched for
  that message, found not held (or approved by an operator), not taken for a forged bounce, and stamped with
  the selected inbox and its risk unless darbaan generated it.\<close>

theorem served_body_cleared:
  assumes "imap_Fetch E B io ns opts s st = (out, err, s', st')" "(i, its) \<in> set out" "r \<in> set its"
  shows "1 \<le> i \<and> i \<le> length (is_selected s) \<and> body_ok B (served E s (is_selected s ! (i - 1))) r"
proof -
  obtain rest where "fetch_loop E B io s opts ns 1 (is_selected s) st = (out, rest, err, st')"
    using assms(1) by (auto simp: imap_Fetch_def split: prod.splits)
  from fetch_loop_body [OF this assms(2,3)] show ?thesis by auto
qed

section \<open>Witnesses\<close>

definition sample_lib :: "(unit, bytes) imap_lib" where
  "sample_lib = \<lparr>lb_structure = (\<lambda>raw. raw), lb_section = (\<lambda>_ raw. raw), lb_peek = (\<lambda>_. True), lb_envelope = (\<lambda>_. None)\<rparr>"

definition sample_fetch :: "unit fetch_options" where
  "sample_fetch = \<lparr>fo_flags = True, fo_internal_date = False, fo_size = True, fo_envelope = True, fo_structure = False,
     fo_sections = [()]\<rparr>"

definition sample_rejected :: "string \<Rightarrow> imessage" where
  "sample_rejected subj = sample_pending\<lparr>im_hold_decision := HoldRejected, im_subject := subj, im_keywords := [subj]\<rparr>"


theorem served_body_cleared_witness:
  "fst (imap_Fetch sample_imap sample_lib ok_io (SeqSet (\<lambda>_. True)) sample_fetch
        (sample_imap_session\<lparr>is_selected := [sample_rejected ''secret'']\<rparr>) sample_box)
     = [(1, [RUid (uidOf (sample_rejected ''secret'')), RFlags [], RSize (int (length tombstoneRaw)), REnvelope tombstoneInboundEnvelope, RSection () tombstoneRaw])]
   \<and> body_ok sample_lib (served sample_imap (sample_imap_session\<lparr>is_selected := [sample_rejected ''secret'']\<rparr>) (sample_rejected ''secret''))
       (RSection () tombstoneRaw)"
proof -
  let ?s = "sample_imap_session\<lparr>is_selected := [sample_rejected ''secret'']\<rparr>"
  obtain out err s' st' where f: "imap_Fetch sample_imap sample_lib ok_io (SeqSet (\<lambda>_. True)) sample_fetch ?s sample_box = (out, err, s', st')"
    by (metis prod.exhaust)
  have out: "out = [(1, [RUid (uidOf (sample_rejected ''secret'')), RFlags [], RSize (int (length tombstoneRaw)), REnvelope tombstoneInboundEnvelope,
      RSection () tombstoneRaw])]"
    using f by (simp add: imap_Fetch_def in_num_set_def fetch_one_def sample_fetch_def sample_lib_def fetchMessage_def then_write_def
        write_flags_def write_size_def write_envelope_def write_structure_def write_section_def resolver_of_def tombstoneResolver_def
        isTombstone_def sample_rejected_def flagList_def tombstoneMessage_def sample_pending_def imessage_zero_def split: prod.splits)
  then have "body_ok sample_lib (served sample_imap ?s (sample_rejected ''secret'')) (RSection () tombstoneRaw)"
    using served_body_cleared [OF f, of 1 _ "RSection () tombstoneRaw"] by simp
  then show ?thesis using f out by simp
qed

section \<open>Labels\<close>

lemma add_keywords_spec:
  "add_keywords cur kw = (c, a) \<Longrightarrow> distinct cur \<Longrightarrow>
    set c = set cur \<union> set kw \<and> set a = set kw - set cur \<and> distinct c \<and> distinct a"
proof (induction cur kw arbitrary: c a rule: add_keywords.induct)
  case (2 cur k ks)
  show ?case
  proof (cases "k \<in> set cur")
    case False
    obtain c' a' where q: "add_keywords (cur @ [k]) ks = (c', a')" by fastforce
    moreover have "c = c'" "a = k # a'" using 2(3) False q by simp_all
    ultimately show ?thesis using 2(2) [OF False q] 2(4) False by auto
  next
    case True
    then have "add_keywords cur ks = (c, a)" using 2(3) by simp
    from 2(1) [OF True this 2(4)] show ?thesis using True by auto
  qed
qed auto

lemma del_keywords_spec:
  "del_keywords cur kw = (c, r) \<Longrightarrow> distinct cur \<Longrightarrow>
    set c = set cur - set kw \<and> set r = set cur \<inter> set kw \<and> distinct c \<and> distinct r"
proof (induction cur kw arbitrary: c r rule: del_keywords.induct)
  case (2 cur k ks)
  show ?case
  proof (cases "k \<in> set cur")
    case True
    obtain c' r' where q: "del_keywords (removeAll k cur) ks = (c', r')" by fastforce
    moreover have "c = c'" "r = k # r'" using 2(3) True q by simp_all
    moreover have "distinct (removeAll k cur)" using 2(4) by (simp add: distinct_removeAll)
    ultimately show ?thesis using 2(1) [OF True q] True by auto
  next
    case False
    then have "del_keywords cur ks = (c, r)" using 2(3) by simp
    from 2(2) [OF False this 2(4)] show ?thesis using False by auto
  qed
qed auto

text \<open>The labels a STORE asks for, as sets.\<close>

definition keyword_goal :: "store_op \<Rightarrow> string set \<Rightarrow> string set \<Rightarrow> string set" where
  "keyword_goal sop cur kw = (case sop of StoreSet \<Rightarrow> kw | StoreAdd \<Rightarrow> cur \<union> kw | StoreDel \<Rightarrow> cur - kw)"

text \<open>The labels of a STORE and what is written upstream agree. The label set it leaves is the one the
  operation asks for, sorted and without repetition; the labels reported as added are exactly the new ones
  and the labels reported as removed exactly those lost, so applying that delta upstream to the old set gives
  the new set.\<close>

lemma keyword_op_delta:
  assumes "applyKeywordOp current sop kw = (next', added, removed)"
  shows "set next' = keyword_goal sop (set current) (set kw) \<and> sorted next' \<and> distinct next'
    \<and> set added = set next' - set current \<and> set removed = set current - set next'
    \<and> set next' = (set current - set removed) \<union> set added"
proof (cases sop)
  case StoreAdd
  obtain c a where q: "add_keywords (remdups current) kw = (c, a)" by fastforce
  then show ?thesis using assms StoreAdd add_keywords_spec [OF q] by (auto simp: applyKeywordOp_def keyword_goal_def Let_def)
next
  case StoreDel
  obtain c r where q: "del_keywords (remdups current) kw = (c, r)" by fastforce
  then show ?thesis using assms StoreDel del_keywords_spec [OF q] by (auto simp: applyKeywordOp_def keyword_goal_def Let_def)
next
  case StoreSet
  then show ?thesis using assms by (auto simp: applyKeywordOp_def keyword_goal_def Let_def)
qed

lemma keyword_op_delta_witness:
  "applyKeywordOp [''work''] StoreSet [''done''] = ([''done''], [''done''], [''work''])
   \<and> set [''done''] = keyword_goal StoreSet (set [''work'']) (set [''done''])"
proof
  show *: "applyKeywordOp [''work''] StoreSet [''done''] = ([''done''], [''done''], [''work''])"
    by (simp add: applyKeywordOp_def)
  show "set [''done''] = keyword_goal StoreSet (set [''work'']) (set [''done''])"
    using keyword_op_delta [OF *] by blast
qed

section \<open>Where the labels of a rejected message still show\<close>

text \<open>FETCH FLAGS and SEARCH answer for a rejected message from its tombstone, without its labels; the untagged
  response of a STORE that changes nothing lists them.\<close>

lemma store_shows_rejected_labels:
  assumes "is_selected s = [m]" "isTombstone m" "in_num_set ns 1 m"
  shows "imap_Store E ios ns StoreAdd False [] s st = ([(1, uidOf m, flagList m)], None, s, st)"
    and "flagList (tombstoneMessage m) = (if im_seen m then [FlagSeen] else [])"
proof -
  show "imap_Store E ios ns StoreAdd False [] s st = ([(1, uidOf m, flagList m)], None, s, st)"
    using assms by (auto simp: imap_Store_def store_one_def seenFromStoreFlags_def store_seen_def store_keywords_def
        keywordFlags_def split: prod.splits)
  show "flagList (tombstoneMessage m) = (if im_seen m then [FlagSeen] else [])"
    by (simp add: flagList_def tombstoneMessage_def imessage_zero_def)
qed

text \<open>So does the list of flags SELECT announces.\<close>

lemma keywords_in_use_set: "set (keywords_in_use seen ks) = set ks - set seen"
  by (induction seen ks rule: keywords_in_use.induct) auto

lemma select_shows_rejected_labels:
  assumes "imap_Select E L now mbox s st = (Inr d, s', st')" "m \<in> set (is_selected s')" "k \<in> set (im_keywords m)"
  shows "k \<in> set (sd_flags d)"
proof (cases "resolveMailbox E s mbox")
  case None
  then show ?thesis using assms(1) by (simp add: imap_Select_def)
next
  case (Some inbox)
  obtain full visible t where v: "listAndFilter E L now s inbox st = ((full, visible), t)" by (metis prod.exhaust)
  have "is_selected s' = visible" "sd_flags d = FlagSeen # keywords_in_use [] (concat (map im_keywords visible))"
    using assms(1) v Some by (auto simp: imap_Select_def Let_def)
  then show ?thesis using assms(2,3) by (auto simp: keywords_in_use_set)
qed

end
