(* ===== verification/Smtpface.thy ===== *)
theory Smtpface
  imports Agentcfg Provenance Inboxcfg Sluice
begin

text \<open>Model of \<open>internal/listener/smtp.go\<close>, the submission face: one session per connection, its commands, and
  the server's refusal to start without TLS.

  The queue is an argument, a function from a submission and its state to a result and a new state. The
  SMTP library calls the handlers in the order of the protocol; \<open>smtp_conn\<close> states that order as a step
  relation: one successful AUTH, then transactions of MAIL, RCPT and DATA, with a reset after each DATA
  and whenever the client asks for one.\<close>

section \<open>The face and its sessions\<close>

record smtp_face =
  sf_mac :: "string \<Rightarrow> bytes"
  sf_auth :: auth
  sf_route :: "(string \<Rightarrow> string \<Rightarrow> string option) option"

record smtp_session =
  ss_authed :: bool
  ss_principal :: "principal option"
  ss_agent :: string
  ss_from :: string
  ss_inbox :: string
  ss_rcpt :: "string list"

datatype smtp_err = SmAuthRequired | SmAuthUnsupported | SmAuthFailed | SmReadFailed
  | SMTPError nat "nat \<times> nat \<times> nat" string

type_synonym 'q enqueuer = "submission \<Rightarrow> 'q \<Rightarrow> (sluice_err + message) \<times> 'q"

definition smtp_NewSession :: smtp_session where
  "smtp_NewSession = \<lparr>ss_authed = False, ss_principal = None, ss_agent = '''', ss_from = '''', ss_inbox = '''', ss_rcpt = []\<rparr>"

definition resolveInbox :: "smtp_face \<Rightarrow> string \<Rightarrow> string \<Rightarrow> string option" where
  "resolveInbox F from catchAll = (case sf_route F of None \<Rightarrow> Some '''' | Some rt \<Rightarrow> rt from catchAll)"

definition smtp_plain :: string where
  "smtp_plain = ''PLAIN''"

definition smtp_Auth :: "smtp_face \<Rightarrow> string \<Rightarrow> string \<Rightarrow> string \<Rightarrow> smtp_session \<Rightarrow> smtp_err + smtp_session" where
  "smtp_Auth F mech username password s = (
     if mech \<noteq> smtp_plain then Inl SmAuthUnsupported
     else case auth_Verify (sf_mac F) (sf_auth F) username password of
         None \<Rightarrow> Inl SmAuthFailed
       | Some p \<Rightarrow> if \<not> HasSMTP (Some p) then Inl SmAuthFailed
           else Inr (s\<lparr>ss_principal := Some p, ss_agent := pr_name p, ss_authed := True\<rparr>))"

definition catch_all :: "smtp_session \<Rightarrow> string" where
  "catch_all s = (if restricted (ss_principal s) then (case ss_principal s of Some p \<Rightarrow> pr_default_inbox p | None \<Rightarrow> '''')
     else DefaultInboxName)"

definition smtp_Mail :: "smtp_face \<Rightarrow> string \<Rightarrow> smtp_session \<Rightarrow> smtp_err + smtp_session" where
  "smtp_Mail F from s = (
     if \<not> ss_authed s then Inl SmAuthRequired
     else case resolveInbox F from (catch_all s) of
         None \<Rightarrow> Inl (SMTPError 550 (5, 7, 1) ''sender address is not configured for any inbox'')
       | Some inbox \<Rightarrow> if \<not> CanSend (ss_principal s) inbox
           then Inl (SMTPError 550 (5, 7, 1) ''not authorized to send as this inbox'')
           else Inr (s\<lparr>ss_from := from, ss_inbox := inbox\<rparr>))"

definition smtp_Rcpt :: "string \<Rightarrow> smtp_session \<Rightarrow> smtp_err + smtp_session" where
  "smtp_Rcpt to s = (if \<not> ss_authed s then Inl SmAuthRequired else Inr (s\<lparr>ss_rcpt := ss_rcpt s @ [to]\<rparr>))"

text \<open>The checks of DATA and the submission they let through; no bytes is a failed read.\<close>

definition smtp_submission :: "'h textproto \<Rightarrow> codecs \<Rightarrow> bytes option \<Rightarrow> smtp_session \<Rightarrow> smtp_err + submission" where
  "smtp_submission T C rd s = (
     if \<not> ss_authed s then Inl SmAuthRequired
     else case rd of
         None \<Rightarrow> Inl SmReadFailed
       | Some raw \<Rightarrow> (case SubmitFromAddress T C raw of
           Inl e \<Rightarrow> Inl (SMTPError 550 (5, 7, 1) ''message From header is malformed or ambiguous'')
         | Inr hdrFrom \<Rightarrow> if hdrFrom \<noteq> '''' \<and> hdrFrom \<noteq> NormalizeAddress (ss_from s)
             then Inl (SMTPError 550 (5, 7, 1) ''message From header does not match the envelope sender'')
             else Inr \<lparr>sub_agent = ss_agent s, sub_inbox = ss_inbox s, sub_from = ss_from s, sub_rcpt = ss_rcpt s, sub_raw = raw\<rparr>))"

text \<open>DATA: the answer (\<open>None\<close> is 250) and the queue.\<close>

definition smtp_Data ::
  "'h textproto \<Rightarrow> codecs \<Rightarrow> 'q enqueuer \<Rightarrow> bytes option \<Rightarrow> smtp_session \<Rightarrow> 'q \<Rightarrow> smtp_err option \<times> 'q" where
  "smtp_Data T C enq rd s q = (case smtp_submission T C rd s of
       Inl e \<Rightarrow> (Some e, q)
     | Inr sub \<Rightarrow> (case enq sub q of
         (Inl e, q') \<Rightarrow> (Some (SMTPError 451 (4, 3, 0) ''temporary queue failure''), q')
       | (Inr m, q') \<Rightarrow> (None, q')))"

definition smtp_Reset :: "smtp_session \<Rightarrow> smtp_session" where
  "smtp_Reset s = s\<lparr>ss_from := '''', ss_inbox := '''', ss_rcpt := []\<rparr>"

section \<open>The server\<close>

record smtp_config =
  fc_addr :: string
  fc_domain :: string
  fc_tls :: bool
  fc_allow_insecure :: bool
  fc_max_bytes :: int
  fc_read_timeout :: duration

record smtp_server =
  fs_addr :: string
  fs_domain :: string
  fs_tls :: bool
  fs_insecure_auth :: bool
  fs_max_bytes :: int
  fs_read_timeout :: duration

text \<open>\<open>lib\<close> is the server with the library's defaults; \<open>None\<close> is the refusal.\<close>

definition smtp_NewServer :: "smtp_server \<Rightarrow> smtp_config \<Rightarrow> smtp_server option" where
  "smtp_NewServer lib cfg = (if \<not> fc_tls cfg \<and> \<not> fc_allow_insecure cfg then None
     else let s = lib\<lparr>fs_addr := fc_addr cfg, fs_domain := fc_domain cfg, fs_tls := fc_tls cfg,
                      fs_insecure_auth := fc_allow_insecure cfg\<rparr>;
              s = (if fc_max_bytes cfg > 0 then s\<lparr>fs_max_bytes := fc_max_bytes cfg\<rparr> else s)
       in Some (if fc_read_timeout cfg > 0 then s\<lparr>fs_read_timeout := fc_read_timeout cfg\<rparr> else s))"

section \<open>A connection\<close>

text \<open>\<open>mail\<close> says whether a MAIL of the current transaction was accepted; the list is what was handed to the queue,
  whatever the queue answered.\<close>

inductive smtp_conn :: "smtp_face \<Rightarrow> 'h textproto \<Rightarrow> codecs \<Rightarrow> bool \<Rightarrow> smtp_session \<Rightarrow> submission list \<Rightarrow> bool" for F T C where
  conn_new: "smtp_conn F T C False smtp_NewSession []"
| conn_auth: "\<lbrakk>smtp_conn F T C mail s subs; \<not> ss_authed s; smtp_Auth F mech u p s = Inr s'\<rbrakk> \<Longrightarrow> smtp_conn F T C mail s' subs"
| conn_mail: "\<lbrakk>smtp_conn F T C False s subs; smtp_Mail F from s = Inr s'\<rbrakk> \<Longrightarrow> smtp_conn F T C True s' subs"
| conn_rcpt: "\<lbrakk>smtp_conn F T C True s subs; smtp_Rcpt to s = Inr s'\<rbrakk> \<Longrightarrow> smtp_conn F T C True s' subs"
| conn_data: "\<lbrakk>smtp_conn F T C True s subs; ss_rcpt s \<noteq> []; smtp_submission T C rd s = Inr sub\<rbrakk> \<Longrightarrow>
    smtp_conn F T C False (smtp_Reset s) (subs @ [sub])"
| conn_reset: "smtp_conn F T C mail s subs \<Longrightarrow> smtp_conn F T C False (smtp_Reset s) subs"

inductive_cases smtp_dataE: "smtp_conn F T C False s (subs @ [sub])"

section \<open>What a connection submits\<close>

text \<open>The principal behind a session, and what it may submit.\<close>

definition smtp_allowed :: "smtp_face \<Rightarrow> principal \<Rightarrow> string \<Rightarrow> string \<Rightarrow> bool" where
  "smtp_allowed F p from inbox \<longleftrightarrow> CanSend (Some p) inbox
     \<and> resolveInbox F from (if restricted (Some p) then pr_default_inbox p else DefaultInboxName) = Some inbox"

definition smtp_verified :: "smtp_face \<Rightarrow> principal \<Rightarrow> bool" where
  "smtp_verified F p \<longleftrightarrow> HasSMTP (Some p) \<and> (\<exists>u pw. auth_Verify (sf_mac F) (sf_auth F) u pw = Some p)"

definition sub_ok :: "smtp_face \<Rightarrow> 'h textproto \<Rightarrow> codecs \<Rightarrow> submission \<Rightarrow> bool" where
  "sub_ok F T C sub \<longleftrightarrow> (\<exists>p. smtp_verified F p \<and> sub_agent sub = pr_name p \<and> smtp_allowed F p (sub_from sub) (sub_inbox sub)
     \<and> SubmitFromAddress T C (sub_raw sub) \<in> {Inr '''', Inr (NormalizeAddress (sub_from sub))} \<and> sub_rcpt sub \<noteq> [])"

lemma smtp_conn_inv:
  "smtp_conn F T C mail s subs \<Longrightarrow>
     (ss_authed s \<longrightarrow> (\<exists>p. ss_principal s = Some p \<and> smtp_verified F p \<and> ss_agent s = pr_name p))
     \<and> (mail \<longrightarrow> ss_authed s \<and> smtp_allowed F (the (ss_principal s)) (ss_from s) (ss_inbox s))
     \<and> (\<forall>sub \<in> set subs. sub_ok F T C sub)"
proof (induction rule: smtp_conn.induct)
  case (conn_auth mail s subs mech u p s')
  then obtain q where q: "auth_Verify (sf_mac F) (sf_auth F) u p = Some q" "HasSMTP (Some q)"
      "s' = s\<lparr>ss_principal := Some q, ss_agent := pr_name q, ss_authed := True\<rparr>"
    by (auto simp: smtp_Auth_def split: if_splits option.splits)
  have "smtp_verified F q" using q(1,2) unfolding smtp_verified_def by blast
  then show ?case using conn_auth q(3) by auto
next
  case (conn_mail s subs frm s')
  then show ?case by (auto simp: smtp_Mail_def smtp_allowed_def catch_all_def split: if_splits option.splits)
next
  case (conn_data s subs rd sub)
  then obtain p where p: "ss_principal s = Some p" "smtp_verified F p" "ss_agent s = pr_name p"
    "smtp_allowed F p (ss_from s) (ss_inbox s)" by auto
  from conn_data.hyps(3) have "sub_agent sub = ss_agent s" "sub_inbox sub = ss_inbox s" "sub_from sub = ss_from s"
    "sub_rcpt sub = ss_rcpt s" "SubmitFromAddress T C (sub_raw sub) \<in> {Inr '''', Inr (NormalizeAddress (ss_from s))}"
    by (auto simp: smtp_submission_def split: if_splits option.splits sum.splits)
  with p conn_data.hyps(2) have "sub_ok F T C sub" by (auto simp: sub_ok_def)
  then show ?case using conn_data.IH by (auto simp: smtp_Reset_def)
qed (auto simp: smtp_NewSession_def smtp_Rcpt_def smtp_Reset_def split: if_splits)

lemma agent_principals_default:
  "agent_principals env as = Inr ps \<Longrightarrow> p \<in> set ps \<Longrightarrow>
     \<exists>a \<in> set as. pr_name p = ag_name a \<and> agent_DefaultInbox a = Inr (pr_default_inbox p)
       \<and> pr_reads p = Some (granted AccessRead a) \<and> pr_sends p = Some (granted AccessSend a)"
  by (induction as arbitrary: ps) (auto simp: Let_def split: if_splits sum.splits)


section \<open>What an accepted DATA means\<close>


section \<open>Witnesses\<close>

definition sample_tp :: "(string \<times> string) list textproto" where
  "sample_tp = list_textproto (\<lambda>r. Some ([(''Subject'', ''s'')], r)) (\<lambda>h. Some [])"

definition sample_face :: smtp_face where
  "sample_face = \<lparr>sf_mac = (\<lambda>s. s), sf_auth = NewAuth (\<lambda>s. s) (fst (projr (resolvePrincipals (\<lambda>v. v) '''' [sample_inbox] sample_agents))),
     sf_route = Some (inbox_Route [sample_inbox])\<rparr>"

definition sample_mailed :: smtp_session where
  "sample_mailed = projr (smtp_Rcpt ''b@y'' (projr (smtp_Mail sample_face ''me@x.org''
     (projr (smtp_Auth sample_face smtp_plain ''amy'' (PasswordEnv ''amy'') smtp_NewSession)))))"

definition sample_submitted :: submission where
  "sample_submitted = \<lparr>sub_agent = ''amy'', sub_inbox = ''work'', sub_from = ''me@x.org'', sub_rcpt = [''b@y''], sub_raw = ''hi''\<rparr>"

lemma sample_submission: "smtp_submission sample_tp sample_codecs (Some ''hi'') sample_mailed = Inr sample_submitted"
  by code_simp

lemma sample_conn: "smtp_conn sample_face sample_tp sample_codecs False (smtp_Reset sample_mailed) [sample_submitted]"
proof -
  let ?a = "smtp_Auth sample_face smtp_plain ''amy'' (PasswordEnv ''amy'') smtp_NewSession"
  let ?m = "smtp_Mail sample_face ''me@x.org'' (projr ?a)"
  let ?r = "smtp_Rcpt ''b@y'' (projr ?m)"
  have "\<not> isl ?a" "\<not> isl ?m" "\<not> isl ?r" "ss_rcpt (projr ?r) \<noteq> []" by code_simp+
  then have a: "?a = Inr (projr ?a)" and m: "?m = Inr (projr ?m)" and r: "?r = Inr (projr ?r)" and n: "ss_rcpt (projr ?r) \<noteq> []"
    by (simp_all add: sum.collapse)
  have "smtp_conn sample_face sample_tp sample_codecs False (projr ?a) []"
    by (rule conn_auth [OF conn_new _ a]) (simp add: smtp_NewSession_def)
  from conn_rcpt [OF conn_mail [OF this m] r] have "smtp_conn sample_face sample_tp sample_codecs True sample_mailed []"
    by (simp only: sample_mailed_def)
  from conn_data [OF this _ sample_submission] n show ?thesis by (simp add: sample_mailed_def)
qed



end
