(* ===== verification/Xgmlabels.thy ===== *)
theory Xgmlabels
  imports Prelude
begin

text \<open>Model of \<open>internal/imapsync/xgmlabels.go\<close>: the raw IMAP dialogue that writes Gmail labels.

  The server is the list of lines it will send, line ends included; what is sent is the list of the commands
  written, tags included. Whether a write succeeds is an argument, by tag.\<close>

section \<open>Quoting\<close>

definition replace_char :: "char \<Rightarrow> string \<Rightarrow> string \<Rightarrow> string" where
  "replace_char c r s = concat (map (\<lambda>x. if x = c then r else [x]) s)"

definition bslash :: char where "bslash = CHR 0x5C"
definition dquote :: char where "dquote = CHR 0x22"

definition imapQuote :: "string \<Rightarrow> string" where
  "imapQuote s = [dquote] @ replace_char dquote [bslash, dquote] (replace_char bslash [bslash, bslash] s) @ [dquote]"

definition labelList :: "string list \<Rightarrow> string" where
  "labelList labels = join '' '' (map imapQuote labels)"

definition firstWord :: "string \<Rightarrow> string" where
  "firstWord s = takeWhile (\<lambda>c. c \<noteq> CHR '' '') s"

section \<open>Reading answers\<close>

fun str_fields :: "string \<Rightarrow> string \<Rightarrow> string list" where
  "str_fields cur [] = (if cur = [] then [] else [cur])"
| "str_fields cur (c # s) = (if is_space c then (if cur = [] then str_fields [] s else cur # str_fields [] s)
     else str_fields (cur @ [c]) s)"

definition hasCap :: "string list \<Rightarrow> string \<Rightarrow> bool" where
  "hasCap lines want = list_ex (\<lambda>l. list_ex (\<lambda>tok. equal_fold tok want) (str_fields [] l)) lines"

fun str_index :: "string \<Rightarrow> string \<Rightarrow> nat option" where
  "str_index [] p = (if p = [] then Some 0 else None)"
| "str_index (c # s) p = (if has_prefix (c # s) p then Some 0 else map_option Suc (str_index s p))"

definition uidvalidity_marker :: string where
  "uidvalidity_marker = ''[UIDVALIDITY ''"

definition line_validity :: "string \<Rightarrow> u32 option" where
  "line_validity l = (case str_index (to_upper l) uidvalidity_marker of
       None \<Rightarrow> None
     | Some i \<Rightarrow>
         let rest = drop (i + length uidvalidity_marker) l
         in if CHR '']'' \<notin> set rest then None
            else map_option word_of_nat (parse_uint 32 (trim_space (takeWhile (\<lambda>c. c \<noteq> CHR '']'') rest))))"

fun selectUIDValidity :: "string list \<Rightarrow> u32" where
  "selectUIDValidity [] = 0"
| "selectUIDValidity (l # ls) = (case line_validity l of None \<Rightarrow> selectUIDValidity ls | Some n \<Rightarrow> n)"

section \<open>The connection\<close>

record raw_conn =
  rw_lines :: "string list"
  rw_sent :: "string list"

datatype xgm_err = XgDial | XgGreeting | XgWrite | XgRead | XgRefused string string
  | XgUnconfirmed u32 u32 u32 | XgReset u32 u32 u32 | ErrNotXGM

text \<open>\<open>None\<close> is a dial that fails.\<close>

definition dialRaw :: "string list option \<Rightarrow> xgm_err + raw_conn" where
  "dialRaw server = (case server of
       None \<Rightarrow> Inl XgDial
     | Some [] \<Rightarrow> Inl XgGreeting
     | Some (greeting # ls) \<Rightarrow> Inr \<lparr>rw_lines = ls, rw_sent = []\<rparr>)"

definition trim_crlf :: "string \<Rightarrow> string" where
  "trim_crlf s = rev (dropWhile (\<lambda>c. c = CHR 0x0D \<or> c = CHR 0x0A) (rev s))"

fun read_tagged :: "string \<Rightarrow> string \<Rightarrow> string list \<Rightarrow> string list \<Rightarrow> (xgm_err + string list) \<times> string list" where
  "read_tagged tag cmd untagged [] = (Inl XgRead, [])"
| "read_tagged tag cmd untagged (l # ls) = (
     let line = trim_crlf l
     in if has_prefix line (tag @ '' '') then
          let rest = drop (length tag + 1) line
          in (if has_prefix rest ''OK'' then Inr untagged else Inl (XgRefused (firstWord cmd) rest), ls)
        else read_tagged tag cmd (untagged @ [line]) ls)"

definition rc_collect :: "(string \<Rightarrow> bool) \<Rightarrow> string \<Rightarrow> string \<Rightarrow> raw_conn \<Rightarrow> (xgm_err + string list) \<times> raw_conn" where
  "rc_collect w tag cmd rc = (if \<not> w tag then (Inl XgWrite, rc)
     else case read_tagged tag cmd [] (rw_lines rc) of
       (r, ls) \<Rightarrow> (r, \<lparr>rw_lines = ls, rw_sent = rw_sent rc @ [tag @ '' '' @ cmd]\<rparr>))"

definition rc_do :: "(string \<Rightarrow> bool) \<Rightarrow> string \<Rightarrow> string \<Rightarrow> raw_conn \<Rightarrow> xgm_err option \<times> raw_conn" where
  "rc_do w tag cmd rc = (case rc_collect w tag cmd rc of (Inl e, rc') \<Rightarrow> (Some e, rc') | (Inr _, rc') \<Rightarrow> (None, rc'))"

section \<open>The label writer\<close>

definition store_cmd :: "u32 \<Rightarrow> string \<Rightarrow> string list \<Rightarrow> string" where
  "store_cmd uid sg labels = ''UID STORE '' @ fmt_uint (unat uid) @ '' '' @ sg @ ''X-GM-LABELS ('' @ labelList labels @ '')''"

text \<open>The two writes after the mailbox is confirmed.\<close>

definition write_labels ::
  "(string \<Rightarrow> bool) \<Rightarrow> u32 \<Rightarrow> string list \<Rightarrow> string list \<Rightarrow> raw_conn \<Rightarrow> xgm_err option \<times> raw_conn" where
  "write_labels w uid add remove rc = (
     let (e, rc) = (if add \<noteq> [] then rc_do w ''a4'' (store_cmd uid ''+'' add) rc else (None, rc))
     in if e \<noteq> None then (e, rc)
        else let (e, rc) = (if remove \<noteq> [] then rc_do w ''a5'' (store_cmd uid ''-'' remove) rc else (None, rc))
          in if e \<noteq> None then (e, rc) else (None, snd (rc_do w ''a6'' ''LOGOUT'' rc)))"

definition select_and_write ::
  "(string \<Rightarrow> bool) \<Rightarrow> string \<Rightarrow> u32 \<Rightarrow> u32 \<Rightarrow> string list \<Rightarrow> string list \<Rightarrow> raw_conn \<Rightarrow> xgm_err option \<times> raw_conn" where
  "select_and_write w mailbox uid uidValidity add remove rc =
     (case rc_collect w ''a3'' (''SELECT '' @ imapQuote mailbox) rc of
        (Inl e, rc) \<Rightarrow> (Some e, rc)
      | (Inr selLines, rc) \<Rightarrow>
          let got = selectUIDValidity selLines
          in if got = 0 \<or> uidValidity = 0 then (Some (XgUnconfirmed uid got uidValidity), rc)
             else if got \<noteq> uidValidity then (Some (XgReset uid got uidValidity), rc)
             else write_labels w uid add remove rc)"

definition label_dialogue ::
  "(string \<Rightarrow> bool) \<Rightarrow> string \<Rightarrow> string \<Rightarrow> string \<Rightarrow> u32 \<Rightarrow> u32 \<Rightarrow> string list \<Rightarrow> string list \<Rightarrow> raw_conn \<Rightarrow> xgm_err option \<times> raw_conn" where
  "label_dialogue w username password mailbox uid uidValidity add remove rc =
     (case rc_do w ''a1'' (''LOGIN '' @ imapQuote username @ '' '' @ imapQuote password) rc of
        (Some e, rc) \<Rightarrow> (Some e, rc)
      | (None, rc) \<Rightarrow>
          (case rc_collect w ''a2'' ''CAPABILITY'' rc of
             (Inl e, rc) \<Rightarrow> (Some e, rc)
           | (Inr caps, rc) \<Rightarrow> if \<not> hasCap caps ''X-GM-EXT-1'' then (Some ErrNotXGM, rc)
               else select_and_write w mailbox uid uidValidity add remove rc))"

text \<open>The result and the commands sent.\<close>

definition newLabelStore ::
  "string list option \<Rightarrow> (string \<Rightarrow> bool) \<Rightarrow> string \<Rightarrow> string \<Rightarrow> string \<Rightarrow> u32 \<Rightarrow> u32 \<Rightarrow> string list \<Rightarrow> string list \<Rightarrow>
    xgm_err option \<times> string list" where
  "newLabelStore server w username password mailbox uid uidValidity add remove = (
     if add = [] \<and> remove = [] then (None, [])
     else case dialRaw server of
       Inl e \<Rightarrow> (Some e, [])
     | Inr rc \<Rightarrow> (case label_dialogue w username password mailbox uid uidValidity add remove rc of (e, rc') \<Rightarrow> (e, rw_sent rc')))"

text \<open>The host name \<open>RawGmailLabelStore\<close> verifies the certificate against.\<close>

definition tls_host :: "string \<Rightarrow> string" where
  "tls_host addr = (case before_last (CHR '':'') addr of None \<Rightarrow> addr | Some [] \<Rightarrow> addr | Some host \<Rightarrow> host)"

section \<open>Quoting loses nothing\<close>

text \<open>A quoted string as RFC 3501 reads it: up to the closing quote, a backslash escaping the next byte.\<close>

fun unquote_rest :: "string \<Rightarrow> (string \<times> string) option" where
  "unquote_rest [] = None"
| "unquote_rest (c # s) = (if c = dquote then Some ([], s)
     else if c = bslash then (case s of [] \<Rightarrow> None | d # s' \<Rightarrow> map_option (map_prod (Cons d) id) (unquote_rest s'))
     else map_option (map_prod (Cons c) id) (unquote_rest s))"

definition unquote :: "string \<Rightarrow> (string \<times> string) option" where
  "unquote s = (case s of c # s' \<Rightarrow> if c = dquote then unquote_rest s' else None | [] \<Rightarrow> None)"

lemma quote_chars: "bslash \<noteq> dquote" "dquote \<noteq> bslash"
  by (simp_all add: bslash_def dquote_def)

lemma replace_char_append: "replace_char c r (s @ t) = replace_char c r s @ replace_char c r t"
  by (simp add: replace_char_def)

lemma escape_Cons:
  "replace_char dquote [bslash, dquote] (replace_char bslash [bslash, bslash] (c # s))
   = (if c = bslash then [bslash, bslash] else if c = dquote then [bslash, dquote] else [c])
     @ replace_char dquote [bslash, dquote] (replace_char bslash [bslash, bslash] s)"
  using quote_chars by (simp add: replace_char_def)

lemma unquote_escape:
  "unquote_rest (replace_char dquote [bslash, dquote] (replace_char bslash [bslash, bslash] s) @ dquote # rest) = Some (s, rest)"
proof (induction s)
  case Nil
  then show ?case by (simp add: replace_char_def)
next
  case (Cons c s)
  then show ?case using quote_chars by (simp only: escape_Cons) simp
qed


section \<open>Labels are written into a confirmed mailbox only\<close>

lemma read_tagged_lines:
  "read_tagged tag cmd acc ls = (Inr lines, rest) \<Longrightarrow> set lines \<subseteq> set acc \<union> trim_crlf ` set ls"
proof (induction ls arbitrary: acc)
  case (Cons l ls)
  then show ?case using Cons.IH [of "acc @ [trim_crlf l]"] by (cases "has_prefix (trim_crlf l) (tag @ '' '')") (auto simp: Let_def split: if_splits)
qed simp

lemma read_tagged_rest: "read_tagged tag cmd acc ls = (r, rest) \<Longrightarrow> set rest \<subseteq> set ls"
  by (induction ls arbitrary: acc) (auto simp: Let_def split: if_splits)

lemma rc_collect_lines:
  assumes "rc_collect w tag cmd rc = (r, rc')"
  shows "set (rw_lines rc') \<subseteq> set (rw_lines rc)" and "r = Inr lines \<Longrightarrow> set lines \<subseteq> trim_crlf ` set (rw_lines rc)"
    and "rw_sent rc' = rw_sent rc \<or> rw_sent rc' = rw_sent rc @ [tag @ '' '' @ cmd]"
proof -
  obtain q ls where q: "read_tagged tag cmd [] (rw_lines rc) = (q, ls)" by fastforce
  have ls: "set ls \<subseteq> set (rw_lines rc)" using read_tagged_rest [OF q] .
  show "set (rw_lines rc') \<subseteq> set (rw_lines rc)" using assms q ls by (auto simp: rc_collect_def split: if_splits)
  show "rw_sent rc' = rw_sent rc \<or> rw_sent rc' = rw_sent rc @ [tag @ '' '' @ cmd]"
    using assms q by (auto simp: rc_collect_def split: if_splits)
  assume "r = Inr lines"
  then have "q = Inr lines" using assms q by (auto simp: rc_collect_def split: if_splits)
  then show "set lines \<subseteq> trim_crlf ` set (rw_lines rc)" using read_tagged_lines [of tag cmd "[]" "rw_lines rc" lines ls] q by simp
qed

lemma rc_do_lines:
  assumes "rc_do w tag cmd rc = (r, rc')"
  shows "set (rw_lines rc') \<subseteq> set (rw_lines rc)"
    and "rw_sent rc' = rw_sent rc \<or> rw_sent rc' = rw_sent rc @ [tag @ '' '' @ cmd]"
  using assms rc_collect_lines(1,3) [of w tag cmd rc]
  by (auto simp: rc_do_def split: prod.splits sum.splits)

text \<open>The commands a dialogue may have sent without a label being written.\<close>

definition harmless :: "string \<Rightarrow> bool" where
  "harmless cmd \<longleftrightarrow> take 2 cmd \<in> {''a1'', ''a2'', ''a3'', ''a6''}"

definition confirmed :: "u32 \<Rightarrow> string list \<Rightarrow> bool" where
  "confirmed v server \<longleftrightarrow> v \<noteq> 0 \<and> (\<exists>lines. selectUIDValidity lines = v \<and> set lines \<subseteq> trim_crlf ` set server)"

lemma write_labels_sent:
  assumes "write_labels w uid add remove rc = (e, rc')" "cmd \<in> set (rw_sent rc')"
  shows "cmd \<in> set (rw_sent rc) \<or> harmless cmd \<or> cmd = ''a4 '' @ store_cmd uid ''+'' add \<or> cmd = ''a5 '' @ store_cmd uid ''-'' remove"
proof -
  obtain e1 r1 where 1: "(if add \<noteq> [] then rc_do w ''a4'' (store_cmd uid ''+'' add) rc else (None, rc)) = (e1, r1)" by fastforce
  obtain e2 r2 where 2: "(if remove \<noteq> [] then rc_do w ''a5'' (store_cmd uid ''-'' remove) r1 else (None, r1)) = (e2, r2)" by fastforce
  obtain e3 r3 where 3: "rc_do w ''a6'' ''LOGOUT'' r2 = (e3, r3)" by fastforce
  have s1: "rw_sent r1 = rw_sent rc \<or> rw_sent r1 = rw_sent rc @ [''a4 '' @ store_cmd uid ''+'' add]"
    using 1 rc_do_lines(2) [of w "''a4''"] by (auto split: if_splits)
  have s2: "rw_sent r2 = rw_sent r1 \<or> rw_sent r2 = rw_sent r1 @ [''a5 '' @ store_cmd uid ''-'' remove]"
    using 2 rc_do_lines(2) [of w "''a5''"] by (auto split: if_splits)
  have s3: "rw_sent r3 = rw_sent r2 \<or> rw_sent r3 = rw_sent r2 @ [''a6 LOGOUT'']"
    using rc_do_lines(2) [OF 3] by auto
  have "rc' \<in> {r1, r2, r3}" using assms(1) 1 2 3 unfolding write_labels_def by (auto simp: Let_def split: if_splits)
  then show ?thesis using assms(2) s1 s2 s3 by (auto simp: harmless_def)
qed

lemma select_and_write_sent:
  assumes "select_and_write w mailbox uid v add remove rc = (e, rc')" "cmd \<in> set (rw_sent rc')"
  shows "cmd \<in> set (rw_sent rc) \<or> harmless cmd
    \<or> confirmed v (rw_lines rc) \<and> (cmd = ''a4 '' @ store_cmd uid ''+'' add \<or> cmd = ''a5 '' @ store_cmd uid ''-'' remove)"
proof -
  obtain r rc1 where s: "rc_collect w ''a3'' (''SELECT '' @ imapQuote mailbox) rc = (r, rc1)" by fastforce
  have sent: "cmd \<in> set (rw_sent rc1) \<Longrightarrow> cmd \<in> set (rw_sent rc) \<or> harmless cmd"
    using rc_collect_lines(3) [OF s] by (auto simp: harmless_def)
  show ?thesis
  proof (cases r)
    case (Inl e1)
    then have "rc' = rc1" using assms(1) s by (simp add: select_and_write_def)
    then show ?thesis using assms(2) sent by blast
  next
    case (Inr lines)
    show ?thesis
    proof (cases "v \<noteq> 0 \<and> selectUIDValidity lines = v")
      case False
      then have "rc' = rc1" using assms(1) s Inr by (auto simp: select_and_write_def Let_def split: if_splits)
      then show ?thesis using assms(2) sent by blast
    next
      case True
      then have "confirmed v (rw_lines rc)" using rc_collect_lines(2) [OF s Inr] by (auto simp: confirmed_def)
      moreover have "write_labels w uid add remove rc1 = (e, rc')"
        using assms(1) s Inr True by (simp add: select_and_write_def)
      ultimately show ?thesis using write_labels_sent [OF _ assms(2)] sent by blast
    qed
  qed
qed


definition sample_gmail :: "string list" where
  "sample_gmail = [''* OK'', ''a1 OK'', ''* CAPABILITY X-GM-EXT-1'', ''a2 OK'', ''* OK [UIDVALIDITY 7] x'', ''a3 OK'', ''a4 OK'', ''a6 OK'']"


end
