(* ===== verification/Upstream.thy ===== *)
theory Upstream
  imports Inbound Xgmlabels
begin

text \<open>Model of \<open>internal/imapsync/state.go\<close> (the sync cursors and reconcile latches), of \<open>backfill.go\<close> (establishing
  the UID validity of an old record) and of the half of \<open>imapsync.go\<close> that works on one message: fetching its
  content on demand and writing its labels upstream.

  An upstream session is the record of what the server answers in it; the IMAP client library turns the
  answers into these values. An IMAP envelope and address have the fields of the store's and are the same
  records. Nothing of a session can change the upstream but the flag writes, which are returned as a list.\<close>

section \<open>Cursors and latches\<close>

record sync_state =
  cu_uid_validity :: u32
  cu_last_uid :: u32

record latch =
  la_suspended :: bool
  la_held :: nat

record state_store =
  sx_cursors :: "(string \<times> sync_state) list"
  sx_latches :: "(string \<times> latch) list"

definition no_cursor :: sync_state where "no_cursor = \<lparr>cu_uid_validity = 0, cu_last_uid = 0\<rparr>"
definition no_latch :: latch where "no_latch = \<lparr>la_suspended = False, la_held = 0\<rparr>"

text \<open>\<open>ok\<close> says whether the transaction works and the stored value decodes; bbolt refuses an empty key.\<close>

definition state_Load :: "bool \<Rightarrow> string \<Rightarrow> state_store \<Rightarrow> sync_state option" where
  "state_Load ok key S = (if \<not> ok then None
     else Some (case map_of (sx_cursors S) key of None \<Rightarrow> no_cursor | Some c \<Rightarrow> c))"

definition state_Save :: "bool \<Rightarrow> string \<Rightarrow> sync_state \<Rightarrow> state_store \<Rightarrow> bool \<times> state_store" where
  "state_Save ok key c S = (if \<not> ok \<or> key = '''' then (False, S) else (True, S\<lparr>sx_cursors := AList.update key c (sx_cursors S)\<rparr>))"

definition state_LoadReconcile :: "bool \<Rightarrow> string \<Rightarrow> state_store \<Rightarrow> latch option" where
  "state_LoadReconcile ok key S = (if \<not> ok then None
     else Some (case map_of (sx_latches S) key of None \<Rightarrow> no_latch | Some l \<Rightarrow> l))"

definition state_SaveReconcile :: "bool \<Rightarrow> string \<Rightarrow> latch \<Rightarrow> state_store \<Rightarrow> bool \<times> state_store" where
  "state_SaveReconcile ok key l S = (if \<not> ok \<or> key = '''' then (False, S)
     else (True, S\<lparr>sx_latches := AList.update key l (sx_latches S)\<rparr>))"

section \<open>What the upstream answers\<close>

record fetch_buffer =
  fb_uid :: u32
  fb_flags :: "string list"
  fb_size :: int
  fb_envelope :: "envelope option"
  fb_bodies :: "bytes option list"

text \<open>A message of a fetch stream, or an error in the middle of it.\<close>

datatype fetch_item = FetchMsg fetch_buffer | FetchBroken

datatype uid_range = UidRange u32 u32

text \<open>\<open>us_fetch\<close> is the stream for a set of UIDs and whether it closes well; \<open>us_flags\<close> says whether adding or removing
  flags succeeds.\<close>

record upsession =
  us_dial :: bool
  us_select :: "(u32 \<times> u32) option"
  us_since :: "u32 list option"
  us_all :: "u32 list option"
  us_fetch :: "uid_range list \<Rightarrow> bool \<Rightarrow> fetch_item list \<times> bool"
  us_envelopes :: "u32 \<Rightarrow> fetch_buffer list option"
  us_flags :: "bool \<Rightarrow> u32 \<Rightarrow> string list \<Rightarrow> bool"

type_synonym assess_hook = "string \<Rightarrow> string \<Rightarrow> bytes \<Rightarrow> envelope option \<Rightarrow> iassessment option"

record syncer =
  sy_mailbox :: string
  sy_owner :: string
  sy_inbox :: string
  sy_max_age :: duration
  sy_label_store :: "(u32 \<Rightarrow> u32 \<Rightarrow> string list \<Rightarrow> string list \<Rightarrow> xgm_err option \<times> string list) option"
  sy_audit :: bool
  sy_assess :: "assess_hook option"
  sy_msgid :: "bytes \<Rightarrow> string option"

definition stateKey :: "syncer \<Rightarrow> string" where
  "stateKey Y = (if sy_inbox Y = DefaultInboxName then sy_mailbox Y else sy_inbox Y @ [nul] @ sy_mailbox Y)"

definition Watermark :: "bool \<Rightarrow> syncer \<Rightarrow> state_store \<Rightarrow> (u32 \<times> u32) option" where
  "Watermark ok Y S = map_option (\<lambda>c. (cu_uid_validity c, cu_last_uid c)) (state_Load ok (stateKey Y) S)"

section \<open>A fetched message as a delivery\<close>

definition up_formatAddr :: "address \<Rightarrow> string" where
  "up_formatAddr a = (let addr = ad_mailbox a @ ''@'' @ ad_host a
     in if ad_name a \<noteq> '''' then ad_name a @ '' <'' @ addr @ ''>'' else addr)"

definition firstAddr :: "address list \<Rightarrow> string" where
  "firstAddr as = (case as of [] \<Rightarrow> '''' | a # _ \<Rightarrow> up_formatAddr a)"

definition joinAddrs :: "address list \<Rightarrow> string" where
  "joinAddrs as = join '', '' (map up_formatAddr as)"

definition rawBody :: "fetch_buffer \<Rightarrow> bytes option" where
  "rawBody m = (case fb_bodies m of [] \<Rightarrow> None | b # _ \<Rightarrow> b)"

definition keywordsOf :: "string list \<Rightarrow> string list" where
  "keywordsOf flags = filter (\<lambda>f. \<not> has_prefix f [bslash]) flags"

definition deliveryOf :: "string \<Rightarrow> string \<Rightarrow> fetch_buffer \<Rightarrow> delivery" where
  "deliveryOf owner inbox m = \<lparr>dl_owner = owner, dl_inbox = inbox,
     dl_from = (case fb_envelope m of None \<Rightarrow> '''' | Some e \<Rightarrow> firstAddr (en_from e)),
     dl_to = (case fb_envelope m of None \<Rightarrow> '''' | Some e \<Rightarrow> joinAddrs (en_to e)),
     dl_subject = (case fb_envelope m of None \<Rightarrow> '''' | Some e \<Rightarrow> en_subject e),
     dl_raw = (case rawBody m of None \<Rightarrow> [] | Some b \<Rightarrow> b), dl_upstream_uid = 0, dl_uid_validity = 0,
     dl_envelope = fb_envelope m, dl_size = fb_size m, dl_keywords = keywordsOf (fb_flags m)\<rparr>"

section \<open>Establishing an unknown UID validity\<close>

datatype validity_err = VaNoServer | VaState | VaCursor u32 u32 | VaNoMessageID | VaFetch u32 | VaNothing u32
  | VaDifferent u32 | VaStore in_err | VaConnect | VaSelect

definition normalizeMessageID :: "string \<Rightarrow> string" where
  "normalizeMessageID mid = trim_space (trim_suffix (trim_prefix (trim_space mid) ''<'') ''>'')"

definition storedMessageID :: "syncer \<Rightarrow> imessage \<Rightarrow> string" where
  "storedMessageID Y m = (case im_envelope m of
       Some e \<Rightarrow> if en_message_id e \<noteq> '''' then normalizeMessageID (en_message_id e)
         else if im_pending m \<or> im_raw m = [] then '''' else (case sy_msgid Y (im_raw m) of None \<Rightarrow> '''' | Some h \<Rightarrow> normalizeMessageID h)
     | None \<Rightarrow> if im_pending m \<or> im_raw m = [] then '''' else (case sy_msgid Y (im_raw m) of None \<Rightarrow> '''' | Some h \<Rightarrow> normalizeMessageID h))"

definition fetchMessageID :: "upsession \<Rightarrow> u32 \<Rightarrow> string option" where
  "fetchMessageID U uid = (case us_envelopes U uid of
       None \<Rightarrow> None
     | Some msgs \<Rightarrow> Some (case find (\<lambda>fm. fb_uid fm = uid \<and> fb_envelope fm \<noteq> None) msgs of
         None \<Rightarrow> '''' | Some fm \<Rightarrow> normalizeMessageID (en_message_id (the (fb_envelope fm)))))"

definition stampUnknownValidity ::
  "syncer \<Rightarrow> upsession \<Rightarrow> bool \<Rightarrow> io \<Rightarrow> u32 \<Rightarrow> state_store \<Rightarrow> imessage \<Rightarrow> inbound \<Rightarrow> (validity_err + imessage) \<times> inbound" where
  "stampUnknownValidity Y U load_ok io serverValidity S m st = (
     if serverValidity = 0 then (Inl VaNoServer, st)
     else case state_Load load_ok (stateKey Y) S of
         None \<Rightarrow> (Inl VaState, st)
       | Some cursor \<Rightarrow>
           if cu_uid_validity cursor \<noteq> serverValidity then (Inl (VaCursor serverValidity (cu_uid_validity cursor)), st)
           else let want = storedMessageID Y m
             in if want = '''' then (Inl VaNoMessageID, st)
                else case fetchMessageID U (im_upstream_uid m) of
                    None \<Rightarrow> (Inl (VaFetch (im_upstream_uid m)), st)
                  | Some got \<Rightarrow>
                      if got = '''' then (Inl (VaNothing (im_upstream_uid m)), st)
                      else if got \<noteq> want then (Inl (VaDifferent (im_upstream_uid m)), st)
                      else case in_StampUIDValidity io (im_owner m) (im_inbox m) (im_id m) serverValidity st of
                          (Inl e, t) \<Rightarrow> (Inl (VaStore e), t) | (Inr sm, t) \<Rightarrow> (Inr sm, t))"

definition stampForWrite ::
  "syncer \<Rightarrow> upsession \<Rightarrow> bool \<Rightarrow> io \<Rightarrow> state_store \<Rightarrow> imessage \<Rightarrow> inbound \<Rightarrow> (validity_err + imessage) \<times> inbound" where
  "stampForWrite Y U load_ok io S m st = (
     if storedMessageID Y m = '''' then (Inl VaNoMessageID, st)
     else if \<not> us_dial U then (Inl VaConnect, st)
     else case us_select U of
         None \<Rightarrow> (Inl VaSelect, st)
       | Some (validity, _) \<Rightarrow> stampUnknownValidity Y U load_ok io validity S m st)"

section \<open>Content on demand\<close>

datatype content_err = CeStore in_err | CeConnect | CeSelect | CeValidity validity_err | CeReset u32 u32 | CeFetch | CeGone u32

text \<open>\<open>errors.Is(err, inbound.ErrContentUnavailable)\<close>.\<close>

definition content_unavailable :: "content_err \<Rightarrow> bool" where
  "content_unavailable e = (case e of CeValidity _ \<Rightarrow> True | CeReset _ _ \<Rightarrow> True | CeGone _ \<Rightarrow> True | _ \<Rightarrow> False)"

definition withheldIfHeld :: "imessage \<Rightarrow> imessage" where
  "withheldIfHeld m = (if HeldByAssessment m \<and> im_hold_decision m \<noteq> HoldApproved then m\<lparr>im_raw := []\<rparr> else m)"

text \<open>The stream of a fetch of one UID: the body of the last message with that UID; \<open>None\<close> is a broken stream.\<close>

fun body_loop :: "u32 \<Rightarrow> bytes option \<Rightarrow> fetch_item list \<Rightarrow> bytes option option" where
  "body_loop uid raw [] = Some raw"
| "body_loop uid raw (FetchBroken # is) = None"
| "body_loop uid raw (FetchMsg fm # is) = body_loop uid (if fb_uid fm = uid then rawBody fm else raw) is"

definition fetch_body :: "upsession \<Rightarrow> u32 \<Rightarrow> bytes option option" where
  "fetch_body U uid = (case us_fetch U [UidRange uid uid] True of
     (is, close_ok) \<Rightarrow> (case body_loop uid None is of None \<Rightarrow> None | Some raw \<Rightarrow> if close_ok then Some raw else None))"

text \<open>How the writes of one content fetch end.\<close>

record content_io =
  ci_load :: bool
  ci_stamp :: io
  ci_set :: io
  ci_remove :: io
  ci_rm :: "string \<Rightarrow> bool"
  ci_audit :: bool

definition gone_record :: "string \<Rightarrow> string \<Rightarrow> string \<Rightarrow> u32 \<Rightarrow> string \<Rightarrow> arec" where
  "gone_record owner inbox mid uid why = \<lparr>ar_event = ''retract'', ar_agent = owner, ar_inbox = NormInbox inbox, ar_actor = '''',
     ar_message_id = mid, ar_detail = ''inbox='' @ NormInbox inbox @ '' upstream_uid='' @ fmt_uint (unat uid) @ why, ar_retryable = None\<rparr>"

text \<open>The mapping of a UID the upstream no longer has is dropped, best effort, and audited if the drop succeeded.\<close>

definition drop_stale ::
  "syncer \<Rightarrow> content_io \<Rightarrow> string \<Rightarrow> string \<Rightarrow> string \<Rightarrow> u32 \<Rightarrow> inbound \<times> arec list \<Rightarrow> inbound \<times> arec list" where
  "drop_stale Y c owner inbox mid uid s = (case s of (st, lg) \<Rightarrow>
     (case in_RemoveSynced (ci_remove c) (ci_rm c) owner inbox mid st of
        (Some e, t) \<Rightarrow> (t, lg)
      | (None, t) \<Rightarrow> (t, if sy_audit Y \<and> ci_audit c
          then lg @ [gone_record owner inbox mid uid '' content fetch found upstream uid gone''] else lg)))"

text \<open>The body of a pending record: the session's answer, stored as the assessment hook decides.\<close>

definition store_body ::
  "'h in_env \<Rightarrow> syncer \<Rightarrow> content_io \<Rightarrow> string \<Rightarrow> string \<Rightarrow> string \<Rightarrow> imessage \<Rightarrow> bytes \<Rightarrow> inbound \<Rightarrow> (content_err + imessage) \<times> inbound" where
  "store_body E Y c owner inbox mid m raw st = (case sy_assess Y of
       None \<Rightarrow> (case in_SetContent E (ci_set c) owner inbox mid raw st of
           (Inl e, t) \<Rightarrow> (Inl (CeStore e), t) | (Inr full, t) \<Rightarrow> (Inr full, t))
     | Some hook \<Rightarrow>
         (case in_SetContentAssessed E (ci_set c) owner inbox mid raw (hook (sy_inbox Y) (im_from m) raw (im_envelope m)) st of
           (Inl e, t) \<Rightarrow> (Inl (CeStore e), t) | (Inr full, t) \<Rightarrow> (Inr (withheldIfHeld full), t)))"

definition fetch_known ::
  "'h in_env \<Rightarrow> syncer \<Rightarrow> upsession \<Rightarrow> content_io \<Rightarrow> string \<Rightarrow> string \<Rightarrow> string \<Rightarrow> u32 \<Rightarrow> imessage \<Rightarrow> inbound \<times> arec list \<Rightarrow>
    (content_err + imessage) \<times> inbound \<times> arec list" where
  "fetch_known E Y U c owner inbox mid validity m s = (
     if validity \<noteq> im_uid_validity m then (Inl (CeReset validity (im_uid_validity m)), s)
     else case fetch_body U (im_upstream_uid m) of
         None \<Rightarrow> (Inl CeFetch, s)
       | Some None \<Rightarrow> (Inl (CeGone (im_upstream_uid m)), drop_stale Y c owner inbox mid (im_upstream_uid m) s)
       | Some (Some raw) \<Rightarrow> (case store_body E Y c owner inbox mid m raw (fst s) of (r, t) \<Rightarrow> (r, t, snd s)))"

definition sy_FetchContent ::
  "'h in_env \<Rightarrow> syncer \<Rightarrow> upsession \<Rightarrow> content_io \<Rightarrow> state_store \<Rightarrow> string \<Rightarrow> string \<Rightarrow> string \<Rightarrow> inbound \<times> arec list \<Rightarrow>
    (content_err + imessage) \<times> inbound \<times> arec list" where
  "sy_FetchContent E Y U c S owner inbox mid s = (case s of (st, lg) \<Rightarrow>
     (case in_Get owner inbox mid st of
        Inl e \<Rightarrow> (Inl (CeStore e), s)
      | Inr m \<Rightarrow>
          if \<not> im_pending m then (Inr (withheldIfHeld m), s)
          else if \<not> us_dial U then (Inl CeConnect, s)
          else case us_select U of
              None \<Rightarrow> (Inl CeSelect, s)
            | Some (validity, _) \<Rightarrow>
                if im_uid_validity m = 0 then
                  (case stampUnknownValidity Y U (ci_load c) (ci_stamp c) validity S m st of
                     (Inl e, t) \<Rightarrow> (Inl (CeValidity e), t, lg)
                   | (Inr m', t) \<Rightarrow> fetch_known E Y U c owner inbox mid validity m' (t, lg))
                else fetch_known E Y U c owner inbox mid validity m s))"

section \<open>Labels\<close>

datatype kw_err = KwStore in_err | KwNoUID | KwValidity validity_err | KwGmail xgm_err | KwConnect | KwSelect
  | KwUnconfirmed u32 u32 | KwReset u32 u32 | KwAdd | KwRemove

text \<open>What a label write sent upstream: Gmail commands, or a change of flags in the mailbox selected under a UID validity.\<close>

datatype upstream_write = UwGmail string | UwFlags u32 bool u32 "string list"

definition flag_writes :: "upsession \<Rightarrow> u32 \<Rightarrow> u32 \<Rightarrow> string list \<Rightarrow> string list \<Rightarrow> kw_err option \<times> upstream_write list" where
  "flag_writes U validity uid add remove = (
     let w1 = (if add \<noteq> [] then [UwFlags validity True uid add] else [])
     in if add \<noteq> [] \<and> \<not> us_flags U True uid add then (Some KwAdd, w1)
        else let w2 = w1 @ (if remove \<noteq> [] then [UwFlags validity False uid remove] else [])
          in if remove \<noteq> [] \<and> \<not> us_flags U False uid remove then (Some KwRemove, w2) else (None, w2))"

definition plain_keywords :: "upsession \<Rightarrow> imessage \<Rightarrow> string list \<Rightarrow> string list \<Rightarrow> kw_err option \<times> upstream_write list" where
  "plain_keywords U m add remove = (
     if \<not> us_dial U then (Some KwConnect, [])
     else case us_select U of
         None \<Rightarrow> (Some KwSelect, [])
       | Some (validity, _) \<Rightarrow>
           if validity = 0 \<or> im_uid_validity m = 0 then (Some (KwUnconfirmed validity (im_uid_validity m)), [])
           else if validity \<noteq> im_uid_validity m then (Some (KwReset validity (im_uid_validity m)), [])
           else flag_writes U validity (im_upstream_uid m) add remove)"

text \<open>Gmail first; any other backend answers \<open>ErrNotXGM\<close>.\<close>

definition write_known :: "syncer \<Rightarrow> upsession \<Rightarrow> imessage \<Rightarrow> string list \<Rightarrow> string list \<Rightarrow> kw_err option \<times> upstream_write list" where
  "write_known Y U m add remove = (case sy_label_store Y of
       None \<Rightarrow> plain_keywords U m add remove
     | Some ls \<Rightarrow> (case ls (im_upstream_uid m) (im_uid_validity m) add remove of
         (e, sent) \<Rightarrow> if e \<noteq> Some ErrNotXGM then (map_option KwGmail e, map UwGmail sent)
           else (case plain_keywords U m add remove of (e', ws) \<Rightarrow> (e', map UwGmail sent @ ws))))"

definition sy_writeKeywords ::
  "syncer \<Rightarrow> upsession \<Rightarrow> upsession \<Rightarrow> bool \<Rightarrow> io \<Rightarrow> state_store \<Rightarrow> string \<Rightarrow> string \<Rightarrow> string \<Rightarrow> string list \<Rightarrow> string list \<Rightarrow> inbound \<Rightarrow>
    kw_err option \<times> upstream_write list \<times> inbound" where
  "sy_writeKeywords Y U1 U2 load_ok io S owner inbox mid add remove st = (
     if add = [] \<and> remove = [] then (None, [], st)
     else case in_Get owner inbox mid st of
         Inl e \<Rightarrow> (Some (KwStore e), [], st)
       | Inr m \<Rightarrow>
           if im_upstream_uid m = 0 then (Some KwNoUID, [], st)
           else if im_uid_validity m = 0 then
             (case stampForWrite Y U1 load_ok io S m st of
                (Inl e, t) \<Rightarrow> (Some (KwValidity e), [], t)
              | (Inr m', t) \<Rightarrow> (case write_known Y U2 m' add remove of (e, ws) \<Rightarrow> (e, ws, t)))
           else (case write_known Y U2 m add remove of (e, ws) \<Rightarrow> (e, ws, st)))"

text \<open>The last component says whether a lost removal is reported.\<close>

definition sy_WriteKeywords ::
  "syncer \<Rightarrow> upsession \<Rightarrow> upsession \<Rightarrow> bool \<Rightarrow> io \<Rightarrow> state_store \<Rightarrow> string \<Rightarrow> string \<Rightarrow> string \<Rightarrow> string list \<Rightarrow> string list \<Rightarrow> inbound \<Rightarrow>
    kw_err option \<times> upstream_write list \<times> inbound \<times> bool" where
  "sy_WriteKeywords Y U1 U2 load_ok io S owner inbox mid add remove st = (
     case sy_writeKeywords Y U1 U2 load_ok io S owner inbox mid add remove st of
       (e, ws, t) \<Rightarrow> (e, ws, t, e \<noteq> None \<and> remove \<noteq> []))"

text \<open>What one turn of the retry loop meets.\<close>

record retry_io =
  rt_stamp_session :: upsession
  rt_session :: upsession
  rt_load :: bool
  rt_stamp :: io
  rt_clear :: io

text \<open>The number of records still pending, what was sent, and the store.\<close>

fun reconcile_kw_loop ::
  "syncer \<Rightarrow> (string \<Rightarrow> retry_io) \<Rightarrow> state_store \<Rightarrow> imessage list \<Rightarrow> inbound \<Rightarrow> nat \<times> upstream_write list \<times> inbound" where
  "reconcile_kw_loop Y R S [] st = (0, [], st)"
| "reconcile_kw_loop Y R S (m # ms) st = (
     let r = R (im_id m) in
     case sy_WriteKeywords Y (rt_stamp_session r) (rt_session r) (rt_load r) (rt_stamp r) S (sy_owner Y) (sy_inbox Y) (im_id m)
            (im_keywords m) [] st of
       (Some e, ws, t, _) \<Rightarrow> (case reconcile_kw_loop Y R S ms t of (n, ws', u) \<Rightarrow> (n + 1, ws @ ws', u))
     | (None, ws, t, _) \<Rightarrow>
         let t' = snd (in_ClearKeywordsDirty (rt_clear r) (sy_owner Y) (sy_inbox Y) (im_id m) t)
         in (case reconcile_kw_loop Y R S ms t' of (n, ws', u) \<Rightarrow> (n, ws @ ws', u)))"

definition sy_reconcileKeywords ::
  "syncer \<Rightarrow> (string \<Rightarrow> retry_io) \<Rightarrow> state_store \<Rightarrow> inbound \<Rightarrow> nat \<times> upstream_write list \<times> inbound" where
  "sy_reconcileKeywords Y R S st = reconcile_kw_loop Y R S (in_DirtyKeywords (sy_owner Y) (sy_inbox Y) st) st"

section \<open>Content comes from a confirmed mailbox and is cleared\<close>

text \<open>The session's mailbox is the one the record was taken from: its UID validity is known and is the record's, or
  the record has none and the message there carries the record's Message-ID.\<close>

definition same_mailbox :: "syncer \<Rightarrow> upsession \<Rightarrow> u32 \<Rightarrow> imessage \<Rightarrow> bool" where
  "same_mailbox Y U v m \<longleftrightarrow> v \<noteq> 0 \<and> (im_uid_validity m = v
     \<or> im_uid_validity m = 0 \<and> storedMessageID Y m \<noteq> '''' \<and> fetchMessageID U (im_upstream_uid m) = Some (storedMessageID Y m))"

lemma stampUnknownValidity_Inr:
  assumes "stampUnknownValidity Y U load_ok io v S m st = (Inr m', t)"
  shows "v \<noteq> 0 \<and> storedMessageID Y m \<noteq> '''' \<and> fetchMessageID U (im_upstream_uid m) = Some (storedMessageID Y m)
    \<and> in_StampUIDValidity io (im_owner m) (im_inbox m) (im_id m) v st = (Inr m', t)"
  using assms unfolding stampUnknownValidity_def
  by (auto simp: Let_def split: if_splits option.splits sum.splits prod.splits)

lemma in_modify_Inr:
  assumes "in_modify io owner inbox mid f st = (Inr m', t)"
  shows "\<exists>r key. in_loadStored st mid = Inr (r, key) \<and> recScoped r owner inbox
    \<and> m' = ir_msg (case f r of None \<Rightarrow> r | Some r' \<Rightarrow> r') \<and> (t = st \<or> t = in_putStored key (the (f r)) st)"
  using assms by (auto simp: in_modify_def in_update_def split: sum.splits prod.splits option.splits if_splits)

text \<open>What is read is the stored metadata, under its own id, with or without a body.\<close>

lemma record_read:
  assumes "in_inv E st" "in_Get owner inbox mid st = Inr m"
  obtains r key data where "in_loadStored st (im_id m) = Inr (r, key)" "m = (ir_msg r)\<lparr>im_raw := data\<rparr>"
proof -
  from assms(2) obtain r key where r: "in_loadStored st mid = Inr (r, key)" "in_withRaw st r = Inr m"
    by (auto simp: in_Get_Inr)
  then have b: "b_get (in_recs st) key = Some r" by (auto simp: in_loadStored_ok)
  have "ir_msg r = (ir_msg r)\<lparr>im_raw := im_raw (ir_msg r)\<rparr>" by simp
  moreover have "m = ir_msg r \<or> (\<exists>data. m = (ir_msg r)\<lparr>im_raw := data\<rparr>)"
    using r(2) by (auto simp: in_withRaw_def Let_def split: if_splits sum.splits)
  ultimately obtain data where m: "m = (ir_msg r)\<lparr>im_raw := data\<rparr>" by metis
  from inv_rec [OF assms(1) b] obtain n where "key = seqkey_encode n" "im_id m = fmt_uint (unat n)" by (auto simp: in_rec_ok_def m)
  then have "in_loadStored st (im_id m) = Inr (r, key)" using b by (simp add: in_loadStored_id)
  with m that show thesis by blast
qed

lemma stamped_record:
  assumes "in_inv E st" "in_Get owner inbox mid st = Inr m" "im_uid_validity m = 0"
    and "in_StampUIDValidity io (im_owner m) (im_inbox m) (im_id m) v st = (Inr m', t)" "v \<noteq> 0"
  obtains data where "m' = m\<lparr>im_uid_validity := v, im_raw := data\<rparr>"
proof -
  from record_read [OF assms(1,2)] obtain r key data where r: "in_loadStored st (im_id m) = Inr (r, key)" "m = (ir_msg r)\<lparr>im_raw := data\<rparr>" .
  from assms(4,5) have "in_modify io (im_owner m) (im_inbox m) (im_id m)
      (\<lambda>r. if im_uid_validity (ir_msg r) = 0 then Some (r\<lparr>ir_msg := (ir_msg r)\<lparr>im_uid_validity := v\<rparr>\<rparr>) else None) st = (Inr m', t)"
    by (simp add: in_StampUIDValidity_def)
  from in_modify_Inr [OF this] r assms(3) have "m' = m\<lparr>im_uid_validity := v, im_raw := im_raw (ir_msg r)\<rparr>" by auto
  then show thesis by (rule that)
qed

text \<open>The assessment the hook, if there is one, gives a body.\<close>

definition assessed_by :: "syncer \<Rightarrow> imessage \<Rightarrow> bytes \<Rightarrow> iassessment option" where
  "assessed_by Y m raw = (case sy_assess Y of None \<Rightarrow> None | Some h \<Rightarrow> h (sy_inbox Y) (im_from m) raw (im_envelope m))"

lemma assessed_by_stamp [simp]: "assessed_by Y (m\<lparr>im_uid_validity := v, im_raw := data\<rparr>) raw = assessed_by Y m raw"
  by (simp add: assessed_by_def split: option.split)

lemma SetContent_assessment:
  "in_SetContentAssessed E io owner inbox mid raw a st = (Inr m', t) \<Longrightarrow> im_assessment m' = a"
  by (auto simp: in_SetContentAssessed_def in_update_def Let_def split: sum.splits prod.splits if_splits)

lemma store_body_Inr:
  assumes "store_body E Y c owner inbox mid m raw st = (Inr m', t)"
  shows "im_assessment m' = assessed_by Y m raw
    \<and> (HeldByAssessment m' \<longrightarrow> im_hold_decision m' \<noteq> HoldApproved \<longrightarrow> im_raw m' = [])"
proof (cases "sy_assess Y")
  case None
  then have "im_assessment m' = None"
    using assms SetContent_assessment [of E "ci_set c" owner inbox mid raw None st]
    by (auto simp: store_body_def in_SetContent_def split: prod.splits sum.splits)
  then show ?thesis using None by (simp add: HeldByAssessment_def assessed_by_def)
next
  case (Some h)
  then obtain full where f: "in_SetContentAssessed E (ci_set c) owner inbox mid raw (h (sy_inbox Y) (im_from m) raw (im_envelope m)) st = (Inr full, t)"
    "m' = withheldIfHeld full" using assms by (auto simp: store_body_def split: prod.splits sum.splits)
  have "im_assessment m' = im_assessment full" using f(2) by (simp add: withheldIfHeld_def)
  then show ?thesis using SetContent_assessment [OF f(1)] f(2) Some
    by (auto simp: withheldIfHeld_def HeldByAssessment_def assessed_by_def)
qed

lemma fetch_known_Inr:
  assumes "fetch_known E Y U c owner inbox mid v m s = (Inr m', s')"
  shows "\<exists>raw. v = im_uid_validity m \<and> fetch_body U (im_upstream_uid m) = Some (Some raw)
    \<and> im_assessment m' = assessed_by Y m raw
    \<and> (HeldByAssessment m' \<longrightarrow> im_hold_decision m' \<noteq> HoldApproved \<longrightarrow> im_raw m' = [])"
proof -
  from assms obtain raw t where "v = im_uid_validity m" "fetch_body U (im_upstream_uid m) = Some (Some raw)"
    "store_body E Y c owner inbox mid m raw (fst s) = (Inr m', t)"
    by (auto simp: fetch_known_def split: if_splits option.splits prod.splits)
  with store_body_Inr show ?thesis by blast
qed


section \<open>Labels are written into a confirmed mailbox only\<close>

lemma plain_keywords_writes:
  assumes "plain_keywords U m add remove = (e, ws)" "w \<in> set ws"
  shows "\<exists>v n. us_select U = Some (v, n) \<and> v \<noteq> 0 \<and> im_uid_validity m = v
    \<and> (w = UwFlags v True (im_upstream_uid m) add \<or> w = UwFlags v False (im_upstream_uid m) remove)"
  using assms by (auto simp: plain_keywords_def flag_writes_def Let_def split: if_splits option.splits prod.splits)

lemma write_known_writes:
  assumes "write_known Y U m add remove = (e, ws)" "UwFlags v a uid kws \<in> set ws"
  shows "us_dial U \<and> (\<exists>n. us_select U = Some (v, n)) \<and> v \<noteq> 0 \<and> im_uid_validity m = v \<and> uid = im_upstream_uid m
    \<and> kws = (if a then add else remove)"
proof -
  obtain e' ws' where p: "plain_keywords U m add remove = (e', ws')" by fastforce
  have "UwFlags v a uid kws \<in> set ws'"
    using assms p by (auto simp: write_known_def split: option.splits prod.splits if_splits)
  moreover from this have "us_dial U" using p by (auto simp: plain_keywords_def split: if_splits)
  ultimately show ?thesis using plain_keywords_writes [OF p] by fastforce
qed

text \<open>C33: flags are changed in a confirmed mailbox only. A write of labels with plain IMAP flags goes to the UID of
  the message it is for, names exactly the labels to add or remove, and is sent only in a session whose
  mailbox the server confirmed: under the recorded UID validity, not zero, or, for an old record, under one
  that an earlier session in the same call confirmed by the message's own Message-ID.\<close>

theorem keyword_write_confirmed:
  assumes "in_inv E st" "in_Get owner inbox mid st = Inr m"
    and "sy_writeKeywords Y U1 U2 load_ok io S owner inbox mid add remove st = (e, ws, t)" "UwFlags v a uid kws \<in> set ws"
  shows "(\<exists>n. us_select U2 = Some (v, n)) \<and> same_mailbox Y U1 v m \<and> uid = im_upstream_uid m \<and> uid \<noteq> 0
    \<and> kws = (if a then add else remove)"
proof -
  have ne: "\<not> (add = [] \<and> remove = [])" "im_upstream_uid m \<noteq> 0"
    using assms(2-4) by (auto simp: sy_writeKeywords_def split: if_splits)
  show ?thesis
  proof (cases "im_uid_validity m = 0")
    case False
    then have "write_known Y U2 m add remove = (e, ws)"
      using assms(2,3) ne by (auto simp: sy_writeKeywords_def split: if_splits prod.splits)
    from write_known_writes [OF this assms(4)] ne show ?thesis by (auto simp: same_mailbox_def)
  next
    case True
    then obtain sm t' where sm: "stampForWrite Y U1 load_ok io S m st = (Inr sm, t')" and k: "write_known Y U2 sm add remove = (e, ws)"
      using assms(2-4) ne by (auto simp: sy_writeKeywords_def split: if_splits prod.splits sum.splits)
    then obtain v1 where "stampUnknownValidity Y U1 load_ok io v1 S m st = (Inr sm, t')"
      by (auto simp: stampForWrite_def split: if_splits option.splits)
    note q = stampUnknownValidity_Inr [OF this]
    obtain data where "sm = m\<lparr>im_uid_validity := v1, im_raw := data\<rparr>" using stamped_record [OF assms(1,2) True] q by metis
    with write_known_writes [OF k assms(4)] q True ne show ?thesis by (auto simp: same_mailbox_def)
  qed
qed

section \<open>Witnesses\<close>

definition sample_synced :: imessage where
  "sample_synced = imessage_zero\<lparr>im_id := ''1'', im_owner := ''work'', im_inbox := ''work'', im_upstream_uid := 5,
     im_uid_validity := 7, im_pending := True\<rparr>"

definition sample_synced_box :: inbound where
  "sample_synced_box = \<lparr>in_recs = \<lparr>items = [(seqkey_encode 1, \<lparr>ir_msg = sample_synced, ir_blobbed = False, ir_dirty = True\<rparr>)], bseq = 1\<rparr>,
     in_synced = [], in_blobs = []\<rparr>"

definition sample_buffer :: fetch_buffer where
  "sample_buffer = \<lparr>fb_uid = 5, fb_flags = [], fb_size = 5, fb_envelope = None, fb_bodies = [Some ''hello'']\<rparr>"

definition sample_session :: upsession where
  "sample_session = \<lparr>us_dial = True, us_select = Some (7, 6), us_since = None, us_all = Some [5],
     us_fetch = (\<lambda>r b. ([FetchMsg sample_buffer], True)), us_envelopes = (\<lambda>u. None), us_flags = (\<lambda>a u k. True)\<rparr>"

definition sample_held :: iassessment where
  "sample_held = \<lparr>ia_disposition = AssessmentHeld, ia_not_cleared = True, ia_score = 0, ia_band = '''', ia_factors = [],
     ia_summary = '''', ia_truncated = None, ia_active = None, ia_findings = []\<rparr>"

definition sample_syncer :: syncer where
  "sample_syncer = \<lparr>sy_mailbox = ''INBOX'', sy_owner = ''work'', sy_inbox = ''work'', sy_max_age = 0, sy_label_store = None,
     sy_audit = True, sy_assess = Some (\<lambda>i f r e. Some sample_held), sy_msgid = (\<lambda>r. None)\<rparr>"

definition sample_content_io :: content_io where
  "sample_content_io = \<lparr>ci_load = True, ci_stamp = ok_io, ci_set = ok_io, ci_remove = ok_io, ci_rm = (\<lambda>k. True), ci_audit = True\<rparr>"

definition empty_state :: state_store where
  "empty_state = \<lparr>sx_cursors = [], sx_latches = []\<rparr>"

lemma fmt_id_one: "fmt_uint (unat (1 :: u64)) = ''1''" "fmt_uint 1 = ''1''"
  by simp_all (code_simp)+

lemma sample_synced_inv: "in_inv sample_env sample_synced_box"
proof -
  have "in_rec_ok sample_env (kv_get []) 1 (seqkey_encode 1) \<lparr>ir_msg = sample_synced, ir_blobbed = False, ir_dirty = True\<rparr>"
    using fmt_id_one by (auto simp: in_rec_ok_def sample_synced_def intro!: exI [of _ 1])
  then show ?thesis by (auto simp: in_inv_def sample_synced_box_def kv_ok_def b_get_def kv_get_def split: if_splits)
qed

lemma sample_synced_load: "in_loadStored sample_synced_box ''1''
    = Inr (\<lparr>ir_msg = sample_synced, ir_blobbed = False, ir_dirty = True\<rparr>, seqkey_encode 1)"
  using in_loadStored_id [of sample_synced_box 1] unfolding fmt_id_one(1)
  by (simp add: sample_synced_box_def b_get_def kv_get_def)

lemma sample_synced_get: "in_Get ''work'' ''work'' ''1'' sample_synced_box = Inr sample_synced"
  by (simp add: in_Get_def sample_synced_load recScoped_def in_withRaw_def sample_synced_def)

lemma sample_synced_set:
  "\<exists>m t. in_SetContentAssessed sample_env ok_io ''work'' ''work'' ''1'' ''hello'' a sample_synced_box = (Inr m, t)"
proof -
  have "\<not> isl (fst (putBlob sample_env ok_io ''work'' ''1'' ''hello'' False []))" by code_simp
  then obtain cs d where "putBlob sample_env ok_io ''work'' ''1'' ''hello'' False (in_blobs sample_synced_box) = (Inr cs, d)"
    by (cases "putBlob sample_env ok_io ''work'' ''1'' ''hello'' False []"; cases "fst (putBlob sample_env ok_io ''work'' ''1'' ''hello'' False [])")
      (auto simp: sample_synced_box_def)
  then show ?thesis
    by (cases cs) (simp add: in_SetContentAssessed_def in_update_def sample_synced_load recScoped_def sample_synced_def ok_io_def Let_def)
qed


theorem keyword_write_confirmed_witness:
  "fst (snd (sy_writeKeywords sample_syncer sample_session sample_session True ok_io empty_state ''work'' ''work'' ''1'' [''todo''] []
      sample_synced_box)) = [UwFlags 7 True 5 [''todo'']] \<and> same_mailbox sample_syncer sample_session 7 sample_synced"
proof -
  have p: "im_uid_validity sample_synced = 7" "im_upstream_uid sample_synced = 5" by (simp_all add: sample_synced_def)
  have w: "sy_writeKeywords sample_syncer sample_session sample_session True ok_io empty_state ''work'' ''work'' ''1'' [''todo''] []
      sample_synced_box = (None, [UwFlags 7 True 5 [''todo'']], sample_synced_box)"
    by (simp add: sy_writeKeywords_def sample_synced_get p write_known_def sample_syncer_def plain_keywords_def sample_session_def
        flag_writes_def)
  from keyword_write_confirmed [OF sample_synced_inv sample_synced_get w, of 7 True 5 "[''todo'']"] w show ?thesis by simp
qed

end
