(* ===== verification/Imapsync.thy ===== *)
theory Imapsync
  imports Upstream
begin

text \<open>Model of the passes of \<open>internal/imapsync\<close> over a whole mailbox: the incremental pull (\<open>imapsync.go\<close>), the
  retraction of what left the source (\<open>reconcile.go\<close>) and the pacing of pulls on demand (\<open>ondemand.go\<close>).

  A pass works on the store, the cursors and latches, and the audit log. The records of faults say how its
  reads and writes end.\<close>

section \<open>What to pull\<close>

datatype sync_err = SyConnect | SySelect | SyState | SySearch | SyFetch | SyStore u32 in_err

definition filterAbove :: "u32 list \<Rightarrow> u32 \<Rightarrow> u32 list" where
  "filterAbove uids lastUID = filter (\<lambda>u. u > lastUID) uids"

fun take_run :: "u32 \<Rightarrow> u32 list \<Rightarrow> u32 \<times> u32 list" where
  "take_run hi [] = (hi, [])"
| "take_run hi (u # us) = (if u = hi + 1 then take_run u us else (hi, u # us))"

lemma take_run_length: "length (snd (take_run hi us)) \<le> length us"
  by (induction us arbitrary: hi) (auto simp: le_SucI)

function coalesce :: "u32 list \<Rightarrow> uid_range list" where
  "coalesce [] = []"
| "coalesce (u # us) = (case take_run u us of (hi, rest) \<Rightarrow> UidRange u hi # coalesce rest)"
  by pat_completeness auto
termination
  by (relation "measure length") (auto simp: less_Suc_eq_le, metis snd_conv take_run_length)

definition uidSetOf :: "u32 list \<Rightarrow> uid_range list" where
  "uidSetOf uids = coalesce (sort uids)"

text \<open>The set to fetch, the ceiling of the cursor, and whether there is nothing to fetch.\<close>

definition pullSet :: "syncer \<Rightarrow> upsession \<Rightarrow> u32 \<Rightarrow> u32 \<Rightarrow> sync_err + (uid_range list \<times> u32 \<times> bool)" where
  "pullSet Y U uidNext lastUID = (
     if sy_max_age Y > 0 then (case us_since U of
         None \<Rightarrow> Inl SySearch
       | Some found \<Rightarrow>
           let uids = filterAbove found lastUID; ceil = (if uidNext > 0 then uidNext - 1 else lastUID)
           in if uids = [] then Inr ([], ceil, True) else Inr (uidSetOf uids, ceil, False))
     else if uidNext > 0 then
       (let hi = uidNext - 1 in if lastUID + 1 > hi then Inr ([], lastUID, True) else Inr ([UidRange (lastUID + 1) hi], hi, False))
     else Inr ([UidRange (lastUID + 1) 0], lastUID, False))"

section \<open>The pull\<close>

definition pull_one ::
  "'h in_env \<Rightarrow> syncer \<Rightarrow> io \<Rightarrow> time \<Rightarrow> u32 \<Rightarrow> fetch_buffer \<Rightarrow> inbound \<Rightarrow> (in_err + bool \<times> imessage) \<times> inbound" where
  "pull_one E Y io now v m st = (
     let d = (deliveryOf (sy_owner Y) (sy_inbox Y) m)\<lparr>dl_upstream_uid := fb_uid m, dl_uid_validity := v\<rparr>
     in case sy_assess Y of
          Some h \<Rightarrow> in_AddSyncedAssessed E io now d (h (sy_inbox Y) (dl_from d) (dl_raw d) (dl_envelope d)) st
        | None \<Rightarrow> in_AddSyncedPending E io now d st)"

fun pull_loop ::
  "'h in_env \<Rightarrow> syncer \<Rightarrow> (u32 \<Rightarrow> io) \<Rightarrow> time \<Rightarrow> u32 \<Rightarrow> u32 \<Rightarrow> nat \<Rightarrow> u32 \<Rightarrow> fetch_item list \<Rightarrow> inbound \<Rightarrow>
    nat \<times> u32 \<times> sync_err option \<times> inbound" where
  "pull_loop E Y ios now v lastUID stored highest [] st = (stored, highest, None, st)"
| "pull_loop E Y ios now v lastUID stored highest (FetchBroken # is) st = (stored, highest, Some SyFetch, st)"
| "pull_loop E Y ios now v lastUID stored highest (FetchMsg m # is) st = (
     if fb_uid m \<le> lastUID then pull_loop E Y ios now v lastUID stored highest is st
     else case pull_one E Y (ios (fb_uid m)) now v m st of
         (Inl e, t) \<Rightarrow> (stored, highest, Some (SyStore (fb_uid m) e), t)
       | (Inr (added, _), t) \<Rightarrow>
           pull_loop E Y ios now v lastUID (if added then stored + 1 else stored) (max highest (fb_uid m)) is t)"

definition pull ::
  "'h in_env \<Rightarrow> syncer \<Rightarrow> upsession \<Rightarrow> (u32 \<Rightarrow> io) \<Rightarrow> time \<Rightarrow> u32 \<Rightarrow> u32 \<Rightarrow> u32 \<Rightarrow> inbound \<Rightarrow> nat \<times> u32 \<times> sync_err option \<times> inbound" where
  "pull E Y U ios now v uidNext lastUID st = (case pullSet Y U uidNext lastUID of
       Inl e \<Rightarrow> (0, lastUID, Some e, st)
     | Inr (uids, ceil, skip) \<Rightarrow>
         if skip then (0, ceil, None, st)
         else case us_fetch U uids (sy_assess Y \<noteq> None) of
           (is, close_ok) \<Rightarrow> (case pull_loop E Y ios now v lastUID 0 lastUID is st of
               (stored, highest, Some e, t) \<Rightarrow> (stored, highest, Some e, t)
             | (stored, highest, None, t) \<Rightarrow>
                 if \<not> close_ok then (stored, highest, Some SyFetch, t) else (stored, max highest ceil, None, t)))"

record sync_io =
  sn_load :: bool
  sn_save :: bool
  sn_add :: "u32 \<Rightarrow> io"
  sn_now :: time
  sn_retry :: "string \<Rightarrow> retry_io"

text \<open>The count and the error, the store, the cursors, and the label writes of the retry.\<close>

definition sy_sync ::
  "'h in_env \<Rightarrow> syncer \<Rightarrow> upsession \<Rightarrow> sync_io \<Rightarrow> inbound \<times> state_store \<Rightarrow>
    (nat \<times> sync_err option) \<times> (inbound \<times> state_store) \<times> upstream_write list" where
  "sy_sync E Y U n s = (case s of (st, S) \<Rightarrow>
     if \<not> us_dial U then ((0, Some SyConnect), s, [])
     else case us_select U of
         None \<Rightarrow> ((0, Some SySelect), s, [])
       | Some (v, uidNext) \<Rightarrow> (case state_Load (sn_load n) (stateKey Y) S of
             None \<Rightarrow> ((0, Some SyState), s, [])
           | Some loaded \<Rightarrow>
               let lastUID = (if cu_uid_validity loaded \<noteq> v then 0 else cu_last_uid loaded)
               in (case pull E Y U (sn_add n) (sn_now n) v uidNext lastUID st of
                   (stored, highest, Some e, t) \<Rightarrow> ((stored, Some e), (t, S), [])
                 | (stored, highest, None, t) \<Rightarrow>
                     let new = \<lparr>cu_uid_validity = v, cu_last_uid = highest\<rparr>;
                         (saved, S') = (if new \<noteq> loaded then state_Save (sn_save n) (stateKey Y) new S else (True, S))
                     in if \<not> saved then ((stored, Some SyState), (t, S'), [])
                        else (case sy_reconcileKeywords Y (sn_retry n) S' t of
                            (pending, ws, u) \<Rightarrow> ((stored, None), (u, S'), ws)))))"

section \<open>Retracting what left the source\<close>

text \<open>\<open>ListUpstreamUIDs\<close>: an EXAMINE and a search, nothing written.\<close>

definition ListUpstreamUIDs :: "upsession \<Rightarrow> sync_err + (u32 \<times> u32 list)" where
  "ListUpstreamUIDs U = (if \<not> us_dial U then Inl SyConnect
     else case us_select U of
         None \<Rightarrow> Inl SySelect
       | Some (v, _) \<Rightarrow> (case us_all U of None \<Rightarrow> Inl SySearch | Some uids \<Rightarrow> Inr (v, uids)))"

record rec_options =
  ro_audit :: bool
  ro_fraction :: f64
  ro_floor :: int
  ro_bypass :: bool

definition DefaultReconcileCapFraction :: f64 where "DefaultReconcileCapFraction = Finite 1 1"
definition DefaultReconcileCapFloor :: int where "DefaultReconcileCapFloor = 5"

datatype rec_err = ReLoadLatch | ErrReconcileHeld | ReLoadState | ReUpstream sync_err | ReLatch | ReCancelled
  | ReRetract nat nat | ErrReconcileNotHeld | ReClearLatch

record rec_io =
  ri_latch_load :: bool
  ri_latch_save :: bool
  ri_cursor_load :: bool
  ri_alive :: "string \<Rightarrow> bool"
  ri_remove :: "string \<Rightarrow> io"
  ri_rm :: "string \<Rightarrow> bool"
  ri_audit :: "string \<Rightarrow> bool"

text \<open>The candidates and the size of the synced set.\<close>

fun scan_records :: "u32 \<Rightarrow> u32 \<Rightarrow> u32 list \<Rightarrow> imessage list \<Rightarrow> imessage list \<times> nat" where
  "scan_records v cursor present [] = ([], 0)"
| "scan_records v cursor present (m # ms) = (
     let (gone, n) = scan_records v cursor present ms in
     if im_upstream_uid m = 0 then (gone, n)
     else if im_uid_validity m = 0 then (gone, n)
     else if im_uid_validity m \<noteq> v then (if \<not> im_pending m then (gone, n) else (m # gone, n + 1))
     else if im_upstream_uid m > cursor then (gone, n)
     else (if im_upstream_uid m \<notin> set present then m # gone else gone, n + 1))"

definition cap_fraction :: "rec_options \<Rightarrow> f64" where
  "cap_fraction R = (if \<not> f64_less (Finite 0 0) (ro_fraction R) \<and> ro_fraction R \<noteq> NaN \<or> f64_less (Finite 1 0) (ro_fraction R)
     then DefaultReconcileCapFraction else ro_fraction R)"

definition cap_floor :: "rec_options \<Rightarrow> int" where
  "cap_floor R = (if ro_floor R < 1 then DefaultReconcileCapFloor else ro_floor R)"

definition cap_exceeded :: "rec_options \<Rightarrow> nat \<Rightarrow> nat \<Rightarrow> bool" where
  "cap_exceeded R gone synced \<longleftrightarrow> \<not> ro_bypass R \<and> int gone \<ge> cap_floor R
     \<and> f64_less (f64_times (cap_fraction R) synced) (Finite (int gone) 0)"

text \<open>The number removed, the number of failures, whether the pass was cancelled, and the store with the log.\<close>

fun retract_loop ::
  "syncer \<Rightarrow> bool \<Rightarrow> rec_io \<Rightarrow> imessage list \<Rightarrow> inbound \<times> arec list \<Rightarrow> (nat \<times> nat \<times> bool) \<times> inbound \<times> arec list" where
  "retract_loop Y audit r [] s = ((0, 0, False), s)"
| "retract_loop Y audit r (m # ms) (st, lg) = (
     if \<not> ri_alive r (im_id m) then ((0, 0, True), st, lg)
     else case in_RemoveSynced (ri_remove r (im_id m)) (ri_rm r) (sy_owner Y) (sy_inbox Y) (im_id m) st of
         (Some e, t) \<Rightarrow> (case retract_loop Y audit r ms (t, lg) of ((n, f, cn), s') \<Rightarrow> ((n, f + 1, cn), s'))
       | (None, t) \<Rightarrow>
           let lg' = (if audit \<and> ri_audit r (im_id m)
                 then lg @ [gone_record (sy_owner Y) (sy_inbox Y) (im_id m) (im_upstream_uid m) '' left source''] else lg)
           in (case retract_loop Y audit r ms (t, lg') of ((n, f, cn), s') \<Rightarrow> ((n + 1, f, cn), s')))"

text \<open>A pass in two halves: what it reads before it lists the store, and what it does to the store it then finds,
  which another session may have changed in between.\<close>

definition rec_snapshot :: "syncer \<Rightarrow> upsession \<Rightarrow> rec_io \<Rightarrow> state_store \<Rightarrow> rec_err + (u32 \<times> u32 \<times> u32 list) option" where
  "rec_snapshot Y U r S = (case state_LoadReconcile (ri_latch_load r) (stateKey Y) S of
       None \<Rightarrow> Inl ReLoadLatch
     | Some rs \<Rightarrow> if la_suspended rs then Inl ErrReconcileHeld
         else (case state_Load (ri_cursor_load r) (stateKey Y) S of
             None \<Rightarrow> Inl ReLoadState
           | Some loaded \<Rightarrow> (case ListUpstreamUIDs U of
               Inl e \<Rightarrow> Inl (ReUpstream e)
             | Inr (v, uids) \<Rightarrow> if cu_uid_validity loaded \<noteq> v then Inr None else Inr (Some (v, cu_last_uid loaded, uids)))))"

definition rec_apply ::
  "syncer \<Rightarrow> rec_options \<Rightarrow> rec_io \<Rightarrow> u32 \<times> u32 \<times> u32 list \<Rightarrow> inbound \<times> arec list \<times> state_store \<Rightarrow>
    (nat \<times> rec_err option) \<times> inbound \<times> arec list \<times> state_store" where
  "rec_apply Y R r snap s = (case snap of (v, cursor, present) \<Rightarrow> (case s of (st, lg, S) \<Rightarrow>
     let (gone, synced) = scan_records v cursor present (in_List (sy_owner Y) (sy_inbox Y) st)
     in if cap_exceeded R (length gone) synced then
          (let (saved, S') = state_SaveReconcile (ri_latch_save r) (stateKey Y) \<lparr>la_suspended = True, la_held = length gone\<rparr> S
           in ((0, Some (if saved then ErrReconcileHeld else ReLatch)), st, lg, S'))
        else case retract_loop Y (ro_audit R) r gone (st, lg) of
          ((n, f, cancelled), st', lg') \<Rightarrow>
            ((n, if cancelled then Some ReCancelled else if f > 0 then Some (ReRetract f (length gone)) else None), st', lg', S)))"

definition sy_Reconcile ::
  "syncer \<Rightarrow> upsession \<Rightarrow> rec_options \<Rightarrow> rec_io \<Rightarrow> inbound \<times> arec list \<times> state_store \<Rightarrow>
    (nat \<times> rec_err option) \<times> inbound \<times> arec list \<times> state_store" where
  "sy_Reconcile Y U R r s = (case rec_snapshot Y U r (snd (snd s)) of
       Inl e \<Rightarrow> ((0, Some e), s)
     | Inr None \<Rightarrow> ((0, None), s)
     | Inr (Some snap) \<Rightarrow> rec_apply Y R r snap s)"

text \<open>\<open>r0\<close> is for the reads and the write of the release itself.\<close>

definition sy_ReleaseReconcile ::
  "syncer \<Rightarrow> upsession \<Rightarrow> rec_options \<Rightarrow> rec_io \<Rightarrow> rec_io \<Rightarrow> inbound \<times> arec list \<times> state_store \<Rightarrow>
    (nat \<times> rec_err option) \<times> inbound \<times> arec list \<times> state_store" where
  "sy_ReleaseReconcile Y U R r0 r s = (case s of (st, lg, S) \<Rightarrow>
     (case state_LoadReconcile (ri_latch_load r0) (stateKey Y) S of
        None \<Rightarrow> ((0, Some ReLoadLatch), s)
      | Some rs \<Rightarrow> if \<not> la_suspended rs then ((0, Some ErrReconcileNotHeld), s)
          else (case state_SaveReconcile (ri_latch_save r0) (stateKey Y) no_latch S of
              (False, S') \<Rightarrow> ((0, Some ReClearLatch), st, lg, S')
            | (True, S') \<Rightarrow> sy_Reconcile Y U (R\<lparr>ro_bypass := True\<rparr>) r (st, lg, S'))))"

definition sy_ReconcileLatch :: "bool \<Rightarrow> syncer \<Rightarrow> state_store \<Rightarrow> latch option" where
  "sy_ReconcileLatch ok Y S = state_LoadReconcile ok (stateKey Y) S"

section \<open>The set to fetch is exact\<close>

fun range_mem :: "uid_range \<Rightarrow> u32 \<Rightarrow> bool" where
  "range_mem (UidRange lo hi) u = (lo \<le> u \<and> u \<le> hi)"

fun bounded_range :: "uid_range \<Rightarrow> bool" where
  "bounded_range (UidRange lo hi) = (hi \<noteq> 0)"

definition in_ranges :: "uid_range list \<Rightarrow> u32 \<Rightarrow> bool" where
  "in_ranges rs u = list_ex (\<lambda>r. range_mem r u) rs"

lemma next_uid: "hi \<le> hi + 1 \<Longrightarrow> hi \<le> x \<longleftrightarrow> x = hi \<or> hi + 1 \<le> x" for hi x :: u32
  using unat_plus_simple [of hi 1] by (auto simp: word_le_nat_alt word_unat_eq_iff)

lemma take_run_spec:
  "take_run hi us = (h, rest) \<Longrightarrow> sorted (hi # us) \<Longrightarrow>
     hi \<le> h \<and> sorted rest \<and> (\<forall>x. (hi \<le> x \<and> x \<le> h) \<or> x \<in> set rest \<longleftrightarrow> x = hi \<or> x \<in> set us) \<and> set rest \<subseteq> set us"
proof (induction us arbitrary: hi)
  case (Cons u us)
  show ?case
  proof (cases "u = hi + 1")
    case True
    then have q: "take_run u us = (h, rest)" and s: "sorted (u # us)" and le: "hi \<le> hi + 1" using Cons.prems by auto
    note ih = Cons.IH [OF q s]
    have h: "hi \<le> h" using ih le True by (meson order_trans)
    have "(hi \<le> x \<and> x \<le> h) \<or> x \<in> set rest \<longleftrightarrow> x = hi \<or> x \<in> set (u # us)" for x
    proof -
      have "(hi \<le> x \<and> x \<le> h) \<longleftrightarrow> x = hi \<or> (u \<le> x \<and> x \<le> h)" using next_uid [OF le, of x] h True by auto
      then show ?thesis using ih by auto
    qed
    then show ?thesis using ih h by auto
  next
    case False
    then show ?thesis using Cons.prems by auto
  qed
qed auto

lemma coalesce_spec: "sorted us \<Longrightarrow> in_ranges (coalesce us) u \<longleftrightarrow> u \<in> set us"
proof (induction us rule: coalesce.induct)
  case 1
  then show ?case by (simp add: in_ranges_def)
next
  case (2 x us)
  obtain h rest where q: "take_run x us = (h, rest)" by fastforce
  note t = take_run_spec [OF q 2(2)]
  have "in_ranges (coalesce rest) u \<longleftrightarrow> u \<in> set rest" using 2(1) [OF q [symmetric]] t by blast
  then show ?case using t q by (simp add: in_ranges_def)
qed

lemma coalesce_bounded: "sorted us \<Longrightarrow> 0 \<notin> set us \<Longrightarrow> list_all bounded_range (coalesce us)"
proof (induction us rule: coalesce.induct)
  case (2 x us)
  obtain h rest where q: "take_run x us = (h, rest)" by fastforce
  note t = take_run_spec [OF q 2(2)]
  have "0 < x" using 2(3) by (simp add: word_gt_0)
  then have "h \<noteq> 0" using t by auto
  moreover have "0 \<notin> set rest" using 2(3) t by auto
  ultimately show ?case using 2(1) [OF q [symmetric]] t q by simp
qed simp

lemma uidSetOf_exact: "in_ranges (uidSetOf uids) u \<longleftrightarrow> u \<in> set uids"
  by (simp add: uidSetOf_def coalesce_spec)

section \<open>A pull leaves no gap\<close>

lemma addSynced_index:
  assumes "in_addSynced E io now d p a s = (res, t)"
  shows "kv_get (in_synced s) k \<noteq> None \<Longrightarrow> kv_get (in_synced t) k \<noteq> None"
    and "res = Inr x \<Longrightarrow> kv_get (in_synced t) (syncedKey (dl_owner d) (dl_inbox d) (dl_uid_validity d) (dl_upstream_uid d)) \<noteq> None"
proof -
  obtain r u where p: "in_put E io now d p a False s = (r, u)" by fastforce
  have "in_synced u = in_synced s" using in_put_synced [of E io now d p a False s] p by simp
  then show "kv_get (in_synced s) k \<noteq> None \<Longrightarrow> kv_get (in_synced t) k \<noteq> None"
    "res = Inr x \<Longrightarrow> kv_get (in_synced t) (syncedKey (dl_owner d) (dl_inbox d) (dl_uid_validity d) (dl_upstream_uid d)) \<noteq> None"
    using assms p by (auto simp: in_addSynced_def in_update_def Let_def kv_get_put split: if_splits option.splits sum.splits)
qed

lemma pull_one_index:
  assumes "pull_one E Y io now v m st = (res, t)"
  shows "kv_get (in_synced st) k \<noteq> None \<Longrightarrow> kv_get (in_synced t) k \<noteq> None"
    and "res = Inr x \<Longrightarrow> kv_get (in_synced t) (syncedKey (sy_owner Y) (sy_inbox Y) v (fb_uid m)) \<noteq> None"
proof -
  let ?d = "(deliveryOf (sy_owner Y) (sy_inbox Y) m)\<lparr>dl_upstream_uid := fb_uid m, dl_uid_validity := v\<rparr>"
  obtain p a where "in_addSynced E io now ?d p a st = (res, t)"
    using assms by (auto simp: pull_one_def in_AddSyncedAssessed_def in_AddSyncedPending_def Let_def split: option.splits)
  from addSynced_index [OF this] show "kv_get (in_synced st) k \<noteq> None \<Longrightarrow> kv_get (in_synced t) k \<noteq> None"
    "res = Inr x \<Longrightarrow> kv_get (in_synced t) (syncedKey (sy_owner Y) (sy_inbox Y) v (fb_uid m)) \<noteq> None"
    by (simp_all add: deliveryOf_def)
qed

lemma pull_loop_covers:
  "pull_loop E Y ios now v low stored highest is st = (stored', high', None, t) \<Longrightarrow>
     highest \<le> high' \<and> (\<forall>k. kv_get (in_synced st) k \<noteq> None \<longrightarrow> kv_get (in_synced t) k \<noteq> None)
     \<and> (\<forall>m. FetchMsg m \<in> set is \<longrightarrow> low < fb_uid m \<longrightarrow> fb_uid m \<le> high'
          \<and> kv_get (in_synced t) (syncedKey (sy_owner Y) (sy_inbox Y) v (fb_uid m)) \<noteq> None)"
proof (induction E Y ios now v low stored highest "is" st rule: pull_loop.induct)
  case (3 E Y ios now v low stored highest m "is" st)
  show ?case
  proof (cases "fb_uid m \<le> low")
    case True
    then have q: "pull_loop E Y ios now v low stored highest is st = (stored', high', None, t)" using 3(3) by simp
    show ?thesis using 3(1) [OF True q] True by auto
  next
    case False
    obtain res u where p: "pull_one E Y (ios (fb_uid m)) now v m st = (res, u)" by fastforce
    then obtain added x where r: "res = Inr (added, x)" using 3(3) False by (cases res) auto
    then have q: "pull_loop E Y ios now v low (if added then stored + 1 else stored) (max highest (fb_uid m)) is u = (stored', high', None, t)"
      using 3(3) False p by simp
    have ih: "max highest (fb_uid m) \<le> high' \<and> (\<forall>k. kv_get (in_synced u) k \<noteq> None \<longrightarrow> kv_get (in_synced t) k \<noteq> None)
      \<and> (\<forall>m'. FetchMsg m' \<in> set is \<longrightarrow> low < fb_uid m' \<longrightarrow> fb_uid m' \<le> high'
          \<and> kv_get (in_synced t) (syncedKey (sy_owner Y) (sy_inbox Y) v (fb_uid m')) \<noteq> None)"
      using 3(2) [OF False p [unfolded r, symmetric] refl refl q] by blast
    note i = pull_one_index [OF p]
    have "kv_get (in_synced t) (syncedKey (sy_owner Y) (sy_inbox Y) v (fb_uid m)) \<noteq> None" using i(2) [OF r] ih by blast
    then show ?thesis using ih i(1) by auto
  qed
qed simp_all

text \<open>Retrying label writes touches neither the index nor the set of records.\<close>

definition kept :: "inbound \<Rightarrow> inbound \<Rightarrow> bool" where
  "kept s t \<longleftrightarrow> (\<forall>key. b_get (in_recs s) key \<noteq> None \<longrightarrow> b_get (in_recs t) key \<noteq> None)"

definition index_kept :: "inbound \<Rightarrow> inbound \<Rightarrow> bool" where
  "index_kept s t \<longleftrightarrow> in_synced t = in_synced s \<and> kept s t"

lemma kept_refl [simp]: "kept s s"
  by (simp add: kept_def)

lemma kept_trans: "kept s t \<Longrightarrow> kept t u \<Longrightarrow> kept s u"
  by (simp add: kept_def)

lemma index_kept_refl [simp]: "index_kept s s"
  by (simp add: index_kept_def)

lemma index_kept_trans: "index_kept s t \<Longrightarrow> index_kept t u \<Longrightarrow> index_kept s u"
  by (simp add: index_kept_def kept_def)

lemma in_modify_index: "index_kept s (snd (in_modify io owner inbox mid f s))"
  by (auto simp: index_kept_def kept_def in_modify_def in_update_def split: sum.splits prod.splits option.splits if_splits)

lemma StampUIDValidity_index: "index_kept s (snd (in_StampUIDValidity io owner inbox mid v s))"
  by (simp add: in_StampUIDValidity_def in_modify_index)

lemma stampUnknown_index: "index_kept st (snd (stampUnknownValidity Y U ok io v S m st))"
  using StampUIDValidity_index [of st io "im_owner m" "im_inbox m" "im_id m" v]
  by (auto simp: stampUnknownValidity_def Let_def split: option.splits sum.splits prod.splits)

lemma WriteKeywords_index:
  assumes "sy_WriteKeywords Y U1 U2 ok io S owner inbox mid add remove st = (e, ws, t, b)"
  shows "index_kept st t"
proof -
  have "index_kept st (snd (stampForWrite Y U1 ok io S m st))" for m
    using stampUnknown_index by (auto simp: stampForWrite_def split: option.splits)
  then have "index_kept st (snd (snd (sy_writeKeywords Y U1 U2 ok io S owner inbox mid add remove st)))"
    unfolding sy_writeKeywords_def
    by (auto split: sum.splits prod.splits simp: prod_eq_iff)
  then show ?thesis using assms by (auto simp: sy_WriteKeywords_def split: prod.splits)
qed

lemma reconcile_kw_index: "index_kept st (snd (snd (reconcile_kw_loop Y R S ms st)))"
proof (induction ms arbitrary: st)
  case (Cons m ms)
  obtain e ws t b where w: "sy_WriteKeywords Y (rt_stamp_session (R (im_id m))) (rt_session (R (im_id m))) (rt_load (R (im_id m)))
      (rt_stamp (R (im_id m))) S (sy_owner Y) (sy_inbox Y) (im_id m) (im_keywords m) [] st = (e, ws, t, b)" by (metis prod.exhaust)
  let ?c = "snd (in_ClearKeywordsDirty (rt_clear (R (im_id m))) (sy_owner Y) (sy_inbox Y) (im_id m) t)"
  have c: "index_kept t ?c" by (simp add: in_ClearKeywordsDirty_def in_modify_index)
  have i: "index_kept st t" by (rule WriteKeywords_index [OF w])
  show ?case using w index_kept_trans [OF i Cons.IH [of t]] index_kept_trans [OF index_kept_trans [OF i c] Cons.IH [of ?c]]
    by (cases e) (simp_all add: Let_def split_def)
qed simp

text \<open>A server that answers a fetch with the messages asked for, and which messages a pass is meant to fetch: those
  above the cursor and, without a recency cutoff, below the next UID, with one, those the search found.\<close>

definition honest :: "upsession \<Rightarrow> fetch_buffer list \<Rightarrow> bool" where
  "honest U mbox \<longleftrightarrow> (\<forall>rs b. list_all bounded_range rs \<longrightarrow>
     us_fetch U rs b = (map FetchMsg (filter (\<lambda>m. in_ranges rs (fb_uid m)) mbox), True))"

definition low_of :: "syncer \<Rightarrow> u32 \<Rightarrow> state_store \<Rightarrow> u32" where
  "low_of Y v S = (case state_Load True (stateKey Y) S of
     Some c \<Rightarrow> if cu_uid_validity c \<noteq> v then 0 else cu_last_uid c | None \<Rightarrow> 0)"

definition wanted :: "syncer \<Rightarrow> upsession \<Rightarrow> u32 \<Rightarrow> u32 \<Rightarrow> u32 \<Rightarrow> bool" where
  "wanted Y U uidNext low u \<longleftrightarrow> low < u \<and> (if sy_max_age Y > 0 then us_since U \<noteq> None \<and> u \<in> set (the (us_since U)) else u < uidNext)"

lemma pred_uid: "u < v \<Longrightarrow> u \<le> v - 1" "low < u \<Longrightarrow> low + 1 \<le> u" for u v low :: u32
proof -
  show "u \<le> v - 1" if "u < v"
  proof -
    have "v \<noteq> 0" using that by auto
    then show ?thesis using that by (simp add: word_le_nat_alt word_less_nat_alt unat_minus_one)
  qed
  show "low < u \<Longrightarrow> low + 1 \<le> u" by (rule inc_le)
qed

lemma pullSet_covers:
  assumes "pullSet Y U uidNext low = Inr (rs, ceil, skip)" "wanted Y U uidNext low u" "uidNext \<noteq> 0"
  shows "\<not> skip \<and> in_ranges rs u \<and> list_all bounded_range rs"
proof (cases "sy_max_age Y > 0")
  case True
  then obtain found where f: "us_since U = Some found" "u \<in> set (filterAbove found low)"
    using assms(2) by (auto simp: wanted_def filterAbove_def)
  then have "rs = uidSetOf (filterAbove found low)" "\<not> skip" using assms(1) True by (auto simp: pullSet_def Let_def split: if_splits)
  moreover have "0 \<notin> set (filterAbove found low)" by (auto simp: filterAbove_def)
  ultimately show ?thesis using f(2) coalesce_bounded [of "sort (filterAbove found low)"] by (simp add: uidSetOf_exact) (simp add: uidSetOf_def)
next
  case False
  have u: "low < u" "u < uidNext" using assms(2) False by (auto simp: wanted_def)
  then have le: "low + 1 \<le> u" "u \<le> uidNext - 1" using pred_uid by blast+
  then have "\<not> low + 1 > uidNext - 1" by (meson leD order_trans)
  then have "rs = [UidRange (low + 1) (uidNext - 1)]" "\<not> skip"
    using assms(1,3) False by (auto simp: pullSet_def Let_def word_gt_0 split: if_splits)
  moreover have "uidNext - 1 \<noteq> 0" using le u(1) by auto
  ultimately show ?thesis using le by (simp add: in_ranges_def)
qed


text \<open>One message can stop a mailbox for good: with assessment on, a new message whose bytes the sanitizer refuses
  (a broken header block with a line of the gate's own namespace) fails the pull, and as the cursor and the
  index stay as they are, every later pull fails on it again before it reaches anything newer.\<close>

lemma poison_message_stalls:
  assumes "sy_assess Y = Some h" "rawBody m = Some raw"
    and "prov_Sanitize (ie_tp E) (ie_codecs E) (ie_cfs E) raw (ie_resolve E (NormInbox (sy_inbox Y)) raw) = Inl e"
    and "kv_get (in_synced st) (syncedKey (sy_owner Y) (sy_inbox Y) v (fb_uid m)) = None"
    and "us_dial U" "us_select U = Some (v, uidNext)" "sn_load n"
    and "pullSet Y U uidNext (low_of Y v S) = Inr (rs, ceil, False)" "us_fetch U rs True = (FetchMsg m # is, ok)" "low_of Y v S < fb_uid m"
  shows "\<exists>st'. sy_sync E Y U n (st, S) = ((0, Some (SyStore (fb_uid m) (InSanitize e))), (st', S), []) \<and> in_synced st' = in_synced st"
proof -
  obtain loaded where l: "state_Load (sn_load n) (stateKey Y) S = Some loaded" "state_Load True (stateKey Y) S = Some loaded"
    using assms(7) by (auto simp: state_Load_def)
  have low: "low_of Y v S = (if cu_uid_validity loaded \<noteq> v then 0 else cu_last_uid loaded)" using l by (simp add: low_of_def)
  let ?d = "(deliveryOf (sy_owner Y) (sy_inbox Y) m)\<lparr>dl_upstream_uid := fb_uid m, dl_uid_validity := v\<rparr>"
  let ?io = "sn_add n (fb_uid m)"
  have d: "dl_raw ?d = raw" "dl_inbox ?d = sy_inbox Y" "dl_owner ?d = sy_owner Y" "dl_upstream_uid ?d = fb_uid m" "dl_uid_validity ?d = v"
    using assms(2) by (simp_all add: deliveryOf_def)
  have nz: "fb_uid m \<noteq> 0" using assms(10) by auto
  have nl: "\<not> fb_uid m \<le> low_of Y v S" using assms(10) by simp
  have "fst (in_put E ?io (sn_now n) ?d False a False st) = Inl (InSanitize e)"
    "in_synced (snd (in_put E ?io (sn_now n) ?d False a False st)) = in_synced st" for a
    using assms(3) in_put_synced by (auto simp: in_put_def b_next_def Let_def putBlob_def d(1) new_imessage_def d(2))
  then have one: "\<exists>t. pull_one E Y ?io (sn_now n) v m st = (Inl (InSanitize e), t) \<and> in_synced t = in_synced st"
    using assms(1,4) nz d(3-5) by (simp add: pull_one_def in_AddSyncedAssessed_def in_addSynced_def in_update_def Let_def d split_def)
  then obtain t where t: "pull_one E Y ?io (sn_now n) v m st = (Inl (InSanitize e), t)" "in_synced t = in_synced st" by blast
  have "pull E Y U (sn_add n) (sn_now n) v uidNext (low_of Y v S) st
      = (0, low_of Y v S, Some (SyStore (fb_uid m) (InSanitize e)), t)"
    using assms(1,8,9) t(1) nl by (simp add: pull_def)
  then show ?thesis using assms(5-7) l t(2) by (simp add: sy_sync_def low [symmetric])
qed

section \<open>Only what left the source is retracted\<close>

text \<open>A record the pass may retract, for the UID validity, the cursor and the UIDs of its snapshot: it came from
  upstream under a known validity and either its UID, not above the cursor, is no longer there, or it has no
  body and belongs to a superseded UID space.\<close>

definition left_source :: "u32 \<Rightarrow> u32 \<Rightarrow> u32 list \<Rightarrow> imessage \<Rightarrow> bool" where
  "left_source v cursor present m \<longleftrightarrow> im_upstream_uid m \<noteq> 0 \<and> im_uid_validity m \<noteq> 0
     \<and> (if im_uid_validity m = v then im_upstream_uid m \<le> cursor \<and> im_upstream_uid m \<notin> set present else im_pending m)"

lemma scan_records_gone: "fst (scan_records v cursor present ms) = filter (left_source v cursor present) ms"
  by (induction ms) (auto simp: left_source_def Let_def split_def)

lemma scan_records_count: "length (fst (scan_records v cursor present ms)) \<le> snd (scan_records v cursor present ms)"
  by (induction ms) (auto simp: Let_def split_def)

text \<open>What one retraction does to the records.\<close>

lemma Remove_recs:
  assumes "in_RemoveSynced io rm owner inbox (fmt_uint (unat (n :: u64))) st = (res, t)"
  shows "if res = None then items (in_recs t) = filter (\<lambda>e. fst e \<noteq> seqkey_encode n) (items (in_recs st)) else in_recs t = in_recs st"
  using assms
  by (auto simp: in_RemoveSynced_def in_update_def in_loadStored_id Let_def b_del_def kv_del_def
      split: option.splits sum.splits if_splits)

text \<open>The keys of the records with the given ids.\<close>

definition keys_of :: "imessage list \<Rightarrow> bytes set" where
  "keys_of ms = {seqkey_encode n | n. \<exists>m \<in> set ms. im_id m = fmt_uint (unat (n :: u64))}"

lemma keys_of_Nil [simp]: "keys_of [] = {}"
  by (simp add: keys_of_def)

lemma keys_of_Cons: "im_id m = fmt_uint (unat (n :: u64)) \<Longrightarrow> keys_of (m # ms) = insert (seqkey_encode n) (keys_of ms)"
  by (auto simp: keys_of_def word_unat_eq_iff)

lemma retract_loop_recs:
  assumes "\<forall>m \<in> set ms. \<exists>n :: u64. im_id m = fmt_uint (unat n)" "in_inv E st"
    and "retract_loop Y audit r ms (st, lg) = ((k, f, cn), t, lg')"
  shows "in_inv E t \<and> (\<exists>K \<subseteq> keys_of ms. items (in_recs t) = filter (\<lambda>e. fst e \<notin> K) (items (in_recs st))
    \<and> (\<not> cn \<and> f = 0 \<longrightarrow> K = keys_of ms \<and> k = length ms))"
  using assms
proof (induction ms arbitrary: st lg k f cn)
  case (Cons m ms)
  obtain n :: u64 where n: "im_id m = fmt_uint (unat n)" using Cons.prems(1) by auto
  show ?case
  proof (cases "ri_alive r (im_id m)")
    case False
    then show ?thesis using Cons.prems by (auto intro: exI [of _ "{}"])
  next
    case True
    obtain res u where u: "in_RemoveSynced (ri_remove r (im_id m)) (ri_rm r) (sy_owner Y) (sy_inbox Y) (im_id m) st = (res, u)" by fastforce
    have iu: "in_inv E u" using in_Remove_good [OF Cons.prems(2), of "ri_remove r (im_id m)" "ri_rm r" "sy_owner Y" "sy_inbox Y" n] u n
      by (simp add: in_good_def)
    define lg1 where "lg1 = (if res = None \<and> audit \<and> ri_audit r (im_id m)
      then lg @ [gone_record (sy_owner Y) (sy_inbox Y) (im_id m) (im_upstream_uid m) '' left source''] else lg)"
    obtain k1 f1 cn1 where q: "retract_loop Y audit r ms (u, lg1) = ((k1, f1, cn1), t, lg')"
      and kf: "cn = cn1" "f = (if res = None then f1 else f1 + 1)" "k = (if res = None then k1 + 1 else k1)"
      using Cons.prems(3) True u lg1_def by (cases res) (auto split: prod.splits)
    have ids: "\<forall>m \<in> set ms. \<exists>n :: u64. im_id m = fmt_uint (unat n)" using Cons.prems(1) by simp
    from Cons.IH [OF ids iu q] obtain K where K: "in_inv E t" "K \<subseteq> keys_of ms"
      "items (in_recs t) = filter (\<lambda>e. fst e \<notin> K) (items (in_recs u))" "\<not> cn1 \<and> f1 = 0 \<longrightarrow> K = keys_of ms \<and> k1 = length ms" by blast
    note R = Remove_recs [OF u [unfolded n]]
    show ?thesis
    proof (cases res)
      case None
      then have "items (in_recs t) = filter (\<lambda>e. fst e \<notin> insert (seqkey_encode n) K) (items (in_recs st))"
        using R K(3) by (auto intro: filter_cong)
      then show ?thesis using K kf None keys_of_Cons [OF n, of ms] by (intro conjI exI [of _ "insert (seqkey_encode n) K"]) auto
    next
      case (Some e)
      then show ?thesis using K kf R keys_of_Cons [OF n, of ms] by (intro conjI exI [of _ K]) auto
    qed
  qed
qed auto

lemma listed_id:
  assumes "in_inv E st" "e \<in> set (items (in_recs st))"
  shows "\<exists>n. fst e = seqkey_encode n \<and> im_id (ir_msg (snd e)) = fmt_uint (unat n)"
proof -
  have "b_get (in_recs st) (fst e) = Some (snd e)"
    using assms by (simp add: b_get_def kv_get_iff in_inv_def)
  from inv_rec [OF assms(1) this] show ?thesis by (auto simp: in_rec_ok_def)
qed

lemma in_List_ids: "in_inv E st \<Longrightarrow> m \<in> set (in_List owner inbox st) \<Longrightarrow> \<exists>n :: u64. im_id m = fmt_uint (unat n)"
  using listed_id by (fastforce simp: in_List_def)

lemma keys_of_listed:
  assumes "in_inv E st" "e \<in> set (items (in_recs st))"
  shows "fst e \<in> keys_of (filter P (in_List owner inbox st)) \<longleftrightarrow> recScoped (snd e) owner inbox \<and> P ((ir_msg (snd e))\<lparr>im_raw := []\<rparr>)"
proof
  assume "fst e \<in> keys_of (filter P (in_List owner inbox st))"
  then obtain n e' where n: "fst e = seqkey_encode n" and e': "e' \<in> set (items (in_recs st))" "recScoped (snd e') owner inbox"
    "P ((ir_msg (snd e'))\<lparr>im_raw := []\<rparr>)" "im_id (ir_msg (snd e')) = fmt_uint (unat n)"
    by (auto simp: keys_of_def in_List_def)
  from listed_id [OF assms(1) e'(1)] e'(4) n have "fst e' = fst e" by (auto simp: word_unat_eq_iff)
  moreover have "kv_ok (items (in_recs st))" using assms(1) by (simp add: in_inv_def)
  ultimately have "e' = e" using e'(1) assms(2) by (metis kv_get_iff option.inject prod.collapse)
  with e' show "recScoped (snd e) owner inbox \<and> P ((ir_msg (snd e))\<lparr>im_raw := []\<rparr>)" by simp
next
  assume a: "recScoped (snd e) owner inbox \<and> P ((ir_msg (snd e))\<lparr>im_raw := []\<rparr>)"
  obtain n where "fst e = seqkey_encode n" "im_id (ir_msg (snd e)) = fmt_uint (unat n)" using listed_id [OF assms] by blast
  with a assms(2) show "fst e \<in> keys_of (filter P (in_List owner inbox st))"
    by (cases e) (force simp: keys_of_def in_List_def)
qed

text \<open>The size of the synced set, the records a pass judges.\<close>

definition judged :: "u32 \<Rightarrow> u32 \<Rightarrow> imessage \<Rightarrow> bool" where
  "judged v cursor m \<longleftrightarrow> im_upstream_uid m \<noteq> 0 \<and> im_uid_validity m \<noteq> 0
     \<and> (if im_uid_validity m = v then im_upstream_uid m \<le> cursor else im_pending m)"

lemma scan_records_eq: "scan_records v cursor present ms = (filter (left_source v cursor present) ms, length (filter (judged v cursor) ms))"
  by (induction ms) (auto simp: left_source_def judged_def Let_def split_def)

lemma left_source_raw [simp]: "left_source v cursor present (m\<lparr>im_raw := x\<rparr>) = left_source v cursor present m"
  by (simp add: left_source_def)

text \<open>One pass, on the store it finds.\<close>

lemma rec_apply_recs:
  assumes "in_inv E st" "rec_apply Y R r (v, cursor, present) (st, lg, S) = ((n, err), t, lg', S')"
  defines "gone \<equiv> filter (left_source v cursor present) (in_List (sy_owner Y) (sy_inbox Y) st)"
  defines "over \<equiv> cap_exceeded R (length gone) (length (filter (judged v cursor) (in_List (sy_owner Y) (sy_inbox Y) st)))"
  shows "in_inv E t \<and> (\<exists>K \<subseteq> keys_of gone. items (in_recs t) = filter (\<lambda>e. fst e \<notin> K) (items (in_recs st))
      \<and> (over \<longrightarrow> K = {} \<and> n = 0 \<and> err \<noteq> None) \<and> (err = None \<longrightarrow> K = keys_of gone \<and> n = length gone) \<and> (\<not> over \<longrightarrow> S' = S))"
proof (cases over)
  case True
  then show ?thesis using assms by (auto simp: rec_apply_def scan_records_eq split: prod.splits if_splits intro: exI [of _ "{}"])
next
  case False
  obtain k f cn st2 lg2 where l: "retract_loop Y (ro_audit R) r gone (st, lg) = ((k, f, cn), st2, lg2)" by (metis prod.exhaust)
  have ids: "\<forall>m \<in> set gone. \<exists>n :: u64. im_id m = fmt_uint (unat n)"
    using in_List_ids [OF assms(1)] by (auto simp: gone_def)
  from retract_loop_recs [OF ids assms(1) l] obtain K where K: "in_inv E st2" "K \<subseteq> keys_of gone"
    "items (in_recs st2) = filter (\<lambda>e. fst e \<notin> K) (items (in_recs st))" "\<not> cn \<and> f = 0 \<longrightarrow> K = keys_of gone \<and> k = length gone" by blast
  have "n = k" "err = (if cn then Some ReCancelled else if f > 0 then Some (ReRetract f (length gone)) else None)" "t = st2" "S' = S"
    using assms(2) False l by (auto simp: rec_apply_def scan_records_eq gone_def over_def)
  then show ?thesis using K False by (intro conjI exI [of _ K]) (auto split: if_splits)
qed

text \<open>C35: only what left the source is removed. Whatever else changed in the store since the pass read the cursor
  and listed the source, a pass keeps every record unchanged but those of its own owner and inbox that came
  from upstream and are gone there: under the current UID validity, at or below the cursor read before the
  listing and not listed, or headers only and under a superseded UID validity. When those are too many for the
  safety cap, none is removed, and the pass reports that it did not finish.\<close>

theorem reconcile_removes_only_gone:
  assumes "in_inv E st" "rec_apply Y R r (v, cursor, present) (st, lg, S) = ((n, err), t, lg', S')"
    and "b_get (in_recs st) key = Some rec"
  shows "b_get (in_recs t) key = Some rec
    \<or> b_get (in_recs t) key = None \<and> recScoped rec (sy_owner Y) (sy_inbox Y) \<and> left_source v cursor present (ir_msg rec)
      \<and> \<not> cap_exceeded R (length (filter (left_source v cursor present) (in_List (sy_owner Y) (sy_inbox Y) st)))
          (length (filter (judged v cursor) (in_List (sy_owner Y) (sy_inbox Y) st)))"
proof -
  let ?gone = "filter (left_source v cursor present) (in_List (sy_owner Y) (sy_inbox Y) st)"
  from rec_apply_recs [OF assms(1,2)] obtain K where K: "K \<subseteq> keys_of ?gone"
    "items (in_recs t) = filter (\<lambda>e. fst e \<notin> K) (items (in_recs st))"
    "cap_exceeded R (length ?gone) (length (filter (judged v cursor) (in_List (sy_owner Y) (sy_inbox Y) st))) \<longrightarrow> K = {}" by blast
  have ok: "kv_ok (items (in_recs st))" using assms(1) by (simp add: in_inv_def)
  then have okt: "kv_ok (items (in_recs t))" by (simp add: K(2) kv_ok_def sorted_wrt_filter)
  have e: "(key, rec) \<in> set (items (in_recs st))" using assms(3) ok by (simp add: b_get_def kv_get_iff)
  show ?thesis
  proof (cases "key \<in> K")
    case True
    then have "b_get (in_recs t) key = None" by (auto simp: b_get_def kv_get_None_iff K(2))
    then show ?thesis using True K keys_of_listed [OF assms(1) e, of "left_source v cursor present" "sy_owner Y" "sy_inbox Y"] by auto
  next
    case False
    then show ?thesis using e okt by (simp add: b_get_def kv_get_iff K(2))
  qed
qed

text \<open>The abstract pass: the mailbox as the list of its messages, without those that left the source.\<close>

definition spec_reconcile :: "u32 \<Rightarrow> u32 \<Rightarrow> u32 list \<Rightarrow> imessage list \<Rightarrow> imessage list" where
  "spec_reconcile v cursor present ms = filter (\<lambda>m. \<not> left_source v cursor present m) ms"

lemma in_List_drop:
  assumes "in_inv E st" "items (in_recs t) = filter (\<lambda>e. fst e \<notin> keys_of (filter (left_source v cursor present) (in_List ow ib st))) (items (in_recs st))"
  shows "in_List ow ib t = spec_reconcile v cursor present (in_List ow ib st)"
    "ow' \<noteq> ow \<or> NormInbox ib' \<noteq> NormInbox ib \<Longrightarrow> in_List ow' ib' t = in_List ow' ib' st"
proof -
  have k: "fst e \<in> keys_of (filter (left_source v cursor present) (in_List ow ib st))
      \<longleftrightarrow> recScoped (snd e) ow ib \<and> left_source v cursor present (ir_msg (snd e))" if "e \<in> set (items (in_recs st))" for e
    using keys_of_listed [OF assms(1) that] by simp
  have "filter (\<lambda>e. recScoped (snd e) ow ib) (items (in_recs t))
      = filter (\<lambda>e. recScoped (snd e) ow ib \<and> \<not> left_source v cursor present (ir_msg (snd e))) (items (in_recs st))"
    unfolding assms(2) filter_filter using k by (intro filter_cong) auto
  then show "in_List ow ib t = spec_reconcile v cursor present (in_List ow ib st)"
    by (simp add: in_List_def spec_reconcile_def filter_map comp_def conj_commute)
  assume "ow' \<noteq> ow \<or> NormInbox ib' \<noteq> NormInbox ib"
  then have "filter (\<lambda>e. recScoped (snd e) ow' ib') (items (in_recs t)) = filter (\<lambda>e. recScoped (snd e) ow' ib') (items (in_recs st))"
    unfolding assms(2) filter_filter using k by (intro filter_cong) (auto simp: recScoped_def)
  then show "in_List ow' ib' t = in_List ow' ib' st" by (simp add: in_List_def)
qed

text \<open>C36: a pass that succeeds implements the abstract one. When the mailbox kept the UID validity of the cursor,
  the messages of the inbox are afterwards those before without the ones that left the source, in the same
  order, the number reported is the number removed, and no other inbox, no cursor and no latch changed; when
  the validity differs, nothing changed at all.\<close>

theorem reconcile_refines:
  assumes "in_inv E st" "sy_Reconcile Y U R r (st, lg, S) = ((n, None), t, lg', S')"
    and "us_select U = Some (v, x)" "us_all U = Some uids" "state_Load True (stateKey Y) S = Some c"
  shows "if cu_uid_validity c = v
    then in_List (sy_owner Y) (sy_inbox Y) t = spec_reconcile v (cu_last_uid c) uids (in_List (sy_owner Y) (sy_inbox Y) st)
      \<and> n = length (filter (left_source v (cu_last_uid c) uids) (in_List (sy_owner Y) (sy_inbox Y) st)) \<and> S' = S
      \<and> (\<forall>ow ib. in_List ow ib t = in_List ow ib st \<or> ow = sy_owner Y \<and> NormInbox ib = NormInbox (sy_inbox Y))
    else (n, t, lg', S') = (0, st, lg, S)"
proof (cases "cu_uid_validity c = v")
  case False
  then show ?thesis using assms(2-5)
    by (auto simp: sy_Reconcile_def rec_snapshot_def ListUpstreamUIDs_def state_Load_def split: option.splits if_splits)
next
  case True
  then have "rec_apply Y R r (v, cu_last_uid c, uids) (st, lg, S) = ((n, None), t, lg', S')"
    using assms(2-5) by (auto simp: sy_Reconcile_def rec_snapshot_def ListUpstreamUIDs_def state_Load_def split: option.splits if_splits)
  from rec_apply_recs [OF assms(1) this] have
    k: "items (in_recs t) = filter (\<lambda>e. fst e \<notin> keys_of (filter (left_source v (cu_last_uid c) uids) (in_List (sy_owner Y) (sy_inbox Y) st))) (items (in_recs st))"
    and n: "n = length (filter (left_source v (cu_last_uid c) uids) (in_List (sy_owner Y) (sy_inbox Y) st))" "S' = S" by metis+
  have "in_List ow ib t = in_List ow ib st \<or> ow = sy_owner Y \<and> NormInbox ib = NormInbox (sy_inbox Y)" for ow ib
    using in_List_drop(2) [OF assms(1) k, of ow ib] by metis
  with in_List_drop(1) [OF assms(1) k] n True show ?thesis by simp
qed

section \<open>A latched inbox loses no mail\<close>

lemma in_put_kept: "kept s (snd (in_put E io now d p a g s))"
  by (auto simp: kept_def in_put_def b_next_def Let_def split: sum.splits prod.splits)

lemma addSynced_kept: "kept s (snd (in_addSynced E io now d p a s))"
proof -
  obtain r u where q: "in_put E io now d p a False s = (r, u)" by fastforce
  have "kept s u" using in_put_kept [of s E io now d p a False] q by simp
  then show ?thesis using q
    by (auto simp: in_addSynced_def in_update_def Let_def kept_def split: if_splits option.splits sum.splits)
qed

lemma pull_one_kept: "pull_one E Y io now v m st = (res, t) \<Longrightarrow> kept st t"
proof -
  assume a: "pull_one E Y io now v m st = (res, t)"
  let ?d = "(deliveryOf (sy_owner Y) (sy_inbox Y) m)\<lparr>dl_upstream_uid := fb_uid m, dl_uid_validity := v\<rparr>"
  obtain p b where "in_addSynced E io now ?d p b st = (res, t)"
    using a by (auto simp: pull_one_def in_AddSyncedAssessed_def in_AddSyncedPending_def Let_def split: option.splits)
  with addSynced_kept [of st E io now ?d p b] show ?thesis by simp
qed

lemma pull_loop_kept: "pull_loop E Y ios now v low stored high is st = (stored', high', err, t) \<Longrightarrow> kept st t"
proof (induction E Y ios now v low stored high "is" st rule: pull_loop.induct)
  case (3 E Y ios now v low stored high m "is" st)
  show ?case
  proof (cases "fb_uid m \<le> low")
    case True
    then show ?thesis using 3(1) 3(3) by simp
  next
    case False
    obtain res u where p: "pull_one E Y (ios (fb_uid m)) now v m st = (res, u)" by fastforce
    have k: "kept st u" by (rule pull_one_kept [OF p])
    show ?thesis
    proof (cases res)
      case (Inl e)
      then show ?thesis using 3(3) False p k by simp
    next
      case (Inr x)
      obtain added y where x: "x = (added, y)" by fastforce
      have "pull_loop E Y ios now v low (if added then stored + 1 else stored) (max high (fb_uid m)) is u = (stored', high', err, t)"
        using 3(3) False p Inr x by simp
      from 3(2) [OF False p [symmetric] Inr x [symmetric] this] show ?thesis using k kept_trans by blast
    qed
  qed
qed simp_all

lemma pull_kept: "pull E Y U ios now v un low st = (stored, high, e, u) \<Longrightarrow> kept st u"
proof -
  assume p: "pull E Y U ios now v un low st = (stored, high, e, u)"
  show ?thesis
  proof (cases "pullSet Y U un low")
    case (Inl err)
    then show ?thesis using p by (simp add: pull_def)
  next
    case (Inr x)
    obtain rs ceil skip where x: "x = (rs, ceil, skip)" by (cases x)
    obtain "is" ok where f: "us_fetch U rs (sy_assess Y \<noteq> None) = (is, ok)" by fastforce
    obtain s2 h2 e2 t2 where l: "pull_loop E Y ios now v low 0 low is st = (s2, h2, e2, t2)" by (metis prod.exhaust)
    from pull_loop_kept [OF l] show ?thesis using p Inr x f l
      by (cases skip; cases e2) (auto simp: pull_def split: if_splits)
  qed
qed

lemma sync_kept:
  assumes "sy_sync E Y U n (st, S) = (r, (t, S'), ws)"
  shows "kept st t \<and> sx_latches S' = sx_latches S"
proof (cases "us_dial U \<and> us_select U \<noteq> None \<and> state_Load (sn_load n) (stateKey Y) S \<noteq> None")
  case False
  then show ?thesis using assms by (cases "us_dial U"; cases "us_select U") (auto simp: sy_sync_def)
next
  case True
  then obtain v un loaded where l: "us_dial U" "us_select U = Some (v, un)" "state_Load (sn_load n) (stateKey Y) S = Some loaded" by auto
  let ?low = "if cu_uid_validity loaded \<noteq> v then 0 else cu_last_uid loaded"
  obtain stored high e u where p: "pull E Y U (sn_add n) (sn_now n) v un ?low st = (stored, high, e, u)" by (metis prod.exhaust)
  let ?new = "\<lparr>cu_uid_validity = v, cu_last_uid = high\<rparr>"
  obtain saved S1 where sv: "(if ?new \<noteq> loaded then state_Save (sn_save n) (stateKey Y) ?new S else (True, S)) = (saved, S1)" by fastforce
  obtain pend ws1 w where k: "sy_reconcileKeywords Y (sn_retry n) S1 u = (pend, ws1, w)" by (metis prod.exhaust)
  have run: "sy_sync E Y U n (st, S) = (case e of Some e \<Rightarrow> ((stored, Some e), (u, S), [])
      | None \<Rightarrow> if \<not> saved then ((stored, Some SyState), (u, S1), []) else ((stored, None), (w, S1), ws1))"
    using l p sv k by (simp add: sy_sync_def Let_def split: option.split)
  have ku: "kept st u" by (rule pull_kept [OF p])
  have "kept u w"
    using k reconcile_kw_index [of u Y "sn_retry n" S1 "in_DirtyKeywords (sy_owner Y) (sy_inbox Y) u"]
    by (simp add: sy_reconcileKeywords_def index_kept_def)
  with ku have kw: "kept st w" by (rule kept_trans)
  have lt: "sx_latches S1 = sx_latches S" using sv by (auto simp: state_Save_def split: if_splits)
  have "(t, S') = (u, S) \<or> (t, S') = (u, S1) \<or> (t, S') = (w, S1)" using run assms by (cases e; cases saved) simp_all
  then show ?thesis using ku kw lt by auto
qed

text \<open>What the daemon does with one inbox, in any order: pulls, passes and releases, each with the answers of its
  own session.\<close>

datatype 'h sync_step =
    StSync "'h in_env" upsession sync_io
  | StReconcile upsession rec_options rec_io
  | StRelease upsession rec_options rec_io rec_io

fun sync_exec :: "syncer \<Rightarrow> 'h sync_step \<Rightarrow> inbound \<times> arec list \<times> state_store \<Rightarrow> inbound \<times> arec list \<times> state_store" where
  "sync_exec Y (StSync E U n) (st, lg, S) = (case sy_sync E Y U n (st, S) of (res, (t, S'), ws) \<Rightarrow> (t, lg, S'))"
| "sync_exec Y (StReconcile U R r) s = snd (sy_Reconcile Y U R r s)"
| "sync_exec Y (StRelease U R r0 r) s = snd (sy_ReleaseReconcile Y U R r0 r s)"

fun releases :: "'h sync_step \<Rightarrow> bool" where
  "releases (StRelease U R r0 r) = True"
| "releases x = False"

definition latched :: "syncer \<Rightarrow> state_store \<Rightarrow> bool" where
  "latched Y S \<longleftrightarrow> (\<exists>l. map_of (sx_latches S) (stateKey Y) = Some l \<and> la_suspended l)"

lemma latched_pass:
  assumes "latched Y S"
  shows "\<exists>e. sy_Reconcile Y U R r (st, lg, S) = ((0, Some e), st, lg, S) \<and> e \<in> {ErrReconcileHeld, ReLoadLatch}"
  using assms by (auto simp: sy_Reconcile_def rec_snapshot_def state_LoadReconcile_def latched_def)

lemma latched_step:
  assumes "latched Y (snd (snd s))" "\<not> releases x"
  shows "latched Y (snd (snd (sync_exec Y x s))) \<and> kept (fst s) (fst (sync_exec Y x s))"
proof (cases x)
  case (StSync E U n)
  obtain st lg S where s: "s = (st, lg, S)" by (cases s)
  obtain res t S' ws where q: "sy_sync E Y U n (st, S) = (res, (t, S'), ws)" by (metis prod.exhaust)
  from sync_kept [OF q] assms(1) show ?thesis by (simp add: StSync s q latched_def)
next
  case (StReconcile U R r)
  obtain st lg S where s: "s = (st, lg, S)" by (cases s)
  from latched_pass [of Y S U R r st lg] assms(1) show ?thesis by (auto simp: StReconcile s)
qed (use assms in simp)

lemma latched_run:
  "latched Y (snd (snd s)) \<Longrightarrow> list_all (\<lambda>x. \<not> releases x) xs \<Longrightarrow>
     latched Y (snd (snd (fold (sync_exec Y) xs s))) \<and> kept (fst s) (fst (fold (sync_exec Y) xs s))"
proof (induction xs arbitrary: s)
  case (Cons x xs)
  from latched_step [of Y s x] Cons.prems have l: "latched Y (snd (snd (sync_exec Y x s)))" "kept (fst s) (fst (sync_exec Y x s))" by simp_all
  moreover have "list_all (\<lambda>x. \<not> releases x) xs" using Cons.prems(2) by simp
  from Cons.IH [OF l(1) this] kept_trans [OF l(2)] show ?case by simp
qed simp

text \<open>C37: the safety cap holds until an operator releases it. A pass that reports the inbox as held has removed
  nothing and left it latched, and after that, whatever pulls and passes follow, with whatever options and
  answers of the upstream, the latch stays and no record leaves the store, until the operator's release.\<close>

theorem latch_holds_until_release:
  assumes "sy_Reconcile Y U R r (st, lg, S) = ((n, Some ErrReconcileHeld), s)" "list_all (\<lambda>x. \<not> releases x) xs"
  shows "n = 0 \<and> fst s = st \<and> latched Y (snd (snd s)) \<and> latched Y (snd (snd (fold (sync_exec Y) xs s)))
    \<and> kept st (fst (fold (sync_exec Y) xs s))"
proof -
  have "n = 0 \<and> fst s = st \<and> latched Y (snd (snd s))"
    using assms(1)
    by (auto simp: sy_Reconcile_def rec_snapshot_def rec_apply_def latched_def state_LoadReconcile_def state_SaveReconcile_def Let_def
        update_conv' no_latch_def split: option.splits sum.splits prod.splits if_splits)
  with latched_run [of Y s xs] assms(2) show ?thesis by simp
qed

text \<open>A fraction that is not a number passes the check of the configuration and turns the cap off: every
  comparison with it is false.\<close>

lemma nan_disables_cap: "ro_fraction R = NaN \<Longrightarrow> \<not> cap_exceeded R gone synced"
  by (simp add: cap_exceeded_def cap_fraction_def f64_times_def)

section \<open>Witnesses\<close>

definition sample_fetching :: "fetch_buffer list \<Rightarrow> upsession" where
  "sample_fetching mbox = sample_session\<lparr>us_fetch := (\<lambda>rs b. (map FetchMsg (filter (\<lambda>m. in_ranges rs (fb_uid m)) mbox), True))\<rparr>"

definition sample_puller :: syncer where
  "sample_puller = sample_syncer\<lparr>sy_assess := None\<rparr>"

definition sample_sync_io :: sync_io where
  "sample_sync_io = \<lparr>sn_load = True, sn_save = True, sn_add = (\<lambda>u. ok_io), sn_now = 1,
     sn_retry = (\<lambda>i. \<lparr>rt_stamp_session = sample_session, rt_session = sample_session, rt_load = True, rt_stamp = ok_io, rt_clear = ok_io\<rparr>)\<rparr>"


definition sample_options :: "int \<Rightarrow> rec_options" where
  "sample_options fl = \<lparr>ro_audit = True, ro_fraction = Finite 1 1, ro_floor = fl, ro_bypass = False\<rparr>"

definition sample_rec_io :: rec_io where
  "sample_rec_io = \<lparr>ri_latch_load = True, ri_latch_save = True, ri_cursor_load = True, ri_alive = (\<lambda>i. True),
     ri_remove = (\<lambda>i. ok_io), ri_rm = (\<lambda>k. True), ri_audit = (\<lambda>i. True)\<rparr>"

definition sample_state :: state_store where
  "sample_state = \<lparr>sx_cursors = [(stateKey sample_syncer, \<lparr>cu_uid_validity = 7, cu_last_uid = 5\<rparr>)], sx_latches = []\<rparr>"

lemma sample_listed: "in_List ''work'' ''work'' sample_synced_box = [sample_synced]"
  by (simp add: in_List_def sample_synced_box_def recScoped_def sample_synced_def imessage_zero_def)

lemma sample_gone: "left_source 7 5 [] sample_synced" "judged 7 5 sample_synced"
  by (simp_all add: left_source_def judged_def sample_synced_def)

lemma sample_scope: "sy_owner sample_syncer = ''work''" "sy_inbox sample_syncer = ''work''"
  by (simp_all add: sample_syncer_def)

lemma sample_removed:
  "\<exists>t lg'. sy_Reconcile sample_syncer (sample_session\<lparr>us_all := Some []\<rparr>) (sample_options 5) sample_rec_io (sample_synced_box, [], sample_state)
      = ((1, None), t, lg', sample_state)
    \<and> rec_apply sample_syncer (sample_options 5) sample_rec_io (7, 5, []) (sample_synced_box, [], sample_state) = ((1, None), t, lg', sample_state)
    \<and> b_get (in_recs t) (seqkey_encode 1) = None"
proof -
  have i: "im_id sample_synced = ''1''" by (simp add: sample_synced_def)
  obtain res t where u: "in_RemoveSynced ok_io (\<lambda>k. True) ''work'' ''work'' ''1'' sample_synced_box = (res, t)" by fastforce
  have res: "res = None"
    using u by (auto simp: in_RemoveSynced_def in_update_def sample_synced_load recScoped_def sample_synced_def ok_io_def Let_def
        split: sum.splits prod.splits)
  have t: "b_get (in_recs t) (seqkey_encode 1) = None"
    using Remove_recs [OF u [folded fmt_id_one(1)]] res by (auto simp: b_get_def kv_get_None_iff)
  have c: "\<not> cap_exceeded (sample_options 5) 1 1" by (simp add: cap_exceeded_def cap_floor_def sample_options_def)
  have "rec_apply sample_syncer (sample_options 5) sample_rec_io (7, 5, []) (sample_synced_box, [], sample_state)
      = ((1, None), t, [gone_record ''work'' ''work'' ''1'' (im_upstream_uid sample_synced) '' left source''], sample_state)"
    using u res c by (simp add: rec_apply_def scan_records_eq sample_scope sample_listed sample_gone i sample_rec_io_def)
      (simp add: sample_options_def)
  moreover have "rec_snapshot sample_syncer (sample_session\<lparr>us_all := Some []\<rparr>) sample_rec_io sample_state = Inr (Some (7, 5, []))"
    by (simp add: rec_snapshot_def state_LoadReconcile_def sample_rec_io_def sample_state_def no_latch_def state_Load_def
        ListUpstreamUIDs_def sample_session_def)
  ultimately show ?thesis using t by (simp add: sy_Reconcile_def)
qed

theorem reconcile_removes_only_gone_witness:
  "\<not> cap_exceeded (sample_options 5) (length (filter (left_source 7 5 []) (in_List ''work'' ''work'' sample_synced_box)))
          (length (filter (judged 7 5) (in_List ''work'' ''work'' sample_synced_box)))"
proof -
  obtain t lg' where r: "rec_apply sample_syncer (sample_options 5) sample_rec_io (7, 5, []) (sample_synced_box, [], sample_state)
      = ((1, None), t, lg', sample_state)" "b_get (in_recs t) (seqkey_encode 1) = None"
    using sample_removed by blast
  have g: "b_get (in_recs sample_synced_box) (seqkey_encode 1) = Some \<lparr>ir_msg = sample_synced, ir_blobbed = False, ir_dirty = True\<rparr>"
    by (simp add: sample_synced_box_def b_get_def kv_get_def)
  from reconcile_removes_only_gone [OF sample_synced_inv r(1) g] r(2) show ?thesis by (simp add: sample_scope)
qed

theorem reconcile_refines_witness:
  "\<exists>t. in_List ''work'' ''work'' t = [] \<and> fst (snd (sy_Reconcile sample_syncer (sample_session\<lparr>us_all := Some []\<rparr>) (sample_options 5) sample_rec_io
      (sample_synced_box, [], sample_state))) = t"
proof -
  obtain t lg' where r: "sy_Reconcile sample_syncer (sample_session\<lparr>us_all := Some []\<rparr>) (sample_options 5) sample_rec_io
      (sample_synced_box, [], sample_state) = ((1, None), t, lg', sample_state)"
    using sample_removed by blast
  have "us_select (sample_session\<lparr>us_all := Some []\<rparr>) = Some (7, 6)" "us_all (sample_session\<lparr>us_all := Some []\<rparr>) = Some []"
    "state_Load True (stateKey sample_syncer) sample_state = Some \<lparr>cu_uid_validity = 7, cu_last_uid = 5\<rparr>"
    by (simp_all add: sample_session_def state_Load_def sample_state_def)
  from reconcile_refines [OF sample_synced_inv r this] r show ?thesis
    by (simp add: sample_scope sample_listed spec_reconcile_def sample_gone)
qed

theorem latch_holds_until_release_witness:
  "latched sample_syncer (snd (snd (fold (sync_exec sample_syncer)
    [StReconcile sample_session (sample_options 5) sample_rec_io, StSync sample_env sample_session sample_sync_io]
    (snd (sy_Reconcile sample_syncer (sample_session\<lparr>us_all := Some []\<rparr>) (sample_options 1) sample_rec_io
      (sample_synced_box, [], sample_state))))))"
proof -
  have "f64_less (f64_times (Finite 1 1) 1) (Finite 1 0)" by (simp add: f64_times_def round53_small)
  then have c: "cap_exceeded (sample_options 1) 1 1"
    by (simp add: cap_exceeded_def cap_floor_def cap_fraction_def sample_options_def)
  have "rec_snapshot sample_syncer (sample_session\<lparr>us_all := Some []\<rparr>) sample_rec_io sample_state = Inr (Some (7, 5, []))"
    by (simp add: rec_snapshot_def state_LoadReconcile_def sample_rec_io_def sample_state_def no_latch_def state_Load_def
        ListUpstreamUIDs_def sample_session_def)
  moreover have "stateKey sample_syncer \<noteq> ''''" by (simp add: stateKey_def sample_syncer_def)
  ultimately obtain s where r: "sy_Reconcile sample_syncer (sample_session\<lparr>us_all := Some []\<rparr>) (sample_options 1) sample_rec_io
      (sample_synced_box, [], sample_state) = ((0, Some ErrReconcileHeld), s)"
    using c by (simp add: sy_Reconcile_def rec_apply_def scan_records_eq sample_scope sample_listed sample_gone state_SaveReconcile_def
        sample_rec_io_def)
  from latch_holds_until_release [OF r, of "[StReconcile sample_session (sample_options 5) sample_rec_io, StSync sample_env sample_session sample_sync_io]"] r
  show ?thesis by simp
qed

end
