(* ===== verification/Ondemand.thy ===== *)
theory Ondemand
  imports Imapsync
begin

text \<open>Model of \<open>internal/imapsync/ondemand.go\<close>: the pulls an IMAP STATUS triggers, at most one per inbox at a
  time and at most one per window.

  \<open>Trigger\<close> takes the coordinator's lock twice, before and after its pull, which runs without the lock. The
  two critical sections are \<open>od_begin\<close> and \<open>od_finish\<close>; between them any number of other callers may run
  theirs, and the relation \<open>od_step\<close> has those interleavings. A duration is 64 bits wide.\<close>

record od_inbox =
  od_syncer :: syncer
  od_min :: int
  od_window :: int
  od_last :: time
  od_inflight :: bool

type_synonym ondemand = "(string \<times> od_inbox) list"

definition NewOnDemandSync :: ondemand where "NewOnDemandSync = []"

definition od_Register :: "string \<Rightarrow> syncer \<Rightarrow> int \<Rightarrow> ondemand \<Rightarrow> ondemand" where
  "od_Register inbox Y minInterval D = AList.update inbox
     \<lparr>od_syncer = Y, od_min = minInterval, od_window = minInterval, od_last = 0, od_inflight = False\<rparr> D"

definition backoffStallFactor :: int where "backoffStallFactor = 2"
definition backoffCapFactor :: int where "backoffCapFactor = 10"

definition backoffWindow :: "int \<Rightarrow> int \<Rightarrow> int" where
  "backoffWindow minInterval stall = (
     let w = wrap64 (stall * backoffStallFactor);
         w = (if w < minInterval then minInterval else w)
     in if minInterval > 0 then
          (let capped = wrap64 (minInterval * backoffCapFactor) in if w > capped then capped else w)
        else w)"

definition EndedOnContext :: "bool \<Rightarrow> sync_err option \<Rightarrow> bool" where
  "EndedOnContext ctx_ended err \<longleftrightarrow> err \<noteq> None \<and> ctx_ended"

text \<open>The first critical section: whether the caller is to pull.\<close>

definition od_begin :: "string \<Rightarrow> time \<Rightarrow> ondemand \<Rightarrow> bool \<times> ondemand" where
  "od_begin inbox now D = (case map_of D inbox of
       None \<Rightarrow> (False, D)
     | Some i \<Rightarrow>
         if od_inflight i \<or> od_last i \<noteq> 0 \<and> time_sub now (od_last i) < od_window i then (False, D)
         else (True, AList.update inbox (i\<lparr>od_inflight := True\<rparr>) D))"

text \<open>The second one, with when the pull started and ended, and how.\<close>

definition od_finish :: "string \<Rightarrow> time \<Rightarrow> time \<Rightarrow> bool \<Rightarrow> sync_err option \<Rightarrow> ondemand \<Rightarrow> ondemand" where
  "od_finish inbox start now ctx_ended err D = (case map_of D inbox of
       None \<Rightarrow> D
     | Some i \<Rightarrow> AList.update inbox (i\<lparr>od_inflight := False, od_last := now,
         od_window := (if EndedOnContext ctx_ended err then backoffWindow (od_min i) (time_sub now start) else od_min i)\<rparr>) D)"

text \<open>A whole \<open>Trigger\<close> with no other caller in between.\<close>

definition od_Trigger ::
  "'h in_env \<Rightarrow> upsession \<Rightarrow> sync_io \<Rightarrow> string \<Rightarrow> time \<Rightarrow> time \<Rightarrow> bool \<Rightarrow> ondemand \<Rightarrow> inbound \<times> state_store \<Rightarrow>
    (nat \<times> bool \<times> sync_err option) \<times> ondemand \<times> (inbound \<times> state_store) \<times> upstream_write list" where
  "od_Trigger E U n inbox start now ctx_ended D s = (case od_begin inbox start D of
       (False, D') \<Rightarrow> ((0, False, None), D', s, [])
     | (True, D') \<Rightarrow> (case sy_sync E (od_syncer (the (map_of D inbox))) U n s of
         ((stored, err), s', ws) \<Rightarrow> ((stored, True, err), od_finish inbox start now ctx_ended err D', s', ws)))"

section \<open>The size of a window\<close>

definition max_int64 :: int where "max_int64 = 2 ^ 63 - 1"

lemma backoffWindow_bounds:
  assumes "0 < m" "10 * m \<le> max_int64" "0 \<le> stall" "2 * stall \<le> max_int64"
  shows "backoffWindow m stall = min (10 * m) (max m (2 * stall))"
proof -
  have "wrap64 (stall * 2) = 2 * stall" "wrap64 (m * 10) = 10 * m"
    using assms by (simp_all add: wrap64_id in_int64_def max_int64_def)
  then show ?thesis using assms by (simp add: backoffWindow_def backoffStallFactor_def backoffCapFactor_def Let_def)
qed

section \<open>Any number of callers\<close>

text \<open>The coordinator, the clock, the pulls running now (inbox and start) and those that ended, the latest first,
  with the inbox, the start, the end, and whether the caller's context ended it.\<close>

record od_world =
  ow_coord :: ondemand
  ow_clock :: time
  ow_running :: "(string \<times> time) list"
  ow_done :: "(string \<times> time \<times> time \<times> bool) list"

inductive od_step :: "od_world \<Rightarrow> od_world \<Rightarrow> bool" where
  od_tick: "ow_clock w \<le> t \<Longrightarrow> od_step w (w\<lparr>ow_clock := t\<rparr>)"
| od_skip: "od_begin inbox (ow_clock w) (ow_coord w) = (False, D) \<Longrightarrow> od_step w (w\<lparr>ow_coord := D\<rparr>)"
| od_start: "od_begin inbox (ow_clock w) (ow_coord w) = (True, D) \<Longrightarrow>
    od_step w (w\<lparr>ow_coord := D, ow_running := (inbox, ow_clock w) # ow_running w\<rparr>)"
| od_end: "(inbox, start) \<in> set (ow_running w) \<Longrightarrow>
    od_step w (w\<lparr>ow_coord := od_finish inbox start (ow_clock w) ctx_ended err (ow_coord w),
      ow_running := remove1 (inbox, start) (ow_running w),
      ow_done := (inbox, start, ow_clock w, EndedOnContext ctx_ended err) # ow_done w\<rparr>)"

inductive od_reach :: "od_world \<Rightarrow> od_world \<Rightarrow> bool" where
  od_reach_refl: "od_reach w w"
| od_reach_step: "od_reach w w' \<Longrightarrow> od_step w' w'' \<Longrightarrow> od_reach w w''"

inductive_cases od_stepE: "od_step w w'"

text \<open>The wiring: inboxes registered in an empty coordinator, under a clock past the zero time.\<close>

definition od_wired :: "(string \<times> syncer \<times> int) list \<Rightarrow> time \<Rightarrow> od_world" where
  "od_wired regs t = \<lparr>ow_coord = fold (\<lambda>(ib, Y, m). od_Register ib Y m) regs NewOnDemandSync, ow_clock = t, ow_running = [], ow_done = []\<rparr>"

text \<open>The window in force after a pull.\<close>

definition window_after :: "int \<Rightarrow> time \<times> time \<times> bool \<Rightarrow> int" where
  "window_after m p = (case p of (start, fin, ended) \<Rightarrow> if ended then backoffWindow m (time_sub fin start) else m)"

text \<open>The pulls of one inbox, the latest first.\<close>

definition pulls_of :: "string \<Rightarrow> od_world \<Rightarrow> (time \<times> time \<times> bool) list" where
  "pulls_of inbox w = map snd (filter (\<lambda>p. fst p = inbox) (ow_done w))"

definition running_of :: "string \<Rightarrow> od_world \<Rightarrow> time list" where
  "running_of inbox w = map snd (filter (\<lambda>p. fst p = inbox) (ow_running w))"

text \<open>Each pull started no sooner than a window after the end of the one before.\<close>

fun paced :: "int \<Rightarrow> (time \<times> time \<times> bool) list \<Rightarrow> bool" where
  "paced m [] = True"
| "paced m [p] = True"
| "paced m ((s, f, e) # q # ps) = (time_sub s (fst (snd q)) \<ge> window_after m q \<and> paced m (q # ps))"

text \<open>How the state of one inbox fits its running pull and those that ended.\<close>

definition od_one :: "od_inbox option \<Rightarrow> time list \<Rightarrow> (time \<times> time \<times> bool) list \<Rightarrow> bool" where
  "od_one s runs pulls = (case s of
       None \<Rightarrow> runs = [] \<and> pulls = []
     | Some i \<Rightarrow>
         (if od_inflight i then \<exists>t. runs = [t] \<and> paced (od_min i) ((t, t, False) # pulls) else runs = [] \<and> paced (od_min i) pulls)
         \<and> (case pulls of [] \<Rightarrow> od_last i = 0 \<and> od_window i = od_min i
            | p # _ \<Rightarrow> od_last i = fst (snd p) \<and> od_last i \<noteq> 0 \<and> od_window i = window_after (od_min i) p))"

definition od_ok :: "od_world \<Rightarrow> bool" where
  "od_ok w \<longleftrightarrow> ow_clock w > 0 \<and> (\<forall>inbox. od_one (map_of (ow_coord w) inbox) (running_of inbox w) (pulls_of inbox w))"

lemma od_one_begin:
  assumes "od_one (Some i) runs pulls" "\<not> od_inflight i" "\<not> (od_last i \<noteq> 0 \<and> time_sub now (od_last i) < od_window i)"
  shows "od_one (Some (i\<lparr>od_inflight := True\<rparr>)) (now # runs) pulls"
  using assms by (cases pulls) (auto simp: od_one_def)

lemma paced_end: "paced m ((s, f, e) # ps) = paced m ((s, f', e') # ps)"
  by (cases ps) auto

lemma od_one_end:
  assumes "od_one (Some i) runs pulls" "start \<in> set runs" "now > 0"
  shows "od_one (Some (i\<lparr>od_inflight := False, od_last := now, od_window := window_after (od_min i) (start, now, e)\<rparr>)) (remove1 start runs)
    ((start, now, e) # pulls)"
  using assms paced_end [of "od_min i" start start False pulls now e] by (auto simp: od_one_def split: if_splits)

lemma running_Cons: "running_of inbox (w\<lparr>ow_coord := D, ow_running := (ib, t) # ow_running w\<rparr>)
    = (if inbox = ib then t # running_of inbox w else running_of inbox w)"
  by (simp add: running_of_def)

lemma running_remove: "map snd (filter (\<lambda>p. fst p = inbox) (remove1 (ib, t) xs))
    = (if inbox = ib then remove1 t (map snd (filter (\<lambda>p. fst p = inbox) xs)) else map snd (filter (\<lambda>p. fst p = inbox) xs))"
  by (induction xs) auto

lemma od_step_ok: "od_step w w' \<Longrightarrow> od_ok w \<Longrightarrow> od_ok w'"
proof (induction rule: od_step.induct)
  case (od_tick w t)
  then show ?case by (simp add: od_ok_def running_of_def pulls_of_def)
next
  case (od_skip inbox w D)
  then have "D = ow_coord w" by (auto simp: od_begin_def split: option.splits if_splits)
  then show ?case using od_skip by simp
next
  case (od_start inbox w D)
  then obtain i where i: "map_of (ow_coord w) inbox = Some i" "\<not> od_inflight i"
    "\<not> (od_last i \<noteq> 0 \<and> time_sub (ow_clock w) (od_last i) < od_window i)" "D = AList.update inbox (i\<lparr>od_inflight := True\<rparr>) (ow_coord w)"
    by (auto simp: od_begin_def split: option.splits if_splits)
  have "od_one (Some i) (running_of inbox w) (pulls_of inbox w)" using od_start(2) i(1) unfolding od_ok_def by metis
  from od_one_begin [OF this i(2,3)] od_start(2) show ?case
    by (auto simp: od_ok_def running_Cons update_conv' i(4) pulls_of_def)
next
  case (od_end inbox start w ctx_ended err)
  let ?runs = "running_of inbox w"
  have s: "start \<in> set ?runs" using od_end(1) by (force simp: running_of_def)
  have o: "od_one (map_of (ow_coord w) inbox) ?runs (pulls_of inbox w)" and c: "ow_clock w > 0" using od_end(2) by (simp_all add: od_ok_def)
  then obtain i where i: "map_of (ow_coord w) inbox = Some i" using s by (auto simp: od_one_def split: option.splits)
  from od_one_end [OF o [unfolded i] s c, of "EndedOnContext ctx_ended err"] od_end(2) show ?case
    by (auto simp: od_ok_def running_of_def pulls_of_def running_remove od_finish_def i update_conv' window_after_def)
qed

lemma od_reach_ok: "od_reach w w' \<Longrightarrow> od_ok w \<Longrightarrow> od_ok w'"
  by (induction rule: od_reach.induct) (auto intro: od_step_ok)

lemma od_wired_ok: "t > 0 \<Longrightarrow> od_ok (od_wired regs t)"
proof -
  assume t: "t > 0"
  have "\<forall>inbox. od_one (map_of D inbox) [] [] \<Longrightarrow> \<forall>inbox. od_one (map_of (fold (\<lambda>(ib, Y, m). od_Register ib Y m) regs D) inbox) [] []" for D
  proof (induction regs arbitrary: D)
    case (Cons r regs)
    obtain ib Y m where r: "r = (ib, Y, m)" by (cases r)
    have "\<forall>inbox. od_one (map_of (od_Register ib Y m D) inbox) [] []"
      using Cons.prems by (auto simp: od_Register_def update_conv' od_one_def)
    from Cons.IH [OF this] show ?case by (simp add: r)
  qed simp
  from this [of NewOnDemandSync] t show ?thesis
    by (simp add: od_ok_def od_wired_def running_of_def pulls_of_def NewOnDemandSync_def od_one_def)
qed

text \<open>The minimum interval of an inbox never changes.\<close>

lemma od_step_min: "od_step w w' \<Longrightarrow> map_option od_min (map_of (ow_coord w') inbox) = map_option od_min (map_of (ow_coord w) inbox)"
  by (induction rule: od_step.induct) (auto simp: od_begin_def od_finish_def update_conv' split: option.splits if_splits)

lemma od_reach_min: "od_reach w w' \<Longrightarrow> map_option od_min (map_of (ow_coord w') inbox) = map_option od_min (map_of (ow_coord w) inbox)"
  by (induction rule: od_reach.induct) (auto simp: od_step_min)

text \<open>C38: however many sessions ask at once, and in whatever order their critical sections and pulls interleave, an
  inbox is pulled by at most one of them at a time, an inbox that is not registered by none, and each pull
  starts no sooner than a window after the end of the one before: the configured interval after a pull that
  ran its course, and after one that its caller's context ended, twice the time it stalled, but no less than the
  interval and no more than ten of them.\<close>

theorem pulls_are_paced:
  assumes "t > 0" "od_reach (od_wired regs t) w"
  shows "case map_of (ow_coord (od_wired regs t)) inbox of
      None \<Rightarrow> running_of inbox w = [] \<and> pulls_of inbox w = []
    | Some i \<Rightarrow> length (running_of inbox w) \<le> 1 \<and> paced (od_min i) (pulls_of inbox w)
        \<and> (\<forall>start. running_of inbox w = [start] \<longrightarrow> paced (od_min i) ((start, start, False) # pulls_of inbox w))
        \<and> (0 < od_min i \<and> 10 * od_min i \<le> max_int64 \<longrightarrow>
            (\<forall>s f. 0 \<le> time_sub f s \<and> 2 * time_sub f s \<le> max_int64 \<longrightarrow>
              window_after (od_min i) (s, f, True) = min (10 * od_min i) (max (od_min i) (2 * time_sub f s))))"
proof -
  have o: "od_one (map_of (ow_coord w) inbox) (running_of inbox w) (pulls_of inbox w)"
    using od_reach_ok [OF assms(2) od_wired_ok [OF assms(1)]] by (simp add: od_ok_def)
  note m = od_reach_min [OF assms(2), of inbox]
  show ?thesis
  proof (cases "map_of (ow_coord (od_wired regs t)) inbox")
    case None
    then show ?thesis using m o by (simp add: od_one_def)
  next
    case (Some i)
    then obtain j where j: "map_of (ow_coord w) inbox = Some j" "od_min j = od_min i" using m by auto
    have p: "paced mm (q # ps) \<Longrightarrow> paced mm ps" for mm q ps by (cases q; cases ps) auto
    have "window_after (od_min i) (s, f, True) = min (10 * od_min i) (max (od_min i) (2 * time_sub f s))"
      if "0 < od_min i" "10 * od_min i \<le> max_int64" "0 \<le> time_sub f s" "2 * time_sub f s \<le> max_int64" for s f
      using backoffWindow_bounds [OF that] by (simp add: window_after_def)
    then show ?thesis using o j Some p by (auto simp: od_one_def split: if_splits)
  qed
qed

theorem pulls_are_paced_witness:
  "\<exists>w. od_reach (od_wired [(''work'', sample_syncer, 60)] 5) w \<and> running_of ''work'' w = [5] \<and> paced 60 [(5, 5, False)]"
proof -
  let ?w = "od_wired [(''work'', sample_syncer, 60)] 5"
  obtain D where b: "od_begin ''work'' (ow_clock ?w) (ow_coord ?w) = (True, D)"
    by (simp add: od_begin_def od_wired_def od_Register_def NewOnDemandSync_def)
  let ?v = "?w\<lparr>ow_coord := D, ow_running := (''work'', ow_clock ?w) # ow_running ?w\<rparr>"
  have r: "od_reach ?w ?v" by (rule od_reach_step [OF od_reach_refl od_start [OF b]])
  have v: "running_of ''work'' ?v = [5]" "pulls_of ''work'' ?v = []" by (simp_all add: running_of_def pulls_of_def od_wired_def)
  obtain i where "map_of (ow_coord ?w) ''work'' = Some i" "od_min i = 60"
    by (simp add: od_wired_def od_Register_def NewOnDemandSync_def)
  with pulls_are_paced [OF _ r, of "''work''"] v r show ?thesis by auto
qed

end
