(* ===== verification/Utf8.thy ===== *)
theory Utf8
  imports Prelude
begin

text \<open>Text as runes: the decoding and encoding of UTF-8 that Go's \<open>unicode/utf8\<close>, its conversions between \<open>string\<close>
  and \<open>[]rune\<close> and \<open>strings.Fields\<close> share. A byte that starts no valid sequence is one rune of width one, the
  replacement character.\<close>

section \<open>Decoding\<close>

definition rune_error :: nat where "rune_error = 65533"

definition cont :: "nat \<Rightarrow> bool" where "cont b \<longleftrightarrow> 128 \<le> b \<and> b \<le> 191"

text \<open>The second byte a lead byte accepts.\<close>

definition second_ok :: "nat \<Rightarrow> nat \<Rightarrow> bool" where
  "second_ok b0 b1 \<longleftrightarrow> (if b0 = 224 then 160 \<le> b1 \<and> b1 \<le> 191 else if b0 = 237 then 128 \<le> b1 \<and> b1 \<le> 159
     else if b0 = 240 then 144 \<le> b1 \<and> b1 \<le> 191 else if b0 = 244 then 128 \<le> b1 \<and> b1 \<le> 143 else cont b1)"

text \<open>The rune at the front of a text that is not empty, and its width.\<close>

fun decode_nats :: "nat list \<Rightarrow> nat \<times> nat" where
  "decode_nats [] = (rune_error, 1)"
| "decode_nats (b0 # bs) = (
     if b0 < 128 then (b0, 1)
     else if 194 \<le> b0 \<and> b0 \<le> 223 then (case bs of
         b1 # _ \<Rightarrow> if cont b1 then ((b0 - 192) * 64 + (b1 - 128), 2) else (rune_error, 1)
       | _ \<Rightarrow> (rune_error, 1))
     else if 224 \<le> b0 \<and> b0 \<le> 239 then (case bs of
         b1 # b2 # _ \<Rightarrow> if second_ok b0 b1 \<and> cont b2 then ((b0 - 224) * 4096 + (b1 - 128) * 64 + (b2 - 128), 3) else (rune_error, 1)
       | _ \<Rightarrow> (rune_error, 1))
     else if 240 \<le> b0 \<and> b0 \<le> 244 then (case bs of
         b1 # b2 # b3 # _ \<Rightarrow> if second_ok b0 b1 \<and> cont b2 \<and> cont b3
           then ((b0 - 240) * 262144 + (b1 - 128) * 4096 + (b2 - 128) * 64 + (b3 - 128), 4) else (rune_error, 1)
       | _ \<Rightarrow> (rune_error, 1))
     else (rune_error, 1))"

definition DecodeRune :: "bytes \<Rightarrow> nat \<times> nat" where
  "DecodeRune s = decode_nats (map of_char (take 4 s))"

lemma decode_width: "0 < snd (decode_nats bs)" "bs \<noteq> [] \<Longrightarrow> snd (decode_nats bs) \<le> length bs"
  by (induction bs rule: decode_nats.induct) (auto split: list.splits)

lemma DecodeRune_width: "0 < snd (DecodeRune s)" "s \<noteq> [] \<Longrightarrow> snd (DecodeRune s) \<le> length s"
proof -
  show "0 < snd (DecodeRune s)" by (simp add: DecodeRune_def decode_width)
  show "snd (DecodeRune s) \<le> length s" if "s \<noteq> []"
    using decode_width(2) [of "map of_char (take 4 s)"] that unfolding DecodeRune_def
    by (cases "take 4 s = []") (simp_all add: min_def split: if_splits)
qed

text \<open>The runes of a text, each with the bytes it stands for.\<close>

function chunks :: "bytes \<Rightarrow> (nat \<times> bytes) list" where
  "chunks s = (if s = [] then [] else case DecodeRune s of (r, w) \<Rightarrow> (r, take w s) # chunks (drop w s))"
  by pat_completeness auto
termination
proof (relation "measure length")
  fix s :: bytes and r w
  assume "s \<noteq> []" "(r, w) = DecodeRune s"
  moreover from this have "0 < w" using DecodeRune_width(1) [of s] by (metis snd_conv)
  ultimately show "(drop w s, s) \<in> measure length" by simp
qed simp

declare chunks.simps [simp del]

lemma chunks_Nil [simp]: "chunks [] = []"
  by (simp add: chunks.simps)

lemma chunks_Cons: "s \<noteq> [] \<Longrightarrow> chunks s = (fst (DecodeRune s), take (snd (DecodeRune s)) s) # chunks (drop (snd (DecodeRune s)) s)"
  by (subst chunks.simps) (simp add: split_def)

lemma concat_chunks [simp]: "concat (map snd (chunks s)) = s"
proof (induction s rule: chunks.induct)
  case (1 s)
  show ?case
  proof (cases "s = []")
    case False
    have "concat (map snd (chunks (drop (snd (DecodeRune s)) s))) = drop (snd (DecodeRune s)) s"
      using 1 [OF False] by (metis prod.collapse)
    then show ?thesis by (simp add: chunks_Cons [OF False])
  qed simp
qed

definition runes :: "bytes \<Rightarrow> nat list" where
  "runes s = map fst (chunks s)"

text \<open>On ASCII text every byte is a rune.\<close>

definition ascii :: "bytes \<Rightarrow> bool" where
  "ascii s \<longleftrightarrow> list_all (\<lambda>c. of_char c < (128 :: nat)) s"

lemma chunks_ascii: "ascii s \<Longrightarrow> chunks s = map (\<lambda>c. (of_char c, [c])) s"
proof (induction s)
  case (Cons c s)
  have "DecodeRune (c # s) = (of_char c, 1)" using Cons.prems by (simp add: DecodeRune_def ascii_def)
  then show ?case using Cons by (simp add: chunks_Cons ascii_def)
qed simp

lemma runes_ascii: "ascii s \<Longrightarrow> runes s = map of_char s"
  by (simp add: runes_def chunks_ascii)

section \<open>Encoding\<close>

definition valid_rune :: "nat \<Rightarrow> bool" where
  "valid_rune r \<longleftrightarrow> r < 55296 \<or> 57344 \<le> r \<and> r < 1114112"

definition encode_valid :: "nat \<Rightarrow> nat list" where
  "encode_valid r = (if r < 128 then [r] else if r < 2048 then [192 + r div 64, 128 + r mod 64]
     else if r < 65536 then [224 + r div 4096, 128 + r div 64 mod 64, 128 + r mod 64]
     else [240 + r div 262144, 128 + r div 4096 mod 64, 128 + r div 64 mod 64, 128 + r mod 64])"

definition encode_rune :: "nat \<Rightarrow> bytes" where
  "encode_rune r = map char_of (encode_valid (if valid_rune r then r else rune_error))"

definition encode_runes :: "nat list \<Rightarrow> bytes" where
  "encode_runes rs = concat (map encode_rune rs)"

text \<open>Decoding reads back what was encoded, and every decoded rune can be encoded.\<close>

lemma valid_rune_error [simp]: "valid_rune rune_error"
  by (simp add: valid_rune_def rune_error_def)

lemma encode_valid_byte: "valid_rune r \<Longrightarrow> b \<in> set (encode_valid r) \<Longrightarrow> b < 256"
  by (auto simp: encode_valid_def valid_rune_def split: if_splits)

lemma decode_encoded: 
  assumes v: "valid_rune r"
  shows "decode_nats (encode_valid r @ bs) = (r, length (encode_valid r))"
proof -
  define a where "a = r div 64 div 64 div 64"
  define b where "b = r div 64 div 64 mod 64"
  define c where "c = r div 64 mod 64"
  define d where "d = r mod 64"
  have lt: "b < 64" "c < 64" "d < 64" by (simp_all add: b_def c_def d_def)
  have e1: "r div 64 = (a * 64 + b) * 64 + c" "r div 4096 = a * 64 + b" "r div 262144 = a" "r div 4096 mod 64 = b"
  proof -
    have q: "r div 4096 = r div 64 div 64" "r div 262144 = r div 64 div 64 div 64" by (simp_all add: div_mult2_eq [symmetric])
    show "r div 4096 = a * 64 + b" unfolding q a_def b_def using div_mult_mod_eq [of "r div 64 div 64" 64] by simp
    then show "r div 64 = (a * 64 + b) * 64 + c" unfolding q c_def using div_mult_mod_eq [of "r div 64" 64] by simp
    show "r div 262144 = a" "r div 4096 mod 64 = b" by (simp_all add: q a_def b_def)
  qed
  have r: "r = 262144 * a + 4096 * b + 64 * c + d" using div_mult_mod_eq [of r 64] unfolding e1(1) d_def by (simp add: algebra_simps)
  consider (one) "r < 128" | (two) "128 \<le> r" "r < 2048" | (three) "2048 \<le> r" "r < 65536" | (four) "65536 \<le> r" by linarith
  then show ?thesis
  proof cases
    case one then show ?thesis by (simp add: encode_valid_def)
  next
    case two
    then have z: "a = 0" "b = 0" using r lt by - (linarith+)
    have "2 \<le> c" "c < 32" using r lt two unfolding z by - (linarith+)
    note ab = z this
    have e: "encode_valid r = [192 + c, 128 + d]" using two ab by (simp add: encode_valid_def e1 d_def)
    show ?thesis unfolding e using ab lt r by (simp add: cont_def second_ok_def)
  next
    case three
    then have z: "a = 0" using r lt by linarith
    have "b < 16" using r lt three unfolding z by linarith
    note ab = z this
    have s: "b = 0 \<Longrightarrow> 32 \<le> c" "b = 13 \<Longrightarrow> c < 32" using three v r lt unfolding valid_rune_def z by - (linarith+)
    have e: "encode_valid r = [224 + b, 128 + c, 128 + d]" using three ab by (simp add: encode_valid_def e1 d_def lt)
    have "second_ok (224 + b) (128 + c)" using s lt ab by (auto simp: second_ok_def cont_def)
    then show ?thesis unfolding e using ab lt r by (simp add: cont_def)
  next
    case four
    then have ab: "a < 5" "a = 0 \<Longrightarrow> 16 \<le> b" "a = 4 \<Longrightarrow> b < 16" using r lt v unfolding valid_rune_def by auto
    have "(4096 * a + b * 64 + c) mod 64 = c" using lt mod_mult_self4 [of 64 "64 * a + b" c] by (simp add: algebra_simps)
    then have e: "encode_valid r = [240 + a, 128 + b, 128 + c, 128 + d]" using four by (simp add: encode_valid_def e1 d_def lt)
    have "second_ok (240 + a) (128 + b)" using ab lt by (auto simp: second_ok_def cont_def)
    then show ?thesis unfolding e using ab lt r by (simp add: cont_def)
  qed
qed

lemma encode_valid_length: "length (encode_valid r) \<le> 4" "encode_valid r \<noteq> []"
  by (simp_all add: encode_valid_def)

lemma decode_prefix: "length bs \<le> 4 \<Longrightarrow> decode_nats (take 4 (bs @ xs)) = decode_nats (bs @ take (4 - length bs) xs)"
  by simp

lemma DecodeRune_encoded: "valid_rune r \<Longrightarrow> DecodeRune (encode_rune r @ s) = (r, length (encode_rune r))"
proof -
  assume v: "valid_rune r"
  have "map of_char (encode_rune r) = encode_valid r" using v encode_valid_byte [OF v]
    by (auto simp: encode_rune_def of_char_of intro!: map_idI)
  then show ?thesis using encode_valid_length(1) [of r] decode_encoded [OF v]
    by (simp add: DecodeRune_def take_map [symmetric] encode_rune_def v)
qed

lemma chunks_encoded: "valid_rune r \<Longrightarrow> chunks (encode_rune r @ s) = (r, encode_rune r) # chunks s"
proof -
  assume v: "valid_rune r"
  have "encode_rune r @ s \<noteq> []" by (simp add: encode_rune_def encode_valid_length)
  then show ?thesis by (subst chunks_Cons) (simp_all add: DecodeRune_encoded [OF v])
qed

lemma runes_encode: "list_all valid_rune rs \<Longrightarrow> runes (encode_runes rs) = rs"
proof (induction rs)
  case (Cons r rs)
  then show ?case by (simp add: encode_runes_def runes_def chunks_encoded)
qed (simp add: encode_runes_def runes_def)

lemma decode_valid: "valid_rune (fst (decode_nats bs))"
  by (induction bs rule: decode_nats.induct) (auto simp: valid_rune_def rune_error_def second_ok_def cont_def split: list.splits)

lemma runes_valid: "list_all valid_rune (runes s)"
proof (induction s rule: chunks.induct)
  case (1 s)
  show ?case
  proof (cases "s = []")
    case False
    then show ?thesis using 1 [OF False surjective_pairing [symmetric]] decode_valid [of "map of_char (take 4 s)"]
      by (simp add: runes_def chunks_Cons DecodeRune_def)
  qed (simp add: runes_def)
qed

lemma encode_runes_append: "encode_runes (xs @ ys) = encode_runes xs @ encode_runes ys"
  by (simp add: encode_runes_def)

end
