(* ===== verification/Classifier.thy ===== *)
theory Classifier
  imports Assessor Utf8 "HOL-Library.AList"
begin

text \<open>Model of \<open>internal/assessor/classifier.go\<close>: the detector that sends a message's text to a classification
  endpoint, window by window, and flags the labels whose confidence reaches their threshold.

  The endpoint is a function from the number of the call to what the exchange did: the address it connected
  to and the answer. Parsing of addresses, URLs and JSON and the two regular expressions of URLs are the fields of
  a record. A run of the detector is \<open>None\<close> when it does not return, by a panic or an endless loop, and an
  error or a result otherwise. Integers are 64 bits wide.\<close>

section \<open>Where text may be sent\<close>

text \<open>An address, with its zone for IPv6, and a prefix.\<close>

datatype ip = V4 "32 word" | V6 "128 word" string

fun ip_Unmap :: "ip \<Rightarrow> ip" where
  "ip_Unmap (V6 w z) = (if drop_bit 32 w = 65535 then V4 (ucast w) else V6 w z)"
| "ip_Unmap (V4 w) = V4 w"

fun IsLoopback :: "ip \<Rightarrow> bool" where
  "IsLoopback (V4 w) = (drop_bit 24 w = 127)"
| "IsLoopback (V6 w z) = (w = 1)"

type_synonym prefix = "ip \<times> nat"

text \<open>\<open>Masked\<close> and \<open>PrefixFrom\<close> drop the zone.\<close>

fun Masked :: "prefix \<Rightarrow> prefix" where
  "Masked (V4 w, n) = (V4 (push_bit (32 - n) (drop_bit (32 - n) w)), n)"
| "Masked (V6 w z, n) = (V6 (push_bit (128 - n) (drop_bit (128 - n) w)) '''', n)"

fun PrefixFrom :: "ip \<Rightarrow> prefix" where
  "PrefixFrom (V4 w) = (V4 w, 32)"
| "PrefixFrom (V6 w z) = (V6 w '''', 128)"

fun prefix_Contains :: "prefix \<Rightarrow> ip \<Rightarrow> bool" where
  "prefix_Contains (V4 x, n) (V4 y) = (drop_bit (32 - n) x = drop_bit (32 - n) y)"
| "prefix_Contains (V6 x z, n) (V6 y z') = (z' = '''' \<and> drop_bit (128 - n) x = drop_bit (128 - n) y)"
| "prefix_Contains p a = False"

record addr_policy =
  ap_allow_remote :: bool
  ap_private :: "prefix list"

record url =
  u_scheme :: string
  u_host :: string
  u_user :: bool

record label_config =
  lc_factor :: string
  lc_attachment :: string
  lc_threshold :: f64

record class_config =
  kc_enabled :: bool
  kc_backend :: string
  kc_endpoint :: string
  kc_timeout :: int
  kc_allow_remote :: bool
  kc_private :: "string list"
  kc_window :: int
  kc_overlap :: int
  kc_max_windows :: int
  kc_max_attachment :: int
  kc_labels :: "(string \<times> label_config) list"

record classify_reply =
  cr_labels :: "(string \<times> f64 option) list"
  cr_truncated :: bool

record class_env =
  ce_prefix :: "string \<Rightarrow> prefix option"
  ce_addr :: "string \<Rightarrow> ip option"
  ce_addrport :: "string \<Rightarrow> ip option"
  ce_url :: "string \<Rightarrow> url option"
  ce_lookup :: "string \<Rightarrow> ip list option"
  ce_json :: "bytes \<Rightarrow> classify_reply option"
  ce_urls :: "string \<Rightarrow> (string \<times> string) list \<times> string"
  ce_host :: "string \<Rightarrow> string"
  ce_lower :: "string \<Rightarrow> string"

datatype class_err = KeBackend string | KeEndpoint string | KeCredentials | KeTimeout | KeHost string | KeWindow | KeOverlap
  | KeMaxWindows | KeMaxAttachment | KeLabelName | KeLabelFactor string | KeLabelThreshold string | KeResolve string | KeRemote ip

text \<open>One entry of \<open>private_hosts\<close>.\<close>

definition private_host :: "class_env \<Rightarrow> string \<Rightarrow> prefix option" where
  "private_host E h = (case ce_prefix E (trim_space h) of
       Some p \<Rightarrow> Some (Masked p)
     | None \<Rightarrow> (case ce_addr E (trim_space h) of None \<Rightarrow> None | Some a \<Rightarrow> Some (PrefixFrom (ip_Unmap a))))"

fun private_hosts :: "class_env \<Rightarrow> string list \<Rightarrow> class_err + prefix list" where
  "private_hosts E [] = Inr []"
| "private_hosts E (h # hs) = (case private_host E h of
       None \<Rightarrow> Inl (KeHost (trim_space h))
     | Some p \<Rightarrow> (case private_hosts E hs of Inl e \<Rightarrow> Inl e | Inr ps \<Rightarrow> Inr (p # ps)))"

definition newAddrPolicy :: "class_env \<Rightarrow> string list \<Rightarrow> bool \<Rightarrow> class_err + addr_policy" where
  "newAddrPolicy E hosts remote = (case private_hosts E hosts of
       Inl e \<Rightarrow> Inl e | Inr ps \<Rightarrow> Inr \<lparr>ap_allow_remote = remote, ap_private = ps\<rparr>)"

definition policy_allows :: "addr_policy \<Rightarrow> ip \<Rightarrow> bool" where
  "policy_allows P a = (let a = ip_Unmap a
     in IsLoopback a \<or> list_ex (\<lambda>p. prefix_Contains p a) (ap_private P) \<or> ap_allow_remote P)"

text \<open>\<open>control\<close>: whether the connection is made.\<close>

definition policy_control :: "class_env \<Rightarrow> addr_policy \<Rightarrow> string \<Rightarrow> bool" where
  "policy_control E P address = (case ce_addrport E address of None \<Rightarrow> False | Some a \<Rightarrow> policy_allows P a)"

definition resolveHost :: "class_env \<Rightarrow> string \<Rightarrow> ip list option" where
  "resolveHost E host = (case ce_addr E host of
       Some a \<Rightarrow> Some [ip_Unmap a]
     | None \<Rightarrow> (case ce_lookup E host of
         None \<Rightarrow> None
       | Some as \<Rightarrow> if as = [] then None else Some (map ip_Unmap as)))"

section \<open>Configuration\<close>

definition BackendHTTP :: string where "BackendHTTP = ''http''"

definition class_defaults :: "int \<times> int \<times> int \<times> int \<times> int" where
  "class_defaults = (3000000000, 1000, 200, 32, 16)"

definition minSplitRunes :: int where "minSplitRunes = 64"
definition maxReplyBytes :: nat where "maxReplyBytes = 65536"

definition f64_leq :: "f64 \<Rightarrow> f64 \<Rightarrow> bool" where
  "f64_leq x y \<longleftrightarrow> x \<noteq> NaN \<and> y \<noteq> NaN \<and> \<not> f64_less y x"

text \<open>The nearest \<open>float64\<close> of 0.9 and of 0.8.\<close>

definition DefaultClassifierLabels :: "(string \<times> label_config) list" where
  "DefaultClassifierLabels =
     [(''instruction_to_reader'', \<lparr>lc_factor = FactorInstruction, lc_attachment = FactorAttachmentDirectives,
         lc_threshold = Finite 8106479329266893 53\<rparr>),
      (''secrets_request'', \<lparr>lc_factor = FactorSecretsRequest, lc_attachment = FactorSecretsRequest,
         lc_threshold = Finite 3602879701896397 52\<rparr>)]"

fun check_labels :: "(string \<times> label_config) list \<Rightarrow> class_err option" where
  "check_labels [] = None"
| "check_labels ((name, lc) # ls) = (
     if trim_space name = '''' then Some KeLabelName
     else if lc_factor lc = '''' then Some (KeLabelFactor name)
     else if \<not> (f64_less (Finite 0 0) (lc_threshold lc) \<and> f64_leq (lc_threshold lc) (Finite 1 0)) then Some (KeLabelThreshold name)
     else check_labels ls)"

definition class_defaulted :: "class_config \<Rightarrow> class_config" where
  "class_defaulted cfg = (case class_defaults of (t, w, ov, mw, ma) \<Rightarrow>
     cfg\<lparr>kc_backend := (if kc_backend cfg = '''' then BackendHTTP else kc_backend cfg),
         kc_timeout := (if kc_timeout cfg = 0 then t else kc_timeout cfg),
         kc_window := (if kc_window cfg = 0 then w else kc_window cfg),
         kc_overlap := (if kc_overlap cfg = 0 then ov else kc_overlap cfg),
         kc_max_windows := (if kc_max_windows cfg = 0 then mw else kc_max_windows cfg),
         kc_max_attachment := (if kc_max_attachment cfg = 0 then ma else kc_max_attachment cfg),
         kc_labels := (if kc_labels cfg = [] then DefaultClassifierLabels else kc_labels cfg)\<rparr>)"

definition normalizeClassifier :: "class_env \<Rightarrow> class_config \<Rightarrow> class_err + class_config" where
  "normalizeClassifier E raw = (
     let cfg = class_defaulted raw
     in if kc_backend cfg \<noteq> BackendHTTP then Inl (KeBackend (kc_backend cfg))
        else case ce_url E (kc_endpoint cfg) of
          None \<Rightarrow> Inl (KeEndpoint (kc_endpoint cfg))
        | Some u \<Rightarrow>
            if (u_scheme u \<noteq> ''http'' \<and> u_scheme u \<noteq> ''https'') \<or> u_host u = '''' then Inl (KeEndpoint (kc_endpoint cfg))
            else if u_user u then Inl KeCredentials
            else if kc_timeout cfg < 0 then Inl KeTimeout
            else case newAddrPolicy E (kc_private cfg) (kc_allow_remote cfg) of
                Inl e \<Rightarrow> Inl e
              | Inr P \<Rightarrow>
                  if kc_window cfg < 2 * minSplitRunes then Inl KeWindow
                  else if kc_overlap cfg < 0 \<or> wrap64 (kc_overlap cfg * 2) > kc_window cfg then Inl KeOverlap
                  else if kc_max_windows cfg < 1 then Inl KeMaxWindows
                  else if kc_max_attachment cfg < 1 then Inl KeMaxAttachment
                  else case check_labels (kc_labels cfg) of Some e \<Rightarrow> Inl e | None \<Rightarrow> Inr cfg)"

definition ValidateClassifierConfig :: "class_env \<Rightarrow> class_config \<Rightarrow> class_err option" where
  "ValidateClassifierConfig E cfg = (case normalizeClassifier E cfg of Inl e \<Rightarrow> Some e | Inr c \<Rightarrow> None)"

record classifier =
  kd_endpoint :: string
  kd_token :: string
  kd_timeout :: int
  kd_window :: int
  kd_overlap :: int
  kd_max_windows :: int
  kd_max_attachment :: int
  kd_labels :: "(string \<times> label_config) list"
  kd_policy :: addr_policy
  kd_hosts :: "ip list"

definition NewClassifierDetector :: "class_env \<Rightarrow> class_config \<Rightarrow> string \<Rightarrow> class_err + classifier" where
  "NewClassifierDetector E raw token = (case normalizeClassifier E raw of
       Inl e \<Rightarrow> Inl e
     | Inr cfg \<Rightarrow> (case (ce_url E (kc_endpoint cfg), newAddrPolicy E (kc_private cfg) (kc_allow_remote cfg)) of
         (Some u, Inr P) \<Rightarrow> (case resolveHost E (u_host u) of
             None \<Rightarrow> Inl (KeResolve (kc_endpoint cfg))
           | Some as \<Rightarrow> (case find (\<lambda>a. \<not> policy_allows P a) as of
               Some a \<Rightarrow> Inl (KeRemote a)
             | None \<Rightarrow> Inr \<lparr>kd_endpoint = kc_endpoint cfg, kd_token = token, kd_timeout = kc_timeout cfg, kd_window = kc_window cfg,
                   kd_overlap = kc_overlap cfg, kd_max_windows = kc_max_windows cfg, kd_max_attachment = kc_max_attachment cfg,
                   kd_labels = kc_labels cfg, kd_policy = P, kd_hosts = as\<rparr>))
       | _ \<Rightarrow> Inl (KeEndpoint (kc_endpoint cfg))))"

definition classifier_Factors :: "classifier \<Rightarrow> string list" where
  "classifier_Factors K = dedupeSort (concat (map (\<lambda>(n, lc). lc_factor lc # (if lc_attachment lc \<noteq> '''' then [lc_attachment lc] else []))
     (kd_labels K)))"

text \<open>\<open>Describe\<close>: the addresses, and whether one is not the loopback.\<close>

definition classifier_Describe :: "classifier \<Rightarrow> string \<times> string \<times> ip list \<times> bool" where
  "classifier_Describe K = (BackendHTTP, kd_endpoint K, kd_hosts K, list_ex (\<lambda>a. \<not> IsLoopback a) (kd_hosts K))"

section \<open>The texts that are read\<close>

text \<open>What the detector reads of the extracted content: the body, its parts, and of each attachment whether its text
  was extracted and the text.\<close>

record tcontent =
  tc_body :: string
  tc_parts :: "string list"
  tc_attachments :: "(bool \<times> string) list"

definition bodyTexts :: "tcontent \<Rightarrow> string list" where
  "bodyTexts c = (if tc_parts c \<noteq> [] then tc_parts c else [tc_body c])"

definition attachmentTexts :: "tcontent \<Rightarrow> string list" where
  "attachmentTexts c = map snd (filter fst (tc_attachments c))"

text \<open>The host of a matched URL: what comes before a path, a query, a fragment or a backslash, after any user
  information, as far as it reads as a host.\<close>


definition drop_dots :: "string \<Rightarrow> string" where
  "drop_dots s = rev (dropWhile (\<lambda>c. c = CHR ''.'') (rev s))"

definition urlPlaceholder :: "class_env \<Rightarrow> string \<Rightarrow> string" where
  "urlPlaceholder E u = (
     let rest = (if has_prefix (to_lower u) ''www.'' then u else after_first u ''://'');
         authority = takeWhile (\<lambda>c. c \<notin> {CHR ''/'', CHR ''?'', CHR ''#'', CHR 0x5C}) rest;
         host = drop_dots (ce_host E (case after_last (CHR ''@'') authority of None \<Rightarrow> authority | Some h \<Rightarrow> h))
     in if host = '''' then ''<url>'' else ''<url '' @ ce_lower E host @ ''>'')"

definition withoutURLs :: "class_env \<Rightarrow> string list \<Rightarrow> string list" where
  "withoutURLs E texts = map (\<lambda>t. case ce_urls E t of (ms, rest) \<Rightarrow>
     concat (map (\<lambda>(pre, u). pre @ urlPlaceholder E u) ms) @ rest) texts"

definition unicode_space :: "nat \<Rightarrow> bool" where
  "unicode_space r \<longleftrightarrow> 9 \<le> r \<and> r \<le> 13 \<or> r = 32 \<or> r = 133 \<or> r = 160 \<or> r = 5760 \<or> 8192 \<le> r \<and> r \<le> 8202 \<or> r = 8232 \<or> r = 8233
     \<or> r = 8239 \<or> r = 8287 \<or> r = 12288"

fun rune_fields :: "bytes \<Rightarrow> (nat \<times> bytes) list \<Rightarrow> bytes list" where
  "rune_fields cur [] = (if cur = [] then [] else [cur])"
| "rune_fields cur ((r, b) # cs) = (if unicode_space r then (if cur = [] then rune_fields [] cs else cur # rune_fields [] cs)
     else rune_fields (cur @ b) cs)"

definition text_key :: "string \<Rightarrow> string" where
  "text_key t = join '' '' (rune_fields [] (chunks t))"

fun distinct_loop :: "string list \<Rightarrow> string list \<Rightarrow> string list" where
  "distinct_loop seen [] = []"
| "distinct_loop seen (t # ts) = (if text_key t = '''' \<or> text_key t \<in> set seen then distinct_loop seen ts
     else t # distinct_loop (text_key t # seen) ts)"

definition distinctTexts :: "string list \<Rightarrow> string list" where
  "distinctTexts texts = distinct_loop [] texts"

section \<open>Windows\<close>

text \<open>The loop does not return when its step is zero; with a negative step the sum wraps around in the end.\<close>

partial_function (option) split_loop :: "int \<Rightarrow> int \<Rightarrow> int \<Rightarrow> int \<Rightarrow> (int \<times> int) list option" where
  "split_loop n sz step start = (
     let stop = wrap64 (start + sz)
     in if stop \<ge> n then Some [(start, n)]
        else Option.bind (split_loop n sz step (wrap64 (start + step))) (\<lambda>ws. Some ((start, stop) # ws)))"

declare split_loop.simps [code]

definition splitWindows :: "int \<Rightarrow> int \<Rightarrow> int \<Rightarrow> (int \<times> int) list option" where
  "splitWindows n sz overlap = (if n \<le> sz then Some [(0, n)] else split_loop n sz (wrap64 (sz - overlap)) 0)"

definition windows_offset :: "int \<Rightarrow> (int \<times> int) list \<Rightarrow> (int \<times> int) list" where
  "windows_offset k ws = map (\<lambda>(s, e). (wrap64 (s + k), wrap64 (e + k))) ws"

text \<open>A slice out of range panics.\<close>

definition rune_slice :: "nat list \<Rightarrow> int \<Rightarrow> int \<Rightarrow> nat list option" where
  "rune_slice r s e = (if 0 \<le> s \<and> s \<le> e \<and> e \<le> int (length r) then Some (take (nat (e - s)) (drop (nat s) r)) else None)"

section \<open>One call\<close>

text \<open>What a call of the endpoint did: the address it connected to, and the status and the body it was answered with.\<close>

record exchange =
  ex_addr :: string
  ex_reply :: "(nat \<times> bytes) option"

type_synonym confidences = "(string \<times> f64) list"

fun read_labels :: "(string \<times> label_config) list \<Rightarrow> (string \<times> f64 option) list \<Rightarrow> confidences \<Rightarrow> confidences option" where
  "read_labels ls [] got = Some got"
| "read_labels ls ((l, c) # rs) got = (case map_of ls l of
       None \<Rightarrow> read_labels ls rs got
     | Some lc \<Rightarrow> (case c of
         None \<Rightarrow> None
       | Some p \<Rightarrow> if p = NaN \<or> f64_less p (Finite 0 0) \<or> f64_less (Finite 1 0) p then None
           else read_labels ls rs (AList.update l p got)))"

definition classify :: "class_env \<Rightarrow> classifier \<Rightarrow> exchange \<Rightarrow> (confidences \<times> bool) option" where
  "classify E K x = (
     if \<not> policy_control E (kd_policy K) (ex_addr x) then None
     else case ex_reply x of
         None \<Rightarrow> None
       | Some (status, body) \<Rightarrow>
           if status \<noteq> 200 then None
           else if length body > maxReplyBytes then None
           else case ce_json E body of
               None \<Rightarrow> None
             | Some rep \<Rightarrow> (case read_labels (kd_labels K) (cr_labels rep) [] of
                 None \<Rightarrow> None
               | Some got \<Rightarrow> if \<not> list_all (\<lambda>(l, lc). map_of got l \<noteq> None) (kd_labels K) then None
                   else Some (got, cr_truncated rep)))"

section \<open>Covering the texts\<close>

text \<open>The endpoint: what the call of the given number, with the given text, did.\<close>

type_synonym endpoint = "nat \<Rightarrow> bytes \<Rightarrow> exchange"

definition best_of :: "confidences \<Rightarrow> string \<Rightarrow> f64" where
  "best_of best l = (case map_of best l of None \<Rightarrow> Finite 0 0 | Some p \<Rightarrow> p)"

definition keep_higher :: "confidences \<Rightarrow> confidences \<Rightarrow> confidences" where
  "keep_higher got best = fold (\<lambda>(l, p) b. if f64_less (best_of b l) p then AList.update l p b else b) got best"

type_synonym job = "nat list \<times> int \<times> int"

function cover_loop :: "class_env \<Rightarrow> classifier \<Rightarrow> endpoint \<Rightarrow> int \<Rightarrow> nat \<Rightarrow> job list \<Rightarrow> confidences \<Rightarrow> (detect_err + confidences) option" where
  "cover_loop E K X cap calls [] best = Some (Inr best)"
| "cover_loop E K X cap calls ((r, s, e) # js) best = (
     if int (Suc calls) > cap then Some (Inl ClassifierUnavailable)
     else case rune_slice r s e of
         None \<Rightarrow> None
       | Some w \<Rightarrow> (case classify E K (X (Suc calls) (encode_runes w)) of
           None \<Rightarrow> Some (Inl ClassifierUnavailable)
         | Some (got, truncated) \<Rightarrow>
             if truncated then
               (let n = e - s in
                if n < 2 * minSplitRunes then Some (Inl ClassifierUnavailable)
                else case splitWindows n (wrap64 ((n + 1) div 2 + kd_overlap K div 2)) (kd_overlap K div 2) of
                    None \<Rightarrow> None
                  | Some hs \<Rightarrow> cover_loop E K X cap (Suc calls) (map (\<lambda>h. (r, h)) (windows_offset s hs) @ js) best)
             else cover_loop E K X cap (Suc calls) js (keep_higher got best)))"
  by pat_completeness auto
termination
  by (relation "measure (\<lambda>(E, K, X, cap, calls, js, best). nat (cap - int calls))") auto

fun text_jobs :: "classifier \<Rightarrow> string list \<Rightarrow> job list option" where
  "text_jobs K [] = Some []"
| "text_jobs K (t # ts) = (case splitWindows (int (length (runes t))) (kd_window K) (kd_overlap K) of
       None \<Rightarrow> None
     | Some ws \<Rightarrow> map_option (\<lambda>js. map (\<lambda>w. (runes t, w)) ws @ js) (text_jobs K ts))"

definition classifyTexts :: "class_env \<Rightarrow> classifier \<Rightarrow> endpoint \<Rightarrow> string list \<Rightarrow> int \<Rightarrow> (detect_err + confidences) option" where
  "classifyTexts E K X texts cap = (case text_jobs K texts of
       None \<Rightarrow> None
     | Some js \<Rightarrow> if int (length js) > cap then Some (Inl ClassifierUnavailable) else cover_loop E K X cap 0 js [])"

section \<open>Findings\<close>

definition SourceBody :: string where "SourceBody = ''body''"
definition SourceAttachment :: string where "SourceAttachment = ''attachment''"
definition DetectorClassifier :: string where "DetectorClassifier = ''classifier''"

fun f64_rat :: "f64 \<Rightarrow> rat" where
  "f64_rat (Finite m e) = of_int m / 2 ^ e"
| "f64_rat x = 0"

definition flag_label :: "confidences \<Rightarrow> string \<Rightarrow> string \<times> label_config \<Rightarrow> finding list" where
  "flag_label best source l = (case l of (label, lc) \<Rightarrow>
     let factor = (if source = SourceAttachment then lc_attachment lc else lc_factor lc)
     in if factor \<noteq> '''' \<and> f64_leq (lc_threshold lc) (best_of best label)
        then [\<lparr>fi_factor = factor, fi_detector = DetectorClassifier, fi_label = label,
               fi_confidence = f64_rat (best_of best label), fi_source = source\<rparr>]
        else [])"

definition flag :: "classifier \<Rightarrow> confidences \<Rightarrow> string \<Rightarrow> finding list" where
  "flag K best source = sort_key fi_label (concat (map (flag_label best source) (kd_labels K)))"

definition readsAttachments :: "classifier \<Rightarrow> bool" where
  "readsAttachments K = list_ex (\<lambda>(n, lc). lc_attachment lc \<noteq> '''') (kd_labels K)"

definition classify_source ::
  "class_env \<Rightarrow> classifier \<Rightarrow> endpoint \<Rightarrow> string list \<Rightarrow> int \<Rightarrow> string \<Rightarrow> (detect_err + finding list) option" where
  "classify_source E K X texts cap source = (case classifyTexts E K X texts cap of
       None \<Rightarrow> None
     | Some (Inl e) \<Rightarrow> Some (Inl e)
     | Some (Inr best) \<Rightarrow> Some (Inr (flag K best source)))"

text \<open>The endpoint for the body and the one for the attachments are the same, at different calls.\<close>

definition classifier_DetectFindings ::
  "class_env \<Rightarrow> classifier \<Rightarrow> endpoint \<Rightarrow> endpoint \<Rightarrow> tcontent \<Rightarrow> (detect_err + finding list) option" where
  "classifier_DetectFindings E K XB XA c = (
     let body = distinctTexts (withoutURLs E (bodyTexts c)); att = distinctTexts (withoutURLs E (attachmentTexts c))
     in case (if body \<noteq> [] then classify_source E K XB body (kd_max_windows K) SourceBody else Some (Inr [])) of
          None \<Rightarrow> None
        | Some (Inl e) \<Rightarrow> Some (Inl e)
        | Some (Inr out) \<Rightarrow>
            (case (if att \<noteq> [] \<and> readsAttachments K then classify_source E K XA att (kd_max_attachment K) SourceAttachment else Some (Inr [])) of
               None \<Rightarrow> None
             | Some (Inl e) \<Rightarrow> Some (Inl e)
             | Some (Inr att_out) \<Rightarrow> Some (Inr (out @ att_out))))"

definition classifier_Detect ::
  "class_env \<Rightarrow> classifier \<Rightarrow> endpoint \<Rightarrow> endpoint \<Rightarrow> tcontent \<Rightarrow> (detect_err + string list) option" where
  "classifier_Detect E K XB XA c = map_option (map_sum id (map fi_factor)) (classifier_DetectFindings E K XB XA c)"

section \<open>Windows cover the text\<close>

lemma wrap64_small: "0 \<le> x \<Longrightarrow> x < 2 ^ 63 \<Longrightarrow> wrap64 x = x"
  by (simp add: wrap64_id in_int64_def)

definition covered :: "(int \<times> int) list \<Rightarrow> int \<Rightarrow> int \<Rightarrow> bool" where
  "covered ws a b \<longleftrightarrow> (\<exists>s e. (s, e) \<in> set ws \<and> s \<le> a \<and> b \<le> e)"

lemma covered_Cons: "covered ((s, e) # ws) a b \<longleftrightarrow> s \<le> a \<and> b \<le> e \<or> covered ws a b"
  by (auto simp: covered_def)

lemma split_loop_covers:
  assumes "0 \<le> start" "start \<le> n" "0 < step" "step \<le> sz" "sz \<le> 2 ^ 62" "n < 2 ^ 62"
  shows "\<exists>ws. split_loop n sz step start = Some ws \<and> (\<forall>w \<in> set ws. start \<le> fst w \<and> fst w \<le> snd w \<and> snd w \<le> n)
    \<and> (\<forall>a b. start \<le> a \<and> a \<le> b \<and> b \<le> n \<and> b - a \<le> sz - step \<longrightarrow> covered ws a b)"
  using assms
proof (induction "nat (n - start)" arbitrary: start rule: less_induct)
  case less
  have stop: "wrap64 (start + sz) = start + sz" using less.prems by (intro wrap64_small) auto
  have nx: "wrap64 (start + step) = start + step" using less.prems by (intro wrap64_small) auto
  show ?case
  proof (cases "start + sz \<ge> n")
    case True
    have "split_loop n sz step start = Some [(start, n)]" by (subst split_loop.simps) (simp add: stop True)
    then show ?thesis using less.prems by (auto simp: covered_def)
  next
    case False
    have "nat (n - (start + step)) < nat (n - start)" using False less.prems by auto
    from less.hyps [OF this] less.prems False obtain ws where ws: "split_loop n sz step (start + step) = Some ws"
      "\<forall>w \<in> set ws. start + step \<le> fst w \<and> fst w \<le> snd w \<and> snd w \<le> n"
      "\<forall>a b. start + step \<le> a \<and> a \<le> b \<and> b \<le> n \<and> b - a \<le> sz - step \<longrightarrow> covered ws a b" by auto
    have eq: "split_loop n sz step start = Some ((start, start + sz) # ws)"
      by (subst split_loop.simps) (use False in \<open>simp add: stop nx ws(1)\<close>)
    have "covered ((start, start + sz) # ws) a b" if "start \<le> a" "a \<le> b" "b \<le> n" "b - a \<le> sz - step" for a b
    proof (cases "b \<le> start + sz")
      case True
      then show ?thesis using that by (simp add: covered_Cons)
    next
      case out: False
      then have "start + step \<le> a" using that by linarith
      then show ?thesis using that ws(3) by (simp add: covered_Cons)
    qed
    moreover have "\<forall>w \<in> set ((start, start + sz) # ws). start \<le> fst w \<and> fst w \<le> snd w \<and> snd w \<le> n"
      using ws(2) less.prems False by fastforce
    ultimately show ?thesis using eq by blast
  qed
qed

lemma splitWindows_covers:
  assumes "0 \<le> n" "n < 2 ^ 62" "0 \<le> ov" "ov < sz"
  shows "\<exists>ws. splitWindows n sz ov = Some ws \<and> (\<forall>w \<in> set ws. 0 \<le> fst w \<and> fst w \<le> snd w \<and> snd w \<le> n)
    \<and> (\<forall>a b. 0 \<le> a \<and> a \<le> b \<and> b \<le> n \<and> b - a \<le> ov \<longrightarrow> covered ws a b)"
proof (cases "n \<le> sz")
  case True
  then show ?thesis using assms by (auto simp: splitWindows_def covered_def)
next
  case False
  then have w: "wrap64 (sz - ov) = sz - ov" using assms by (intro wrap64_small) auto
  from split_loop_covers [of 0 n "sz - ov" sz] assms False show ?thesis by (auto simp: splitWindows_def w)
qed

text \<open>A window, and a stretch of the text it is to cover.\<close>

definition job_ok :: "job \<Rightarrow> bool" where
  "job_ok j \<longleftrightarrow> (case j of (r, s, e) \<Rightarrow> 0 \<le> s \<and> s \<le> e \<and> e \<le> int (length r) \<and> int (length r) < 2 ^ 62)"

definition class_ok :: "classifier \<Rightarrow> bool" where
  "class_ok K \<longleftrightarrow> 0 \<le> kd_overlap K \<and> kd_overlap K < kd_window K \<and> kd_overlap K < 2 ^ 62"

lemma halves_cover:
  assumes "job_ok (r, s, e)" "class_ok K" "2 * minSplitRunes \<le> e - s"
  shows "\<exists>hs. splitWindows (e - s) (wrap64 ((e - s + 1) div 2 + kd_overlap K div 2)) (kd_overlap K div 2) = Some hs
    \<and> (\<forall>j \<in> set (map (\<lambda>h. (r, h)) (windows_offset s hs)). job_ok j)
    \<and> (\<forall>a b. s \<le> a \<and> a \<le> b \<and> b \<le> e \<and> b - a \<le> kd_overlap K div 2 \<longrightarrow> covered (windows_offset s hs) a b)"
proof -
  let ?ov = "kd_overlap K div 2"
  have n: "0 \<le> e - s" "e - s < 2 ^ 62" "0 \<le> s" "e \<le> int (length r)" "int (length r) < 2 ^ 62"
    using assms(1) by (auto simp: job_ok_def)
  have ov: "0 \<le> ?ov" "?ov < (e - s + 1) div 2 + ?ov" using assms(2,3) n by (auto simp: class_ok_def minSplitRunes_def)
  have w: "wrap64 ((e - s + 1) div 2 + ?ov) = (e - s + 1) div 2 + ?ov" using n assms(2) ov by (intro wrap64_small) (auto simp: class_ok_def)
  from splitWindows_covers [OF n(1,2) ov] obtain hs where hs:
    "splitWindows (e - s) ((e - s + 1) div 2 + ?ov) ?ov = Some hs" "\<forall>h \<in> set hs. 0 \<le> fst h \<and> fst h \<le> snd h \<and> snd h \<le> e - s"
    "\<forall>a b. 0 \<le> a \<and> a \<le> b \<and> b \<le> e - s \<and> b - a \<le> ?ov \<longrightarrow> covered hs a b" by blast
  have off: "windows_offset s hs = map (\<lambda>(x, y). (x + s, y + s)) hs"
    unfolding windows_offset_def using hs(2) n by (intro map_cong refl) (fastforce intro!: wrap64_small)
  have "covered (windows_offset s hs) a b" if "s \<le> a" "a \<le> b" "b \<le> e" "b - a \<le> ?ov" for a b
  proof -
    from hs(3) [rule_format, of "a - s" "b - s"] that obtain x y where "(x, y) \<in> set hs" "x \<le> a - s" "b - s \<le> y"
      by (auto simp: covered_def)
    then show ?thesis by (force simp: covered_def off)
  qed
  moreover have "\<forall>j \<in> set (map (\<lambda>h. (r, h)) (windows_offset s hs)). job_ok j"
    using hs(2) n by (fastforce simp: off job_ok_def)
  ultimately show ?thesis using hs(1) w by auto
qed

section \<open>The highest confidence\<close>

definition is_finite :: "f64 \<Rightarrow> bool" where
  "is_finite x \<longleftrightarrow> (\<exists>m e. x = Finite m e)"

definition all_finite :: "confidences \<Rightarrow> bool" where
  "all_finite c \<longleftrightarrow> (\<forall>l p. map_of c l = Some p \<longrightarrow> is_finite p)"

lemma f64_less_rat: "is_finite x \<Longrightarrow> is_finite y \<Longrightarrow> f64_less x y \<longleftrightarrow> f64_rat x < f64_rat y"
proof -
  assume "is_finite x" "is_finite y"
  then obtain m e m' e' where x: "x = Finite m e" "y = Finite m' e'" by (auto simp: is_finite_def)
  have p: "(0::rat) < 2 ^ e" "(0::rat) < 2 ^ e'" by simp_all
  have "rat_of_int m / 2 ^ e < rat_of_int m' / 2 ^ e' \<longleftrightarrow> rat_of_int m < rat_of_int m' / 2 ^ e' * 2 ^ e"
    by (rule pos_divide_less_eq [OF p(1)])
  also have "\<dots> \<longleftrightarrow> rat_of_int m < rat_of_int m' * 2 ^ e / 2 ^ e'" by simp
  also have "\<dots> \<longleftrightarrow> rat_of_int m * 2 ^ e' < rat_of_int m' * 2 ^ e" by (rule pos_less_divide_eq [OF p(2)])
  also have "\<dots> \<longleftrightarrow> rat_of_int (m * 2 ^ e') < rat_of_int (m' * 2 ^ e)" by simp
  also have "\<dots> \<longleftrightarrow> m * 2 ^ e' < m' * 2 ^ e" by (rule of_int_less_iff)
  finally show ?thesis using x by simp
qed

lemma f64_leq_trans: "f64_leq t p \<Longrightarrow> is_finite p \<Longrightarrow> is_finite q \<Longrightarrow> f64_rat p \<le> f64_rat q \<Longrightarrow> f64_leq t q"
proof (cases t)
  case (Finite m e)
  assume a: "f64_leq t p" "is_finite p" "is_finite q" "f64_rat p \<le> f64_rat q"
  have t: "is_finite t" by (simp add: Finite is_finite_def)
  with a have "f64_rat t \<le> f64_rat p" by (simp add: f64_leq_def f64_less_rat)
  with a have "f64_rat t \<le> f64_rat q" by simp
  moreover have "q \<noteq> NaN" "t \<noteq> NaN" using a t by (auto simp: is_finite_def)
  ultimately show ?thesis using a t by (simp add: f64_leq_def f64_less_rat)
qed (auto simp: f64_leq_def is_finite_def)

lemma best_finite: "all_finite best \<Longrightarrow> is_finite (best_of best l)"
  by (auto simp: best_of_def all_finite_def is_finite_def split: option.split)

lemma keep_one:
  assumes "all_finite b" "is_finite p" "b' = (if f64_less (best_of b l) p then AList.update l p b else b)"
  shows "all_finite b'" "f64_rat (best_of b k) \<le> f64_rat (best_of b' k)" "f64_rat p \<le> f64_rat (best_of b' l)"
proof -
  note f = f64_less_rat [OF best_finite [OF assms(1), of l] assms(2)]
  show "all_finite b'" "f64_rat (best_of b k) \<le> f64_rat (best_of b' k)" "f64_rat p \<le> f64_rat (best_of b' l)"
    using assms f by (auto simp: all_finite_def best_of_def update_conv' split: if_splits option.splits)
qed

lemma keep_higher_spec:
  assumes "all_finite best" "\<forall>(l, p) \<in> set got. is_finite p"
  shows "all_finite (keep_higher got best) \<and> (\<forall>l. f64_rat (best_of best l) \<le> f64_rat (best_of (keep_higher got best) l))
    \<and> (\<forall>(l, p) \<in> set got. f64_rat p \<le> f64_rat (best_of (keep_higher got best) l))"
  using assms
proof (induction got arbitrary: best)
  case (Cons x got)
  obtain l p where x: "x = (l, p)" by (cases x)
  define b' where "b' = (if f64_less (best_of best l) p then AList.update l p best else best)"
  have p: "is_finite p" using Cons.prems x by simp
  note k = keep_one [OF Cons.prems(1) p b'_def]
  have s: "keep_higher ((l, p) # got) best = keep_higher got b'" by (simp add: keep_higher_def b'_def)
  have g: "\<forall>(l, p) \<in> set got. is_finite p" using Cons.prems(2) by simp
  from Cons.IH [OF k(1) g] k(2,3) show ?case unfolding x s by (auto intro: order_trans)
qed (simp add: keep_higher_def)

lemma update_subset: "set (AList.update k v al) \<subseteq> insert (k, v) (set al)"
  by (induction al) auto

lemma read_labels_finite:
  "read_labels ls rs got = Some got' \<Longrightarrow> \<forall>(l, p) \<in> set got. is_finite p \<Longrightarrow> \<forall>(l, p) \<in> set got'. is_finite p"
proof (induction ls rs got rule: read_labels.induct)
  case (2 ls l c rs got)
  show ?case
  proof (cases "map_of ls l")
    case None
    then show ?thesis using 2 by simp
  next
    case (Some lc)
    then obtain p where c: "c = Some p" "\<not> (p = NaN \<or> f64_less p (Finite 0 0) \<or> f64_less (Finite 1 0) p)"
      "read_labels ls rs (AList.update l p got) = Some got'"
      using 2(3) by (auto split: option.splits if_splits)
    have "is_finite p" using c(2) by (cases p) (auto simp: is_finite_def)
    then have "\<forall>(l, p) \<in> set (AList.update l p got). is_finite p" using 2(4) update_subset [of l p got] by auto
    from 2(2) [OF Some c(1,2,3) this] show ?thesis .
  qed
qed simp

lemma classify_sound:
  assumes "classify E K x = Some (got, tr)"
  shows "\<forall>(l, p) \<in> set got. is_finite p" "\<forall>(l, lc) \<in> set (kd_labels K). map_of got l \<noteq> None" "policy_control E (kd_policy K) (ex_addr x)"
proof -
  obtain rs where "read_labels (kd_labels K) rs [] = Some got"
    using assms by (auto simp: classify_def split: if_splits option.splits)
  from read_labels_finite [OF this] show "\<forall>(l, p) \<in> set got. is_finite p" by simp
  show "\<forall>(l, lc) \<in> set (kd_labels K). map_of got l \<noteq> None" "policy_control E (kd_policy K) (ex_addr x)"
    using assms by (auto simp: classify_def list_all_iff split: if_splits option.splits)
qed

section \<open>Every stretch of the text is read\<close>

text \<open>A window the endpoint read whole, around a stretch of the text, with the confidences it gave.\<close>

definition read_whole :: "class_env \<Rightarrow> classifier \<Rightarrow> endpoint \<Rightarrow> nat list \<Rightarrow> int \<Rightarrow> int \<Rightarrow> confidences \<Rightarrow> bool" where
  "read_whole E K X r a b got \<longleftrightarrow> (\<exists>s e i w. s \<le> a \<and> b \<le> e \<and> rune_slice r s e = Some w
     \<and> classify E K (X i (encode_runes w)) = Some (got, False))"

definition stretch_read :: "class_env \<Rightarrow> classifier \<Rightarrow> endpoint \<Rightarrow> confidences \<Rightarrow> nat list \<Rightarrow> int \<Rightarrow> int \<Rightarrow> bool" where
  "stretch_read E K X best r a b \<longleftrightarrow> (\<exists>got. read_whole E K X r a b got
     \<and> (\<forall>(l, p) \<in> set got. is_finite p \<and> f64_rat p \<le> f64_rat (best_of best l)))"

lemma slice_ok: "job_ok (r, s, e) \<Longrightarrow> \<exists>w. rune_slice r s e = Some w"
  by (simp add: job_ok_def rune_slice_def)

definition loop_done :: "class_env \<Rightarrow> classifier \<Rightarrow> endpoint \<Rightarrow> job list \<Rightarrow> confidences \<Rightarrow> (detect_err + confidences) option \<Rightarrow> bool" where
  "loop_done E K X js best res \<longleftrightarrow> (\<exists>x. res = Some x \<and> (\<forall>best'. x = Inr best' \<longrightarrow> all_finite best'
     \<and> (\<forall>l. f64_rat (best_of best l) \<le> f64_rat (best_of best' l))
     \<and> (\<forall>r s e a b. (r, s, e) \<in> set js \<longrightarrow> s \<le> a \<longrightarrow> a \<le> b \<longrightarrow> b \<le> e \<longrightarrow> b - a \<le> kd_overlap K div 2 \<longrightarrow> stretch_read E K X best' r a b)))"

lemma loop_done_err: "loop_done E K X js best (Some (Inl e))"
  by (simp add: loop_done_def)

lemma loop_doneI:
  assumes "res = Some x" "\<And>best'. x = Inr best' \<Longrightarrow> all_finite best'"
    "\<And>best' l. x = Inr best' \<Longrightarrow> f64_rat (best_of best l) \<le> f64_rat (best_of best' l)"
    "\<And>best' r s e a b. \<lbrakk>x = Inr best'; (r, s, e) \<in> set js; s \<le> a; a \<le> b; b \<le> e; b - a \<le> kd_overlap K div 2\<rbrakk> \<Longrightarrow> stretch_read E K X best' r a b"
  shows "loop_done E K X js best res"
  unfolding loop_done_def by (intro exI [of _ x] conjI allI impI assms)

lemma loop_doneD:
  assumes "loop_done E K X js best res"
  shows "\<exists>x. res = Some x" "res = Some (Inr best') \<Longrightarrow> all_finite best'"
    "res = Some (Inr best') \<Longrightarrow> f64_rat (best_of best l) \<le> f64_rat (best_of best' l)"
    "res = Some (Inr best') \<Longrightarrow> (r, s, e) \<in> set js \<Longrightarrow> s \<le> a \<Longrightarrow> a \<le> b \<Longrightarrow> b \<le> e \<Longrightarrow> b - a \<le> kd_overlap K div 2 \<Longrightarrow>
      stretch_read E K X best' r a b"
  using assms by (auto simp: loop_done_def)

lemma cover_loop_done: "class_ok K \<Longrightarrow> \<forall>j \<in> set js. job_ok j \<Longrightarrow> all_finite best \<Longrightarrow> loop_done E K X js best (cover_loop E K X cap calls js best)"
proof (induction "nat (cap - int calls)" arbitrary: calls js best rule: less_induct)
  case less
  show ?case
  proof (cases js)
    case Nil
    then show ?thesis using less.prems by (simp add: loop_done_def)
  next
    case (Cons j js')
    obtain r s e where j: "j = (r, s, e)" by (cases j)
    have jok: "job_ok (r, s, e)" and ok': "\<forall>j \<in> set js'. job_ok j" using less.prems(2) Cons j by simp_all
    obtain w where w: "rune_slice r s e = Some w" using slice_ok [OF jok] by blast
    let ?c = "classify E K (X (Suc calls) (encode_runes w))"
    show ?thesis
    proof (cases "int (Suc calls) > cap \<or> ?c = None")
      case True
      then show ?thesis using w by (auto simp: Cons j loop_done_err)
    next
      case False
      then obtain got tr where c: "?c = Some (got, tr)" by auto
      have m: "nat (cap - int (Suc calls)) < nat (cap - int calls)" using False by simp
      note cs = classify_sound [OF c]
      show ?thesis
      proof (cases tr)
        case tr: False
        note k = keep_higher_spec [OF less.prems(3) cs(1)]
        have eq: "cover_loop E K X cap calls js best = cover_loop E K X cap (Suc calls) js' (keep_higher got best)"
          using False w c tr by (simp add: Cons j)
        have kf: "all_finite (keep_higher got best)" using k by simp
        note d = loop_doneD [OF less.hyps [OF m less.prems(1) ok' kf]]
        obtain x where x1: "cover_loop E K X cap (Suc calls) js' (keep_higher got best) = Some x" using d(1) by blast
        note x = x1 d(2-4) [unfolded x1 option.inject]
        have new: "stretch_read E K X best' r a b" if "x = Inr best'" "s \<le> a" "b \<le> e" for best' a b
        proof -
          have "classify E K (X (Suc calls) (encode_runes w)) = Some (got, False)" using c tr by simp
          with that w have "read_whole E K X r a b got" unfolding read_whole_def by blast
          moreover have "\<forall>(l, p) \<in> set got. is_finite p \<and> f64_rat p \<le> f64_rat (best_of best' l)"
            using k cs(1) x(3) [OF that(1)] by (auto intro: order_trans)
          ultimately show ?thesis unfolding stretch_read_def by blast
        qed
        show ?thesis
        proof (rule loop_doneI [OF eq [unfolded x(1)]])
          fix best' l assume i: "x = Inr best'"
          then show "all_finite best'" by (rule x(2))
          show "f64_rat (best_of best l) \<le> f64_rat (best_of best' l)" using k x(3) [OF i, of l] by (metis order_trans)
        next
          fix best' r' s' e' a b
          assume "x = Inr best'" "(r', s', e') \<in> set js" "s' \<le> a" "a \<le> b" "b \<le> e'" "b - a \<le> kd_overlap K div 2"
          then show "stretch_read E K X best' r' a b" using new x(4) by (auto simp: Cons j)
        qed
      next
        case tr: True
        show ?thesis
        proof (cases "e - s < 2 * minSplitRunes")
          case True
          then show ?thesis using False w c tr by (simp add: Cons j loop_done_err)
        next
          case n: False
          then have n': "2 * minSplitRunes \<le> e - s" by simp
          from halves_cover [OF jok less.prems(1) n'] obtain hs where
            hs: "splitWindows (e - s) (wrap64 ((e - s + 1) div 2 + kd_overlap K div 2)) (kd_overlap K div 2) = Some hs"
              "\<forall>j \<in> set (map (\<lambda>h. (r, h)) (windows_offset s hs)). job_ok j"
              "\<forall>a b. s \<le> a \<and> a \<le> b \<and> b \<le> e \<and> b - a \<le> kd_overlap K div 2 \<longrightarrow> covered (windows_offset s hs) a b" by blast
          let ?js = "map (\<lambda>h. (r, h)) (windows_offset s hs) @ js'"
          have eq: "cover_loop E K X cap calls js best = cover_loop E K X cap (Suc calls) ?js best"
            using False w c tr n hs(1) by (simp add: Cons j)
          have "\<forall>j \<in> set ?js. job_ok j" using hs(2) ok' by auto
          note d = loop_doneD [OF less.hyps [OF m less.prems(1) this less.prems(3)]]
          obtain x where x1: "cover_loop E K X cap (Suc calls) ?js best = Some x" using d(1) by blast
          note x = x1 d(2-4) [unfolded x1 option.inject]
          have new: "stretch_read E K X best' r a b" if "x = Inr best'" "s \<le> a" "a \<le> b" "b \<le> e" "b - a \<le> kd_overlap K div 2" for best' a b
          proof -
            from hs(3) that obtain s' e' where "(s', e') \<in> set (windows_offset s hs)" "s' \<le> a" "b \<le> e'" unfolding covered_def by blast
            moreover from this have "(r, s', e') \<in> set ?js" by force
            ultimately show ?thesis using x(4) that by blast
          qed
          show ?thesis
          proof (rule loop_doneI [OF eq [unfolded x(1)] x(2) x(3)])
            fix best' r' s' e' a b
            assume A: "x = Inr best'" "(r', s', e') \<in> set js" "s' \<le> a" "a \<le> b" "b \<le> e'" "b - a \<le> kd_overlap K div 2"
            show "stretch_read E K X best' r' a b"
            proof (cases "(r', s', e') \<in> set ?js")
              case True
              show ?thesis by (rule x(4) [OF A(1) True A(3-6)])
            next
              case False
              then have "r' = r" "s' = s" "e' = e" using A(2) by (auto simp: Cons j)
              then show ?thesis using new [OF A(1), of a b] A(3-6) by simp
            qed
          qed
        qed
      qed
    qed
  qed
qed

lemma detector_ok:
  assumes "NewClassifierDetector E cfg token = Inr K" "kd_overlap K < 2 ^ 62"
  shows "class_ok K"
proof -
  obtain c where c: "normalizeClassifier E cfg = Inr c" "kd_overlap K = kc_overlap c" "kd_window K = kc_window c"
    using assms(1) by (auto simp: NewClassifierDetector_def split: sum.splits option.splits prod.splits)
  then have r: "128 \<le> kc_window c" "0 \<le> kc_overlap c" "wrap64 (kc_overlap c * 2) \<le> kc_window c"
    by (auto simp: normalizeClassifier_def Let_def minSplitRunes_def split: if_splits option.splits sum.splits)
  then have "wrap64 (kc_overlap c * 2) = kc_overlap c * 2" using assms(2) c by (intro wrap64_small) auto
  then show ?thesis using r assms(2) c by (simp add: class_ok_def)
qed

lemma text_jobs_spec:
  assumes "class_ok K" "\<forall>t \<in> set texts. length (runes t) < 2 ^ 62"
  shows "\<exists>js. text_jobs K texts = Some js \<and> (\<forall>j \<in> set js. job_ok j)
    \<and> (\<forall>t \<in> set texts. \<forall>a b. 0 \<le> a \<and> a \<le> b \<and> b \<le> int (length (runes t)) \<and> b - a \<le> kd_overlap K \<longrightarrow>
        (\<exists>s e. (runes t, s, e) \<in> set js \<and> s \<le> a \<and> b \<le> e))"
  using assms(2)
proof (induction texts)
  case (Cons t ts)
  let ?n = "int (length (runes t))"
  have n: "?n < 2 ^ 62" using Cons.prems by auto
  from splitWindows_covers [of ?n "kd_overlap K" "kd_window K"] n assms(1) obtain ws where
    ws: "splitWindows ?n (kd_window K) (kd_overlap K) = Some ws" "\<forall>w \<in> set ws. 0 \<le> fst w \<and> fst w \<le> snd w \<and> snd w \<le> ?n"
      "\<forall>a b. 0 \<le> a \<and> a \<le> b \<and> b \<le> ?n \<and> b - a \<le> kd_overlap K \<longrightarrow> covered ws a b"
    unfolding class_ok_def by auto
  have "\<forall>t \<in> set ts. length (runes t) < 2 ^ 62" using Cons.prems by simp
  from Cons.IH [OF this] obtain js where js: "text_jobs K ts = Some js" "\<forall>j \<in> set js. job_ok j"
    "\<forall>t \<in> set ts. \<forall>a b. 0 \<le> a \<and> a \<le> b \<and> b \<le> int (length (runes t)) \<and> b - a \<le> kd_overlap K \<longrightarrow>
        (\<exists>s e. (runes t, s, e) \<in> set js \<and> s \<le> a \<and> b \<le> e)" by blast
  let ?js = "map (\<lambda>w. (runes t, w)) ws @ js"
  have "text_jobs K (t # ts) = Some ?js" using ws(1) js(1) by simp
  moreover have "\<forall>j \<in> set ?js. job_ok j" using ws(2) js(2) n by (fastforce simp: job_ok_def)
  moreover have "\<exists>s e. (runes u, s, e) \<in> set ?js \<and> s \<le> a \<and> b \<le> e"
    if u: "u \<in> set (t # ts)" "0 \<le> a" "a \<le> b" "b \<le> int (length (runes u))" "b - a \<le> kd_overlap K" for u a b
  proof (cases "u = t")
    case True
    with ws(3) u obtain s e where "(s, e) \<in> set ws" "s \<le> a" "b \<le> e" unfolding covered_def by metis
    then show ?thesis using True by force
  next
    case False
    with js(3) u obtain s e where "(runes u, s, e) \<in> set js" "s \<le> a" "b \<le> e" by (metis set_ConsD)
    then show ?thesis by auto
  qed
  ultimately show ?case by blast
qed simp

lemma classifyTexts_spec:
  assumes "class_ok K" "\<forall>t \<in> set texts. length (runes t) < 2 ^ 62"
  shows "\<exists>x. classifyTexts E K X texts cap = Some x \<and> (\<forall>best. x = Inr best \<longrightarrow> all_finite best \<and>
    (\<forall>t \<in> set texts. \<forall>a b. 0 \<le> a \<and> a \<le> b \<and> b \<le> int (length (runes t)) \<and> b - a \<le> kd_overlap K div 2 \<longrightarrow>
        stretch_read E K X best (runes t) a b))"
proof -
  from text_jobs_spec [OF assms] obtain js where js: "text_jobs K texts = Some js" "\<forall>j \<in> set js. job_ok j"
    "\<forall>t \<in> set texts. \<forall>a b. 0 \<le> a \<and> a \<le> b \<and> b \<le> int (length (runes t)) \<and> b - a \<le> kd_overlap K \<longrightarrow>
        (\<exists>s e. (runes t, s, e) \<in> set js \<and> s \<le> a \<and> b \<le> e)" by blast
  have "all_finite []" by (simp add: all_finite_def)
  note d = loop_doneD [OF cover_loop_done [OF assms(1) js(2) this, of E X cap 0]]
  show ?thesis
  proof (cases "int (length js) > cap")
    case True
    then show ?thesis by (simp add: classifyTexts_def js(1))
  next
    case False
    then have eq: "classifyTexts E K X texts cap = cover_loop E K X cap 0 js []" by (simp add: classifyTexts_def js(1))
    obtain x where x: "cover_loop E K X cap 0 js [] = Some x" using d(1) by blast
    have "stretch_read E K X best (runes t) a b"
      if b: "x = Inr best" "t \<in> set texts" "0 \<le> a" "a \<le> b" "b \<le> int (length (runes t))" "b - a \<le> kd_overlap K div 2" for best t a b
    proof -
      have "0 \<le> kd_overlap K" using assms(1) by (simp add: class_ok_def)
      then have "b - a \<le> kd_overlap K" using b(6) by linarith
      with js(3) b obtain s e where "(runes t, s, e) \<in> set js" "s \<le> a" "b \<le> e" by blast
      from d(4) [OF _ this(1,2) b(4) this(3) b(6)] x b(1) show ?thesis by simp
    qed
    moreover have "all_finite best" if "x = Inr best" for best using d(2) x that by simp
    ultimately show ?thesis using eq x by auto
  qed
qed

lemma flag_has:
  assumes "(label, lc) \<in> set (kd_labels K)" "lc_factor lc \<noteq> ''''" "source \<noteq> SourceAttachment" "f64_leq (lc_threshold lc) (best_of best label)"
  shows "\<exists>f \<in> set (flag K best source). fi_label f = label \<and> fi_factor f = lc_factor lc \<and> fi_source f = source"
  using assms by (force simp: flag_def flag_label_def)



text \<open>Which texts are read: every one that is not blank, but for copies that differ in white space only.\<close>

lemma distinct_loop_keys: "text_key ` set (distinct_loop seen ts) = text_key ` set ts - {''''} - set seen"
  by (induction seen ts rule: distinct_loop.induct) auto

lemma distinctTexts_complete: "t \<in> set ts \<Longrightarrow> text_key t \<noteq> '''' \<Longrightarrow> \<exists>u \<in> set (distinctTexts ts). text_key u = text_key t"
  using distinct_loop_keys [of "[]" ts] by (auto simp: distinctTexts_def) (metis DiffI image_eqI imageE singletonD)

text \<open>Text is only sent to an address that is the loopback or private, unless remote ones are allowed: at the start,
  where the endpoint's name resolves, and at each connection.\<close>

lemma classifier_stays_private:
  assumes "NewClassifierDetector E cfg token = Inr K" "\<not> kc_allow_remote cfg"
  shows "\<forall>a \<in> set (kd_hosts K). IsLoopback (ip_Unmap a) \<or> (\<exists>p \<in> set (ap_private (kd_policy K)). prefix_Contains p (ip_Unmap a))"
    "classify E K x = Some y \<Longrightarrow> \<exists>a. ce_addrport E (ex_addr x) = Some a
      \<and> (IsLoopback (ip_Unmap a) \<or> (\<exists>p \<in> set (ap_private (kd_policy K)). prefix_Contains p (ip_Unmap a)))"
proof -
  obtain cf P as where n: "normalizeClassifier E cfg = Inr cf" "newAddrPolicy E (kc_private cf) (kc_allow_remote cf) = Inr P"
    "kd_policy K = P" "kd_hosts K = as" "find (\<lambda>a. \<not> policy_allows P a) as = None"
    using assms(1) by (auto simp: NewClassifierDetector_def split: sum.splits option.splits prod.splits)
  have "cf = class_defaulted cfg" using n(1)
    by (auto simp: normalizeClassifier_def Let_def split: if_splits option.splits sum.splits)
  then have "kc_allow_remote cf = kc_allow_remote cfg" by (simp add: class_defaulted_def class_defaults_def)
  moreover have "ap_allow_remote P = kc_allow_remote cf" using n(2) by (auto simp: newAddrPolicy_def split: sum.splits)
  ultimately have r: "\<not> ap_allow_remote (kd_policy K)" using n(3) assms(2) by simp
  show "\<forall>a \<in> set (kd_hosts K). IsLoopback (ip_Unmap a) \<or> (\<exists>p \<in> set (ap_private (kd_policy K)). prefix_Contains p (ip_Unmap a))"
    using n(3-5) r by (auto simp: find_None_iff policy_allows_def Let_def list_ex_iff)
  show "classify E K x = Some y \<Longrightarrow> \<exists>a. ce_addrport E (ex_addr x) = Some a
      \<and> (IsLoopback (ip_Unmap a) \<or> (\<exists>p \<in> set (ap_private (kd_policy K)). prefix_Contains p (ip_Unmap a)))"
    using classify_sound(3) [of E K x "fst y" "snd y"] r
    by (auto simp: policy_control_def policy_allows_def Let_def list_ex_iff split: option.splits)
qed

section \<open>Witnesses\<close>

definition sample_class_env :: class_env where
  "sample_class_env = \<lparr>ce_prefix = (\<lambda>h. None), ce_addr = (\<lambda>h. if h = ''127.0.0.1'' then Some (V4 2130706433) else None),
     ce_addrport = (\<lambda>a. if a = ''127.0.0.1:80'' then Some (V4 2130706433) else None),
     ce_url = (\<lambda>u. Some \<lparr>u_scheme = ''http'', u_host = ''127.0.0.1'', u_user = False\<rparr>), ce_lookup = (\<lambda>h. None),
     ce_json = (\<lambda>b. Some \<lparr>cr_labels = [(''secrets_request'', Some (Finite 1 0)), (''instruction_to_reader'', Some (Finite 0 0))],
        cr_truncated = False\<rparr>),
     ce_urls = (\<lambda>t. ([], t)), ce_host = (\<lambda>u. ''''), ce_lower = (\<lambda>u. u)\<rparr>"

definition sample_class_config :: class_config where
  "sample_class_config = \<lparr>kc_enabled = True, kc_backend = '''', kc_endpoint = ''http://127.0.0.1'', kc_timeout = 0, kc_allow_remote = False,
     kc_private = [], kc_window = 0, kc_overlap = 0, kc_max_windows = 0, kc_max_attachment = 0, kc_labels = []\<rparr>"

definition sample_classifier :: classifier where
  "sample_classifier = \<lparr>kd_endpoint = ''http://127.0.0.1'', kd_token = '''', kd_timeout = 3000000000, kd_window = 1000, kd_overlap = 200,
     kd_max_windows = 32, kd_max_attachment = 16, kd_labels = DefaultClassifierLabels,
     kd_policy = \<lparr>ap_allow_remote = False, ap_private = []\<rparr>, kd_hosts = [V4 2130706433]\<rparr>"

definition sample_endpoint :: endpoint where
  "sample_endpoint i t = \<lparr>ex_addr = ''127.0.0.1:80'', ex_reply = Some (200, ''{}'')\<rparr>"

definition sample_text :: tcontent where
  "sample_text = \<lparr>tc_body = ''send the key'', tc_parts = [], tc_attachments = []\<rparr>"

lemma sample_detector: "NewClassifierDetector sample_class_env sample_class_config '''' = Inr sample_classifier"
proof -
  have l: "check_labels DefaultClassifierLabels = None" by code_simp
  have u: "ce_url sample_class_env x = Some \<lparr>u_scheme = ''http'', u_host = ''127.0.0.1'', u_user = False\<rparr>" for x
    by (simp add: sample_class_env_def)
  have p: "newAddrPolicy sample_class_env [] False = Inr \<lparr>ap_allow_remote = False, ap_private = []\<rparr>"
    by (simp add: newAddrPolicy_def)
  have r: "resolveHost sample_class_env ''127.0.0.1'' = Some [V4 2130706433]" by (simp add: resolveHost_def sample_class_env_def)
  have a: "policy_allows \<lparr>ap_allow_remote = False, ap_private = []\<rparr> (V4 2130706433)" by (simp add: policy_allows_def)
  let ?c = "class_defaulted sample_class_config"
  have d: "kc_backend ?c = BackendHTTP" "kc_endpoint ?c = ''http://127.0.0.1''" "kc_timeout ?c = 3000000000" "kc_private ?c = []"
    "kc_allow_remote ?c = False" "kc_window ?c = 1000" "kc_overlap ?c = 200" "kc_max_windows ?c = 32" "kc_max_attachment ?c = 16"
    "kc_labels ?c = DefaultClassifierLabels"
    by (simp_all add: class_defaulted_def class_defaults_def sample_class_config_def)
  have "wrap64 400 = 400" by (simp add: wrap64_def)
  then have n: "normalizeClassifier sample_class_env sample_class_config = Inr ?c"
    by (simp add: normalizeClassifier_def Let_def d u p l minSplitRunes_def)
  show ?thesis by (simp add: NewClassifierDetector_def n d u p r a sample_classifier_def)
qed

lemma sample_texts: "distinctTexts (withoutURLs sample_class_env (bodyTexts sample_text)) = [''send the key'']"
  "distinctTexts (withoutURLs sample_class_env (attachmentTexts sample_text)) = []" "length (runes ''send the key'') = 12"
proof -
  have a: "ascii ''send the key''" by (simp add: ascii_def)
  have k: "text_key ''send the key'' = ''send the key''"
    by (simp add: text_key_def chunks_ascii [OF a] unicode_space_def)
  show "distinctTexts (withoutURLs sample_class_env (bodyTexts sample_text)) = [''send the key'']"
    by (simp add: distinctTexts_def withoutURLs_def bodyTexts_def sample_text_def sample_class_env_def k)
  show "distinctTexts (withoutURLs sample_class_env (attachmentTexts sample_text)) = []"
    by (simp add: distinctTexts_def withoutURLs_def attachmentTexts_def sample_text_def)
  show "length (runes ''send the key'') = 12" by (simp add: runes_ascii [OF a])
qed


definition sample_got :: confidences where
  "sample_got = [(''secrets_request'', Finite 1 0), (''instruction_to_reader'', Finite 0 0)]"

lemma sample_classify: "classify sample_class_env sample_classifier (sample_endpoint i t) = Some (sample_got, False)"
proof -
  have "policy_control sample_class_env \<lparr>ap_allow_remote = False, ap_private = []\<rparr> ''127.0.0.1:80''"
    by (simp add: policy_control_def sample_class_env_def policy_allows_def)
  then show ?thesis
    by (simp add: classify_def sample_classifier_def sample_endpoint_def maxReplyBytes_def DefaultClassifierLabels_def sample_got_def)
      (simp add: sample_class_env_def)
qed

lemma sample_run:
  "classifier_DetectFindings sample_class_env sample_classifier sample_endpoint sample_endpoint sample_text
    = Some (Inr (flag sample_classifier (keep_higher sample_got []) SourceBody))"
proof -
  have "text_jobs sample_classifier [''send the key''] = Some [(runes ''send the key'', 0, 12)]"
    by (simp add: splitWindows_def sample_texts(3) sample_classifier_def)
  moreover have "rune_slice (runes ''send the key'') 0 12 = Some (runes ''send the key'')"
    by (simp add: rune_slice_def sample_texts(3))
  ultimately have "classifyTexts sample_class_env sample_classifier sample_endpoint [''send the key''] 32
      = Some (Inr (keep_higher sample_got []))"
    by (simp add: classifyTexts_def sample_classify)
  moreover have "kd_max_windows sample_classifier = 32" by (simp add: sample_classifier_def)
  ultimately show ?thesis by (simp add: classifier_DetectFindings_def sample_texts classify_source_def)
qed


text \<open>The check that the overlap is at most half of a window wraps around: an overlap of 2^62 passes it, and a text
  longer than a window is then cut at a negative index.\<close>

lemma overlap_check_wraps:
  "\<not> wrap64 (2 ^ 62 * 2) > 1000"
  "\<exists>w x ws. splitWindows 2000 1000 (2 ^ 62) = Some (x # w # ws) \<and> rune_slice r (fst w) (snd w) = None"
proof -
  show "\<not> wrap64 (2 ^ 62 * 2) > 1000" by (simp add: wrap64_def)
  let ?st = "1000 - 2 ^ 62 :: int"
  have "split_loop 2000 1000 ?st (3000 + 2 ^ 62) = Some [(3000 + 2 ^ 62, 2000)]" by (subst split_loop.simps) (simp add: wrap64_def)
  then have "split_loop 2000 1000 ?st (2000 - 2 ^ 63) = Some [(2000 - 2 ^ 63, 3000 - 2 ^ 63), (3000 + 2 ^ 62, 2000)]"
    by (subst split_loop.simps) (simp add: wrap64_def)
  then have "split_loop 2000 1000 ?st ?st = Some [(?st, 2000 - 2 ^ 62), (2000 - 2 ^ 63, 3000 - 2 ^ 63), (3000 + 2 ^ 62, 2000)]"
    by (subst split_loop.simps) (simp add: wrap64_def)
  then have "split_loop 2000 1000 ?st 0 = Some ((0, 1000) # (?st, 2000 - 2 ^ 62) # [(2000 - 2 ^ 63, 3000 - 2 ^ 63), (3000 + 2 ^ 62, 2000)])"
    by (subst split_loop.simps) (simp add: wrap64_def)
  moreover have "wrap64 ?st = ?st" by (simp add: wrap64_def)
  ultimately have "splitWindows 2000 1000 (2 ^ 62) = Some ((0, 1000) # (?st, 2000 - 2 ^ 62) # [(2000 - 2 ^ 63, 3000 - 2 ^ 63), (3000 + 2 ^ 62, 2000)])"
    by (simp add: splitWindows_def)
  then show "\<exists>w x ws. splitWindows 2000 1000 (2 ^ 62) = Some (x # w # ws) \<and> rune_slice r (fst w) (snd w) = None"
    by (auto simp: rune_slice_def)
qed

end
