(* ===== verification/Synchealth.thy ===== *)
theory Synchealth
  imports Imapsync "HOL-Library.Multiset"
begin

text \<open>Model of \<open>cmd/darbaan/synchealth.go\<close> and of the cycle of the sync loop in \<open>cmd/darbaan/main.go\<close>
  (\<open>resolvePollInterval\<close>, \<open>runSync\<close>): the health of each account's sync, as the operator reads it.

  The registry is an association list. The clock and the text of an error are arguments; the zero time is 0.\<close>

section \<open>The registry\<close>

record health_record =
  hr_last_success :: time
  hr_first_failure :: time
  hr_errors :: int
  hr_last_error :: string
  hr_watermark :: u32
  hr_uid_validity :: u32
  hr_removals_failed :: int
  hr_writes_pending :: int

record sync_health =
  sh_rec :: "(string \<times> health_record) list"
  sh_threshold :: int

record sync_status =
  ss_inbox :: string
  ss_last_success :: string
  ss_errors :: int
  ss_last_error :: string
  ss_watermark :: u32
  ss_uid_validity :: u32
  ss_stalled :: bool
  ss_removals_failed :: int
  ss_writes_pending :: int

definition no_health :: health_record where
  "no_health = \<lparr>hr_last_success = 0, hr_first_failure = 0, hr_errors = 0, hr_last_error = '''', hr_watermark = 0,
     hr_uid_validity = 0, hr_removals_failed = 0, hr_writes_pending = 0\<rparr>"

definition newSyncHealth :: "int \<Rightarrow> sync_health" where
  "newSyncHealth threshold = \<lparr>sh_rec = [], sh_threshold = (if threshold < 1 then 1 else threshold)\<rparr>"

definition health_at :: "sync_health \<Rightarrow> string \<Rightarrow> health_record" where
  "health_at h inbox = (case map_of (sh_rec h) inbox of None \<Rightarrow> no_health | Some r \<Rightarrow> r)"

definition health_put :: "string \<Rightarrow> health_record \<Rightarrow> sync_health \<Rightarrow> sync_health" where
  "health_put inbox r h = h\<lparr>sh_rec := AList.update inbox r (sh_rec h)\<rparr>"

definition recordLabelRemovalFailure :: "string \<Rightarrow> sync_health \<Rightarrow> sync_health" where
  "recordLabelRemovalFailure inbox h = (let r = health_at h inbox
     in health_put inbox (r\<lparr>hr_removals_failed := wrap64 (hr_removals_failed r + 1)\<rparr>) h)"

definition setLabelWritesPending :: "string \<Rightarrow> int \<Rightarrow> sync_health \<Rightarrow> sync_health" where
  "setLabelWritesPending inbox n h = health_put inbox ((health_at h inbox)\<lparr>hr_writes_pending := n\<rparr>) h"

definition recordSuccess :: "time \<Rightarrow> string \<Rightarrow> u32 \<Rightarrow> u32 \<Rightarrow> sync_health \<Rightarrow> sync_health" where
  "recordSuccess now inbox uidValidity watermarkUID h = (
     let r = (health_at h inbox)\<lparr>hr_last_success := now, hr_errors := 0, hr_first_failure := 0, hr_last_error := ''''\<rparr>
     in health_put inbox (if uidValidity \<noteq> 0 then r\<lparr>hr_uid_validity := uidValidity, hr_watermark := watermarkUID\<rparr> else r) h)"

definition recordFailure :: "time \<Rightarrow> string \<Rightarrow> string option \<Rightarrow> sync_health \<Rightarrow> (bool \<times> int \<times> time) \<times> sync_health" where
  "recordFailure now inbox err h = (
     let r0 = health_at h inbox;
         r1 = (if hr_errors r0 = 0 then r0\<lparr>hr_first_failure := now\<rparr> else r0);
         r2 = r1\<lparr>hr_errors := wrap64 (hr_errors r1 + 1)\<rparr>;
         r3 = (case err of None \<Rightarrow> r2 | Some e \<Rightarrow> r2\<lparr>hr_last_error := e\<rparr>)
     in ((sh_threshold h \<le> hr_errors r3, hr_errors r3, hr_first_failure r3), health_put inbox r3 h))"

definition status_of :: "(time \<Rightarrow> string) \<Rightarrow> int \<Rightarrow> string \<times> health_record \<Rightarrow> sync_status" where
  "status_of fmt threshold e = (case e of (inbox, r) \<Rightarrow>
     \<lparr>ss_inbox = inbox, ss_last_success = (if hr_last_success r \<noteq> 0 then fmt (hr_last_success r) else ''''),
      ss_errors = hr_errors r, ss_last_error = hr_last_error r, ss_watermark = hr_watermark r,
      ss_uid_validity = hr_uid_validity r, ss_stalled = (threshold \<le> hr_errors r),
      ss_removals_failed = hr_removals_failed r, ss_writes_pending = hr_writes_pending r\<rparr>)"

definition health_snapshot :: "(time \<Rightarrow> string) \<Rightarrow> sync_health \<Rightarrow> sync_status list" where
  "health_snapshot fmt h = sort_key ss_inbox (map (status_of fmt (sh_threshold h)) (sh_rec h))"

section \<open>The cycles\<close>

definition defaultInboundPollInterval :: duration where
  "defaultInboundPollInterval = 60000000000"

definition resolvePollInterval :: "duration \<Rightarrow> duration \<times> bool" where
  "resolvePollInterval d = (if d \<le> 0 then (defaultInboundPollInterval, False) else (d, True))"

text \<open>One cycle: the pull, and its outcome in the registry. \<open>readable\<close> says whether the cursor can be read after it.\<close>

definition runSync ::
  "'h in_env \<Rightarrow> syncer \<Rightarrow> upsession \<Rightarrow> sync_io \<Rightarrow> (sync_err \<Rightarrow> string) \<Rightarrow> bool \<Rightarrow> time \<Rightarrow> string \<Rightarrow>
     (inbound \<times> state_store) \<times> sync_health \<Rightarrow> (inbound \<times> state_store) \<times> sync_health" where
  "runSync E Y U n errtext readable now inbox w = (case w of (s, h) \<Rightarrow>
     (case sy_sync E Y U n s of
        ((k, Some e), t, ups) \<Rightarrow> (t, snd (recordFailure now inbox (Some (errtext e)) h))
      | ((k, None), t, ups) \<Rightarrow>
          (case Watermark readable Y (snd t) of
             None \<Rightarrow> (t, recordSuccess now inbox 0 0 h)
           | Some (v, u) \<Rightarrow> (t, recordSuccess now inbox v u h))))"

section \<open>Which accounts are stalled\<close>

text \<open>What happens to the registry: the cycles of any number of accounts, and the counts of label writes.\<close>

datatype health_event = CycleOk time string u32 u32 | CycleFailed time string string | RemovalFailed string | WritesPending string int

fun health_step :: "health_event \<Rightarrow> sync_health \<Rightarrow> sync_health" where
  "health_step (CycleOk now i v u) h = recordSuccess now i v u h"
| "health_step (CycleFailed now i e) h = snd (recordFailure now i (Some e) h)"
| "health_step (RemovalFailed i) h = recordLabelRemovalFailure i h"
| "health_step (WritesPending i n) h = setLabelWritesPending i n h"

definition health_run :: "int \<Rightarrow> health_event list \<Rightarrow> sync_health" where
  "health_run threshold evs = fold health_step evs (newSyncHealth threshold)"

fun event_inbox :: "health_event \<Rightarrow> string" where
  "event_inbox (CycleOk now i v u) = i"
| "event_inbox (CycleFailed now i e) = i"
| "event_inbox (RemovalFailed i) = i"
| "event_inbox (WritesPending i n) = i"

text \<open>The cycles of one account, in order: whether each failed, and when.\<close>

fun cycle_of :: "string \<Rightarrow> health_event \<Rightarrow> (bool \<times> time) list" where
  "cycle_of i (CycleOk now j v u) = (if i = j then [(False, now)] else [])"
| "cycle_of i (CycleFailed now j e) = (if i = j then [(True, now)] else [])"
| "cycle_of i e = []"

definition cycles_of :: "string \<Rightarrow> health_event list \<Rightarrow> (bool \<times> time) list" where
  "cycles_of i evs = concat (map (cycle_of i) evs)"

definition streak :: "(bool \<times> time) list \<Rightarrow> (bool \<times> time) list" where
  "streak cs = rev (takeWhile fst (rev cs))"

lemma streak_snoc [simp]: "streak (cs @ [(True, t)]) = streak cs @ [(True, t)]" "streak (cs @ [(False, t)]) = []" "streak [] = []"
  by (simp_all add: streak_def)

lemma streak_le: "length (streak cs) \<le> length cs"
  by (simp add: streak_def) (metis length_rev length_takeWhile_le)

lemma streak_ge: "n \<le> length (streak cs) \<longleftrightarrow> n \<le> length cs \<and> list_all fst (drop (length cs - n) cs)"
proof -
  have "n \<le> length (takeWhile P xs) \<longleftrightarrow> n \<le> length xs \<and> list_all P (take n xs)" for P and xs :: "(bool \<times> time) list"
  proof (induction xs arbitrary: n)
    case (Cons x xs)
    then show ?case by (cases n) auto
  qed simp
  from this [of fst "rev cs"] show ?thesis by (simp add: streak_def take_rev)
qed

lemma health_put_rec [simp]:
  "map_of (sh_rec (health_put i r h)) = (map_of (sh_rec h))(i \<mapsto> r)" "sh_threshold (health_put i r h) = sh_threshold h"
  "health_at (health_put i r h) j = (if i = j then r else health_at h j)"
  by (simp_all add: health_put_def health_at_def update_conv')

lemma health_put_keys: "set (map fst (sh_rec (health_put i r h))) = insert i (set (map fst (sh_rec h)))"
  "distinct (map fst (sh_rec h)) \<Longrightarrow> distinct (map fst (sh_rec (health_put i r h)))"
  by (auto simp: health_put_def dom_update image_image distinct_update)

lemma health_step_frame:
  "sh_threshold (health_step e h) = sh_threshold h"
  "set (map fst (sh_rec (health_step e h))) = insert (event_inbox e) (set (map fst (sh_rec h)))"
  "distinct (map fst (sh_rec h)) \<Longrightarrow> distinct (map fst (sh_rec (health_step e h)))"
  by (cases e; simp add: recordSuccess_def recordFailure_def recordLabelRemovalFailure_def setLabelWritesPending_def Let_def
      health_put_keys del: set_map; fail)+

lemma cycles_of_snoc [simp]: "cycles_of i (evs @ [e]) = cycles_of i evs @ cycle_of i e" "cycles_of i [] = []"
  by (simp_all add: cycles_of_def)

lemma health_run_snoc [simp]: "health_run n (evs @ [e]) = health_step e (health_run n evs)" "health_run n [] = newSyncHealth n"
  by (simp_all add: health_run_def)

definition tracks :: "health_record \<Rightarrow> (bool \<times> time) list \<Rightarrow> bool" where
  "tracks r cs \<longleftrightarrow> hr_errors r = int (length (streak cs)) \<and> hr_first_failure r = (case streak cs of [] \<Rightarrow> 0 | c # _ \<Rightarrow> snd c)
     \<and> hr_last_success r = (case filter (\<lambda>c. \<not> fst c) (rev cs) of [] \<Rightarrow> 0 | c # _ \<Rightarrow> snd c)"

lemma health_step_tracks:
  assumes "tracks (health_at h i) cs" "length cs + 1 < 2 ^ 63"
  shows "tracks (health_at (health_step e h) i) (cs @ cycle_of i e)"
proof (cases e)
  case (CycleFailed now j err)
  have "int (length (streak cs)) + 1 < 2 ^ 63" using assms(2) streak_le [of cs] by simp
  then have w: "wrap64 (int (length (streak cs)) + 1) = int (length (streak cs)) + 1" by (simp add: wrap64_id in_int64_def)
  show ?thesis
  proof (cases "i = j")
    case True
    then show ?thesis using assms(1) CycleFailed w
      by (cases "streak cs") (auto simp: tracks_def recordFailure_def Let_def)
  next
    case False
    then show ?thesis using assms(1) CycleFailed by (simp add: recordFailure_def Let_def)
  qed
qed (use assms(1) in \<open>auto simp: tracks_def recordSuccess_def recordLabelRemovalFailure_def setLabelWritesPending_def Let_def\<close>)

lemma health_run_tracks: "length evs + 1 < 2 ^ 63 \<Longrightarrow> tracks (health_at (health_run n evs) i) (cycles_of i evs)"
proof (induction evs rule: rev_induct)
  case Nil
  show ?case by (simp add: tracks_def newSyncHealth_def health_at_def no_health_def)
next
  case (snoc e evs)
  have c: "length (cycle_of i e) \<le> 1" for e by (cases e) auto
  have "length (cycles_of i evs) \<le> length evs"
  proof (induction evs)
    case (Cons a evs)
    then show ?case using c [of a] by (simp add: cycles_of_def)
  qed (simp add: cycles_of_def)
  then show ?case using snoc health_step_tracks [of "health_run n evs" i "cycles_of i evs" e] by simp
qed

lemma health_run_accounts:
  "sh_threshold (health_run n evs) = max 1 n" "set (map fst (sh_rec (health_run n evs))) = event_inbox ` set evs"
  "distinct (map fst (sh_rec (health_run n evs)))"
  by (induction evs rule: rev_induct) (simp_all add: newSyncHealth_def health_step_frame del: set_map)

text \<open>C0: the stalled flag of the operator's view is exact. After any sequence of cycles of any accounts, with label
  writes between them, the snapshot lists each account that had an event once, in order; an account is flagged stalled exactly
  when it has had at least the threshold's number of cycles and the last that many all failed, whatever the other
  accounts did; the error count is the length of the current streak, which began at the recorded time.\<close>

theorem stalled_iff_streak:
  assumes "length evs + 1 < 2 ^ 63"
  shows "map ss_inbox (health_snapshot fmt (health_run n evs)) = sort (remdups (map event_inbox evs))
    \<and> (\<forall>st \<in> set (health_snapshot fmt (health_run n evs)).
       let cs = cycles_of (ss_inbox st) evs; k = nat (max 1 n)
       in ss_errors st = int (length (streak cs))
         \<and> (ss_stalled st \<longleftrightarrow> k \<le> length cs \<and> list_all fst (drop (length cs - k) cs)))"
proof (intro conjI ballI)
  let ?h = "health_run n evs"
  have i: "map ss_inbox (map (status_of fmt t) l) = map fst l" for t and l :: "(string \<times> health_record) list"
    by (simp add: status_of_def split_def)
  have "mset (map ss_inbox (health_snapshot fmt ?h)) = mset (map fst (sh_rec ?h))"
    by (simp only: health_snapshot_def mset_map [of ss_inbox] mset_sort) (simp only: i flip: mset_map)
  then have m: "map ss_inbox (health_snapshot fmt ?h) = sort (map fst (sh_rec ?h))"
    by (intro properties_for_sort [symmetric]) (simp_all add: health_snapshot_def)
  show "map ss_inbox (health_snapshot fmt ?h) = sort (remdups (map event_inbox evs))"
    unfolding m using health_run_accounts(2,3) [of n evs]
    by (intro sorted_distinct_set_unique) (simp_all del: set_map add: distinct_map, simp)
  fix st assume "st \<in> set (health_snapshot fmt ?h)"
  then obtain inb r where e: "(inb, r) \<in> set (sh_rec ?h)" "st = status_of fmt (sh_threshold ?h) (inb, r)"
    by (auto simp: health_snapshot_def)
  have "health_at ?h inb = r" using e(1) health_run_accounts(3) [of n evs] by (simp add: health_at_def)
  then have t: "tracks r (cycles_of inb evs)" using health_run_tracks [OF assms, of n inb] by simp
  show "let cs = cycles_of (ss_inbox st) evs; k = nat (max 1 n)
       in ss_errors st = int (length (streak cs))
         \<and> (ss_stalled st \<longleftrightarrow> k \<le> length cs \<and> list_all fst (drop (length cs - k) cs))"
    using t e(2) by (simp add: Let_def status_of_def tracks_def health_run_accounts(1) streak_ge [symmetric]) linarith
qed

definition sample_events :: "health_event list" where
  "sample_events = [CycleOk 1 ''a'' 1 1, CycleFailed 5 ''a'' ''x'', CycleOk 6 ''b'' 1 1, RemovalFailed ''b'', CycleFailed 7 ''a'' ''x'']"

theorem stalled_iff_streak_witness:
  "map ss_stalled (health_snapshot (\<lambda>t. ''t'') (health_run 2 sample_events)) = [True, False]
    \<and> map ss_inbox (health_snapshot (\<lambda>t. ''t'') (health_run 2 sample_events)) = [''a'', ''b'']"
proof -
  have "length sample_events + 1 < 2 ^ 63" by (simp add: sample_events_def)
  note t = stalled_iff_streak [OF this, of "\<lambda>t. ''t''" 2]
  have b: "map ss_inbox (health_snapshot (\<lambda>t. ''t'') (health_run 2 sample_events)) = [''a'', ''b'']"
    using t by (simp add: sample_events_def)
  then obtain x y where l: "health_snapshot (\<lambda>t. ''t'') (health_run 2 sample_events) = [x, y]" "ss_inbox x = ''a''" "ss_inbox y = ''b''"
    by (auto simp: map_eq_Cons_conv)
  show ?thesis using t unfolding l(1) by (simp add: l(2,3) Let_def sample_events_def cycles_of_def)
qed

end
