(* ===== verification/Fence.thy ===== *)
theory Fence
  imports Utf8
begin

text \<open>Model of \<open>internal/assessor/fence.go\<close>: quoting untrusted text between markers that the text cannot forge.

  NFKC folding of one rune and the class of invisible runes are the fields of a record; what is relied on of them is that
  ASCII is left alone and that nothing folds to an opening bracket among other characters. The pattern is matched on
  the folded copy byte by byte, without regard to ASCII case; the fold leaves no long s for Go's wider case folding
  to find.\<close>

section \<open>The folded copy\<close>

record fold_env =
  fe_nfkc :: "bytes \<Rightarrow> bytes"
  fe_ignorable :: "nat \<Rightarrow> bool"

definition markerLookalikes :: "(nat \<times> char) list" where
  "markerLookalikes = map (\<lambda>r. (r, CHR ''['')) [0x27E6, 0x2045, 0x298B, 0x298D, 0x298F]
     @ map (\<lambda>r. (r, CHR ''B'')) [0x0412, 0x0432, 0x0392, 0x0299, 0x13F4]
     @ map (\<lambda>r. (r, CHR ''E'')) [0x0415, 0x0435, 0x0395, 0x1D07, 0x13AC]
     @ map (\<lambda>r. (r, CHR ''G'')) [0x050C, 0x0261, 0x0262, 0x13C0]
     @ map (\<lambda>r. (r, CHR ''I'')) [0x0406, 0x0456, 0x04C0, 0x04CF, 0x0399, 0x03B9, 0x0131, 0x026A]
     @ map (\<lambda>r. (r, CHR ''N'')) [0x039D, 0x0274]
     @ map (\<lambda>r. (r, CHR ''D'')) [0x0500, 0x0501, 0x1D05, 0x13A0]
     @ map (\<lambda>r. (r, CHR ''U'')) [0x054D, 0x057D, 0x1D1C]
     @ map (\<lambda>r. (r, CHR ''T'')) [0x0422, 0x0442, 0x03A4, 0x1D1B, 0x13A2]
     @ map (\<lambda>r. (r, CHR ''R'')) [0x0280, 0x13A1]
     @ map (\<lambda>r. (r, CHR ''S'')) [0x0405, 0x0455, 0xA731, 0x13DA]"

definition fold_rune :: "fold_env \<Rightarrow> nat \<times> bytes \<Rightarrow> bytes" where
  "fold_rune E c = (if fe_ignorable E (fst c) then [] else case map_of markerLookalikes (fst c) of
       Some x \<Rightarrow> [x] | None \<Rightarrow> fe_nfkc E (snd c))"

text \<open>Each folded byte with the range of the rune it came from.\<close>

type_synonym folded = "(char \<times> nat \<times> nat) list"

fun fold_chunks :: "fold_env \<Rightarrow> nat \<Rightarrow> (nat \<times> bytes) list \<Rightarrow> folded" where
  "fold_chunks E i [] = []"
| "fold_chunks E i (c # cs) = map (\<lambda>x. (x, i, i + length (snd c))) (fold_rune E c) @ fold_chunks E (i + length (snd c)) cs"

definition foldForMarkers :: "fold_env \<Rightarrow> bytes \<Rightarrow> folded" where
  "foldForMarkers E s = fold_chunks E 0 (chunks s)"

section \<open>Neutralizing\<close>

text \<open>Whether a marker begins here, and the length of its first word, BEGIN or END.\<close>

definition marker_text :: "nat \<Rightarrow> string" where
  "marker_text k = (if k = 5 then ''[BEGIN UNTRUSTED'' else ''[END UNTRUSTED'')"

definition marker_word :: "string \<Rightarrow> nat option" where
  "marker_word s = (if has_prefix (to_upper s) (marker_text 5) then Some 5
     else if has_prefix (to_upper s) (marker_text 3) then Some 3 else None)"

definition slice :: "bytes \<Rightarrow> nat \<Rightarrow> nat \<Rightarrow> bytes" where
  "slice s a b = take (b - a) (drop a s)"

function neutral_scan :: "bytes \<Rightarrow> nat \<Rightarrow> folded \<Rightarrow> bytes" where
  "neutral_scan s prev [] = drop prev s"
| "neutral_scan s prev (x # xs) = (case marker_word (map fst (x # xs)) of
       None \<Rightarrow> neutral_scan s prev xs
     | Some k \<Rightarrow> slice s prev (fst (snd x)) @ ''['' @ map fst (take k xs) @ ''_UNTRUSTED''
         @ neutral_scan s (snd (snd (xs ! (k + 9)))) (drop (k + 10) xs))"
  by pat_completeness auto
termination by (relation "measure (\<lambda>(s, p, l). length l)") auto

definition neutralizeMarkers :: "fold_env \<Rightarrow> bytes \<Rightarrow> bytes" where
  "neutralizeMarkers E s = neutral_scan s 0 (foldForMarkers E s)"

definition label_char :: "char \<Rightarrow> char" where
  "label_char c = (if c = char_of (10 :: nat) \<or> c = char_of (13 :: nat) then CHR '' ''
     else if c = CHR ''['' then CHR ''('' else if c = CHR '']'' then CHR '')'' else c)"

definition sanitizeLabel :: "string \<Rightarrow> string" where
  "sanitizeLabel label = (let l = trim_space (map label_char label) in if l = '''' then ''content'' else l)"

definition fence_begin :: "string \<Rightarrow> string" where
  "fence_begin label = ''[BEGIN UNTRUSTED '' @ sanitizeLabel label @ '']''"

definition fence_end :: "string \<Rightarrow> string" where
  "fence_end label = ''[END UNTRUSTED '' @ sanitizeLabel label @ '']''"

definition newline :: char where "newline = char_of (10 :: nat)"

definition Fence :: "fold_env \<Rightarrow> string \<Rightarrow> bytes \<Rightarrow> bytes" where
  "Fence E label s = fence_begin label @ [newline] @ neutralizeMarkers E s @ [newline] @ fence_end label"

section \<open>Decoding at the seams\<close>

lemma decode_extend: "snd (decode_nats bs) \<noteq> 1 \<Longrightarrow> decode_nats (bs @ ys) = decode_nats bs"
proof (cases bs rule: decode_nats.cases)
  case (2 b0 r)
  assume s: "snd (decode_nats bs) \<noteq> 1"
  consider "r = []" | b1 where "r = [b1]" | b1 b2 where "r = [b1, b2]" | b1 b2 b3 t where "r = b1 # b2 # b3 # t"
    by (metis list.exhaust)
  then show ?thesis using s unfolding 2 by cases (simp_all split: if_split_asm)
qed simp

lemma decode_error: "snd (decode_nats bs) = 1 \<Longrightarrow> bs \<noteq> [] \<Longrightarrow> fst (decode_nats bs) = (if hd bs < 128 then hd bs else rune_error)"
proof (cases bs rule: decode_nats.cases)
  case (2 b0 r)
  assume s: "snd (decode_nats bs) = 1"
  consider "r = []" | b1 where "r = [b1]" | b1 b2 where "r = [b1, b2]" | b1 b2 b3 t where "r = b1 # b2 # b3 # t"
    by (metis list.exhaust)
  then show ?thesis using s unfolding 2 by cases (auto split: if_split_asm)
qed simp

lemma decode_take: "bs \<noteq> [] \<Longrightarrow> decode_nats (take (snd (decode_nats bs)) bs) = decode_nats bs"
proof (cases bs rule: decode_nats.cases)
  case (2 b0 r)
  consider "r = []" | b1 where "r = [b1]" | b1 b2 where "r = [b1, b2]" | b1 b2 b3 t where "r = b1 # b2 # b3 # t"
    by (metis list.exhaust)
  then show ?thesis unfolding 2 by cases (simp_all split: if_split)
qed simp

lemma decode_of_prefix:
  assumes "cs \<noteq> []" "snd (decode_nats (cs @ ys)) \<le> length cs"
  shows "decode_nats cs = decode_nats (cs @ ys)"
proof (cases "snd (decode_nats (cs @ ys)) = 1")
  case False
  let ?w = "snd (decode_nats (cs @ ys))"
  have "decode_nats (take ?w cs) = decode_nats (cs @ ys)" using decode_take [of "cs @ ys"] assms by simp
  then show ?thesis using decode_extend [of "take ?w cs" "drop ?w cs"] False by simp
next
  case True
  show ?thesis
  proof (cases "snd (decode_nats cs) = 1")
    case one: True
    show ?thesis using decode_error [OF one assms(1)] decode_error [OF True] assms(1) True one by (simp add: prod_eq_iff)
  next
    case False
    then show ?thesis using decode_extend [of cs ys] by simp
  qed
qed

lemma decode_ascii_next: "cs \<noteq> [] \<Longrightarrow> x < 128 \<Longrightarrow> decode_nats (cs @ x # ys) = decode_nats cs"
proof (cases "snd (decode_nats cs) = 1")
  case False
  then show ?thesis by (rule decode_extend)
next
  case True
  assume a: "cs \<noteq> []" "x < 128"
  then obtain b0 r where 2: "cs = b0 # r" by (cases cs) auto
  consider "r = []" | b1 where "r = [b1]" | b1 b2 where "r = [b1, b2]" | b1 b2 b3 t where "r = b1 # b2 # b3 # t"
    by (metis list.exhaust)
  then show ?thesis using True a(2) unfolding 2
    by cases (auto simp: cont_def second_ok_def split: if_split_asm list.splits)
qed

lemma decode_take4: "decode_nats (take 4 bs) = decode_nats bs"
proof (cases bs rule: decode_nats.cases)
  case (2 b0 r)
  consider "r = []" | b1 where "r = [b1]" | b1 b2 where "r = [b1, b2]" | b1 b2 b3 t where "r = b1 # b2 # b3 # t"
    by (metis list.exhaust)
  then show ?thesis unfolding 2 by cases simp_all
qed simp

lemma DecodeRune_nats: "DecodeRune s = decode_nats (map of_char s)"
  by (simp add: DecodeRune_def take_map [symmetric] decode_take4)

lemma chunks_prefix: "chunks s = cs @ ds \<Longrightarrow> chunks (concat (map snd cs)) = cs \<and> chunks (concat (map snd ds)) = ds"
proof (induction cs arbitrary: s)
  case Nil
  then have "concat (map snd ds) = s" by (metis append_Nil concat_chunks)
  then show ?case using Nil by simp
next
  case (Cons c cs)
  have s: "s \<noteq> []" using Cons.prems by (cases s) auto
  define w where "w = snd (DecodeRune s)"
  have c: "c = (fst (DecodeRune s), take w s)" and r: "chunks (drop w s) = cs @ ds"
    using Cons.prems chunks_Cons [OF s] by (simp_all add: w_def)
  have w: "0 < w" "w \<le> length s" using DecodeRune_width s by (simp_all add: w_def)
  let ?p = "take w s @ concat (map snd cs)"
  have "drop w s = concat (map snd cs) @ concat (map snd ds)" using concat_chunks [of "drop w s"] r by simp
  then have sp: "s = ?p @ concat (map snd ds)" by (metis append.assoc append_take_drop_id)
  have ne: "?p \<noteq> []" using w s by simp
  have e: "map of_char ?p @ map of_char (concat (map snd ds)) = map of_char s" using sp by (metis map_append)
  have A: "decode_nats (map of_char ?p) = decode_nats (map of_char ?p @ map of_char (concat (map snd ds)))"
  proof (rule decode_of_prefix)
    show "snd (decode_nats (map of_char ?p @ map of_char (concat (map snd ds)))) \<le> length (map of_char ?p)"
      unfolding e using w by (simp add: w_def DecodeRune_nats)
  qed (use ne in simp)
  have d: "DecodeRune ?p = DecodeRune s" unfolding DecodeRune_nats using A unfolding e .
  have "chunks ?p = c # chunks (concat (map snd cs))"
    using chunks_Cons [OF ne] d w by (simp add: c w_def)
  then show ?case using Cons.IH [OF r] c by simp
qed

lemma chunks_ascii_cons: "of_char x < (128 :: nat) \<Longrightarrow> chunks (x # t) = (of_char x, [x]) # chunks t"
  by (subst chunks_Cons) (simp_all add: DecodeRune_nats)

lemma chunks_ascii_append: "ascii a \<Longrightarrow> chunks (a @ t) = map (\<lambda>c. (of_char c, [c])) a @ chunks t"
  by (induction a) (simp_all add: ascii_def chunks_ascii_cons)

lemma chunks_seam: "of_char x < (128 :: nat) \<Longrightarrow> chunks (s @ x # t) = chunks s @ chunks (x # t)"
proof (induction s rule: chunks.induct)
  case (1 s)
  show ?case
  proof (cases "s = []")
    case False
    have d: "DecodeRune (s @ x # t) = DecodeRune s"
      using decode_ascii_next [of "map of_char s" "of_char x" "map of_char t"] False 1(2) by (simp add: DecodeRune_nats)
    have w: "snd (DecodeRune s) \<le> length s" using DecodeRune_width False by simp
    show ?thesis using 1(1) [OF False surjective_pairing [symmetric] 1(2)] False d w
      by (simp add: chunks_Cons [of s] chunks_Cons [of "s @ x # t"])
  qed simp
qed

section \<open>A text cannot forge a marker\<close>

definition fold_ok :: "fold_env \<Rightarrow> bool" where
  "fold_ok E \<longleftrightarrow> (\<forall>c. of_char c < (128 :: nat) \<longrightarrow> fe_nfkc E [c] = [c] \<and> \<not> fe_ignorable E (of_char c))
     \<and> (\<forall>b. CHR ''['' \<in> set (fe_nfkc E b) \<longrightarrow> fe_nfkc E b = ''['')"

definition folds :: "fold_env \<Rightarrow> (nat \<times> bytes) list \<Rightarrow> bytes" where
  "folds E cs = concat (map (fold_rune E) cs)"

definition blen :: "(nat \<times> bytes) list \<Rightarrow> nat" where
  "blen cs = length (concat (map snd cs))"

lemma folds_simps [simp]: "folds E [] = []" "folds E (c # cs) = fold_rune E c @ folds E cs" "folds E (cs @ ds) = folds E cs @ folds E ds"
  by (simp_all add: folds_def)

lemma blen_simps [simp]: "blen [] = 0" "blen (c # cs) = length (snd c) + blen cs" "blen (cs @ ds) = blen cs + blen ds"
  by (simp_all add: blen_def)

lemma fold_chunks_fst: "map fst (fold_chunks E i cs) = folds E cs"
  by (induction cs arbitrary: i) (simp_all add: comp_def)

lemma fold_chunks_append: "fold_chunks E i (cs @ ds) = fold_chunks E i cs @ fold_chunks E (i + blen cs) ds"
  by (induction cs arbitrary: i) (simp_all add: add.assoc)

text \<open>Every lookalike and every folding of ASCII is one byte, so a bracket is folded alone.\<close>

lemma lookalike_high: "map_of markerLookalikes r = Some x \<Longrightarrow> 128 \<le> r"
proof -
  assume "map_of markerLookalikes r = Some x"
  then have "(r, x) \<in> set markerLookalikes" by (rule map_of_SomeD)
  moreover have "list_all (\<lambda>p. 128 \<le> fst p) markerLookalikes" by (simp add: markerLookalikes_def)
  ultimately show ?thesis by (auto simp: list_all_iff)
qed

lemma fold_bracket: "fold_ok E \<Longrightarrow> CHR ''['' \<in> set (fold_rune E c) \<Longrightarrow> fold_rune E c = ''[''"
  by (auto simp: fold_rune_def fold_ok_def split: if_splits option.splits)

lemma fold_ascii: "fold_ok E \<Longrightarrow> of_char c < (128 :: nat) \<Longrightarrow> fold_rune E (of_char c, [c]) = [c]"
  using lookalike_high [of "of_char c"] by (auto simp: fold_rune_def fold_ok_def split: option.splits)

lemma folds_ascii: "fold_ok E \<Longrightarrow> ascii a \<Longrightarrow> folds E (map (\<lambda>c. (of_char c, [c])) a) = a"
  by (induction a) (simp_all add: ascii_def fold_ascii)

text \<open>A marker begins with a bracket and has no other; the bytes of its word are letters.\<close>

lemma upper_code: "(of_char (upper_char c) :: nat) = (if 97 \<le> (of_char c :: nat) \<and> (of_char c :: nat) \<le> 122 then of_char c - 32 else of_char c)"
  using of_char_lt_256 [of c] by (auto simp: upper_char_def)

lemma upper_bracket: "upper_char c = CHR ''['' \<longleftrightarrow> c = CHR ''[''"
proof
  assume "upper_char c = CHR ''[''"
  then have "(of_char (upper_char c) :: nat) = 91" by simp
  then have b: "(of_char c :: nat) = 91" unfolding upper_code by (simp split: if_splits)
  have "(of_char (CHR ''['') :: nat) = 91" by simp
  then have "(of_char c :: nat) = of_char (CHR ''['')" by (rule trans [OF b sym])
  then show "c = CHR ''[''" by (simp only: of_char_eq_iff)
qed (simp add: upper_char_def)

lemma upper_ascii: "(of_char (upper_char c) :: nat) < 128 \<Longrightarrow> (of_char c :: nat) < 128"
  unfolding upper_code by (simp split: if_splits)

lemma marker_text_facts: "k \<in> {3, 5} \<Longrightarrow> length (marker_text k) = k + 11 \<and> hd (marker_text k) = CHR ''[''
    \<and> CHR ''['' \<notin> set (tl (marker_text k)) \<and> list_all (\<lambda>c. of_char c < (128 :: nat)) (marker_text k) \<and> marker_text k ! 1 = (if k = 5 then CHR ''B'' else CHR ''E'')"
  by (auto simp: marker_text_def)

lemma has_prefix_take: "has_prefix u m \<longleftrightarrow> take (length m) u = m"
proof
  assume "take (length m) u = m"
  then have "u = m @ drop (length m) u" by (metis append_take_drop_id)
  then show "has_prefix u m" unfolding has_prefix_iff by (rule exI)
qed (auto simp: has_prefix_iff)

lemma marker_word_iff: "marker_word s = Some k \<longleftrightarrow> k \<in> {3, 5} \<and> map upper_char (take (k + 11) s) = marker_text k"
proof -
  have p: "has_prefix (to_upper s) (marker_text j) \<longleftrightarrow> map upper_char (take (j + 11) s) = marker_text j" if "j \<in> {3, 5}" for j
    using marker_text_facts [OF that] by (simp add: has_prefix_take to_upper_def take_map)
  have x: "\<not> (has_prefix (to_upper s) (marker_text 5) \<and> has_prefix (to_upper s) (marker_text 3))"
    by (auto simp: has_prefix_iff marker_text_def)
  show ?thesis using x p [of 3] p [of 5] unfolding marker_word_def by (cases "k = 3"; cases "k = 5"; simp)
qed

lemma marker_wordD:
  assumes "marker_word s = Some k"
  shows "k \<in> {3, 5}" "k + 11 \<le> length s" "s \<noteq> []" "hd s = CHR ''[''" "CHR ''['' \<notin> set (tl (take (k + 11) s))"
    "ascii (take (k + 11) s)" "upper_char (s ! (k + 1)) = CHR '' ''"
proof -
  have m: "k \<in> {3, 5}" "map upper_char (take (k + 11) s) = marker_text k" using assms marker_word_iff by auto
  note f = marker_text_facts [OF m(1)]
  show "k \<in> {3, 5}" by (rule m(1))
  have "length (map upper_char (take (k + 11) s)) = k + 11" using m f by simp
  then show len: "k + 11 \<le> length s" by simp
  then show ne: "s \<noteq> []" by auto
  have "upper_char (hd s) = hd (marker_text k)" using m(2) ne by (metis hd_map hd_take add_gr_0 zero_less_numeral take_eq_Nil)
  then show "hd s = CHR ''[''" using f upper_bracket by simp
  have "tl (marker_text k) = map upper_char (tl (take (k + 11) s))" using m(2) by (metis map_tl)
  then have t: "set (tl (marker_text k)) = upper_char ` set (tl (take (k + 11) s))" by simp
  then show "CHR ''['' \<notin> set (tl (take (k + 11) s))" using f upper_bracket by (metis image_eqI)
  have "set (marker_text k) = upper_char ` set (take (k + 11) s)" using m(2) by (metis set_map)
  then show "ascii (take (k + 11) s)" using f upper_ascii unfolding ascii_def list_all_iff by (metis image_eqI)
  have "map upper_char (take (k + 11) s) ! (k + 1) = upper_char (s ! (k + 1))" using len by simp
  then show "upper_char (s ! (k + 1)) = CHR '' ''" using m by (auto simp: marker_text_def)
qed

lemma marker_word_take: "k + 11 \<le> n \<Longrightarrow> marker_word (take n s) = Some k \<longleftrightarrow> marker_word s = Some k"
  by (simp add: marker_word_iff min_def)

lemma marker_word_append: "k + 11 \<le> length s \<Longrightarrow> marker_word (s @ t) = Some k \<longleftrightarrow> marker_word s = Some k"
  by (simp add: marker_word_iff)

lemma marker_word_no_bracket: "s = [] \<or> hd s \<noteq> CHR ''['' \<Longrightarrow> marker_word s = None"
  using marker_wordD(3,4) [of s] by (cases "marker_word s") auto

definition marker_free :: "bytes \<Rightarrow> bool" where
  "marker_free f \<longleftrightarrow> (\<forall>i < length f. marker_word (drop i f) = None)"

lemma marker_free_cons: "marker_free (c # f) \<longleftrightarrow> marker_word (c # f) = None \<and> marker_free f"
  by (auto simp: marker_free_def less_Suc_eq_0_disj)

lemma marker_free_Nil [simp]: "marker_free []"
  by (simp add: marker_free_def)

lemma marker_free_skip: "CHR ''['' \<notin> set a \<Longrightarrow> marker_free (a @ f) \<longleftrightarrow> marker_free f"
  by (induction a) (auto simp: marker_free_cons marker_word_no_bracket)

text \<open>No marker begins in \<open>p\<close> when \<open>q\<close> follows, and none can reach over a bracket.\<close>

definition free_before :: "bytes \<Rightarrow> bytes \<Rightarrow> bool" where
  "free_before p q \<longleftrightarrow> (\<forall>i < length p. marker_word (drop i (p @ q)) = None)"

lemma free_before_snoc: "free_before p (x @ q) \<Longrightarrow> CHR ''['' \<notin> set x \<Longrightarrow> free_before (p @ x) q"
proof -
  assume a: "free_before p (x @ q)" "CHR ''['' \<notin> set x"
  have "marker_word (drop i ((p @ x) @ q)) = None" if i: "i < length (p @ x)" for i
  proof (cases "i < length p")
    case True
    then show ?thesis using a(1) by (simp add: free_before_def)
  next
    case False
    then have h: "drop i ((p @ x) @ q) = drop (i - length p) x @ q" "drop (i - length p) x \<noteq> []" using i by simp_all
    then have "hd (drop i ((p @ x) @ q)) \<in> set x" by (metis hd_append2 hd_in_set in_set_dropD)
    then show ?thesis using a(2) by (intro marker_word_no_bracket) metis
  qed
  then show ?thesis by (simp add: free_before_def)
qed

lemma free_before_bracket: "free_before p q \<Longrightarrow> marker_word q = None \<Longrightarrow> q = CHR ''['' # r \<Longrightarrow> free_before (p @ ''['') r"
  by (auto simp: free_before_def less_Suc_eq)

lemma free_before_any:
  assumes "free_before p q" "r = [] \<or> hd r = CHR ''[''"
  shows "free_before p r"
  unfolding free_before_def
proof (intro allI impI, rule ccontr)
  fix i assume i: "i < length p" "marker_word (drop i (p @ r)) \<noteq> None"
  then obtain k where k: "marker_word (drop i (p @ r)) = Some k" by blast
  note m = marker_wordD [OF k]
  have d: "drop i (p @ t) = drop i p @ t" for t using i(1) by simp
  show False
  proof (cases "k + 11 \<le> length (drop i p)")
    case True
    have "marker_word (drop i (p @ q)) = Some k" using k marker_word_append [OF True] unfolding d by metis
    then show False using assms(1) i(1) by (simp add: free_before_def)
  next
    case False
    have r: "r \<noteq> []" using m(2) False d by auto
    then obtain r' where r': "r = CHR ''['' # r'" using assms(2) by (cases r) auto
    obtain y ys where y: "drop i p = y # ys" using i(1) by (metis drop_eq_Nil linorder_not_less neq_Nil_conv)
    have "length (y # ys) \<le> k + 11" using False y by simp
    then have "take (k + 11) (drop i (p @ r)) = (y # ys) @ take (k + 11 - length (y # ys)) r"
      unfolding d y by (metis take_append take_all)
    moreover have "0 < k + 11 - length (y # ys)" using False y by simp
    ultimately have "CHR ''['' \<in> set (tl (take (k + 11) (drop i (p @ r))))" using r' by (cases "k + 11 - length (y # ys)") auto
    then show False using m(5) by blast
  qed
qed

lemma marker_free_append:
  assumes "free_before p q" "marker_free r" "r = [] \<or> hd r = CHR ''[''"
  shows "marker_free (p @ r)"
  unfolding marker_free_def
proof (intro allI impI)
  fix i assume i: "i < length (p @ r)"
  show "marker_word (drop i (p @ r)) = None"
  proof (cases "i < length p")
    case False
    then have "drop i (p @ r) = drop (i - length p) r" "i - length p < length r" using i by simp_all
    then show ?thesis using assms(2) by (simp add: marker_free_def)
  qed (use free_before_any [OF assms(1,3)] in \<open>simp add: free_before_def\<close>)
qed

lemma scan_skip: "list_all (\<lambda>x. fst x \<noteq> CHR ''['') a \<Longrightarrow> neutral_scan s prev (a @ l) = neutral_scan s prev l"
  by (induction a) (simp_all add: marker_word_no_bracket)

lemma split_folds:
  assumes "n < length (folds E cs)"
  shows "\<exists>ca cm cb. cs = ca @ cm # cb \<and> length (folds E ca) \<le> n \<and> n < length (folds E ca) + length (fold_rune E cm)"
  using assms
proof (induction cs arbitrary: n)
  case (Cons c cs)
  show ?case
  proof (cases "n < length (fold_rune E c)")
    case True
    then show ?thesis by (intro exI [of _ "[]"] exI [of _ c] exI [of _ cs]) simp
  next
    case False
    have "n - length (fold_rune E c) < length (folds E cs)" using False Cons.prems by simp
    from Cons.IH [OF this] obtain ca cm cb where "cs = ca @ cm # cb" "length (folds E ca) \<le> n - length (fold_rune E c)"
      "n - length (fold_rune E c) < length (folds E ca) + length (fold_rune E cm)" by blast
    then have "c # cs = (c # ca) @ cm # cb \<and> length (folds E (c # ca)) \<le> n \<and> n < length (folds E (c # ca)) + length (fold_rune E cm)"
      using False by (auto simp: not_less)
    then show ?thesis by blast
  qed
qed simp

text \<open>Where the byte at index \<open>n\<close> came from, and what is left behind it.\<close>

lemma fold_chunks_split:
  assumes "cs = ca @ cm # cb" "length (folds E ca) \<le> n" "n < length (folds E ca) + length (fold_rune E cm)"
  shows "snd (snd (fold_chunks E j cs ! n)) = j + blen (ca @ [cm])"
    and "drop (Suc n) (fold_chunks E j cs) = map (\<lambda>x. (x, j + blen ca, j + blen (ca @ [cm]))) (drop (Suc n - length (folds E ca)) (fold_rune E cm))
      @ fold_chunks E (j + blen (ca @ [cm])) cb"
proof -
  have l: "length (fold_chunks E j ca) = length (folds E ca)" by (metis fold_chunks_fst length_map)
  have c: "fold_chunks E j cs = fold_chunks E j ca @ map (\<lambda>x. (x, j + blen ca, j + blen (ca @ [cm]))) (fold_rune E cm)
      @ fold_chunks E (j + blen (ca @ [cm])) cb" by (simp add: assms(1) fold_chunks_append add.assoc)
  show "snd (snd (fold_chunks E j cs ! n)) = j + blen (ca @ [cm])"
    using assms(2,3) less_diff_conv2 [OF assms(2), of "length (fold_rune E cm)"] unfolding c
    by (simp add: nth_append l add.commute)
  show "drop (Suc n) (fold_chunks E j cs) = map (\<lambda>x. (x, j + blen ca, j + blen (ca @ [cm]))) (drop (Suc n - length (folds E ca)) (fold_rune E cm))
      @ fold_chunks E (j + blen (ca @ [cm])) cb"
    using assms(2,3) unfolding c by (simp add: l drop_map)
qed

lemma fold_no_bracket_list: "CHR ''['' \<notin> set b \<Longrightarrow> list_all (\<lambda>x. fst x \<noteq> CHR ''['') (map (\<lambda>x. (x, j, l)) b)"
  by (auto simp: list_all_iff)

lemma take_marker: "take (k + 11) (c # f) = c # take (k + 10) f"
proof -
  have "k + 11 = Suc (k + 10)" by simp
  then show ?thesis by (metis take_Suc_Cons)
qed

lemma ascii_simps: "ascii (c # s) \<longleftrightarrow> of_char c < (128 :: nat) \<and> ascii s" "ascii (s @ t) \<longleftrightarrow> ascii s \<and> ascii t"
  "ascii s \<Longrightarrow> ascii (take n s)" "ascii []"
  by (auto simp: ascii_def list_all_iff dest: in_set_takeD)

lemma rewritten_free:
  assumes "marker_word ((CHR ''['' # f)) = Some k" "marker_free g"
  shows "marker_free (''['' @ take k f @ ''_UNTRUSTED'' @ g)"
proof -
  note m = marker_wordD [OF assms(1)]
  have len: "k \<le> length f" using m(2) by simp
  have "set (take k f) \<subseteq> set (take (k + 10) f)" by (rule set_take_subset_set_take) simp
  moreover have "tl (take (k + 11) (CHR ''['' # f)) = take (k + 10) f" by (simp add: take_marker)
  ultimately have w: "CHR ''['' \<notin> set (take k f)" using m(5) by (metis subsetD)
  have tail: "marker_free (take k f @ ''_UNTRUSTED'' @ g)"
    using marker_free_skip [of "take k f @ ''_UNTRUSTED''" g] w assms(2) by simp
  have "marker_word (''['' @ take k f @ ''_UNTRUSTED'' @ g) = None"
  proof (rule ccontr)
    assume "marker_word (''['' @ take k f @ ''_UNTRUSTED'' @ g) \<noteq> None"
    then obtain k' where k': "marker_word (''['' @ take k f @ ''_UNTRUSTED'' @ g) = Some k'" by blast
    note m' = marker_wordD [OF k']
    have o: "map upper_char (take (k + 11) (CHR ''['' # f)) ! 1 = marker_text k ! 1" using assms(1) unfolding marker_word_iff by simp
    have n: "map upper_char (take (k' + 11) (''['' @ take k f @ ''_UNTRUSTED'' @ g)) ! 1 = marker_text k' ! 1"
      using k' unfolding marker_word_iff by simp
    have "0 < k" using m(1) by auto
    then have "marker_text k ! 1 = marker_text k' ! 1" using o n len m(2) m'(2) by (simp add: nth_append)
    then have "k = k'" using marker_text_facts [OF m(1)] marker_text_facts [OF m'(1)] m(1) m'(1) by (auto split: if_splits)
    then have "upper_char (CHR ''_'') = CHR '' ''" using m'(7) len by (simp add: nth_append)
    then show False by (simp add: upper_char_def)
  qed
  then show ?thesis using tail marker_free_cons [of "CHR ''[''" "take k f @ ''_UNTRUSTED'' @ g"] by simp
qed

lemma neutral_scan_free:
  assumes E: "fold_ok E"
  shows "drop prev s = concat (map snd (cs1 @ cs2)) \<Longrightarrow> chunks (drop prev s) = cs1 @ cs2 \<Longrightarrow> free_before (folds E cs1) (folds E cs2)
    \<Longrightarrow> marker_free (folds E (chunks (neutral_scan s prev (fold_chunks E (prev + blen cs1) cs2))))"
proof (induction "length cs2" arbitrary: prev cs1 cs2 rule: less_induct)
  case less
  show ?case
  proof (cases cs2)
    case Nil
    then have "chunks (drop prev s) = cs1" using less.prems(2) by simp
    then show ?thesis using less.prems(3) Nil by (simp add: free_before_def marker_free_def)
  next
    case (Cons c cs)
    let ?j = "prev + blen cs1 + length (snd c)"
    have step: "marker_free (folds E (chunks (neutral_scan s prev (fold_chunks E ?j cs))))"
      if "free_before (folds E (cs1 @ [c])) (folds E cs)"
      using less.hyps [of cs prev "cs1 @ [c]"] less.prems(1,2) that Cons by (simp add: add.assoc)
    show ?thesis
    proof (cases "CHR ''['' \<in> set (fold_rune E c)")
      case False
      have "free_before (folds E (cs1 @ [c])) (folds E cs)" using free_before_snoc [OF _ False] less.prems(3) Cons by simp
      then show ?thesis using step scan_skip [OF fold_no_bracket_list [OF False]] Cons by simp
    next
      case True
      then have b: "fold_rune E c = ''[''" by (rule fold_bracket [OF E])
      define x where "x = (CHR ''['', prev + blen cs1, ?j)"
      have l: "fold_chunks E (prev + blen cs1) cs2 = x # fold_chunks E ?j cs" using b by (simp add: Cons x_def)
      have f: "map fst (x # fold_chunks E ?j cs) = CHR ''['' # folds E cs" by (simp add: x_def fold_chunks_fst)
      show ?thesis
      proof (cases "marker_word (CHR ''['' # folds E cs)")
        case None
        then have "free_before (folds E (cs1 @ [c])) (folds E cs)"
          using free_before_bracket [of "folds E cs1" "folds E cs2" "folds E cs"] less.prems(3) Cons b by simp
        then show ?thesis using step None f by (simp only: l neutral_scan.simps option.case)
      next
        case (Some k)
        note m = marker_wordD [OF Some]
        have "k + 9 < length (folds E cs)" using m(2) by simp
        from split_folds [OF this] obtain ca cm cb where sp: "cs = ca @ cm # cb" "length (folds E ca) \<le> k + 9"
          "k + 9 < length (folds E ca) + length (fold_rune E cm)" by blast
        define p2 where "p2 = ?j + blen (ca @ [cm])"
        define a where "a = ''['' @ take k (folds E cs) @ ''_UNTRUSTED''"
        define rest where "rest = drop (Suc (k + 9) - length (folds E ca)) (fold_rune E cm)"
        have "CHR ''['' \<notin> set rest"
        proof
          assume r: "CHR ''['' \<in> set rest"
          then have "fold_rune E cm = ''[''" using fold_bracket [OF E, of cm] by (auto simp: rest_def dest: in_set_dropD)
          then show False using r sp(2) by (simp add: rest_def)
        qed
        note sk = scan_skip [OF fold_no_bracket_list [OF this], of s p2 "?j + blen ca" p2 "fold_chunks E p2 cb"]
        note fs = fold_chunks_split [OF sp, of ?j]
        have after: "neutral_scan s (snd (snd (fold_chunks E ?j cs ! (k + 9)))) (drop (k + 10) (fold_chunks E ?j cs))
            = neutral_scan s p2 (fold_chunks E p2 cb)"
          using sk fs by (simp add: p2_def rest_def add.commute [of k])
        have sl: "slice s prev (prev + blen cs1) = concat (map snd cs1)"
          using less.prems(1) by (simp add: slice_def blen_def)
        have out: "neutral_scan s prev (fold_chunks E (prev + blen cs1) cs2)
            = concat (map snd cs1) @ a @ neutral_scan s p2 (fold_chunks E p2 cb)"
        proof -
          have "map fst (take k (fold_chunks E ?j cs)) = take k (folds E cs)" by (simp add: take_map [symmetric] fold_chunks_fst)
          then show ?thesis unfolding l neutral_scan.simps f Some option.case after sl[symmetric] by (simp add: a_def x_def)
        qed
        have d2: "drop p2 s = concat (map snd cb)"
        proof -
          have e: "p2 = prev + blen (cs1 @ c # ca @ [cm])" by (simp add: p2_def add.assoc)
          have "drop p2 s = drop (blen (cs1 @ c # ca @ [cm])) (drop prev s)" unfolding e by (simp add: add.commute)
          also have "drop prev s = concat (map snd (cs1 @ c # ca @ [cm])) @ concat (map snd cb)"
            using less.prems(1) Cons sp(1) by simp
          finally show ?thesis by (simp only: blen_def append_eq_conv_conj) simp
        qed
        have cc: "chunks (drop prev s) = (cs1 @ c # ca @ [cm]) @ cb" using less.prems(2) Cons sp(1) by simp
        have c2: "chunks (drop p2 s) = cb" using chunks_prefix [OF cc] d2 by simp
        have c1: "chunks (concat (map snd cs1)) = cs1" using chunks_prefix [OF less.prems(2)] by simp
        let ?out = "neutral_scan s p2 (fold_chunks E p2 cb)"
        have "length cb < length cs2" using Cons sp(1) by simp
        from less.hyps [OF this, of p2 "[]"] have ih: "marker_free (folds E (chunks ?out))"
          using d2 c2 by (simp add: free_before_def)
        have "ascii (take k (take (k + 10) (folds E cs)))" using m(6) unfolding take_marker by (simp only: ascii_simps)
        then have asc: "ascii a" by (simp add: a_def ascii_simps)
        have "chunks (concat (map snd cs1) @ a @ ?out) = cs1 @ map (\<lambda>c. (of_char c, [c])) a @ chunks ?out"
        proof -
          obtain a' where a': "a = CHR ''['' # a'" by (simp add: a_def)
          have "chunks (concat (map snd cs1) @ CHR ''['' # (a' @ ?out)) = cs1 @ chunks (CHR ''['' # (a' @ ?out))"
            using chunks_seam [of "CHR ''[''" "concat (map snd cs1)" "a' @ ?out"] c1 by simp
          then show ?thesis using chunks_ascii_append [OF asc, of ?out] by (simp add: a')
        qed
        then have fo: "folds E (chunks (neutral_scan s prev (fold_chunks E (prev + blen cs1) cs2))) = folds E cs1 @ a @ folds E (chunks ?out)"
          unfolding out by (simp add: folds_ascii [OF E asc])
        show ?thesis unfolding fo
        proof (rule marker_free_append)
          show "free_before (folds E cs1) (folds E cs2)" by (rule less.prems(3))
          show "marker_free (a @ folds E (chunks ?out))" using rewritten_free [OF Some ih] by (simp add: a_def)
        qed (simp add: a_def)
      qed
    qed
  qed
qed

definition marker_positions :: "bytes \<Rightarrow> nat list" where
  "marker_positions f = filter (\<lambda>i. marker_word (drop i f) \<noteq> None) [0..<length f]"

text \<open>What a reader sees who does not tell lookalikes apart and does not see invisible characters.\<close>

definition folded_view :: "fold_env \<Rightarrow> bytes \<Rightarrow> bytes" where
  "folded_view E s = folds E (chunks s)"

lemma neutralized_free: "fold_ok E \<Longrightarrow> marker_free (folded_view E (neutralizeMarkers E s))"
  using neutral_scan_free [of E 0 s "[]" "chunks s"]
  by (simp add: neutralizeMarkers_def foldForMarkers_def folded_view_def free_before_def)

lemma upper_newline: "upper_char newline = newline" "k \<in> {3, 5} \<Longrightarrow> newline \<notin> set (marker_text k)"
proof -
  have n: "of_char newline = (10 :: nat)" by (simp add: newline_def)
  then show "upper_char newline = newline" by (simp add: upper_char_def)
  have "list_all (\<lambda>c. of_char c \<noteq> (10 :: nat)) (marker_text j)" for j by (simp add: marker_text_def)
  then show "newline \<notin> set (marker_text k)" using n by (auto simp: list_all_iff)
qed

lemma newline_bracket: "CHR ''['' \<noteq> newline"
proof
  assume "CHR ''['' = newline"
  then have "of_char (CHR ''['') = (of_char newline :: nat)" by (rule arg_cong)
  then show False by (simp add: newline_def)
qed

lemma marker_free_newline:
  assumes "marker_free f"
  shows "free_before (f @ [newline]) []"
  unfolding free_before_def
proof (intro allI impI, rule ccontr)
  fix i assume i: "i < length (f @ [newline])" "marker_word (drop i ((f @ [newline]) @ [])) \<noteq> None"
  then obtain k where k: "marker_word (drop i (f @ [newline])) = Some k" by auto
  have l: "k + 11 \<le> length (drop i (f @ [newline]))" using marker_wordD(2) [OF k] .
  show False
  proof (cases "k + 11 \<le> length (drop i f)")
    case True
    then have "i < length f" by simp
    then show False using k assms marker_word_append [OF True, of "[newline]"] by (simp add: marker_free_def)
  next
    case False
    then have "take (k + 11) (drop i (f @ [newline])) = drop i (f @ [newline])" using l i(1) by simp
    then have "newline \<in> set (take (k + 11) (drop i (f @ [newline])))" using i(1) by (simp add: drop_Cons')
    then have "newline \<in> set (marker_text k)" using k upper_newline(1) unfolding marker_word_iff by (metis image_eqI set_map)
    then show False using k upper_newline(2) unfolding marker_word_iff by blast
  qed
qed

lemma trim_space_set: "set (trim_space s) \<subseteq> set s"
  by (auto simp: trim_space_def dest!: set_dropWhileD)

lemma sanitizeLabel_ok: "CHR ''['' \<notin> set (sanitizeLabel label)" "ascii label \<Longrightarrow> ascii (sanitizeLabel label)"
proof -
  have "CHR ''['' \<noteq> label_char c" for c by (simp add: label_char_def)
  then have "CHR ''['' \<notin> set (map label_char label)" by auto
  then show "CHR ''['' \<notin> set (sanitizeLabel label)" using trim_space_set [of "map label_char label"]
    by (auto simp: sanitizeLabel_def Let_def)
  assume "ascii label"
  then have "ascii (map label_char label)" by (auto simp: ascii_def list_all_iff label_char_def)
  then have "ascii (trim_space (map label_char label))" using trim_space_set [of "map label_char label"]
    by (auto simp: ascii_def list_all_iff)
  then show "ascii (sanitizeLabel label)" by (simp add: sanitizeLabel_def Let_def) (simp add: ascii_def)
qed

lemma marker_at_frame: "marker_word (fence_begin label @ t) = Some 5" "marker_word (fence_end label) = Some 3"
  by (simp_all add: fence_begin_def fence_end_def marker_word_iff marker_text_def upper_char_def)

lemma drop_past: "f = a @ b \<Longrightarrow> length a \<le> i \<Longrightarrow> drop i f = drop (i - length a) b"
  by simp

lemma filter_upt: "a \<le> b \<Longrightarrow> b \<le> c \<Longrightarrow> filter P [a..<c] = filter P [a..<b] @ filter P [b..<c]"
  by (metis filter_append le_iff_add upt_add_eq_append)

lemma filter_none: "(\<And>i. a \<le> i \<Longrightarrow> i < b \<Longrightarrow> \<not> P i) \<Longrightarrow> filter P [a..<b] = []"
  by (simp add: filter_empty_conv)

text \<open>C0: quoted text cannot forge its frame. However a text spells a marker, in any case, with invisible characters
  in it, with fullwidth or other lookalike characters, a reader who folds all that away finds in the fenced text exactly two
  markers: the one the fence opens with and the one it closes with.\<close>

theorem fence_unforgeable:
  assumes "fold_ok E" "ascii label" "f = folded_view E (Fence E label s)"
  shows "marker_positions f = [0, length f - length (fence_end label)]"
proof -
  let ?b = "fence_begin label" and ?e = "fence_end label"
  let ?m = "folded_view E (neutralizeMarkers E s)"
  have ab: "ascii (?b @ [newline])" "ascii (newline # ?e)"
    using sanitizeLabel_ok(2) [OF assms(2)] by (simp_all add: fence_begin_def fence_end_def ascii_simps newline_def)
  have nl: "of_char newline < (128 :: nat)" by (simp add: newline_def)
  have "chunks (Fence E label s) = map (\<lambda>c. (of_char c, [c])) (?b @ [newline]) @ chunks (neutralizeMarkers E s)
      @ map (\<lambda>c. (of_char c, [c])) (newline # ?e)"
  proof -
    have "Fence E label s = (?b @ [newline]) @ (neutralizeMarkers E s @ newline # ?e)" by (simp add: Fence_def)
    then have "chunks (Fence E label s) = map (\<lambda>c. (of_char c, [c])) (?b @ [newline]) @ chunks (neutralizeMarkers E s @ newline # ?e)"
      using chunks_ascii_append [OF ab(1)] by simp
    moreover have "chunks (newline # ?e) = map (\<lambda>c. (of_char c, [c])) (newline # ?e)"
      using chunks_ascii_append [OF ab(2), of "[]"] by simp
    ultimately show ?thesis using chunks_seam [OF nl] by simp
  qed
  then have f: "f = ?b @ newline # (?m @ newline # ?e)"
    unfolding assms(3) folded_view_def
    by (simp add: folds_ascii [OF assms(1) ab(1)] folds_ascii [OF assms(1) ab(2)] del: map_append list.map(2) folds_simps(2))
  let ?P = "\<lambda>i. marker_word (drop i f) \<noteq> None"
  define n where "n = length ?b" define k where "k = length ?m"
  have lf: "length f = n + 1 + k + 1 + length ?e" by (simp add: f n_def k_def)
  have nb: "CHR ''['' \<notin> set (tl ?b @ [newline])" using sanitizeLabel_ok(1) newline_bracket by (simp add: fence_begin_def)
  have ne: "CHR ''['' \<notin> set (tl ?e)" using sanitizeLabel_ok(1) by (simp add: fence_end_def)
  have n1: "0 < n" "0 < length ?e" by (simp_all add: n_def fence_begin_def fence_end_def)
  have hd0: "?P 0" using marker_at_frame(1) by (simp add: f)
  have p1: "\<not> ?P i" if "1 \<le> i" "i < n + 1" for i
  proof -
    have "drop i f = drop (i - 1) (tl ?b @ [newline]) @ ?m @ newline # ?e" "drop (i - 1) (tl ?b @ [newline]) \<noteq> []"
      using that n1 by (cases i; cases ?b; simp add: f n_def; fail)+
    then have "hd (drop i f) \<in> set (tl ?b @ [newline])" by (metis hd_append2 hd_in_set in_set_dropD)
    then show ?thesis using nb marker_word_no_bracket by metis
  qed
  have fb: "free_before (?m @ [newline]) ?e"
    using free_before_any [OF marker_free_newline [OF neutralized_free [OF assms(1)]], of ?e] by (simp add: fence_end_def)
  have p2: "\<not> ?P i" if "n + 1 \<le> i" "i < n + 1 + k + 1" for i
  proof -
    have "drop i f = drop (i - (n + 1)) ((?m @ [newline]) @ ?e)"
      using drop_past [of f "?b @ [newline]" "(?m @ [newline]) @ ?e" i] that(1) by (simp add: f n_def)
    moreover have "i - (n + 1) < length (?m @ [newline])" using that by (simp add: k_def)
    ultimately show ?thesis using fb by (simp add: free_before_def)
  qed
  have p3: "?P (n + 1 + k + 1)" using marker_at_frame(2) by (simp add: f n_def k_def)
  have p4: "\<not> ?P i" if "n + 1 + k + 2 \<le> i" "i < length f" for i
  proof -
    have "drop i f = drop (i - (n + k + 2)) ?e"
      using drop_past [of f "?b @ newline # ?m @ [newline]" ?e i] that by (simp add: f n_def k_def)
    moreover have "drop i f \<noteq> []" using that by simp
    moreover have "i - (n + k + 2) = Suc (i - (n + k + 3))" using that by simp
    ultimately have d: "drop i f = drop (i - (n + k + 3)) (tl ?e)" "drop i f \<noteq> []" by (simp_all add: drop_Suc)
    then have "hd (drop i f) \<in> set (tl ?e)" by (metis hd_in_set in_set_dropD)
    then show ?thesis using ne marker_word_no_bracket by metis
  qed
  have z: "filter ?P [0..<1] = [0]" using hd0 by simp
  have e: "filter ?P [n + 1 + k + 1..<n + 1 + k + 2] = [n + 1 + k + 1]" using p3 by simp
  have t: "n + 1 + k + 2 \<le> length f" "length f - length ?e = n + 1 + k + 1" using n1(2) lf by linarith+
  have "filter ?P [0..<length f] = filter ?P [0..<1] @ filter ?P [1..<length f]" by (rule filter_upt) (use t in simp_all)
  also have "filter ?P [1..<length f] = filter ?P [1..<n + 1] @ filter ?P [n + 1..<length f]" by (rule filter_upt) (use t in simp_all)
  also have "filter ?P [n + 1..<length f] = filter ?P [n + 1..<n + 1 + k + 1] @ filter ?P [n + 1 + k + 1..<length f]"
    by (rule filter_upt) (use t in simp_all)
  also have "filter ?P [n + 1 + k + 1..<length f] = filter ?P [n + 1 + k + 1..<n + 1 + k + 2] @ filter ?P [n + 1 + k + 2..<length f]"
    by (rule filter_upt) (use t in simp_all)
  finally show ?thesis unfolding marker_positions_def z e t(2)
    using filter_none [of 1 "n + 1" ?P, OF p1] filter_none [of "n + 1" "n + 1 + k + 1" ?P, OF p2]
      filter_none [of "n + 1 + k + 2" "length f" ?P, OF p4] by (simp only: append.simps)
qed

text \<open>ASCII text without a bracket is left alone.\<close>

lemma neutral_scan_none: "(\<And>x. x \<in> set l \<Longrightarrow> fst x \<noteq> CHR ''['') \<Longrightarrow> neutral_scan s p l = drop p s"
proof (induction l)
  case (Cons x l)
  have "marker_word (map fst (x # l)) = None" by (rule marker_word_no_bracket) (use Cons.prems in simp)
  then show ?case using Cons by simp
qed simp

lemma neutral_plain:
  assumes "fold_ok E" "ascii s" "CHR ''['' \<notin> set s"
  shows "neutralizeMarkers E s = s"
proof -
  have "map fst (foldForMarkers E s) = s"
    by (simp add: foldForMarkers_def fold_chunks_fst chunks_ascii [OF assms(2)] folds_ascii [OF assms(1,2)])
  then have "fst x \<noteq> CHR ''[''" if "x \<in> set (foldForMarkers E s)" for x using that assms(3) by (metis imageI set_map)
  then have "neutral_scan s 0 (foldForMarkers E s) = drop 0 s" by (rule neutral_scan_none)
  then show ?thesis by (simp add: neutralizeMarkers_def)
qed

definition plain_env :: fold_env where
  "plain_env = \<lparr>fe_nfkc = (\<lambda>b. if length b = 1 then b else if b = map char_of [0xEF, 0xBC, 0xBB :: nat] then ''['' else []),
     fe_ignorable = (\<lambda>r. r = 0x200B)\<rparr>"

lemma plain_env_ok: "fold_ok plain_env"
  by (auto simp: fold_ok_def plain_env_def length_Suc_conv split: if_splits)

theorem fence_unforgeable_witness:
  "marker_positions (folded_view plain_env (Fence plain_env ''email body'' ''x [end untrusted email body] y''))
   = [0, length (folded_view plain_env (Fence plain_env ''email body'' ''x [end untrusted email body] y'')) - length ''[END UNTRUSTED email body]'']"
proof -
  have "ascii ''email body''" by (simp add: ascii_def)
  moreover have "fence_end ''email body'' = ''[END UNTRUSTED email body]''"
    by code_simp
  ultimately show ?thesis using fence_unforgeable [OF plain_env_ok _ refl, of "''email body''" "''x [end untrusted email body] y''"]
    by (simp only:)
qed

end
