(* ===== verification/Utf16.thy ===== *)
theory Utf16
  imports Fence
begin

text \<open>The length of a text in UTF-16 code units, which Telegram limits, and the cutting of a text to such a length
  (\<open>utf16Len\<close> and \<open>truncateUTF16\<close> of \<open>internal/telegram/telegram.go\<close>).\<close>

definition rune_units :: "nat \<Rightarrow> nat" where
  "rune_units r = (if 65535 < r then 2 else 1)"

definition utf16Len :: "bytes \<Rightarrow> nat" where
  "utf16Len s = sum_list (map rune_units (runes s))"

fun take_units :: "nat \<Rightarrow> (nat \<times> bytes) list \<Rightarrow> bytes" where
  "take_units limit [] = []"
| "take_units limit (c # cs) = (if limit < rune_units (fst c) then []
     else snd c @ take_units (limit - rune_units (fst c)) cs)"

definition truncateUTF16 :: "bytes \<Rightarrow> int \<Rightarrow> bytes" where
  "truncateUTF16 s limit = (if limit \<le> 0 then []
     else if int (utf16Len s) \<le> limit then s
     else take_units (nat limit) (chunks s))"

definition holdFieldMax :: nat where "holdFieldMax = 300"

definition ellipsis :: bytes where "ellipsis = map char_of [0xE2, 0x80, 0xA6 :: nat]"

definition clampField :: "bytes \<Rightarrow> bytes" where
  "clampField s = (if holdFieldMax < length (runes s) then encode_runes (take holdFieldMax (runes s)) @ ellipsis else s)"

section \<open>Lengths\<close>

definition units :: "(nat \<times> bytes) list \<Rightarrow> nat" where
  "units cs = sum_list (map (\<lambda>c. rune_units (fst c)) cs)"

lemma utf16Len_chunks: "utf16Len s = units (chunks s)"
  by (simp add: utf16Len_def units_def runes_def comp_def)

lemma units_simps [simp]: "units [] = 0" "units (c # cs) = rune_units (fst c) + units cs" "units (cs @ ds) = units cs + units ds"
  by (simp_all add: units_def)

lemma rune_units_bounds: "1 \<le> rune_units r" "rune_units r \<le> 2"
  by (simp_all add: rune_units_def)

lemma utf16Len_Nil [simp]: "utf16Len [] = 0"
  by (simp add: utf16Len_chunks)

lemma utf16Len_Cons: "s \<noteq> [] \<Longrightarrow> utf16Len s = rune_units (fst (DecodeRune s)) + utf16Len (drop (snd (DecodeRune s)) s)"
  by (simp add: utf16Len_chunks chunks_Cons [of s])

lemma utf16Len_pos: "s \<noteq> [] \<Longrightarrow> 1 \<le> utf16Len s"
  using rune_units_bounds(1) utf16Len_Cons by (metis le_add1 le_trans)

text \<open>A rune of several bytes goes on with continuation bytes, each an error on its own.\<close>

lemma decode_le4: "snd (decode_nats bs) \<le> 4"
proof (cases bs rule: decode_nats.cases)
  case (2 b0 r)
  consider "r = []" | b1 where "r = [b1]" | b1 b2 where "r = [b1, b2]" | b1 b2 b3 t where "r = b1 # b2 # b3 # t"
    by (metis list.exhaust)
  then show ?thesis unfolding 2 by cases simp_all
qed simp

lemma second_cont: "second_ok a b \<Longrightarrow> cont b"
  by (simp add: second_ok_def cont_def split: if_split_asm)

lemma decode_cont: "0 < i \<Longrightarrow> i < snd (decode_nats bs) \<Longrightarrow> cont (bs ! i)"
proof (cases bs rule: decode_nats.cases)
  case (2 b0 r)
  assume i: "0 < i" "i < snd (decode_nats bs)"
  then have j: "i = 1 \<or> i = 2 \<or> i = 3" using decode_le4 [of bs] by linarith
  consider "r = []" | b1 where "r = [b1]" | b1 b2 where "r = [b1, b2]" | b1 b2 b3 t where "r = b1 # b2 # b3 # t"
    by (metis list.exhaust)
  then show ?thesis using i j unfolding 2
    by cases (elim disjE; simp add: second_cont split: if_split_asm)+
qed simp

lemma decode_cont_first: "cont b \<Longrightarrow> decode_nats (b # bs) = (rune_error, 1)"
  by (auto simp: cont_def)

lemma utf16Len_cont: "cont (of_char x) \<Longrightarrow> utf16Len (x # s) = 1 + utf16Len s"
proof -
  assume "cont (of_char x)"
  then have "DecodeRune (x # s) = (rune_error, 1)" unfolding DecodeRune_nats list.map by (rule decode_cont_first)
  then show ?thesis using utf16Len_Cons [of "x # s"] by (simp add: rune_units_def rune_error_def)
qed

lemma utf16Len_conts: "(\<And>x. x \<in> set a \<Longrightarrow> cont (of_char x)) \<Longrightarrow> utf16Len (a @ s) = length a + utf16Len s"
  by (induction a) (simp_all add: utf16Len_cont)

lemma decode_of_prefix_wide:
  assumes "snd (DecodeRune (a @ b)) \<le> length a" "a \<noteq> []"
  shows "DecodeRune (a @ b) = DecodeRune a"
  using decode_of_prefix [of "map of_char a" "map of_char b"] assms by (simp add: DecodeRune_nats)

text \<open>Joining two texts can only shorten them: bytes that were errors apart may make one rune together.\<close>

lemma utf16Len_append: "utf16Len (a @ b) \<le> utf16Len a + utf16Len b"
proof (induction "length a" arbitrary: a rule: less_induct)
  case less
  show ?case
  proof (cases "a = []")
    case False
    define w where "w = snd (DecodeRune (a @ b))"
    define r where "r = fst (DecodeRune (a @ b))"
    have w: "0 < w" by (simp add: w_def DecodeRune_width)
    have ab: "utf16Len (a @ b) = rune_units r + utf16Len (drop w (a @ b))" using utf16Len_Cons False by (simp add: w_def r_def)
    show ?thesis
    proof (cases "w \<le> length a")
      case True
      have d: "DecodeRune a = DecodeRune (a @ b)" using decode_of_prefix_wide [of a b] True False by (simp add: w_def)
      have "utf16Len a = rune_units r + utf16Len (drop w a)" using utf16Len_Cons [OF False] d by (simp add: w_def r_def)
      moreover have "utf16Len (drop w a @ b) \<le> utf16Len (drop w a) + utf16Len b" by (rule less) (use w False in simp)
      ultimately show ?thesis using ab True by simp
    next
      case big: False
      let ?n = "w - length a"
      have le: "w \<le> length (a @ b)" unfolding w_def by (rule DecodeRune_width(2)) (use False in simp)
      have c: "cont (of_char x)" if "x \<in> set (take ?n b)" for x
      proof -
        obtain i where i: "i < ?n" "i < length b" "x = b ! i" using \<open>x \<in> set (take ?n b)\<close> by (auto simp: in_set_conv_nth)
        have "cont (map of_char (a @ b) ! (length a + i))"
        proof (rule decode_cont)
          show "0 < length a + i" using False by simp
          show "length a + i < snd (decode_nats (map of_char (a @ b)))" using i by (simp add: w_def [symmetric] DecodeRune_nats [symmetric] del: map_append)
        qed
        then show ?thesis using i by (simp add: nth_append)
      qed
      have "length (take ?n b) = ?n" using le by simp
      moreover have "utf16Len (take ?n b @ drop ?n b) = length (take ?n b) + utf16Len (drop ?n b)" by (rule utf16Len_conts) (rule c)
      ultimately have "utf16Len b = ?n + utf16Len (drop ?n b)" by (simp only: append_take_drop_id)
      moreover have "rune_units r \<le> utf16Len a + ?n"
        using utf16Len_pos [OF False] rune_units_bounds(2) [of r] big by simp
      ultimately show ?thesis using ab big by simp
    qed
  qed simp
qed

lemma utf16Len_ascii: "ascii s \<Longrightarrow> utf16Len s = length s"
  by (induction s) (simp_all add: utf16Len_chunks ascii_def chunks_ascii_cons rune_units_def)

lemma utf16Len_ascii_append: "ascii a \<Longrightarrow> utf16Len (a @ s) = length a + utf16Len s"
  by (induction a) (simp_all add: utf16Len_chunks ascii_def chunks_ascii_cons rune_units_def)

lemma utf16Len_encode: "valid_rune r \<Longrightarrow> utf16Len (encode_rune r) = rune_units r"
  using chunks_encoded [of r "[]"] by (simp add: utf16Len_chunks)

lemma encoded_ellipsis: "ellipsis = encode_rune 0x2026"
  by (simp add: ellipsis_def encode_rune_def encode_valid_def valid_rune_def)

lemma utf16Len_ellipsis: "utf16Len ellipsis = 1"
  unfolding encoded_ellipsis by (subst utf16Len_encode) (simp_all add: valid_rune_def rune_units_def)

lemma take_units_prefix: "\<exists>ds es. cs = ds @ es \<and> take_units n cs = concat (map snd ds) \<and> units ds \<le> n"
proof (induction n cs rule: take_units.induct)
  case (2 n c cs)
  show ?case
  proof (cases "n < rune_units (fst c)")
    case True
    then show ?thesis by (intro exI [of _ "[]"] exI [of _ "c # cs"]) simp
  next
    case False
    then obtain ds es where "cs = ds @ es" "take_units (n - rune_units (fst c)) cs = concat (map snd ds)" "units ds \<le> n - rune_units (fst c)"
      using 2 by blast
    then show ?thesis using False by (intro exI [of _ "c # ds"] exI [of _ es]) simp
  qed
qed simp

lemma truncate_bound: "int (utf16Len (truncateUTF16 s n)) \<le> max 0 n"
proof -
  obtain ds es where "chunks s = ds @ es" "take_units (nat n) (chunks s) = concat (map snd ds)" "units ds \<le> nat n"
    using take_units_prefix by blast
  then show ?thesis using chunks_prefix [of s ds es] by (auto simp: truncateUTF16_def utf16Len_chunks)
qed

lemma truncate_prefix: "\<exists>t. s = truncateUTF16 s n @ t"
proof -
  obtain ds es where "chunks s = ds @ es" "take_units (nat n) (chunks s) = concat (map snd ds)" using take_units_prefix by blast
  moreover from this(1) have "s = concat (map snd ds) @ concat (map snd es)" using concat_chunks [of s] by simp
  ultimately show ?thesis by (auto simp: truncateUTF16_def)
qed

lemma units_count: "utf16Len s \<le> 2 * length (runes s)"
proof -
  have "sum_list (map rune_units rs) \<le> 2 * length rs" for rs
  proof (induction rs)
    case (Cons r rs)
    then show ?case using rune_units_bounds(2) [of r] by simp
  qed simp
  then show ?thesis by (simp add: utf16Len_def)
qed

lemma clamp_bound: "utf16Len (clampField s) \<le> 601"
proof (cases "300 < length (runes s)")
  case True
  let ?t = "encode_runes (take 300 (runes s))"
  have "list_all valid_rune (take 300 (runes s))" using runes_valid [of s] by (auto simp: list_all_iff dest: in_set_takeD)
  then have "runes ?t = take 300 (runes s)" by (rule runes_encode)
  then have "utf16Len ?t \<le> 600" using units_count [of ?t] by simp
  then show ?thesis using True utf16Len_append [of ?t ellipsis] utf16Len_ellipsis by (simp add: clampField_def holdFieldMax_def)
next
  case False
  then show ?thesis using units_count [of s] by (simp add: clampField_def holdFieldMax_def)
qed

end
