(* ===== verification/Mailtext.thy ===== *)
theory Mailtext
  imports Prelude
begin

text \<open>Model of \<open>internal/mailtext\<close>: the inert text of a message that the assessor reads and the operator is shown.

  Reading MIME is the third-party parser's: a message is the tree it yields, with its errors where they occur. A leaf
  has the parsed header fields and a reader, whose error comes after its last byte or together with it. The HTML tokenizer
  gives a list of tokens. Both, and the decoding of encoded words, are the fields of a record.\<close>

section \<open>What the parser yields\<close>

record body_reader =
  br_data :: bytes
  br_fails :: bool
  br_joined :: bool

record mime_leaf =
  lf_type :: string
  lf_type_params :: "(string \<times> string) list"
  lf_disp :: string
  lf_disp_params :: "(string \<times> string) list"
  lf_body :: body_reader

text \<open>The parts of a multipart end with the end of the stream, or with an error that yields no part.\<close>

datatype mime_entity = Multipart "next_part list" | Leaf mime_leaf
  and next_part = Part bool mime_entity | Broken

datatype html_token = TextToken bytes | StartTag string | SelfClosingTag string | EndTag string | OtherToken

text \<open>Parsing gives no entity, or one and whether it came with an error.\<close>

record mime_lib =
  ml_read :: "bytes \<Rightarrow> (mime_entity \<times> bool) option"
  ml_tokens :: "bytes \<Rightarrow> html_token list"
  ml_words :: "string \<Rightarrow> string option"

section \<open>HTML to text\<close>

definition newline_char :: char where "newline_char = char_of (10 :: nat)"

definition blockElements :: "string list" where
  "blockElements = [''br'', ''p'', ''div'', ''li'', ''tr'', ''ul'', ''ol'', ''table'', ''thead'', ''tbody'',
     ''h1'', ''h2'', ''h3'', ''h4'', ''h5'', ''h6'', ''blockquote'', ''pre'', ''hr'', ''section'', ''article'', ''header'', ''footer'']"

definition code_tag :: "string \<Rightarrow> bool" where
  "code_tag tag \<longleftrightarrow> to_lower tag \<in> {''script'', ''style''}"

definition block_break :: "string \<Rightarrow> bytes" where
  "block_break tag = (if to_lower tag \<in> set blockElements then [newline_char] else [])"

fun html_scan :: "nat \<Rightarrow> html_token list \<Rightarrow> bytes" where
  "html_scan skip [] = []"
| "html_scan skip (TextToken t # ts) = (if skip = 0 then t else []) @ html_scan skip ts"
| "html_scan skip (StartTag n # ts) = (if code_tag n then html_scan (skip + 1) ts else block_break n @ html_scan skip ts)"
| "html_scan skip (SelfClosingTag n # ts) = block_break n @ html_scan skip ts"
| "html_scan skip (EndTag n # ts) = (if code_tag n \<and> 0 < skip then html_scan (skip - 1) ts else block_break n @ html_scan skip ts)"
| "html_scan skip (OtherToken # ts) = html_scan skip ts"

definition inline_ws :: "char \<Rightarrow> bool" where
  "inline_ws c \<longleftrightarrow> c = CHR '' '' \<or> of_char c \<in> {9, 11, 12, 13 :: nat}"

fun collapse_ws :: "bytes \<Rightarrow> bytes" where
  "collapse_ws [] = []"
| "collapse_ws (c # s) = (if \<not> inline_ws c then c # collapse_ws s
     else case s of d # t \<Rightarrow> if inline_ws d then collapse_ws s else CHR '' '' # collapse_ws s | [] \<Rightarrow> [CHR '' ''])"

definition line_pad :: "char \<Rightarrow> bool" where
  "line_pad c \<longleftrightarrow> c = CHR '' '' \<or> of_char c = (9 :: nat)"

fun split_lines :: "bytes \<Rightarrow> bytes list" where
  "split_lines [] = [[]]"
| "split_lines (c # s) = (if c = newline_char then [] # split_lines s
     else case split_lines s of [] \<Rightarrow> [[c]] | l # ls \<Rightarrow> (c # l) # ls)"

definition trim_line :: "bytes \<Rightarrow> bytes" where
  "trim_line l = rev (dropWhile line_pad (rev (dropWhile line_pad l)))"

fun cap_newlines :: "nat \<Rightarrow> bytes \<Rightarrow> bytes" where
  "cap_newlines n [] = []"
| "cap_newlines n (c # s) = (if c \<noteq> newline_char then c # cap_newlines 0 s
     else if n < 2 then c # cap_newlines (n + 1) s else cap_newlines n s)"

definition normalizeWS :: "bytes \<Rightarrow> bytes" where
  "normalizeWS s = trim_space (cap_newlines 0 (join [newline_char] (map trim_line (split_lines (collapse_ws s)))))"

definition htmlToText :: "mime_lib \<Rightarrow> bytes \<Rightarrow> bytes" where
  "htmlToText M s = normalizeWS (html_scan 0 (ml_tokens M s))"

section \<open>Limits and the state of the walk\<close>

record limits =
  lm_part_text :: int
  lm_total_text :: int
  lm_parts :: int
  lm_depth :: int
  lm_attachment_bytes :: int

definition DefaultLimits :: limits where
  "DefaultLimits = \<lparr>lm_part_text = 256 * 1024, lm_total_text = 1024 * 1024, lm_parts = 200, lm_depth = 20,
     lm_attachment_bytes = 5 * 1048576\<rparr>"

definition withDefaults :: "limits \<Rightarrow> limits" where
  "withDefaults l = (let pick = (\<lambda>f. if f l \<le> 0 then f DefaultLimits else f l)
     in \<lparr>lm_part_text = pick lm_part_text, lm_total_text = pick lm_total_text, lm_parts = pick lm_parts,
       lm_depth = pick lm_depth, lm_attachment_bytes = pick lm_attachment_bytes\<rparr>)"

record tattachment =
  ta_filename :: string
  ta_type :: string
  ta_size :: int
  ta_text :: bytes
  ta_extracted :: bool

record walk_state =
  ws_parts :: int
  ws_total :: int
  ws_truncated :: bool
  ws_undecodable :: bool
  ws_body :: bytes
  ws_body_parts :: "bytes list"
  ws_atts :: "tattachment list"

record extraction =
  mx_body :: bytes
  mx_body_parts :: "bytes list"
  mx_attachments :: "tattachment list"
  mx_truncated :: bool
  mx_undecodable :: bool

definition walk_start :: walk_state where
  "walk_start = \<lparr>ws_parts = 0, ws_total = 0, ws_truncated = False, ws_undecodable = False, ws_body = [],
     ws_body_parts = [], ws_atts = []\<rparr>"

definition set_flags :: "bool \<Rightarrow> bool \<Rightarrow> walk_state \<Rightarrow> walk_state" where
  "set_flags capped failed st = st\<lparr>ws_truncated := ws_truncated st \<or> capped, ws_undecodable := ws_undecodable st \<or> failed\<rparr>"

text \<open>Reading at most \<open>limit + 1\<close> bytes: the bytes read, and whether the reader failed on the way.\<close>

definition read_limited :: "nat \<Rightarrow> body_reader \<Rightarrow> bytes \<times> bool" where
  "read_limited limit r = (take (limit + 1) (br_data r),
     br_fails r \<and> (length (br_data r) \<le> limit \<or> length (br_data r) = limit + 1 \<and> br_joined r))"

definition readCapped :: "limits \<Rightarrow> body_reader \<Rightarrow> bytes \<times> bool \<times> bool" where
  "readCapped lim r = (let limit = nat (lm_part_text lim); (b, err) = read_limited limit r
     in (take limit b, limit < length b, err))"

definition countCapped :: "limits \<Rightarrow> body_reader \<Rightarrow> int \<times> bool \<times> bool" where
  "countCapped lim r = (let limit = nat (lm_attachment_bytes lim); (b, err) = read_limited limit r
     in (int (min (length b) limit), limit < length b, err))"

definition param :: "(string \<times> string) list \<Rightarrow> string \<Rightarrow> string" where
  "param ps k = (case map_of ps k of None \<Rightarrow> '''' | Some v \<Rightarrow> v)"

definition attachmentFilename :: "mime_leaf \<Rightarrow> string" where
  "attachmentFilename l = (if param (lf_disp_params l) ''filename'' \<noteq> '''' then param (lf_disp_params l) ''filename''
     else param (lf_type_params l) ''name'')"

definition attachmentDisplayName :: "mime_lib \<Rightarrow> string \<Rightarrow> string" where
  "attachmentDisplayName M f = (let f' = (case ml_words M f of Some d \<Rightarrow> if d \<noteq> '''' then d else f | None \<Rightarrow> f)
     in if f' = '''' then ''(unnamed)'' else f')"

definition attachmentContentType :: "string \<Rightarrow> string" where
  "attachmentContentType ct = (if ct = '''' then ''application/octet-stream'' else ct)"

definition budgetText :: "limits \<Rightarrow> bytes \<Rightarrow> walk_state \<Rightarrow> bytes \<times> walk_state" where
  "budgetText lim s st = (let remaining = lm_total_text lim - ws_total st in
     if remaining \<le> 0 then ([], set_flags (s \<noteq> []) False st)
     else let cut = take (nat remaining) s
       in (cut, (set_flags (remaining < int (length s)) False st)\<lparr>ws_total := ws_total st + int (length cut)\<rparr>))"

definition appendBody :: "limits \<Rightarrow> bytes \<Rightarrow> walk_state \<Rightarrow> walk_state" where
  "appendBody lim s st = (case budgetText lim s st of (t, st') \<Rightarrow>
     if t = [] then st'
     else st'\<lparr>ws_body := (if ws_body st' \<noteq> [] then ws_body st' @ [newline_char, newline_char] else []) @ t,
       ws_body_parts := ws_body_parts st' @ [t]\<rparr>)"

section \<open>The walk\<close>

definition leaf_type :: "mime_leaf \<Rightarrow> string" where
  "leaf_type l = to_lower (trim_space (lf_type l))"

definition body_leaf :: "mime_leaf \<Rightarrow> bool" where
  "body_leaf l \<longleftrightarrow> leaf_type l \<in> {''text/plain'', ''text/html'', ''''} \<and> lf_disp l \<noteq> ''attachment'' \<and> attachmentFilename l = ''''"

definition leaf_text :: "mime_lib \<Rightarrow> mime_leaf \<Rightarrow> bytes \<Rightarrow> bytes" where
  "leaf_text M l raw = (if leaf_type l = ''text/html'' then htmlToText M raw else raw)"

definition add_attachment :: "tattachment \<Rightarrow> walk_state \<Rightarrow> walk_state" where
  "add_attachment a st = st\<lparr>ws_atts := ws_atts st @ [a]\<rparr>"

definition new_attachment :: "mime_lib \<Rightarrow> mime_leaf \<Rightarrow> int \<Rightarrow> bytes \<Rightarrow> bool \<Rightarrow> tattachment" where
  "new_attachment M l n t ex = \<lparr>ta_filename = attachmentDisplayName M (attachmentFilename l),
     ta_type = attachmentContentType (leaf_type l), ta_size = n, ta_text = t, ta_extracted = ex\<rparr>"

text \<open>A leaf that is no embedded message.\<close>

definition walk_leaf :: "mime_lib \<Rightarrow> limits \<Rightarrow> mime_leaf \<Rightarrow> walk_state \<Rightarrow> walk_state" where
  "walk_leaf M lim l st = (if body_leaf l then
       case readCapped lim (lf_body l) of (raw, capped, failed) \<Rightarrow> appendBody lim (leaf_text M l raw) (set_flags capped failed st)
     else if \<not> has_prefix (leaf_type l) ''text/'' then
       case countCapped lim (lf_body l) of (n, capped, failed) \<Rightarrow> add_attachment (new_attachment M l n [] False) (set_flags capped failed st)
     else case readCapped lim (lf_body l) of (raw, capped, failed) \<Rightarrow>
       case budgetText lim (leaf_text M l raw) (set_flags capped failed st) of (t, st') \<Rightarrow>
         add_attachment (new_attachment M l (int (length raw)) t True) st')"

text \<open>The first argument is the depth left, \<open>MaxDepth + 1 - depth\<close>.\<close>

fun walk :: "mime_lib \<Rightarrow> limits \<Rightarrow> nat \<Rightarrow> mime_entity \<Rightarrow> walk_state \<Rightarrow> walk_state"
  and walk_parts :: "mime_lib \<Rightarrow> limits \<Rightarrow> nat \<Rightarrow> next_part list \<Rightarrow> walk_state \<Rightarrow> walk_state" where
  "walk M lim 0 e st = set_flags True False st"
| "walk M lim (Suc k) (Multipart ps) st = walk_parts M lim k ps st"
| "walk M lim (Suc k) (Leaf l) st = (let st = st\<lparr>ws_parts := ws_parts st + 1\<rparr> in
     if lm_parts lim < ws_parts st then set_flags True False st
     else if leaf_type l = ''message/rfc822'' then
       (case readCapped lim (lf_body l) of (raw, capped, failed) \<Rightarrow>
         let st = add_attachment (new_attachment M l (int (length raw)) [] False) (set_flags capped failed st)
         in case ml_read M raw of
             None \<Rightarrow> set_flags False True st
           | Some (e, err) \<Rightarrow> walk M lim k e (set_flags False err st))
     else walk_leaf M lim l st)"
| "walk_parts M lim k [] st = st"
| "walk_parts M lim k (Broken # ps) st = set_flags False True st"
| "walk_parts M lim k (Part soft e # ps) st = walk_parts M lim k ps (walk M lim k e (set_flags False soft st))"

text \<open>An entity that is missing is an error of its own, with or without one from the parser.\<close>

datatype extract_err = EmptyMessage | ParseMessage

definition mail_Extract :: "mime_lib \<Rightarrow> limits \<Rightarrow> bytes \<Rightarrow> extract_err + extraction" where
  "mail_Extract M lim raw = (if raw = [] then Inl EmptyMessage
     else case ml_read M raw of
         None \<Rightarrow> Inl ParseMessage
       | Some (e, err) \<Rightarrow>
           let l = withDefaults lim; st = walk M l (nat (lm_depth l) + 1) e (set_flags False err walk_start)
           in Inr \<lparr>mx_body = trim_space (ws_body st), mx_body_parts = ws_body_parts st, mx_attachments = ws_atts st,
             mx_truncated = ws_truncated st, mx_undecodable = ws_undecodable st\<rparr>)"

section \<open>Flattening HTML changes white space only\<close>

definition ink :: "bytes \<Rightarrow> bytes" where
  "ink s = filter (\<lambda>c. \<not> is_space c) s"

lemma ink_simps [simp]: "ink [] = []" "ink (c # s) = (if is_space c then ink s else c # ink s)" "ink (s @ t) = ink s @ ink t"
  by (simp_all add: ink_def)

lemma space_newline [simp]: "is_space newline_char" "is_space (CHR '' '')"
  by (simp_all add: newline_char_def is_space_def)

lemma inline_space: "inline_ws c \<Longrightarrow> is_space c"
  by (auto simp: inline_ws_def is_space_def)

lemma pad_space: "line_pad c \<Longrightarrow> is_space c"
  by (auto simp: line_pad_def is_space_def)

lemma ink_collapse: "ink (collapse_ws s) = ink s"
  by (induction s rule: collapse_ws.induct) (auto simp: inline_space split: list.splits)

lemma ink_dropWhile: "(\<And>c. P c \<Longrightarrow> is_space c) \<Longrightarrow> ink (dropWhile P s) = ink s"
  by (induction s) auto

lemma ink_rev: "ink (rev s) = rev (ink s)"
  by (simp add: ink_def rev_filter)

lemma ink_trim_line: "ink (trim_line l) = ink l"
  by (simp add: trim_line_def ink_rev ink_dropWhile pad_space)

lemma ink_trim_space: "ink (trim_space l) = ink l"
  by (simp add: trim_space_def ink_rev ink_dropWhile)

lemma split_lines_ne [simp]: "split_lines s \<noteq> []"
  by (induction s) (auto split: list.splits)

lemma ink_split: "concat (map ink (split_lines s)) = ink s"
  by (induction s) (auto split: list.splits)

lemma ink_join: "ink (join [newline_char] ls) = concat (map ink ls)"
  by (induction "[newline_char]" ls rule: join.induct) simp_all

lemma ink_cap: "ink (cap_newlines n s) = ink s"
  by (induction n s rule: cap_newlines.induct) auto

lemma ink_normalize: "ink (normalizeWS s) = ink s"
  by (simp add: normalizeWS_def ink_trim_space ink_cap ink_join comp_def ink_trim_line ink_split ink_collapse)

text \<open>The text outside script and style elements.\<close>

fun prose :: "nat \<Rightarrow> html_token list \<Rightarrow> bytes" where
  "prose skip [] = []"
| "prose skip (TextToken t # ts) = (if skip = 0 then t @ prose skip ts else prose skip ts)"
| "prose skip (StartTag n # ts) = prose (if code_tag n then skip + 1 else skip) ts"
| "prose skip (EndTag n # ts) = prose (if code_tag n \<and> 0 < skip then skip - 1 else skip) ts"
| "prose skip (t # ts) = prose skip ts"

lemma ink_block [simp]: "ink (block_break n) = []"
  by (simp add: block_break_def)

lemma ink_scan: "ink (html_scan skip ts) = ink (prose skip ts)"
  by (induction skip ts rule: html_scan.induct) auto

lemma html_keeps_prose: "ink (htmlToText M s) = ink (prose 0 (ml_tokens M s))"
  by (simp add: htmlToText_def ink_normalize ink_scan)

section \<open>Nothing is lost in silence\<close>

text \<open>The leaves of a message, those of embedded messages included.\<close>

inductive has_leaf :: "mime_lib \<Rightarrow> mime_entity \<Rightarrow> mime_leaf \<Rightarrow> bool" for M :: mime_lib where
  leaf_self: "has_leaf M (Leaf l) l"
| leaf_part: "Part soft e \<in> set ps \<Longrightarrow> has_leaf M e l \<Longrightarrow> has_leaf M (Multipart ps) l"
| leaf_embedded: "leaf_type m = ''message/rfc822'' \<Longrightarrow> ml_read M (br_data (lf_body m)) = Some (e, err) \<Longrightarrow> has_leaf M e l
    \<Longrightarrow> has_leaf M (Leaf m) l"

inductive_cases has_leaf_multipart: "has_leaf M (Multipart ps) l"
inductive_cases has_leaf_leaf: "has_leaf M (Leaf m) l"

text \<open>A leaf that was read whole, with its text among the texts.\<close>

definition seen_in :: "mime_lib \<Rightarrow> mime_leaf \<Rightarrow> bytes list \<Rightarrow> tattachment list \<Rightarrow> bool" where
  "seen_in M l texts atts \<longleftrightarrow> (let raw = br_data (lf_body l) in
     if leaf_type l = ''message/rfc822'' then new_attachment M l (int (length raw)) [] False \<in> set atts
     else if body_leaf l then leaf_text M l raw = [] \<or> leaf_text M l raw \<in> set texts
     else if has_prefix (leaf_type l) ''text/'' then new_attachment M l (int (length raw)) (leaf_text M l raw) True \<in> set atts
     else new_attachment M l (int (length raw)) [] False \<in> set atts) \<and> \<not> br_fails (lf_body l)"

text \<open>Flags are never cleared and lists only grow.\<close>

definition clean :: "walk_state \<Rightarrow> bool" where
  "clean st \<longleftrightarrow> \<not> ws_truncated st \<and> \<not> ws_undecodable st"

definition grows :: "walk_state \<Rightarrow> walk_state \<Rightarrow> bool" where
  "grows st st' \<longleftrightarrow> (clean st' \<longrightarrow> clean st) \<and> set (ws_body_parts st) \<subseteq> set (ws_body_parts st') \<and> set (ws_atts st) \<subseteq> set (ws_atts st')"

lemma grows_refl [simp]: "grows st st"
  by (simp add: grows_def)

lemma grows_trans: "grows a b \<Longrightarrow> grows b c \<Longrightarrow> grows a c"
  by (auto simp: grows_def)

lemma clean_set_flags [simp]: "clean (set_flags c f st) \<longleftrightarrow> clean st \<and> \<not> c \<and> \<not> f"
  by (auto simp: set_flags_def clean_def)

lemma set_flags_fields [simp]: "ws_body_parts (set_flags c f st) = ws_body_parts st" "ws_atts (set_flags c f st) = ws_atts st"
    "ws_total (set_flags c f st) = ws_total st" "ws_parts (set_flags c f st) = ws_parts st" "ws_body (set_flags c f st) = ws_body st"
  by (simp_all add: set_flags_def)

lemma grows_flag [simp]: "grows st (set_flags c f st)"
  by (simp add: grows_def)

lemma grows_flag_into: "grows (set_flags c f st) st' \<Longrightarrow> grows st st'"
  by (rule grows_trans [OF grows_flag])

lemma clean_update [simp]: "clean (st\<lparr>ws_total := n\<rparr>) = clean st" "clean (st\<lparr>ws_parts := n\<rparr>) = clean st"
    "clean (st\<lparr>ws_body := b, ws_body_parts := p\<rparr>) = clean st" "clean (st\<lparr>ws_atts := a\<rparr>) = clean st"
  by (simp_all add: clean_def)

lemma budget_grows: "budgetText lim s st = (t, st') \<Longrightarrow> grows st st' \<and> ws_body_parts st' = ws_body_parts st
    \<and> ws_atts st' = ws_atts st \<and> ws_parts st' = ws_parts st \<and> (clean st' \<longrightarrow> t = s)"
  by (auto simp: budgetText_def Let_def grows_def split: if_splits)

lemma append_grows: "grows st (appendBody lim s st) \<and> (clean (appendBody lim s st) \<longrightarrow> s = [] \<or> s \<in> set (ws_body_parts (appendBody lim s st)))"
proof -
  obtain t st' where b: "budgetText lim s st = (t, st')" by fastforce
  show ?thesis using budget_grows [OF b] by (auto simp: appendBody_def b grows_def)
qed

lemma add_grows [simp]: "grows st (add_attachment a st)" "clean (add_attachment a st) = clean st" "a \<in> set (ws_atts (add_attachment a st))"
  by (auto simp: add_attachment_def grows_def)

text \<open>Reading without a set_flags read it all.\<close>

lemma readCapped_whole: "readCapped lim r = (raw, False, False) \<Longrightarrow> raw = br_data r \<and> \<not> br_fails r"
  by (auto simp: readCapped_def read_limited_def Let_def min_def split: if_splits)

lemma countCapped_whole: "countCapped lim r = (n, False, False) \<Longrightarrow> n = int (length (br_data r)) \<and> \<not> br_fails r"
  by (auto simp: countCapped_def read_limited_def Let_def min_def split: if_splits)

lemma seen_mono: "seen_in M l ts as \<Longrightarrow> set ts \<subseteq> set ts' \<Longrightarrow> set as \<subseteq> set as' \<Longrightarrow> seen_in M l ts' as'"
  by (auto simp: seen_in_def Let_def split: if_splits)

abbreviation seen :: "mime_lib \<Rightarrow> mime_leaf \<Rightarrow> walk_state \<Rightarrow> bool" where
  "seen M l st \<equiv> seen_in M l (ws_body_parts st) (ws_atts st)"

lemma seen_grows: "grows st st' \<Longrightarrow> seen M l st \<Longrightarrow> seen M l st'"
  by (rule seen_mono) (auto simp: grows_def)

lemma walk_leaf_body: "body_leaf l \<Longrightarrow> readCapped lim (lf_body l) = (raw, capped, failed)
    \<Longrightarrow> walk_leaf M lim l st = appendBody lim (leaf_text M l raw) (set_flags capped failed st)"
  by (simp add: walk_leaf_def)

lemma walk_leaf_ok: "grows st (walk_leaf M lim l st) \<and> (leaf_type l \<noteq> ''message/rfc822'' \<longrightarrow> clean (walk_leaf M lim l st) \<longrightarrow> seen M l (walk_leaf M lim l st))"
proof (cases "body_leaf l")
  case True
  obtain raw capped failed where r: "readCapped lim (lf_body l) = (raw, capped, failed)" by (cases "readCapped lim (lf_body l)") auto
  let ?st' = "appendBody lim (leaf_text M l raw) (set_flags capped failed st)"
  note a = append_grows [of "set_flags capped failed st" lim "leaf_text M l raw"]
  have "raw = br_data (lf_body l) \<and> \<not> br_fails (lf_body l)" if "clean ?st'"
    using that a r readCapped_whole [of lim "lf_body l" raw] by (simp add: grows_def)
  then show ?thesis using True a grows_flag_into [of capped failed st ?st'] unfolding walk_leaf_body [OF True r]
    by (auto simp: seen_in_def Let_def)
next
  case body: False
  show ?thesis
  proof (cases "has_prefix (leaf_type l) ''text/''")
    case False
    obtain n capped failed where r: "countCapped lim (lf_body l) = (n, capped, failed)" by (cases "countCapped lim (lf_body l)") auto
    have w: "walk_leaf M lim l st = add_attachment (new_attachment M l n [] False) (set_flags capped failed st)"
      using body False r by (simp add: walk_leaf_def)
    have "n = int (length (br_data (lf_body l))) \<and> \<not> br_fails (lf_body l)" if "\<not> capped" "\<not> failed"
      using that r countCapped_whole [of lim "lf_body l" n] by simp
    then show ?thesis using body False grows_trans [OF grows_flag add_grows(1)] add_grows(3) unfolding w
      by (auto simp: seen_in_def Let_def)
  next
    case True
    obtain raw capped failed where r: "readCapped lim (lf_body l) = (raw, capped, failed)" by (cases "readCapped lim (lf_body l)") auto
    obtain t st' where b: "budgetText lim (leaf_text M l raw) (set_flags capped failed st) = (t, st')" by fastforce
    have w: "walk_leaf M lim l st = add_attachment (new_attachment M l (int (length raw)) t True) st'"
      using body True r b by (simp add: walk_leaf_def)
    note g = budget_grows [OF b]
    have "raw = br_data (lf_body l) \<and> \<not> br_fails (lf_body l) \<and> t = leaf_text M l raw" if "clean st'"
      using that g r readCapped_whole [of lim "lf_body l" raw] by (simp add: grows_def)
    then show ?thesis using body True grows_trans [OF grows_flag_into add_grows(1)] g add_grows(3) unfolding w
      by (auto simp: seen_in_def Let_def)
  qed
qed

lemma grows_parts [simp]: "grows (st\<lparr>ws_parts := n\<rparr>) st' \<longleftrightarrow> grows st st'"
  by (simp add: grows_def)

lemma grows_flag_parts [simp]: "grows st (set_flags c f (st\<lparr>ws_parts := n\<rparr>))"
  using grows_flag [of "st\<lparr>ws_parts := n\<rparr>" c f] unfolding grows_parts .

lemma walk_embedded:
  assumes "leaf_type l = ''message/rfc822''" "\<not> lm_parts lim < ws_parts st + 1" "readCapped lim (lf_body l) = (raw, capped, failed)"
    "ml_read M raw = Some (e, err)"
  shows "walk M lim (Suc k) (Leaf l) st = walk M lim k e (set_flags False err (add_attachment (new_attachment M l (int (length raw)) [] False)
    (set_flags capped failed (st\<lparr>ws_parts := ws_parts st + 1\<rparr>))))"
  using assms by simp

lemma grows_add_into: "grows (add_attachment a st) st' \<Longrightarrow> grows st st'"
  by (rule grows_trans [OF add_grows(1)])

lemma walk_grows: "grows st (walk M lim k e st)" "grows st (walk_parts M lim k ps st)"
proof (induction M lim k e st and M lim k ps st rule: walk_walk_parts.induct)
  case (3 M lim k l st)
  show ?case
  proof (cases "lm_parts lim < ws_parts st + 1 \<or> leaf_type l \<noteq> ''message/rfc822''")
    case True
    then show ?thesis using walk_leaf_ok [of "st\<lparr>ws_parts := ws_parts st + 1\<rparr>" M lim l] by (auto simp: Let_def)
  next
    case False
    then have f: "\<not> lm_parts lim < ws_parts st + 1" "leaf_type l = ''message/rfc822''" by auto
    obtain raw capped failed where r: "readCapped lim (lf_body l) = (raw, capped, failed)" by (cases "readCapped lim (lf_body l)") auto
    let ?s1 = "add_attachment (new_attachment M l (int (length raw)) [] False) (set_flags capped failed (st\<lparr>ws_parts := ws_parts st + 1\<rparr>))"
    have s1: "grows st ?s1" using grows_trans [OF grows_flag add_grows(1), of "st\<lparr>ws_parts := ws_parts st + 1\<rparr>"] by simp
    show ?thesis
    proof (cases "ml_read M raw")
      case None
      then have "walk M lim (Suc k) (Leaf l) st = set_flags False True ?s1" using f r by (simp add: Let_def)
      then show ?thesis using grows_trans [OF s1 grows_flag] by simp
    next
      case (Some p)
      obtain e err where p: "p = (e, err)" by fastforce
      have "grows (set_flags False err ?s1) (walk M lim k e (set_flags False err ?s1))"
        using "3.IH" [OF refl _ _ r [symmetric] refl refl Some p [symmetric]] f by simp
      then show ?thesis unfolding walk_embedded [OF f(2) f(1) r Some [unfolded p]] using grows_trans [OF s1] grows_flag_into by blast
    qed
  qed
next
  case (6 M lim k soft e ps st)
  then show ?case using grows_trans grows_flag_into by (metis walk_parts.simps(3))
qed simp_all

lemma walk_seen: "clean (walk M lim k e st) \<Longrightarrow> has_leaf M e l \<Longrightarrow> seen M l (walk M lim k e st)"
  "clean (walk_parts M lim k ps st) \<Longrightarrow> Part soft e' \<in> set ps \<Longrightarrow> has_leaf M e' l \<Longrightarrow> seen M l (walk_parts M lim k ps st)"
proof (induction M lim k e st and M lim k ps st arbitrary: l and soft e' l rule: walk_walk_parts.induct)
  case (2 M lim k ps st)
  show ?case using 2(3) by (rule has_leaf_multipart) (use 2 in auto)
next
  case (3 M lim k m st)
  let ?s = "st\<lparr>ws_parts := ws_parts st + 1\<rparr>"
  have parts: "\<not> lm_parts lim < ws_parts st + 1" using 3(2) by (auto simp: Let_def)
  show ?case
  proof (cases "leaf_type m = ''message/rfc822''")
    case False
    then have w: "walk M lim (Suc k) (Leaf m) st = walk_leaf M lim m ?s" using parts by (simp add: Let_def)
    have "l = m" using 3(3) by (rule has_leaf_leaf) (use False in auto)
    then show ?thesis using walk_leaf_ok [of ?s M lim m] False 3(2) unfolding w by blast
  next
    case True
    obtain raw capped failed where r: "readCapped lim (lf_body m) = (raw, capped, failed)" by (cases "readCapped lim (lf_body m)") auto
    let ?s1 = "add_attachment (new_attachment M m (int (length raw)) [] False) (set_flags capped failed ?s)"
    have "ml_read M raw \<noteq> None"
    proof
      assume "ml_read M raw = None"
      then have "walk M lim (Suc k) (Leaf m) st = set_flags False True ?s1" using parts True r by (simp add: Let_def)
      then show False using 3(2) by simp
    qed
    then obtain e err where p: "ml_read M raw = Some (e, err)" by auto
    note w = walk_embedded [OF True parts r p]
    let ?t = "walk M lim k e (set_flags False err ?s1)"
    have c: "clean ?t" using 3(2) unfolding w .
    have g: "grows ?s1 ?t" using walk_grows(1) grows_flag_into by blast
    then have "\<not> capped \<and> \<not> failed" using c by (simp add: grows_def)
    then have raw: "raw = br_data (lf_body m)" "\<not> br_fails (lf_body m)" using r readCapped_whole [of lim "lf_body m" raw] by auto
    have self: "seen M m ?s1" using raw True by (simp add: seen_in_def Let_def add_attachment_def)
    have IH: "has_leaf M e l \<Longrightarrow> seen M l ?t"
      using "3.IH" [OF refl _ _ r [symmetric] refl refl p refl c] parts True by simp
    show ?thesis unfolding w using 3(3)
      by (rule has_leaf_leaf) (use IH p raw seen_grows [OF g self] in auto)
  qed
next
  case (6 M lim k soft' f ps st)
  have g: "grows (walk M lim k f (set_flags False soft' st)) (walk_parts M lim k ps (walk M lim k f (set_flags False soft' st)))"
    by (rule walk_grows(2))
  have c: "clean (walk M lim k f (set_flags False soft' st))" using g 6(3) by (simp add: grows_def)
  consider "e' = f" | "Part soft e' \<in> set ps" using 6(4) by auto
  then show ?case
  proof cases
    case 1
    then show ?thesis using seen_grows [OF g 6(1) [OF c]] 6(5) by simp
  next
    case 2
    then show ?thesis using 6(2) [OF _ 2 6(5)] 6(3) by simp
  qed
qed (use clean_set_flags in auto)

section \<open>The extraction is bounded\<close>

definition text_total :: "bytes list \<Rightarrow> tattachment list \<Rightarrow> int" where
  "text_total ts as = int (sum_list (map length ts)) + int (sum_list (map (\<lambda>a. length (ta_text a)) as))"

definition within :: "limits \<Rightarrow> walk_state \<Rightarrow> bool" where
  "within lim st \<longleftrightarrow> text_total (ws_body_parts st) (ws_atts st) = ws_total st \<and> ws_total st \<le> lm_total_text lim
     \<and> int (length (ws_body_parts st) + length (ws_atts st)) \<le> ws_parts st
     \<and> int (length (ws_body_parts st) + length (ws_atts st)) \<le> lm_parts lim"

lemma text_total_simps [simp]: "text_total (ts @ [t]) as = text_total ts as + int (length t)"
    "text_total ts (as @ [a]) = text_total ts as + int (length (ta_text a))"
  by (simp_all add: text_total_def)

lemma budget_total: "budgetText lim s st = (t, st') \<Longrightarrow> ws_total st' = ws_total st + int (length t)
    \<and> (ws_total st \<le> lm_total_text lim \<longrightarrow> ws_total st' \<le> lm_total_text lim)"
  by (auto simp: budgetText_def Let_def split: if_splits)

lemma within_flag [simp]: "within lim (set_flags c f st) = within lim st"
  by (simp add: within_def)

text \<open>Room for one more entry.\<close>

definition room :: "limits \<Rightarrow> walk_state \<Rightarrow> bool" where
  "room lim st \<longleftrightarrow> within lim st \<and> int (length (ws_body_parts st) + length (ws_atts st)) < ws_parts st
     \<and> int (length (ws_body_parts st) + length (ws_atts st)) < lm_parts lim"

lemma room_flag [simp]: "room lim (set_flags c f st) = room lim st"
  by (simp add: room_def)

lemma within_append: "room lim st \<Longrightarrow> within lim (appendBody lim s st)"
proof -
  assume r: "room lim st"
  obtain t st' where b: "budgetText lim s st = (t, st')" by fastforce
  show ?thesis using r budget_total [OF b] budget_grows [OF b] by (auto simp: appendBody_def b room_def within_def)
qed

lemma within_add: "room lim st \<Longrightarrow> ta_text a = [] \<Longrightarrow> within lim (add_attachment a st)"
  by (auto simp: room_def within_def add_attachment_def)

lemma within_leaf: "room lim st \<Longrightarrow> within lim (walk_leaf M lim l st)"
proof -
  assume r: "room lim st"
  have "within lim (add_attachment (new_attachment M l n t ex) st')"
    if "budgetText lim s (set_flags c f st) = (t, st')" for n t ex st' s c f
    using r budget_total [OF that] budget_grows [OF that]
    by (auto simp: room_def within_def add_attachment_def new_attachment_def)
  then show ?thesis using r within_append within_add unfolding walk_leaf_def
    by (simp add: new_attachment_def split: prod.splits)
qed

lemma room_next: "within lim st \<Longrightarrow> \<not> lm_parts lim < ws_parts st + 1 \<Longrightarrow> room lim (st\<lparr>ws_parts := ws_parts st + 1\<rparr>)"
  by (auto simp: room_def within_def)

lemma within_parts: "within lim st \<Longrightarrow> within lim (st\<lparr>ws_parts := ws_parts st + 1\<rparr>)"
  by (auto simp: within_def)

lemma walk_within: "within lim st \<Longrightarrow> within lim (walk M lim k e st)" "within lim st \<Longrightarrow> within lim (walk_parts M lim k ps st)"
proof (induction M lim k e st and M lim k ps st rule: walk_walk_parts.induct)
  case (3 M lim k l st)
  let ?s = "st\<lparr>ws_parts := ws_parts st + 1\<rparr>"
  show ?case
  proof (cases "lm_parts lim < ws_parts st + 1")
    case True
    then show ?thesis using within_parts [OF 3(2)] by (simp add: Let_def)
  next
    case f: False
    show ?thesis
    proof (cases "leaf_type l = ''message/rfc822''")
      case False
      then show ?thesis using f within_leaf [OF room_next [OF 3(2) f]] by (simp add: Let_def)
    next
      case True
      obtain raw capped failed where r: "readCapped lim (lf_body l) = (raw, capped, failed)" by (cases "readCapped lim (lf_body l)") auto
      let ?s1 = "add_attachment (new_attachment M l (int (length raw)) [] False) (set_flags capped failed ?s)"
      have s1: "within lim ?s1" by (rule within_add) (use room_next [OF 3(2) f] in \<open>simp_all add: new_attachment_def\<close>)
      show ?thesis
      proof (cases "ml_read M raw")
        case None
        then show ?thesis using f True r s1 by (simp add: Let_def)
      next
        case (Some p)
        obtain e err where p: "p = (e, err)" by fastforce
        show ?thesis unfolding walk_embedded [OF True f r Some [unfolded p]]
          using "3.IH" [OF refl _ _ r [symmetric] refl refl Some p [symmetric]] f True s1 by simp
      qed
    qed
  qed
qed simp_all

lemma withDefaults_pos: "0 < lm_part_text (withDefaults l)" "0 < lm_total_text (withDefaults l)" "0 < lm_parts (withDefaults l)"
    "0 < lm_depth (withDefaults l)" "0 < lm_attachment_bytes (withDefaults l)"
  by (simp_all add: withDefaults_def Let_def DefaultLimits_def)

text \<open>C0: whatever the message, the texts extracted from it are within the limit on the total text and the body parts and
  attachments together are no more than the limit on the parts.\<close>

theorem extract_bounded:
  assumes "mail_Extract M lim raw = Inr c"
  shows "text_total (mx_body_parts c) (mx_attachments c) \<le> lm_total_text (withDefaults lim)
    \<and> int (length (mx_body_parts c) + length (mx_attachments c)) \<le> lm_parts (withDefaults lim)"
proof -
  obtain e err where r: "ml_read M raw = Some (e, err)" using assms by (auto simp: mail_Extract_def split: if_splits option.splits)
  have "within (withDefaults lim) walk_start"
    using withDefaults_pos [of lim] by (auto simp: within_def walk_start_def text_total_def)
  then show ?thesis using walk_within(1) [of "withDefaults lim" "set_flags False err walk_start"] assms r
    by (auto simp: mail_Extract_def Let_def within_def split: if_splits)
qed

text \<open>C0: nothing a message says is lost in silence. When the extraction reports neither a limit hit nor an undecodable part,
  every leaf of the message, at any depth and inside embedded messages, was read to its end, and its text, with HTML
  flattened, is among the texts of the body or of the attachments.\<close>

theorem extract_complete:
  assumes "mail_Extract M lim raw = Inr c" "ml_read M raw = Some (e, err)" "has_leaf M e l"
    "\<not> mx_truncated c" "\<not> mx_undecodable c"
  shows "seen_in M l (mx_body_parts c) (mx_attachments c)"
proof -
  let ?l = "withDefaults lim"
  let ?st = "walk M ?l (nat (lm_depth ?l) + 1) e (set_flags False err walk_start)"
  have c: "mx_body_parts c = ws_body_parts ?st" "mx_attachments c = ws_atts ?st" "clean ?st"
    using assms(1,2,4,5) by (auto simp: mail_Extract_def Let_def clean_def split: if_splits)
  show ?thesis using walk_seen(1) [OF c(3) assms(3)] unfolding c(1,2) .
qed

text \<open>The body is its parts, joined by a blank line.\<close>

lemma join_snoc: "ts \<noteq> [] \<Longrightarrow> join sep (ts @ [t]) = join sep ts @ sep @ t"
  by (induction sep ts rule: join.induct) auto

definition parts_joined :: "walk_state \<Rightarrow> bool" where
  "parts_joined st \<longleftrightarrow> ws_body st = join [newline_char, newline_char] (ws_body_parts st) \<and> [] \<notin> set (ws_body_parts st)"

lemma join_empty: "join sep ts = [] \<Longrightarrow> [] \<notin> set ts \<Longrightarrow> ts = []"
  by (induction sep ts rule: join.induct) auto

lemma parts_joined_same: "parts_joined st \<Longrightarrow> ws_body st' = ws_body st \<Longrightarrow> ws_body_parts st' = ws_body_parts st \<Longrightarrow> parts_joined st'"
  by (simp add: parts_joined_def)

lemma budget_body: "budgetText lim s st = (t, st') \<Longrightarrow> ws_body st' = ws_body st \<and> ws_body_parts st' = ws_body_parts st"
  by (auto simp: budgetText_def Let_def split: if_splits)

lemma parts_joined_append: "parts_joined st \<Longrightarrow> parts_joined (appendBody lim s st)"
proof -
  assume b: "parts_joined st"
  obtain t st' where t: "budgetText lim s st = (t, st')" by fastforce
  then have st': "parts_joined st'" using parts_joined_same [OF b] budget_body by blast
  then show ?thesis
    using join_empty [of "[newline_char, newline_char]" "ws_body_parts st'"]
    by (cases "ws_body_parts st' = []") (auto simp: appendBody_def t parts_joined_def join_snoc)
qed

lemma parts_joined_leaf: "parts_joined st \<Longrightarrow> parts_joined (walk_leaf M lim l st)"
proof -
  assume b: "parts_joined st"
  have f: "parts_joined (set_flags c f st)" for c f using b by (simp add: parts_joined_def)
  have "parts_joined (add_attachment a (snd (budgetText lim s (set_flags c f st))))" for a s c f
    using budget_body [of lim s "set_flags c f st"] f [of c f] by (auto simp: parts_joined_def add_attachment_def prod_eq_iff)
  moreover have "parts_joined (add_attachment a (set_flags c f st))" for a c f using b by (simp add: parts_joined_def add_attachment_def)
  ultimately show ?thesis using parts_joined_append [OF f] unfolding walk_leaf_def by (auto split: prod.splits) (metis snd_conv)+
qed

lemma walk_body_ok: "parts_joined st \<Longrightarrow> parts_joined (walk M lim k e st)" "parts_joined st \<Longrightarrow> parts_joined (walk_parts M lim k ps st)"
proof (induction M lim k e st and M lim k ps st rule: walk_walk_parts.induct)
  case (3 M lim k l st)
  let ?s = "st\<lparr>ws_parts := ws_parts st + 1\<rparr>"
  have s: "parts_joined ?s" using 3(2) by (simp add: parts_joined_def)
  show ?case
  proof (cases "lm_parts lim < ws_parts st + 1 \<or> leaf_type l \<noteq> ''message/rfc822''")
    case True
    then show ?thesis using parts_joined_leaf [OF s] s by (auto simp: Let_def parts_joined_def)
  next
    case False
    then have f: "\<not> lm_parts lim < ws_parts st + 1" "leaf_type l = ''message/rfc822''" by auto
    obtain raw capped failed where r: "readCapped lim (lf_body l) = (raw, capped, failed)" by (cases "readCapped lim (lf_body l)") auto
    have s1: "parts_joined (set_flags c g (add_attachment a (set_flags capped failed ?s)))" for a c g using s by (simp add: parts_joined_def add_attachment_def)
    show ?thesis
    proof (cases "ml_read M raw")
      case None
      then show ?thesis using f r s1 by (simp add: Let_def)
    next
      case (Some p)
      obtain e err where p: "p = (e, err)" by fastforce
      show ?thesis unfolding walk_embedded [OF f(2) f(1) r Some [unfolded p]]
        using "3.IH" [OF refl _ _ r [symmetric] refl refl Some p [symmetric]] f s1 by simp
    qed
  qed
qed (simp_all add: parts_joined_def)

lemma extract_body:
  assumes "mail_Extract M lim raw = Inr c"
  shows "mx_body c = trim_space (join [newline_char, newline_char] (mx_body_parts c))"
proof -
  have "parts_joined walk_start" by (simp add: parts_joined_def walk_start_def)
  then show ?thesis using walk_body_ok(1) [of "set_flags False err walk_start" for err] assms
    by (auto simp: mail_Extract_def Let_def parts_joined_def split: if_splits option.splits)
qed

section \<open>An example\<close>

definition plain_leaf :: "string \<Rightarrow> bytes \<Rightarrow> mime_leaf" where
  "plain_leaf t b = \<lparr>lf_type = t, lf_type_params = [], lf_disp = '''', lf_disp_params = [],
     lf_body = \<lparr>br_data = b, br_fails = False, br_joined = False\<rparr>\<rparr>"

definition sample_mime :: mime_lib where
  "sample_mime = \<lparr>ml_read = (\<lambda>b. if b = ''outer'' then Some (Multipart [Part False (Leaf (plain_leaf ''text/plain'' ''hello'')),
         Part False (Leaf (plain_leaf ''message/rfc822'' ''inner''))], False)
       else if b = ''inner'' then Some (Leaf (plain_leaf ''text/html'' ''<p>send it''), False) else None),
     ml_tokens = (\<lambda>b. [StartTag ''p'', TextToken (drop 3 b)]), ml_words = (\<lambda>s. Some s)\<rparr>"

definition small_limits :: limits where
  "small_limits = \<lparr>lm_part_text = 64, lm_total_text = 64, lm_parts = 8, lm_depth = 4, lm_attachment_bytes = 64\<rparr>"

definition sample_extracted :: extraction where
  "sample_extracted = \<lparr>mx_body = ''hello'' @ [newline_char, newline_char] @ ''send it'', mx_body_parts = [''hello'', ''send it''],
     mx_attachments = [\<lparr>ta_filename = ''(unnamed)'', ta_type = ''message/rfc822'', ta_size = 5, ta_text = [], ta_extracted = False\<rparr>],
     mx_truncated = False, mx_undecodable = False\<rparr>"

lemma sample_extract: "mail_Extract sample_mime small_limits ''outer'' = Inr sample_extracted"
  by code_simp

lemma sample_leaf: "has_leaf sample_mime (Multipart [Part False (Leaf (plain_leaf ''text/plain'' ''hello'')),
    Part False (Leaf (plain_leaf ''message/rfc822'' ''inner''))]) (plain_leaf ''text/html'' ''<p>send it'')"
proof -
  have "leaf_type (plain_leaf ''message/rfc822'' ''inner'') = ''message/rfc822''" by code_simp
  then have "has_leaf sample_mime (Leaf (plain_leaf ''message/rfc822'' ''inner'')) (plain_leaf ''text/html'' ''<p>send it'')"
    by (rule leaf_embedded [where e = "Leaf (plain_leaf ''text/html'' ''<p>send it'')" and err = False])
      (simp_all add: sample_mime_def plain_leaf_def leaf_self)
  then show ?thesis by (intro leaf_part [where soft = False]) auto
qed

theorem extract_bounded_witness:
  "text_total (mx_body_parts sample_extracted) (mx_attachments sample_extracted) \<le> lm_total_text (withDefaults small_limits)"
  using extract_bounded [OF sample_extract] by simp

theorem extract_complete_witness:
  "seen_in sample_mime (plain_leaf ''text/html'' ''<p>send it'') (mx_body_parts sample_extracted) (mx_attachments sample_extracted)"
  by (rule extract_complete [where err = False, OF sample_extract _ sample_leaf]) (simp_all add: sample_mime_def sample_extracted_def)

definition plain_mime :: mime_lib where
  "plain_mime = \<lparr>ml_read = (\<lambda>b. Some (Leaf (plain_leaf ''text/plain'' b), False)), ml_tokens = (\<lambda>b. []), ml_words = (\<lambda>s. Some s)\<rparr>"

lemma plain_extract:
  assumes "raw \<noteq> []" "length raw \<le> 1000"
  shows "mail_Extract plain_mime DefaultLimits raw = Inr \<lparr>mx_body = trim_space raw, mx_body_parts = [raw], mx_attachments = [],
    mx_truncated = False, mx_undecodable = False\<rparr>"
proof -
  have w: "withDefaults DefaultLimits = DefaultLimits" by (simp add: withDefaults_def DefaultLimits_def)
  have p: "lm_parts DefaultLimits = 200" by (simp add: DefaultLimits_def)
  have t: "leaf_type (plain_leaf ''text/plain'' raw) = ''text/plain''" "body_leaf (plain_leaf ''text/plain'' raw)"
    by (simp_all add: leaf_type_def body_leaf_def plain_leaf_def attachmentFilename_def param_def trim_space_def is_space_def to_lower_def lower_char_def)
  have r: "readCapped DefaultLimits (lf_body (plain_leaf ''text/plain'' raw)) = (raw, False, False)"
    using assms(2) by (simp add: readCapped_def read_limited_def plain_leaf_def DefaultLimits_def Let_def)
  have b: "budgetText DefaultLimits raw st = (raw, (set_flags False False st)\<lparr>ws_total := int (length raw)\<rparr>)" if "ws_total st = 0" for st
    using assms that by (simp add: budgetText_def DefaultLimits_def Let_def)
  have "walk plain_mime DefaultLimits (Suc 20) (Leaf (plain_leaf ''text/plain'' raw)) (set_flags False False walk_start)
      = walk_start\<lparr>ws_parts := 1, ws_total := int (length raw), ws_body := raw, ws_body_parts := [raw]\<rparr>"
    using assms(1) p by (subst walk.simps(3)) (simp add: Let_def walk_leaf_def t r leaf_text_def appendBody_def b walk_start_def set_flags_def)
  moreover have "nat (lm_depth DefaultLimits) + 1 = Suc 20" by (simp add: DefaultLimits_def)
  ultimately show ?thesis using assms(1) by (simp add: mail_Extract_def w Let_def plain_mime_def walk_start_def)
qed

end
