(* ===== verification/Adminapi.thy ===== *)
theory Adminapi
  imports Service Holds Upstream Admincfg Synchealth Utf8
begin

text \<open>Model of the handlers of \<open>internal/admin/http.go\<close> and of the client of \<open>internal/admin/client.go\<close>: the
  operator's API from the call on one side to the service on the other.

  The wire is a request and a response. JSON is a record of encoders and decoders; reading back what was
  encoded gives the value with its invalid UTF-8 replaced, so the record says for each compound type what is left of a
  value, and strings of the small types go through \<open>to_valid\<close>. The router's escaping of path segments is
  modelled; a path it would clean is answered with a redirect. The texts of errors are arguments.\<close>

section \<open>Path segments\<close>

definition segment_safe :: "char \<Rightarrow> bool" where
  "segment_safe c \<longleftrightarrow> (let n = of_char c :: nat in (48 \<le> n \<and> n \<le> 57) \<or> (65 \<le> n \<and> n \<le> 90) \<or> (97 \<le> n \<and> n \<le> 122))
     \<or> c \<in> {CHR ''-'', CHR ''_'', CHR ''.'', CHR ''~'', CHR ''$'', CHR ''&'', CHR ''+'', CHR '':'', CHR ''='', CHR ''@''}"

definition hex_digit :: "nat \<Rightarrow> char" where
  "hex_digit n = (if n < 10 then char_of (48 + n) else char_of (55 + n))"

definition hex_value :: "char \<Rightarrow> nat option" where
  "hex_value c = (let n = of_char c :: nat in if 48 \<le> n \<and> n \<le> 57 then Some (n - 48)
     else if 65 \<le> n \<and> n \<le> 70 then Some (n - 55) else if 97 \<le> n \<and> n \<le> 102 then Some (n - 87) else None)"

definition escape_char :: "char \<Rightarrow> string" where
  "escape_char c = (if segment_safe c then [c] else [CHR ''%'', hex_digit (of_char c div 16), hex_digit (of_char c mod 16)])"

definition PathEscape :: "string \<Rightarrow> string" where
  "PathEscape s = concat (map escape_char s)"

fun PathUnescape :: "string \<Rightarrow> string option" where
  "PathUnescape [] = Some []"
| "PathUnescape (c # s) = (if c \<noteq> CHR ''%'' then map_option ((#) c) (PathUnescape s)
     else case s of
       a # b # t \<Rightarrow> (case (hex_value a, hex_value b) of
           (Some x, Some y) \<Rightarrow> map_option ((#) (char_of (16 * x + y))) (PathUnescape t)
         | _ \<Rightarrow> None)
     | _ \<Rightarrow> None)"

fun split_slash :: "string \<Rightarrow> string list" where
  "split_slash [] = [[]]"
| "split_slash (c # s) = (if c = CHR ''/'' then [] # split_slash s
     else case split_slash s of [] \<Rightarrow> [[c]] | x # xs \<Rightarrow> (c # x) # xs)"

section \<open>Routing\<close>

text \<open>A pattern is a method and a path; a segment in braces takes any segment that is not empty. No two registered
  patterns match the same path under one method, so the first that matches is the only one.\<close>

definition segments :: "string \<Rightarrow> string list" where
  "segments path = tl (split_slash path)"

definition dirty :: "string \<Rightarrow> bool" where
  "dirty path \<longleftrightarrow> list_ex (\<lambda>s. s \<in> {''.'', ''..''}) (segments path) \<or> '''' \<in> set (butlast (segments path))"

fun bind_segments :: "string list \<Rightarrow> string list \<Rightarrow> (string \<times> string) list option" where
  "bind_segments [] [] = Some []"
| "bind_segments (p # ps) (s # ss) = (
     if has_prefix p ''{'' then (if s = '''' then None else map_option ((#) (p, s)) (bind_segments ps ss))
     else if p = s then bind_segments ps ss else None)"
| "bind_segments _ _ = None"

definition pattern_method :: "string \<Rightarrow> string" where
  "pattern_method p = takeWhile (\<lambda>c. c \<noteq> CHR '' '') p"

definition pattern_path :: "string \<Rightarrow> string" where
  "pattern_path p = tl (dropWhile (\<lambda>c. c \<noteq> CHR '' '') p)"

definition unescaped_segments :: "string \<Rightarrow> string list" where
  "unescaped_segments path = map (\<lambda>s. case PathUnescape s of None \<Rightarrow> s | Some t \<Rightarrow> t) (segments path)"

definition match_pattern :: "string list \<Rightarrow> string \<Rightarrow> (string \<times> string) list option" where
  "match_pattern segs p = bind_segments (segments (pattern_path p)) segs"

definition method_matches :: "string \<Rightarrow> string \<Rightarrow> bool" where
  "method_matches pm meth \<longleftrightarrow> pm = meth \<or> pm = ''GET'' \<and> meth = ''HEAD''"

datatype mux_result = MuxRoute string "(string \<times> string) list" | MuxRedirect | MuxWrongMethod | MuxNotFound

definition mux_find :: "string list \<Rightarrow> string \<Rightarrow> string \<Rightarrow> mux_result" where
  "mux_find patterns meth path = (
     let segs = unescaped_segments path; hit = filter (\<lambda>p. match_pattern segs p \<noteq> None) patterns
     in if dirty path then MuxRedirect
        else case filter (\<lambda>p. method_matches (pattern_method p) meth) hit of
            p # _ \<Rightarrow> MuxRoute p (the (match_pattern segs p))
          | [] \<Rightarrow> if hit = [] then MuxNotFound else MuxWrongMethod)"

definition path_value :: "(string \<times> string) list \<Rightarrow> string \<Rightarrow> string" where
  "path_value vars name = (case map_of vars (''{'' @ name @ ''}'') of None \<Rightarrow> '''' | Some v \<Rightarrow> v)"

section \<open>Values on the wire\<close>

definition to_valid :: "string \<Rightarrow> string" where
  "to_valid s = encode_runes (runes s)"

record wire_outcome =
  wo_id :: string
  wo_status :: string
  wo_detail :: string
  wo_warn :: string

record reconcile_status =
  rt_inbox :: string
  rt_suspended :: bool
  rt_held_count :: int

type_synonym span = "string \<times> string"
type_synonym evidence = "(string \<times> span list) list"

text \<open>The body of a re-send: absent, not JSON, or the acknowledgement.\<close>

datatype resend_body = ResendEOF | ResendBad | ResendAck bool

record json_codec =
  je_error :: "string \<Rightarrow> string option \<Rightarrow> bytes"
  jd_error :: "bytes \<Rightarrow> string \<times> string"
  je_metas :: "meta list \<Rightarrow> bytes"
  jd_metas :: "bytes \<Rightarrow> meta list option"
  jc_meta :: "meta \<Rightarrow> meta"
  je_outcome :: "wire_outcome \<Rightarrow> bytes"
  jd_outcome :: "bytes \<Rightarrow> wire_outcome option"
  je_inboxes :: "(string \<times> string) list \<Rightarrow> bytes"
  jd_inboxes :: "bytes \<Rightarrow> (string \<times> string) list option"
  je_held :: "imessage list \<Rightarrow> bytes"
  jd_held :: "bytes \<Rightarrow> imessage list option"
  je_message :: "imessage \<Rightarrow> bytes"
  jd_message :: "bytes \<Rightarrow> imessage option"
  jc_message :: "imessage \<Rightarrow> imessage"
  je_evidence :: "evidence \<Rightarrow> bytes"
  jd_evidence :: "bytes \<Rightarrow> evidence option"
  je_latches :: "reconcile_status list \<Rightarrow> bytes"
  jd_latches :: "bytes \<Rightarrow> reconcile_status list option"
  je_sync :: "sync_status list \<Rightarrow> bytes"
  jd_sync :: "bytes \<Rightarrow> sync_status list option"
  jc_sync :: "sync_status \<Rightarrow> sync_status"
  je_released :: "string \<times> int \<Rightarrow> bytes"
  jd_released :: "bytes \<Rightarrow> (string \<times> int) option"
  je_audit :: "aentry list \<times> u64 \<Rightarrow> bytes"
  jd_audit :: "bytes \<Rightarrow> (aentry list \<times> u64) option"
  jc_entry :: "aentry \<Rightarrow> aentry"
  je_ack :: "bool \<Rightarrow> bytes"
  jd_ack :: "bytes \<Rightarrow> resend_body"
  je_reject :: "string \<times> bool \<Rightarrow> bytes"
  jd_reject :: "bytes \<Rightarrow> (string \<times> bool) option"

definition valid_outcome :: "wire_outcome \<Rightarrow> wire_outcome" where
  "valid_outcome w = \<lparr>wo_id = to_valid (wo_id w), wo_status = to_valid (wo_status w), wo_detail = to_valid (wo_detail w),
     wo_warn = to_valid (wo_warn w)\<rparr>"

definition valid_evidence :: "evidence \<Rightarrow> evidence" where
  "valid_evidence ev = map (\<lambda>(f, spans). (to_valid f, map (\<lambda>(s, t). (to_valid s, to_valid t)) spans)) ev"

definition valid_latch :: "reconcile_status \<Rightarrow> reconcile_status" where
  "valid_latch l = l\<lparr>rt_inbox := to_valid (rt_inbox l)\<rparr>"

text \<open>What is relied on of \<open>encoding/json\<close>.\<close>

definition json_ok :: "json_codec \<Rightarrow> bool" where
  "json_ok J \<longleftrightarrow> (\<forall>e c. jd_error J (je_error J e c) = (to_valid e, case c of None \<Rightarrow> '''' | Some x \<Rightarrow> to_valid x))
     \<and> (\<forall>l. jd_metas J (je_metas J l) = Some (map (jc_meta J) l)) \<and> (\<forall>x. jd_outcome J (je_outcome J x) = Some (valid_outcome x))
     \<and> (\<forall>l. jd_inboxes J (je_inboxes J l) = Some (map (map_prod to_valid to_valid) l))
     \<and> (\<forall>l. jd_held J (je_held J l) = Some (map (jc_message J) l)) \<and> (\<forall>m. jd_message J (je_message J m) = Some (jc_message J m))
     \<and> (\<forall>l. jd_evidence J (je_evidence J l) = Some (valid_evidence l)) \<and> (\<forall>l. jd_latches J (je_latches J l) = Some (map valid_latch l))
     \<and> (\<forall>l. jd_sync J (je_sync J l) = Some (map (jc_sync J) l)) \<and> (\<forall>i n. jd_released J (je_released J (i, n)) = Some (to_valid i, n))
     \<and> (\<forall>l n. jd_audit J (je_audit J (l, n)) = Some (map (jc_entry J) l, n)) \<and> (\<forall>b. jd_ack J (je_ack J b) = ResendAck b)
     \<and> (\<forall>r b. jd_reject J (je_reject J (r, b)) = Some (to_valid r, b))"

section \<open>The server\<close>

record api_request =
  rq_method :: string
  rq_path :: string
  rq_query :: "(string \<times> string) list"
  rq_auth :: string
  rq_body :: "bytes option"

record api_response =
  rs_status :: nat
  rs_body :: bytes

record api_texts =
  et_svc :: "svc_err \<Rightarrow> string"
  et_warn :: "warn \<Rightarrow> string"
  et_sluice :: "sluice_err \<Rightarrow> string"
  et_held :: "held_err \<Rightarrow> string"
  et_in :: "in_err \<Rightarrow> string"
  et_list :: "list_err \<Rightarrow> string"
  et_misc :: "string \<Rightarrow> string"

text \<open>What the daemon wires to the service besides the queue and the mailbox: the reconcile controls, the health of the
  sync, the evidence of a held message. Errors of the first and the last that have no identity are texts.\<close>

datatype release_err = ReleaseNotHeld | ReleaseOther string

record api_state =
  at_mail :: mailroom
  at_log :: "arec list"
  at_sync :: state_store

record econtent =
  ec_body :: string
  ec_attachments :: "(string \<times> string) list"

record 'h api =
  ap_svc :: "'h svc"
  ap_io :: svc_io
  ap_holds :: holds_service
  ap_lib :: stdlib
  ap_now :: time
  ap_hold_io :: io
  ap_subject :: "bytes \<Rightarrow> string"
  ap_evidence :: "(econtent \<Rightarrow> string list \<Rightarrow> (string \<times> span list) list) option"
  ap_extract :: "bytes \<Rightarrow> string + econtent"
  ap_stamp :: "(string \<Rightarrow> bytes \<Rightarrow> stamp) option"
  ap_release :: "(string \<Rightarrow> api_state \<Rightarrow> (release_err + int) \<times> api_state) option"
  ap_latches :: "(api_state \<Rightarrow> string + reconcile_status list) option"
  ap_health :: "(api_state \<Rightarrow> sync_status list) option"
  ap_audit :: "api_state \<Rightarrow> audit_wiring"
  ap_fuel :: nat
  ap_parse_nano :: "string \<Rightarrow> time option"
  ap_parse :: "string \<Rightarrow> time option"
  ap_json :: json_codec
  ap_text :: api_texts
  ap_sha :: "bytes \<Rightarrow> bytes"
  ap_server :: admin_server

definition codeNotHeld :: string where "codeNotHeld = ''not_held''"
definition codeNotFound :: string where "codeNotFound = ''not_found''"
definition codeResendInProgress :: string where "codeResendInProgress = ''resend_in_progress''"
definition codeAckRequired :: string where "codeAckRequired = ''ack_required''"

definition writeErrWithCode :: "'h api \<Rightarrow> nat \<Rightarrow> string \<Rightarrow> string \<Rightarrow> api_response" where
  "writeErrWithCode A code e c = \<lparr>rs_status = code, rs_body = je_error (ap_json A) e (Some c)\<rparr>"

definition writeErr :: "'h api \<Rightarrow> nat \<Rightarrow> string \<Rightarrow> api_response" where
  "writeErr A code e = \<lparr>rs_status = code, rs_body = je_error (ap_json A) e None\<rparr>"

definition writeJSON :: "bytes \<Rightarrow> api_response" where
  "writeJSON b = \<lparr>rs_status = 200, rs_body = b\<rparr>"

definition status_text :: "status \<Rightarrow> string" where
  "status_text st = (case st of Pending \<Rightarrow> ''pending'' | Approved \<Rightarrow> ''approved'' | Rejected \<Rightarrow> ''rejected'' | Sent \<Rightarrow> ''sent'')"

definition wire_of :: "'h api \<Rightarrow> svc_outcome \<Rightarrow> wire_outcome" where
  "wire_of A oc = \<lparr>wo_id = so_id oc, wo_status = status_text (so_status oc), wo_detail = so_detail oc,
     wo_warn = et_warn (ap_text A) (so_warn oc)\<rparr>"

definition writeAction :: "'h api \<Rightarrow> svc_err + svc_outcome \<Rightarrow> api_response" where
  "writeAction A r = (case r of
       Inl e \<Rightarrow> writeErr A (case e of SvSluice ErrNotFound \<Rightarrow> 404 | SvSluice (ErrNotPending i st) \<Rightarrow> 409 | _ \<Rightarrow> 500) (et_svc (ap_text A) e)
     | Inr oc \<Rightarrow> writeJSON (je_outcome (ap_json A) (wire_of A oc)))"

definition in_mail :: "api_state \<Rightarrow> 'r \<times> mailroom \<Rightarrow> 'r \<times> api_state" where
  "in_mail s r = (fst r, s\<lparr>at_mail := snd r\<rparr>)"

definition handleList :: "'h api \<Rightarrow> api_state \<Rightarrow> api_response" where
  "handleList A s = writeJSON (je_metas (ap_json A) (sluice_List (ap_subject A) (mr_sluice (at_mail s))))"

definition handleShow :: "'h api \<Rightarrow> string \<Rightarrow> api_state \<Rightarrow> api_response" where
  "handleShow A mid s = (case sluice_Get (mr_sluice (at_mail s)) mid of
       Inl e \<Rightarrow> if e = ErrNotFound then writeErrWithCode A 404 (et_sluice (ap_text A) e) codeNotFound
         else writeErr A 500 (et_sluice (ap_text A) e)
     | Inr m \<Rightarrow> \<lparr>rs_status = 200, rs_body = m_raw m\<rparr>)"

definition handleApprove :: "'h api \<Rightarrow> string \<Rightarrow> string \<Rightarrow> api_state \<Rightarrow> api_response \<times> api_state" where
  "handleApprove A actor mid s = (case in_mail s (svc_ApproveID (ap_svc A) (ap_io A) mid actor (at_mail s)) of
       (r, t) \<Rightarrow> (writeAction A r, t))"

definition handleApproveAs :: "'h api \<Rightarrow> string \<Rightarrow> string \<Rightarrow> string \<Rightarrow> api_state \<Rightarrow> api_response \<times> api_state" where
  "handleApproveAs A actor mid inbox s = (case in_mail s (svc_ApproveAs (ap_svc A) (ap_io A) mid inbox actor (at_mail s)) of
       (r, t) \<Rightarrow> (case r of
           Inl (SvUnknownInbox i) \<Rightarrow> writeErr A 400 (et_svc (ap_text A) (SvUnknownInbox i))
         | Inl (SvNoSender i) \<Rightarrow> writeErr A 409 (et_svc (ap_text A) (SvNoSender i))
         | _ \<Rightarrow> writeAction A r, t))"

definition handleResend :: "'h api \<Rightarrow> string \<Rightarrow> string \<Rightarrow> bytes option \<Rightarrow> api_state \<Rightarrow> api_response \<times> api_state" where
  "handleResend A actor mid body s = (
     case (case body of None \<Rightarrow> ResendEOF | Some b \<Rightarrow> jd_ack (ap_json A) b) of
       ResendBad \<Rightarrow> (writeErr A 400 (et_misc (ap_text A) ''bad re-send request''), s)
     | rq \<Rightarrow> (case in_mail s (svc_ReSend (ap_svc A) (ap_io A) mid (rq = ResendAck True) actor (at_mail s)) of
         (r, t) \<Rightarrow> (case r of
             Inl (SvResendInProgress i) \<Rightarrow> writeErrWithCode A 409 (et_svc (ap_text A) (SvResendInProgress i)) codeResendInProgress
           | Inl (SvAckRequired i) \<Rightarrow> writeErrWithCode A 409 (et_svc (ap_text A) (SvAckRequired i)) codeAckRequired
           | Inl (SvNotResendable i st) \<Rightarrow> writeErr A 409 (et_svc (ap_text A) (SvNotResendable i st))
           | Inl (SvUnknownInbox i) \<Rightarrow> writeErr A 409 (et_svc (ap_text A) (SvUnknownInbox i))
           | _ \<Rightarrow> writeAction A r, t)))"

definition handleReject :: "'h api \<Rightarrow> string \<Rightarrow> string \<Rightarrow> bytes option \<Rightarrow> api_state \<Rightarrow> api_response \<times> api_state" where
  "handleReject A actor mid body s = (case (case body of None \<Rightarrow> None | Some b \<Rightarrow> jd_reject (ap_json A) b) of
       None \<Rightarrow> (writeErr A 400 (et_misc (ap_text A) ''bad request''), s)
     | Some (reason, retryable) \<Rightarrow>
         if reason = '''' then (writeErr A 400 ''reason is required'', s)
         else (case in_mail s (svc_RejectID (ap_svc A) (ap_io A) mid reason retryable actor (at_mail s)) of
             (r, t) \<Rightarrow> (writeAction A r, t)))"

definition handleInboxes :: "'h api \<Rightarrow> api_response" where
  "handleInboxes A = writeJSON (je_inboxes (ap_json A) (svc_Inboxes (ap_svc A)))"

definition handleHeldList :: "'h api \<Rightarrow> api_state \<Rightarrow> api_response" where
  "handleHeldList A s = writeJSON (je_held (ap_json A) (HeldList (ap_holds A) (ap_lib A) (ap_now A) (mr_inbound (at_mail s))))"

definition handleHeldContent :: "'h api \<Rightarrow> string \<Rightarrow> api_state \<Rightarrow> api_response" where
  "handleHeldContent A mid s = (case HeldContent (ap_holds A) (ap_lib A) (ap_now A) mid (mr_inbound (at_mail s)) of
       Inl NotHeld \<Rightarrow> writeErrWithCode A 404 (et_held (ap_text A) NotHeld) codeNotHeld
     | Inl HoldsUnavailable \<Rightarrow> writeErr A 503 (et_held (ap_text A) HoldsUnavailable)
     | Inl (HeldStore e) \<Rightarrow> writeErr A 500 (et_held (ap_text A) (HeldStore e))
     | Inr raw \<Rightarrow> \<lparr>rs_status = 200, rs_body = raw\<rparr>)"

text \<open>The evidence of a held message: \<open>HeldEvidence\<close> of the service.\<close>

datatype evidence_err = EvHeld held_err | EvUnavailable string

definition HeldEvidence :: "'h api \<Rightarrow> string \<Rightarrow> api_state \<Rightarrow> evidence_err + evidence" where
  "HeldEvidence A mid s = (
     if \<not> hs_inbox_wired (ap_holds A) then Inl (EvHeld HoldsUnavailable)
     else case ap_evidence A of
       None \<Rightarrow> Inl (EvUnavailable ''no detector wired'')
     | Some ev \<Rightarrow> (case heldMessage (ap_holds A) (ap_lib A) (ap_now A) mid (mr_inbound (at_mail s)) of
         Inl e \<Rightarrow> Inl (EvHeld e)
       | Inr m \<Rightarrow> (case im_assessment m of
           None \<Rightarrow> Inr []
         | Some a \<Rightarrow>
             if ia_factors a = [] then Inr []
             else if im_raw m = [] then Inl (EvUnavailable ''no stored body'')
             else case ap_extract A (im_raw m) of
                 Inl e \<Rightarrow> Inl (EvUnavailable e)
               | Inr c \<Rightarrow>
                   let c' = (case ap_stamp A of
                         None \<Rightarrow> c
                       | Some st \<Rightarrow> if sp_banner (st (im_inbox m) (im_raw m)) then c\<lparr>ec_body := StripLeadingBanner (ec_body c)\<rparr> else c);
                       found = ev c' (ia_factors a)
                   in Inr (map (\<lambda>f. (f, case map_of found f of None \<Rightarrow> [] | Some sp \<Rightarrow> sp)) (ia_factors a)))))"

definition handleHeldEvidence :: "'h api \<Rightarrow> string \<Rightarrow> api_state \<Rightarrow> api_response" where
  "handleHeldEvidence A mid s = (case HeldEvidence A mid s of
       Inl (EvHeld NotHeld) \<Rightarrow> writeErrWithCode A 404 (et_held (ap_text A) NotHeld) codeNotHeld
     | Inl (EvHeld HoldsUnavailable) \<Rightarrow> writeErr A 503 (et_held (ap_text A) HoldsUnavailable)
     | Inl (EvUnavailable e) \<Rightarrow> writeErr A 503 (et_misc (ap_text A) e)
     | Inl (EvHeld (HeldStore e)) \<Rightarrow> writeErr A 500 (et_held (ap_text A) (HeldStore e))
     | Inr ev \<Rightarrow> writeJSON (je_evidence (ap_json A) ev))"

definition writeHold :: "'h api \<Rightarrow> in_err + imessage \<Rightarrow> api_response" where
  "writeHold A r = (case r of
       Inl e \<Rightarrow> writeErr A (if in_not_found e then 404 else 500) (et_in (ap_text A) e)
     | Inr m \<Rightarrow> writeJSON (je_message (ap_json A) m))"

definition in_holds :: "api_state \<Rightarrow> 'r \<times> inbound \<times> arec list \<Rightarrow> 'r \<times> api_state" where
  "in_holds s r = (case r of (x, st, lg) \<Rightarrow> (x, s\<lparr>at_mail := (at_mail s)\<lparr>mr_inbound := st\<rparr>, at_log := lg\<rparr>))"

definition handleExpose :: "'h api \<Rightarrow> string \<Rightarrow> string \<Rightarrow> api_state \<Rightarrow> api_response \<times> api_state" where
  "handleExpose A actor mid s = (case in_holds s (ExposeHeld (ap_holds A) (ap_hold_io A) mid actor (mr_inbound (at_mail s), at_log s)) of
       (r, t) \<Rightarrow> (writeHold A r, t))"

definition handleDrop :: "'h api \<Rightarrow> string \<Rightarrow> string \<Rightarrow> api_state \<Rightarrow> api_response \<times> api_state" where
  "handleDrop A actor mid s = (case in_holds s (DropHeld (ap_holds A) (ap_hold_io A) mid actor (mr_inbound (at_mail s), at_log s)) of
       (r, t) \<Rightarrow> (writeHold A r, t))"

definition handleReconcileStatus :: "'h api \<Rightarrow> api_state \<Rightarrow> api_response" where
  "handleReconcileStatus A s = (case ap_latches A of
       None \<Rightarrow> writeErr A 503 (et_misc (ap_text A) ''reconcile unavailable'')
     | Some f \<Rightarrow> (case f s of Inl e \<Rightarrow> writeErr A 500 e | Inr l \<Rightarrow> writeJSON (je_latches (ap_json A) l)))"

definition handleReconcileRelease :: "'h api \<Rightarrow> string \<Rightarrow> api_state \<Rightarrow> api_response \<times> api_state" where
  "handleReconcileRelease A inbox s = (case ap_release A of
       None \<Rightarrow> (writeErr A 503 (et_misc (ap_text A) ''reconcile unavailable''), s)
     | Some f \<Rightarrow> (case f inbox s of (r, t) \<Rightarrow> (case r of
           Inl ReleaseNotHeld \<Rightarrow> writeErr A 409 (et_misc (ap_text A) ''not held'')
         | Inl (ReleaseOther e) \<Rightarrow> writeErr A 500 e
         | Inr n \<Rightarrow> writeJSON (je_released (ap_json A) (inbox, n)), t)))"

definition handleSyncStatus :: "'h api \<Rightarrow> api_state \<Rightarrow> api_response" where
  "handleSyncStatus A s = writeJSON (je_sync (ap_json A) (case ap_health A of None \<Rightarrow> [] | Some f \<Rightarrow> f s))"

definition query_get :: "(string \<times> string) list \<Rightarrow> string \<Rightarrow> string" where
  "query_get q k = (case map_of q k of None \<Rightarrow> '''' | Some v \<Rightarrow> v)"

definition auditListDefaultLimit :: int where "auditListDefaultLimit = 100"

text \<open>\<open>strconv.Atoi\<close>.\<close>

definition go_atoi :: "string \<Rightarrow> int option" where
  "go_atoi s = (case s of
       [] \<Rightarrow> None
     | c # r \<Rightarrow> (let digits = (if c = CHR ''-'' \<or> c = CHR ''+'' then r else s)
         in if digits = [] \<or> \<not> list_all is_digit digits then None
            else let n = (if c = CHR ''-'' then - int (digits_val digits) else int (digits_val digits))
              in if in_int64 n then Some n else None))"

definition query_limit :: "string \<Rightarrow> int option" where
  "query_limit v = (if v = '''' then Some auditListDefaultLimit
     else case go_atoi v of None \<Rightarrow> None | Some n \<Rightarrow> if n \<le> 0 then None else Some (min n auditListMaxLimit))"

definition query_time :: "(string \<Rightarrow> time option) \<Rightarrow> string \<Rightarrow> time option" where
  "query_time parse v = (if v = '''' then Some 0 else parse v)"

definition query_after :: "string \<Rightarrow> u64 option" where
  "query_after v = (if v = '''' then Some 0 else map_option word_of_nat (parse_uint 64 v))"

definition handleAuditList :: "'h api \<Rightarrow> (string \<times> string) list \<Rightarrow> api_state \<Rightarrow> api_response option" where
  "handleAuditList A q s = (let bad = (\<lambda>e. Some (writeErr A 400 (et_misc (ap_text A) e))) in
     case query_after (query_get q ''after'') of
       None \<Rightarrow> bad ''invalid after''
     | Some after \<Rightarrow> (case query_limit (query_get q ''limit'') of
         None \<Rightarrow> bad ''invalid limit''
       | Some limit \<Rightarrow> (case query_time (ap_parse A) (query_get q ''since'') of
           None \<Rightarrow> bad ''invalid since''
         | Some since \<Rightarrow> (case query_time (ap_parse A) (query_get q ''until'') of
             None \<Rightarrow> bad ''invalid until''
           | Some until \<Rightarrow> map_option (\<lambda>r. case r of
                 Inl AuditDisabled \<Rightarrow> writeErrWithCode A 404 (et_list (ap_text A) AuditDisabled) ''audit_disabled''
               | Inl AuditNotListable \<Rightarrow> writeErrWithCode A 501 (et_list (ap_text A) AuditNotListable) ''audit_not_listable''
               | Inl e \<Rightarrow> writeErr A 500 (et_list (ap_text A) e)
               | Inr page \<Rightarrow> writeJSON (je_audit (ap_json A) page))
             (AuditList (ap_fuel A) (ap_parse_nano A) (ap_audit A s)
                \<lparr>af_agent = query_get q ''agent'', af_message_id = query_get q ''message_id'', af_since = since, af_until = until\<rparr>
                after limit)))))"

definition plain_page :: "nat \<Rightarrow> string \<Rightarrow> api_response" where
  "plain_page code b = \<lparr>rs_status = code, rs_body = b\<rparr>"

text \<open>A handler behind the gate. Only the audit listing may not return, for want of fuel.\<close>

definition still :: "api_state \<Rightarrow> api_response \<Rightarrow> api_response option \<times> api_state" where
  "still s r = (Some r, s)"

definition moved :: "api_response \<times> api_state \<Rightarrow> api_response option \<times> api_state" where
  "moved r = (Some (fst r), snd r)"

definition api_handle ::
  "'h api \<Rightarrow> string \<Rightarrow> string \<Rightarrow> (string \<times> string) list \<Rightarrow> api_request \<Rightarrow> api_state \<Rightarrow> api_response option \<times> api_state" where
  "api_handle A p actor vars rq s = (let mid = path_value vars ''id''; inbox = path_value vars ''inbox'' in
     if p = ''GET /queue'' then still s (handleList A s)
     else if p = ''GET /queue/{id}'' then still s (handleShow A mid s)
     else if p = ''POST /queue/{id}/approve'' then moved (handleApprove A actor mid s)
     else if p = ''POST /queue/{id}/approve-as/{inbox}'' then moved (handleApproveAs A actor mid inbox s)
     else if p = ''POST /queue/{id}/resend'' then moved (handleResend A actor mid (rq_body rq) s)
     else if p = ''POST /queue/{id}/reject'' then moved (handleReject A actor mid (rq_body rq) s)
     else if p = ''GET /inboxes'' then still s (handleInboxes A)
     else if p = ''GET /holds'' then still s (handleHeldList A s)
     else if p = ''GET /holds/{id}/content'' then still s (handleHeldContent A mid s)
     else if p = ''GET /holds/{id}/evidence'' then still s (handleHeldEvidence A mid s)
     else if p = ''POST /holds/{id}/expose'' then moved (handleExpose A actor mid s)
     else if p = ''POST /holds/{id}/drop'' then moved (handleDrop A actor mid s)
     else if p = ''GET /reconcile'' then still s (handleReconcileStatus A s)
     else if p = ''POST /reconcile/{inbox}/release'' then moved (handleReconcileRelease A inbox s)
     else if p = ''GET /sync-status'' then still s (handleSyncStatus A s)
     else if p = ''GET /audit'' then (handleAuditList A (rq_query rq) s, s)
     else still s (plain_page 404 ''404 page not found''))"

definition api_serve :: "'h api \<Rightarrow> api_request \<Rightarrow> api_state \<Rightarrow> api_response option \<times> api_state" where
  "api_serve A rq s = (case mux_find (map fst (sv_routes (ap_server A))) (rq_method rq) (rq_path rq) of
       MuxRedirect \<Rightarrow> still s (plain_page 301 '''')
     | MuxNotFound \<Rightarrow> still s (plain_page 404 ''404 page not found'')
     | MuxWrongMethod \<Rightarrow> still s (plain_page 405 ''Method Not Allowed'')
     | MuxRoute p vars \<Rightarrow> (case admin_request (ap_sha A) (ap_server A) p (rq_auth rq) of
         NotRouted \<Rightarrow> still s (plain_page 404 ''404 page not found'')
       | Unauthorized \<Rightarrow> still s (writeErr A 401 ''unauthorized'')
       | Forbidden sc \<Rightarrow> still s (writeErr A 403 (''forbidden: missing scope '' @ sc))
       | Granted actor \<Rightarrow> api_handle A p actor vars rq s))"

section \<open>The client\<close>

record api_client =
  cc_token :: string
  cc_json :: json_codec
  cc_status :: "nat \<Rightarrow> string"
  cc_format :: "time \<Rightarrow> string"

datatype client_err = CeTransport | CeDecode | CeRead | CeQueueNotFound | CeNotHeld | CeEvidenceUnavailable string
  | CeResendInProgress | CeAckRequired | CeAuditDisabled | CeAuditNotListable | CeMsg string

text \<open>What a request over the network gives: nothing, or the response and whether its body was read to the end.\<close>

type_synonym transport = "api_request \<Rightarrow> (api_response \<times> bool) option"

definition client_request :: "api_client \<Rightarrow> string \<Rightarrow> string \<Rightarrow> (string \<times> string) list \<Rightarrow> bytes option \<Rightarrow> api_request" where
  "client_request C meth path q body = \<lparr>rq_method = meth, rq_path = path, rq_query = q, rq_auth = ''Bearer '' @ cc_token C, rq_body = body\<rparr>"

definition error_text :: "api_client \<Rightarrow> api_response \<Rightarrow> client_err" where
  "error_text C r = (let e = fst (jd_error (cc_json C) (rs_body r))
     in CeMsg (''admin: '' @ (if e = '''' then cc_status C (rs_status r) else e)))"

definition errorFrom :: "api_client \<Rightarrow> api_response \<Rightarrow> client_err" where
  "errorFrom C r = error_text C r"

definition notFoundFrom :: "api_client \<Rightarrow> api_response \<Rightarrow> string \<Rightarrow> client_err \<Rightarrow> client_err" where
  "notFoundFrom C r marker sentinel = (if snd (jd_error (cc_json C) (rs_body r)) = marker then sentinel else error_text C r)"

definition codedFrom :: "api_client \<Rightarrow> api_response \<Rightarrow> (string \<times> client_err) list \<Rightarrow> client_err" where
  "codedFrom C r sentinels = (let code = snd (jd_error (cc_json C) (rs_body r)) in case map_of sentinels code of
       Some e \<Rightarrow> if code \<noteq> '''' then e else error_text C r
     | None \<Rightarrow> error_text C r)"

definition auditErrorFrom :: "api_client \<Rightarrow> api_response \<Rightarrow> client_err" where
  "auditErrorFrom C r = (let code = snd (jd_error (cc_json C) (rs_body r)) in
     if code = ''audit_disabled'' then CeAuditDisabled
     else if code = ''audit_not_listable'' then CeAuditNotListable
     else error_text C r)"

text \<open>A request whose answer is read by \<open>fail\<close> when the status is not 200 and by \<open>dec\<close> otherwise.\<close>

definition client_json ::
  "api_client \<Rightarrow> transport \<Rightarrow> api_request \<Rightarrow> (api_response \<Rightarrow> client_err) \<Rightarrow> (bytes \<Rightarrow> 'a option) \<Rightarrow> client_err + 'a" where
  "client_json C T rq err dec = (case T rq of
       None \<Rightarrow> Inl CeTransport
     | Some (r, whole) \<Rightarrow> if rs_status r \<noteq> 200 then Inl (err r)
         else case dec (rs_body r) of None \<Rightarrow> Inl CeDecode | Some x \<Rightarrow> Inr x)"

definition client_bytes :: "api_client \<Rightarrow> transport \<Rightarrow> api_request \<Rightarrow> (api_response \<Rightarrow> client_err) \<Rightarrow> client_err + bytes" where
  "client_bytes C T rq err = (case T rq of
       None \<Rightarrow> Inl CeTransport
     | Some (r, whole) \<Rightarrow> if rs_status r \<noteq> 200 then Inl (err r) else if \<not> whole then Inl CeRead else Inr (rs_body r))"

definition client_List :: "api_client \<Rightarrow> transport \<Rightarrow> client_err + meta list" where
  "client_List C T = client_json C T (client_request C ''GET'' ''/queue'' [] None) (errorFrom C) (jd_metas (cc_json C))"

definition audit_query :: "api_client \<Rightarrow> audit_filter \<Rightarrow> u64 \<Rightarrow> int \<Rightarrow> (string \<times> string) list" where
  "audit_query C f after limit = (if after \<noteq> 0 then [(''after'', fmt_uint (unat after))] else [])
     @ (if limit > 0 then [(''limit'', fmt_uint (nat limit))] else [])
     @ (if af_agent f \<noteq> '''' then [(''agent'', af_agent f)] else [])
     @ (if af_message_id f \<noteq> '''' then [(''message_id'', af_message_id f)] else [])
     @ (if af_since f \<noteq> 0 then [(''since'', cc_format C (af_since f))] else [])
     @ (if af_until f \<noteq> 0 then [(''until'', cc_format C (af_until f))] else [])"

definition client_AuditList :: "api_client \<Rightarrow> transport \<Rightarrow> audit_filter \<Rightarrow> u64 \<Rightarrow> int \<Rightarrow> client_err + (aentry list \<times> u64)" where
  "client_AuditList C T f after limit =
     client_json C T (client_request C ''GET'' ''/audit'' (audit_query C f after limit) None) (auditErrorFrom C) (jd_audit (cc_json C))"

definition client_Show :: "api_client \<Rightarrow> transport \<Rightarrow> string \<Rightarrow> client_err + bytes" where
  "client_Show C T mid = client_bytes C T (client_request C ''GET'' (''/queue/'' @ PathEscape mid) [] None)
     (\<lambda>r. if rs_status r = 404 then notFoundFrom C r codeNotFound CeQueueNotFound else errorFrom C r)"

definition client_action :: "api_client \<Rightarrow> transport \<Rightarrow> string \<Rightarrow> bytes option \<Rightarrow> client_err + wire_outcome" where
  "client_action C T path body = client_json C T (client_request C ''POST'' path [] body) (errorFrom C) (jd_outcome (cc_json C))"

definition client_Approve :: "api_client \<Rightarrow> transport \<Rightarrow> string \<Rightarrow> client_err + wire_outcome" where
  "client_Approve C T mid = client_action C T (''/queue/'' @ PathEscape mid @ ''/approve'') None"

definition client_ApproveAs :: "api_client \<Rightarrow> transport \<Rightarrow> string \<Rightarrow> string \<Rightarrow> client_err + wire_outcome" where
  "client_ApproveAs C T mid inbox = client_action C T (''/queue/'' @ PathEscape mid @ ''/approve-as/'' @ PathEscape inbox) None"

definition client_ReSend :: "api_client \<Rightarrow> transport \<Rightarrow> string \<Rightarrow> bool \<Rightarrow> client_err + wire_outcome" where
  "client_ReSend C T mid ack = client_json C T (client_request C ''POST'' (''/queue/'' @ PathEscape mid @ ''/resend'') []
       (if ack then Some (je_ack (cc_json C) True) else None))
     (\<lambda>r. if rs_status r = 409 then codedFrom C r [(codeResendInProgress, CeResendInProgress), (codeAckRequired, CeAckRequired)]
       else errorFrom C r) (jd_outcome (cc_json C))"

definition client_Inboxes :: "api_client \<Rightarrow> transport \<Rightarrow> client_err + (string \<times> string) list" where
  "client_Inboxes C T = client_json C T (client_request C ''GET'' ''/inboxes'' [] None) (errorFrom C) (jd_inboxes (cc_json C))"

definition client_Reject :: "api_client \<Rightarrow> transport \<Rightarrow> string \<Rightarrow> string \<Rightarrow> bool \<Rightarrow> client_err + wire_outcome" where
  "client_Reject C T mid reason retryable =
     client_action C T (''/queue/'' @ PathEscape mid @ ''/reject'') (Some (je_reject (cc_json C) (reason, retryable)))"

definition client_HeldList :: "api_client \<Rightarrow> transport \<Rightarrow> client_err + imessage list" where
  "client_HeldList C T = client_json C T (client_request C ''GET'' ''/holds'' [] None) (errorFrom C) (jd_held (cc_json C))"

definition client_HeldContent :: "api_client \<Rightarrow> transport \<Rightarrow> string \<Rightarrow> client_err + bytes" where
  "client_HeldContent C T mid = client_bytes C T (client_request C ''GET'' (''/holds/'' @ PathEscape mid @ ''/content'') [] None)
     (\<lambda>r. if rs_status r = 404 then notFoundFrom C r codeNotHeld CeNotHeld else errorFrom C r)"

fun message_of :: "client_err \<Rightarrow> string" where
  "message_of (CeMsg e) = e"
| "message_of _ = ''''"

definition client_HeldEvidence :: "api_client \<Rightarrow> transport \<Rightarrow> string \<Rightarrow> client_err + evidence" where
  "client_HeldEvidence C T mid = client_json C T (client_request C ''GET'' (''/holds/'' @ PathEscape mid @ ''/evidence'') [] None)
     (\<lambda>r. if rs_status r = 404 then notFoundFrom C r codeNotHeld CeNotHeld
       else if rs_status r = 503 then CeEvidenceUnavailable (message_of (errorFrom C r)) else errorFrom C r) (jd_evidence (cc_json C))"

definition client_hold :: "api_client \<Rightarrow> transport \<Rightarrow> string \<Rightarrow> client_err + imessage" where
  "client_hold C T path = client_json C T (client_request C ''POST'' path [] None) (errorFrom C) (jd_message (cc_json C))"

definition client_Expose :: "api_client \<Rightarrow> transport \<Rightarrow> string \<Rightarrow> client_err + imessage" where
  "client_Expose C T mid = client_hold C T (''/holds/'' @ PathEscape mid @ ''/expose'')"

definition client_Drop :: "api_client \<Rightarrow> transport \<Rightarrow> string \<Rightarrow> client_err + imessage" where
  "client_Drop C T mid = client_hold C T (''/holds/'' @ PathEscape mid @ ''/drop'')"

definition client_ReconcileStatus :: "api_client \<Rightarrow> transport \<Rightarrow> client_err + reconcile_status list" where
  "client_ReconcileStatus C T = client_json C T (client_request C ''GET'' ''/reconcile'' [] None) (errorFrom C) (jd_latches (cc_json C))"

definition client_SyncStatus :: "api_client \<Rightarrow> transport \<Rightarrow> client_err + sync_status list" where
  "client_SyncStatus C T = client_json C T (client_request C ''GET'' ''/sync-status'' [] None) (errorFrom C) (jd_sync (cc_json C))"

definition client_ReleaseReconcile :: "api_client \<Rightarrow> transport \<Rightarrow> string \<Rightarrow> client_err + (string \<times> int)" where
  "client_ReleaseReconcile C T inbox =
     client_json C T (client_request C ''POST'' (''/reconcile/'' @ PathEscape inbox @ ''/release'') [] None) (errorFrom C) (jd_released (cc_json C))"

section \<open>Escaping reads back\<close>

lemma hex_digit_value: "n < 16 \<Longrightarrow> hex_value (hex_digit n) = Some n"
  by (auto simp: hex_digit_def hex_value_def Let_def)

lemma of_char_div_16: "(of_char c :: nat) div 16 < 16"
  using of_char_lt_256 [of c] by (intro less_mult_imp_div_less) simp

lemma PathUnescape_escape: "PathUnescape (PathEscape s) = Some s"
proof (induction s)
  case (Cons c s)
  show ?case
  proof (cases "segment_safe c")
    case True
    then have "c \<noteq> CHR ''%''" by (auto simp: segment_safe_def Let_def)
    then show ?thesis using True Cons by (simp add: PathEscape_def escape_char_def)
  next
    case False
    have "char_of (16 * (of_char c div 16 :: nat) + of_char c mod 16) = c" by simp
    then show ?thesis using False Cons hex_digit_value [OF of_char_div_16 [of c]] hex_digit_value [of "of_char c mod 16"]
      by (simp add: PathEscape_def escape_char_def)
  qed
qed (simp add: PathEscape_def)

lemma escape_char_no_slash: "CHR ''/'' \<notin> set (escape_char c)"
proof -
  have h: "hex_digit n \<noteq> CHR ''/''" if "n < 16" for n
  proof
    assume "hex_digit n = CHR ''/''"
    moreover have "hex_value (CHR ''/'') = None" by (simp add: hex_value_def)
    ultimately show False using hex_digit_value [OF that] by simp
  qed
  show ?thesis
  proof (cases "segment_safe c")
    case True
    then have "c \<noteq> CHR ''/''" by (auto simp: segment_safe_def Let_def)
    then show ?thesis using True by (simp add: escape_char_def)
  next
    case False
    show ?thesis using False h [OF of_char_div_16 [of c]] h [of "of_char c mod 16"] by (auto simp: escape_char_def dest: sym)
  qed
qed

lemma PathEscape_no_slash: "CHR ''/'' \<notin> set (PathEscape s)"
  using escape_char_no_slash by (auto simp: PathEscape_def)

lemma split_no_slash: "CHR ''/'' \<notin> set s \<Longrightarrow> split_slash s = [s]"
  by (induction s) auto

lemma split_slash_ne [simp]: "split_slash s \<noteq> []"
  by (induction s) (auto split: list.splits)

lemma split_slash_append: "CHR ''/'' \<notin> set s \<Longrightarrow> split_slash (s @ CHR ''/'' # t) = s # split_slash t"
  by (induction s) auto

end
