(* ===== verification/Telecard.thy ===== *)
theory Telecard
  imports Utf16 Mailtext Adminapi Classifier Imapfetch
begin

text \<open>Model of what the operator is shown in the chat (\<open>internal/telegram\<close>: \<open>body.go\<close>, and the formatting in
  \<open>telegram.go\<close>, \<open>holds.go\<close>, \<open>resend.go\<close> and \<open>reconcile.go\<close>): reading a raw message for its card, and the text
  of every card.

  A message is the MIME tree of \<open>Mailtext\<close>; parsing address fields and quoting a name are the fields of a record.
  Sizes are below 2 to the 53, where Go's floats are exact.\<close>

section \<open>Reading a message for its card\<close>

record card_lib =
  cl_mime :: mime_lib
  cl_addrs :: "bytes \<Rightarrow> string \<Rightarrow> (string \<times> string) list option"
  cl_lower :: "string \<Rightarrow> string"
  cl_quote :: "string \<Rightarrow> string"
  cl_fold :: fold_env

definition trim_right_text :: "bytes \<Rightarrow> bytes" where
  "trim_right_text s = rev (dropWhile (\<lambda>c. of_char c \<in> {32, 9, 13, 10 :: nat}) (rev s))"

text \<open>The loop over the parts stops at the first error, whether or not it comes with a part.\<close>

fun extractText :: "mime_entity \<Rightarrow> bytes" and extract_scan :: "bytes \<Rightarrow> next_part list \<Rightarrow> bytes" where
  "extractText (Leaf l) = (if has_prefix (lf_type l) ''text/'' then br_data (lf_body l) else [])"
| "extractText (Multipart ps) = extract_scan [] ps"
| "extract_scan nested [] = nested"
| "extract_scan nested (Broken # ps) = nested"
| "extract_scan nested (Part soft p # ps) = (if soft then nested else case p of
       Leaf l \<Rightarrow> if lf_type l = ''text/plain'' then br_data (lf_body l) else extract_scan nested ps
     | Multipart qs \<Rightarrow> extract_scan (if nested = [] then extractText p else nested) ps)"

definition bodyText :: "card_lib \<Rightarrow> bytes \<Rightarrow> bytes" where
  "bodyText L raw = (if raw = [] then [] else case ml_read (cl_mime L) raw of
       None \<Rightarrow> [] | Some (e, err) \<Rightarrow> trim_right_text (extractText e))"

definition tg_formatAddr :: "string \<times> string \<Rightarrow> string" where
  "tg_formatAddr a = (if fst a \<noteq> '''' then fst a @ '' <'' @ snd a @ ''>'' else snd a)"

definition addrList :: "card_lib \<Rightarrow> bytes \<Rightarrow> string \<Rightarrow> (string \<times> string) list" where
  "addrList L raw key = (case cl_addrs L raw key of None \<Rightarrow> [] | Some l \<Rightarrow> l)"

definition addrDisplay :: "(string \<times> string) list \<Rightarrow> string" where
  "addrDisplay as = join '', '' (map tg_formatAddr as)"

record header_addrs =
  ha_from :: string
  ha_to :: string
  ha_set :: "string list"
  ha_parsed :: bool

definition headerAddrs :: "card_lib \<Rightarrow> bytes \<Rightarrow> header_addrs" where
  "headerAddrs L raw = (if raw = [] \<or> ml_read (cl_mime L) raw = None
     then \<lparr>ha_from = '''', ha_to = '''', ha_set = [], ha_parsed = False\<rparr>
     else let rcpts = addrList L raw ''To'' @ addrList L raw ''Cc''
       in \<lparr>ha_from = addrDisplay (addrList L raw ''From''), ha_to = addrDisplay rcpts,
         ha_set = map (\<lambda>a. cl_lower L (snd a)) rcpts, ha_parsed = True\<rparr>)"

record attachment =
  gt_filename :: string
  gt_type :: string
  gt_size :: int
  gt_data :: bytes

definition asAttachment :: "card_lib \<Rightarrow> mime_leaf \<Rightarrow> attachment option" where
  "asAttachment L l = (if lf_type l \<in> {''text/plain'', ''text/html'', ''''} \<and> lf_disp l \<noteq> ''attachment'' \<and> attachmentFilename l = ''''
     then None
     else Some \<lparr>gt_filename = attachmentDisplayName (cl_mime L) (attachmentFilename l),
       gt_type = attachmentContentType (lf_type l), gt_size = 0, gt_data = []\<rparr>)"

fun collectAttachments :: "card_lib \<Rightarrow> mime_entity \<Rightarrow> attachment list" and collect_parts :: "card_lib \<Rightarrow> next_part list \<Rightarrow> attachment list" where
  "collectAttachments L (Leaf l) = (case asAttachment L l of None \<Rightarrow> []
     | Some a \<Rightarrow> [a\<lparr>gt_data := br_data (lf_body l), gt_size := int (length (br_data (lf_body l)))\<rparr>])"
| "collectAttachments L (Multipart ps) = collect_parts L ps"
| "collect_parts L [] = []"
| "collect_parts L (Broken # ps) = []"
| "collect_parts L (Part soft p # ps) = (if soft then [] else collectAttachments L p @ collect_parts L ps)"

definition attachments :: "card_lib \<Rightarrow> bytes \<Rightarrow> attachment list" where
  "attachments L raw = (case ml_read (cl_mime L) raw of None \<Rightarrow> [] | Some (e, err) \<Rightarrow> collectAttachments L e)"

definition hiddenRcpts :: "card_lib \<Rightarrow> string list \<Rightarrow> string list \<Rightarrow> string list" where
  "hiddenRcpts L envelope headerSet = filter (\<lambda>r. cl_lower L (trim_space r) \<notin> set headerSet) envelope"

text \<open>A count of bytes to one decimal in units of 1024: the rounding is to nearest, ties to even.\<close>

definition size_units :: "string list" where "size_units = [''KB'', ''MB'', ''GB'', ''TB'', ''PB'']"

definition size_unit :: "nat \<Rightarrow> nat" where
  "size_unit n = (if n < 1024 ^ 2 then 0 else if n < 1024 ^ 3 then 1 else if n < 1024 ^ 4 then 2 else if n < 1024 ^ 5 then 3 else 4)"

definition round_even :: "nat \<Rightarrow> nat \<Rightarrow> nat" where
  "round_even a b = (let q = a div b; r = a mod b in if b < 2 * r \<or> (b = 2 * r \<and> odd q) then q + 1 else q)"

definition humanSize :: "nat \<Rightarrow> string" where
  "humanSize n = (if n < 1024 then fmt_uint n @ '' B''
     else let q = round_even (n * 10) (1024 ^ (size_unit n + 1))
       in fmt_uint (q div 10) @ (if q mod 10 = 0 then '''' else CHR ''.'' # fmt_uint (q mod 10)) @ '' '' @ size_units ! size_unit n)"

section \<open>The card of a held outbound message\<close>

definition maxUpload :: nat where "maxUpload = 50 * 1024 * 1024"

definition uploadable :: "attachment \<Rightarrow> bool" where
  "uploadable a \<longleftrightarrow> gt_size a \<le> int maxUpload \<and> gt_data a \<noteq> []"

definition fullBodyUploadable :: "nat \<Rightarrow> bool" where
  "fullBodyUploadable n \<longleftrightarrow> 0 < n \<and> n \<le> maxUpload"

definition fullBodyFilename :: string where "fullBodyFilename = ''full-message-body.txt''"

definition attachmentCaption :: "string \<Rightarrow> string \<Rightarrow> string" where
  "attachmentCaption qid filename = ''msg '' @ qid @ '' - '' @ filename"

definition fullBodyFailedNotice :: "string \<Rightarrow> string" where
  "fullBodyFailedNotice qid = ''msg '' @ qid @ '' - the full message body could not be attached; the preview above is truncated''"

definition fullBodyCaption :: "string \<Rightarrow> string" where
  "fullBodyCaption qid = ''msg '' @ qid @ '' - FULL MESSAGE BODY under review (NOT a file the email carried)''"

record notification =
  nt_id :: string
  nt_from :: string
  nt_to :: string
  nt_subject :: string
  nt_size :: int
  nt_hidden :: "string list"
  nt_body :: bytes
  nt_attachments :: "attachment list"
  nt_fetch_failed :: bool

definition displaySubject :: "string \<Rightarrow> string" where
  "displaySubject s = (if trim_space s = '''' then ''(no subject)'' else s)"

definition maxNotificationUnits :: int where "maxNotificationUnits = 3900"

definition maxAttachmentsLineUnits :: int where "maxAttachmentsLineUnits = 800"

definition attachment_entry :: "attachment \<Rightarrow> string" where
  "attachment_entry a = gt_filename a @ '' ('' @ gt_type a @ '', '' @ humanSize (nat (gt_size a))
     @ (if gt_size a > int maxUpload then '', too large to preview)'' else '')'')"

definition attachmentsLine :: "attachment list \<Rightarrow> string" where
  "attachmentsLine as = (if as = [] then ''attachments: none''
     else ''attachments: '' @ join '', '' (map attachment_entry (filter (\<lambda>a. \<not> uploadable a) as @ filter uploadable as)))"

definition clampAttachmentsLine :: "attachment list \<Rightarrow> string" where
  "clampAttachmentsLine as = (let line = attachmentsLine as in
     if int (utf16Len line) \<le> maxAttachmentsLineUnits then line
     else truncateUTF16 line maxAttachmentsLineUnits @ '' '' @ ellipsis @ ''(list truncated; '' @ fmt_uint (length as)
       @ '' attachments '' @ em_dash @ '' open the uploaded files)'')"

definition card_header :: "notification \<Rightarrow> string" where
  "card_header n = ''Held outbound message'' @ [newline] @ ''id: '' @ nt_id n @ [newline] @ ''from: '' @ clampField (nt_from n)
     @ [newline] @ ''to: '' @ clampField (nt_to n) @ [newline] @ ''subject: '' @ clampField (nt_subject n)
     @ [newline] @ ''size: '' @ fmt_int (nt_size n) @ '' bytes''
     @ (if nt_hidden n \<noteq> [] then [newline] @ ''(!) also delivering to (not in headers): '' @ clampField (join '', '' (nt_hidden n)) else '''')"

definition fetch_failed_text :: "string \<Rightarrow> string" where
  "fetch_failed_text qid = [newline, newline] @ ''(!) body and attachments could NOT be fetched '' @ em_dash
     @ '' this is not an empty message. Retry with `darbaan queue show '' @ qid
     @ ''`: if it shows the body, the failure was transient '' @ em_dash @ '' proceed on what it shows. ''
     @ ''If it reports the message has no stored body, it is a genuinely empty submission '' @ em_dash
     @ '' that IS its full content, decide on that (approving sends an empty message). ''
     @ ''If it reports the message is no longer in the outbound queue, the decision has already been made '' @ em_dash @ '' take no action. ''
     @ ''If it fails any other way (cannot connect, permission denied, a server error), that is the tool or its configuration, not the message ''
     @ em_dash @ '' fix it and look again before deciding; do NOT approve unseen.''"

definition body_marker :: "bytes \<Rightarrow> string" where
  "body_marker body = [newline] @ ''...[truncated '' @ em_dash
     @ (if fullBodyUploadable (length body) then '' full body attached as '' @ fullBodyFilename @ '']''
        else '' full body too large to attach ('' @ humanSize (length body) @ '')]'')"

definition card_suffix :: "notification \<Rightarrow> string" where
  "card_suffix n = [newline, newline] @ clampAttachmentsLine (nt_attachments n)"

definition card_prefix :: "notification \<Rightarrow> string" where
  "card_prefix n = card_header n @ [newline, newline] @ ''--- body ---'' @ [newline]"

text \<open>The units left for the body when it is cut, \<open>avail\<close>.\<close>

definition card_room :: "notification \<Rightarrow> int" where
  "card_room n = max 0 (maxNotificationUnits - int (utf16Len (card_prefix n)) - int (utf16Len (card_suffix n))
     - int (utf16Len (body_marker (nt_body n))))"

definition formatNotification :: "notification \<Rightarrow> string \<times> bool" where
  "formatNotification n = (if nt_fetch_failed n then (card_header n @ fetch_failed_text (nt_id n), False)
     else if nt_body n = [] then (card_header n @ [newline, newline] @ ''(no text body)'' @ card_suffix n, False)
     else if card_room n < int (utf16Len (nt_body n))
       then (card_prefix n @ truncateUTF16 (nt_body n) (card_room n) @ body_marker (nt_body n) @ card_suffix n,
         fullBodyUploadable (length (nt_body n)))
     else (card_prefix n @ nt_body n @ card_suffix n, False))"

text \<open>The notification of a queued message: what \<open>notify\<close> puts on the card. A message that could not be fetched has no raw
  source.\<close>

definition new_notification :: "card_lib \<Rightarrow> meta \<Rightarrow> bytes option \<Rightarrow> notification" where
  "new_notification L m fetched = (let raw = (case fetched of None \<Rightarrow> [] | Some b \<Rightarrow> b); h = headerAddrs L raw
     in \<lparr>nt_id = mt_id m, nt_from = (if ha_from h = '''' then mt_from m else ha_from h),
       nt_to = (if ha_to h = '''' then join '', '' (mt_rcpt m) else ha_to h),
       nt_subject = displaySubject (mt_subject m), nt_size = mt_size m,
       nt_hidden = (if ha_parsed h then hiddenRcpts L (mt_rcpt m) (ha_set h) else []),
       nt_body = bodyText L raw, nt_attachments = attachments L raw, nt_fetch_failed = (fetched = None)\<rparr>)"

section \<open>The card fits\<close>

lemma utf16Len_concat: "utf16Len (concat xs) \<le> sum_list (map utf16Len xs)"
proof (induction xs)
  case (Cons x xs)
  then show ?case using utf16Len_append [of x "concat xs"] by simp
qed simp

lemma utf16Len_parts: "s = concat xs \<Longrightarrow> sum_list (map utf16Len xs) \<le> k \<Longrightarrow> utf16Len s \<le> k"
  using utf16Len_concat le_trans by blast

lemma newline_ascii: "ascii [newline]" "ascii [newline, newline]"
  by (simp_all add: ascii_def newline_def)

lemmas newline_units = newline_ascii [THEN utf16Len_ascii]

lemma dash_units: "utf16Len em_dash = 1"
proof -
  have "em_dash = encode_rune 0x2014" by (simp add: em_dash_def encode_rune_def encode_valid_def valid_rune_def)
  then show ?thesis using utf16Len_encode [where r = 8212] by (simp add: valid_rune_def rune_units_def)
qed

lemma digits_ascii: "ascii (fmt_uint n)"
  using fmt_uint_digits [of n] by (auto simp: ascii_def is_digit_def list_all_iff)

lemma fmt_uint_length: "n < 10 ^ Suc k \<Longrightarrow> length (fmt_uint n) \<le> Suc k"
proof (induction k arbitrary: n)
  case (Suc k)
  have "n div 10 < 10 ^ Suc k" using Suc.prems by (simp add: less_mult_imp_div_less)
  then show ?case using Suc.IH [of "n div 10"] by (subst fmt_uint.simps) simp
qed (simp add: fmt_uint.simps)

lemma fmt_uint_units: "n < 10 ^ 19 \<Longrightarrow> utf16Len (fmt_uint n) \<le> 19"
  using fmt_uint_length [of n 18] by (simp add: utf16Len_ascii [OF digits_ascii])

lemma fmt_int_units: "\<bar>n\<bar> < 10 ^ 19 \<Longrightarrow> utf16Len (fmt_int n) \<le> 20"
proof -
  assume n: "\<bar>n\<bar> < 10 ^ 19"
  have m: "utf16Len ''-'' = 1" by (simp add: utf16Len_ascii ascii_def)
  have "nat (- n) < 10 ^ 19" "nat n < 10 ^ 19" using n by simp_all
  then have "utf16Len (fmt_uint (nat (- n))) \<le> 19 \<and> utf16Len (fmt_uint (nat n)) \<le> 19" by (intro conjI fmt_uint_units)
  then show ?thesis using utf16Len_append [of "''-''" "fmt_uint (nat (- n))"] m by (simp add: fmt_int_def)
qed

lemma human_units: "n < 10 ^ 19 \<Longrightarrow> utf16Len (humanSize n) \<le> 60"
proof -
  assume n: "n < 10 ^ 19"
  let ?q = "round_even (n * 10) (1024 ^ (size_unit n + 1))"
  have "(n * 10) div b \<le> n * 10" for b by simp
  then have "round_even (n * 10) b \<le> n * 10 + 1" for b by (simp add: round_even_def Let_def le_SucI)
  then have "?q div 10 \<le> (n * 10 + 1) div 10" by (rule div_le_mono)
  then have "?q div 10 < 10 ^ 19" "?q mod 10 < 10 ^ 19" using n by simp_all
  then have q: "utf16Len (fmt_uint (?q div 10)) \<le> 19" "utf16Len (fmt_uint (?q mod 10)) \<le> 19"
    by (blast intro: fmt_uint_units)+
  have s: "size_unit n < length size_units" by (simp add: size_unit_def size_units_def)
  have "list_all (\<lambda>u. utf16Len u = 2) size_units" by (simp add: size_units_def utf16Len_ascii ascii_def)
  then have u: "utf16Len (size_units ! size_unit n) = 2" using s by (simp add: list_all_length)
  have l: "utf16Len '' B'' = 2" "utf16Len ''.'' = 1" "utf16Len '' '' = 1" by (simp_all add: utf16Len_ascii ascii_def)
  show ?thesis
  proof (cases "n < 1024")
    case True
    then show ?thesis using fmt_uint_units [OF n] l utf16Len_append [of "fmt_uint n" "'' B''"] by (simp add: humanSize_def)
  next
    case False
    have "utf16Len (concat [fmt_uint (?q div 10), if ?q mod 10 = 0 then '''' else ''.'', if ?q mod 10 = 0 then '''' else fmt_uint (?q mod 10),
        '' '', size_units ! size_unit n]) \<le> 60"
      by (rule utf16Len_parts [OF refl]) (use q u l in simp)
    then show ?thesis using False by (simp add: humanSize_def Let_def split: if_splits)
  qed
qed

lemma clampAttachments_units: "length as < 10 ^ 19 \<Longrightarrow> utf16Len (clampAttachmentsLine as) \<le> 880"
proof -
  assume n: "length as < 10 ^ 19"
  have t: "utf16Len (truncateUTF16 s 800) \<le> 800" for s using truncate_bound [of s 800] by simp
  have l: "utf16Len ''(list truncated; '' = 17" "utf16Len '' attachments '' = 13" "utf16Len '' open the uploaded files)'' = 25" "utf16Len '' '' = 1"
    by (simp_all add: utf16Len_ascii ascii_def)
  have "utf16Len (concat [truncateUTF16 (attachmentsLine as) 800, '' '', ellipsis, ''(list truncated; '', fmt_uint (length as),
      '' attachments '', em_dash, '' open the uploaded files)'']) \<le> 880"
    by (rule utf16Len_parts [OF refl]) (use t [of "attachmentsLine as"] l utf16Len_ellipsis dash_units fmt_uint_units [OF n] in simp)
  then show ?thesis by (simp add: clampAttachmentsLine_def Let_def maxAttachmentsLineUnits_def)
qed

lemma header_units: "\<bar>nt_size n\<bar> < 10 ^ 19 \<Longrightarrow> utf16Len (card_header n) \<le> 2600 + utf16Len (nt_id n)"
proof -
  assume n: "\<bar>nt_size n\<bar> < 10 ^ 19"
  let ?hid = "''(!) also delivering to (not in headers): ''"
  let ?ps = "[''Held outbound message'', [newline], ''id: '', nt_id n, [newline], ''from: '', clampField (nt_from n), [newline], ''to: '',
    clampField (nt_to n), [newline], ''subject: '', clampField (nt_subject n), [newline], ''size: '', fmt_int (nt_size n), '' bytes'',
    if nt_hidden n \<noteq> [] then [newline] @ ?hid @ clampField (join '', '' (nt_hidden n)) else '''']"
  have l: "utf16Len ''Held outbound message'' = 21" "utf16Len ''id: '' = 4" "utf16Len ''from: '' = 6" "utf16Len ''to: '' = 4"
    "utf16Len ''subject: '' = 9" "utf16Len ''size: '' = 6" "utf16Len '' bytes'' = 6" "utf16Len ?hid = 41"
    by (simp_all add: utf16Len_ascii ascii_def)
  have h: "utf16Len (concat [[newline], ?hid, clampField (join '', '' (nt_hidden n))]) \<le> 643"
    by (rule utf16Len_parts [OF refl]) (use l clamp_bound [of "join '', '' (nt_hidden n)"] newline_units in simp)
  have c: "utf16Len (clampField (nt_from n)) \<le> 601" "utf16Len (clampField (nt_to n)) \<le> 601" "utf16Len (clampField (nt_subject n)) \<le> 601"
    by (rule clamp_bound)+
  have "utf16Len (last ?ps) \<le> 643" using h by simp
  then show ?thesis
    by (intro utf16Len_parts [of "card_header n" ?ps])
      (use l c newline_units fmt_int_units [OF n] in \<open>simp_all add: card_header_def\<close>)
qed

lemma marker_units: "length body < 10 ^ 19 \<Longrightarrow> utf16Len (body_marker body) \<le> 110"
proof -
  assume n: "length body < 10 ^ 19"
  have l: "utf16Len ''...[truncated '' = 14" "utf16Len '' full body attached as '' = 23" "utf16Len fullBodyFilename = 21"
    "utf16Len '']'' = 1" "utf16Len '' full body too large to attach ('' = 32" "utf16Len '')]'' = 2"
    by (simp_all add: utf16Len_ascii ascii_def fullBodyFilename_def)
  let ?w = "fullBodyUploadable (length body)"
  let ?ps = "[[newline], ''...[truncated '', em_dash, if ?w then '' full body attached as '' else '' full body too large to attach ('',
    if ?w then fullBodyFilename else humanSize (length body), if ?w then '']'' else '')]'']"
  show ?thesis
    by (rule utf16Len_parts [of _ ?ps]) (use l dash_units newline_units human_units [OF n] in \<open>simp_all add: body_marker_def\<close>)
qed

lemma failed_units: "utf16Len (fetch_failed_text i) \<le> 800 + utf16Len i"
proof -
  let ?a = "''(!) body and attachments could NOT be fetched ''" let ?b = "'' this is not an empty message. Retry with `darbaan queue show ''"
  let ?c = "''`: if it shows the body, the failure was transient ''" let ?d = "'' proceed on what it shows. ''"
  let ?e = "''If it reports the message has no stored body, it is a genuinely empty submission ''"
  let ?f = "'' that IS its full content, decide on that (approving sends an empty message). ''"
  let ?g = "''If it reports the message is no longer in the outbound queue, the decision has already been made ''"
  let ?h = "'' take no action. ''"
  let ?i = "''If it fails any other way (cannot connect, permission denied, a server error), that is the tool or its configuration, not the message ''"
  let ?j = "'' fix it and look again before deciding; do NOT approve unseen.''"
  have "utf16Len ?a = 46" "utf16Len ?b = 62" "utf16Len ?c = 51" "utf16Len ?d = 27" "utf16Len ?e = 81" "utf16Len ?f = 78" "utf16Len ?g = 97"
    "utf16Len ?h = 17" "utf16Len ?i = 134" "utf16Len ?j = 62"
    by (simp_all add: utf16Len_ascii ascii_def)
  then show ?thesis
    by (intro utf16Len_parts [of _ "[[newline, newline], ?a, em_dash, ?b, i, ?c, em_dash, ?d, ?e, em_dash, ?f, ?g, em_dash, ?h, ?i, em_dash, ?j]"])
      (use dash_units newline_units in \<open>simp_all add: fetch_failed_text_def\<close>)
qed

text \<open>C0: the card of a held outbound message always fits Telegram's limit of 4096 units: the agent's addresses, subject,
  attachments and body, however long and in whatever script, never make the send fail and keep the message from the operator.\<close>

theorem card_fits:
  assumes "utf16Len (nt_id n) \<le> 20" "\<bar>nt_size n\<bar> < 2 ^ 63" "length (nt_attachments n) < 2 ^ 63" "length (nt_body n) < 2 ^ 63"
  shows "utf16Len (fst (formatNotification n)) \<le> 3900"
proof -
  have n: "\<bar>nt_size n\<bar> < 10 ^ 19" "length (nt_attachments n) < 10 ^ 19" "length (nt_body n) < 10 ^ 19" using assms by simp_all
  have h: "utf16Len (card_header n) \<le> 2620" using header_units [OF n(1)] assms(1) by simp
  have l: "utf16Len ''--- body ---'' = 12" "utf16Len ''(no text body)'' = 14" by (simp_all add: utf16Len_ascii ascii_def)
  have s: "utf16Len (card_suffix n) \<le> 882" using utf16Len_append [of "[newline, newline]" "clampAttachmentsLine (nt_attachments n)"]
    clampAttachments_units [OF n(2)] newline_units by (simp add: card_suffix_def)
  have p: "utf16Len (card_prefix n) \<le> 2635"
    by (rule utf16Len_parts [of _ "[card_header n, [newline, newline], ''--- body ---'', [newline]]"])
      (use h l newline_units in \<open>simp_all add: card_prefix_def\<close>)
  have m: "utf16Len (body_marker (nt_body n)) \<le> 110" using marker_units [OF n(3)] .
  have sum: "utf16Len (card_prefix n @ b @ c @ card_suffix n) \<le> utf16Len (card_prefix n) + utf16Len b + utf16Len c + utf16Len (card_suffix n)"
    for b c using utf16Len_concat [of "[card_prefix n, b, c, card_suffix n]"] by simp
  have room: "card_room n = 3900 - int (utf16Len (card_prefix n)) - int (utf16Len (card_suffix n)) - int (utf16Len (body_marker (nt_body n)))"
    using p s m by (simp add: card_room_def maxNotificationUnits_def)
  have room0: "0 \<le> card_room n" by (simp add: card_room_def)
  consider "nt_fetch_failed n" | "\<not> nt_fetch_failed n" "nt_body n = []"
    | "\<not> nt_fetch_failed n" "nt_body n \<noteq> []" "card_room n < int (utf16Len (nt_body n))"
    | "\<not> nt_fetch_failed n" "nt_body n \<noteq> []" "\<not> card_room n < int (utf16Len (nt_body n))" by blast
  then show ?thesis
  proof cases
    case 1
    then show ?thesis using utf16Len_append [of "card_header n" "fetch_failed_text (nt_id n)"] h failed_units [of "nt_id n"] assms(1)
      by (simp add: formatNotification_def)
  next
    case 2
    have "utf16Len (card_header n @ [newline, newline] @ ''(no text body)'' @ card_suffix n) \<le> 3900"
      by (rule utf16Len_parts [of _ "[card_header n, [newline, newline], ''(no text body)'', card_suffix n]"]) (use h l s newline_units in simp_all)
    then show ?thesis using 2 by (simp add: formatNotification_def)
  next
    case 3
    have "int (utf16Len (truncateUTF16 (nt_body n) (card_room n))) \<le> card_room n"
      using truncate_bound [of "nt_body n" "card_room n"] room0 by simp
    then show ?thesis using 3 sum [of "truncateUTF16 (nt_body n) (card_room n)" "body_marker (nt_body n)"] room
      by (simp add: formatNotification_def)
  next
    case 4
    then show ?thesis using sum [of "nt_body n" "[]"] room by (simp add: formatNotification_def)
  qed
qed

text \<open>C0: a card that shows a body shows all of it, or says that it is cut: then it names the attached full text exactly when
  the text is attached, and what is shown is a prefix of the body.\<close>

theorem card_honest:
  assumes "\<not> nt_fetch_failed n" "nt_body n \<noteq> []"
  shows "formatNotification n = (card_prefix n @ nt_body n @ card_suffix n, False)
    \<or> (\<exists>p q. nt_body n = p @ q \<and> formatNotification n = (card_prefix n @ p @ body_marker (nt_body n) @ card_suffix n,
        fullBodyUploadable (length (nt_body n))))"
proof (cases "card_room n < int (utf16Len (nt_body n))")
  case True
  obtain q where "nt_body n = truncateUTF16 (nt_body n) (card_room n) @ q" using truncate_prefix by blast
  then show ?thesis using assms True by (auto simp: formatNotification_def)
next
  case False
  then show ?thesis using assms by (simp add: formatNotification_def)
qed

definition sample_notification :: notification where
  "sample_notification = \<lparr>nt_id = ''7'', nt_from = ''a@x'', nt_to = ''b@y'', nt_subject = ''hi'', nt_size = 12, nt_hidden = [],
     nt_body = replicate 5000 (CHR ''z''), nt_attachments = [], nt_fetch_failed = False\<rparr>"

theorem card_fits_witness: "utf16Len (fst (formatNotification sample_notification)) \<le> 3900"
  by (rule card_fits) (simp_all add: sample_notification_def utf16Len_ascii ascii_def)

end
