(* ===== verification/Holdcard.thy ===== *)
theory Holdcard
  imports Telecard
begin

text \<open>Model of the cards of held inbound messages, of failed sends and of reconciliation latches (the formatting in
  \<open>internal/telegram/holds.go\<close>, \<open>resend.go\<close> and \<open>reconcile.go\<close>), and of the lines that report a decision.\<close>

section \<open>What the assessment says\<close>

definition offLabel :: "string \<Rightarrow> string" where
  "offLabel f = (if f = FactorInstruction then ''instructions to the reader''
     else if f = FactorSecretsRequest then ''credential requests''
     else if f = FactorAttachmentDirectives then ''instructions in attachments'' else f)"

definition builtin_names :: "string list" where
  "builtin_names = [FactorAttachmentDirectives, FactorInstruction, FactorSecretsRequest]"

lemma builtin_names_of: "BuiltinFactors rx = builtin_names"
proof -
  have "BuiltinFactors rx = dedupeSort [FactorInstruction, FactorSecretsRequest, FactorAttachmentDirectives]"
    by (simp add: BuiltinFactors_def heuristic_Factors_def builtinRules_def)
  also have "\<dots> = builtin_names" by code_simp
  finally show ?thesis .
qed

definition notCheckedClause :: "iassessment \<Rightarrow> string" where
  "notCheckedClause a = (case ia_active a of None \<Rightarrow> ''''
     | Some act \<Rightarrow> let off = map offLabel (filter (\<lambda>f. f \<notin> set act) builtin_names) in
         if off = [] then '''' else if act = [] then ''no content checks ran (detection is switched off)''
         else ''not checked, switched off: '' @ join '', '' off)"

definition assessmentTruncated :: "iassessment \<Rightarrow> bool" where
  "assessmentTruncated a = (case ia_truncated a of Some b \<Rightarrow> b | None \<Rightarrow> contains_str (ia_summary a) TruncationNote)"

definition factorGloss :: "(string \<times> string) list" where
  "factorGloss = [(''instruction_to_reader'', ''contains instructions directed at the reader''),
     (''secrets_request'', ''asks the reader to send or confirm a credential''),
     (''hidden_directives'', ''contains instructions hidden from view''),
     (''attachment_directives'', ''an attachment carries instructions directed at the reader'')]"

definition glossFactors :: "string list \<Rightarrow> string" where
  "glossFactors fs = join ''; '' (map (\<lambda>f. case map_of factorGloss f of Some g \<Rightarrow> g | None \<Rightarrow> f) fs)"

definition dash_clause :: "string \<Rightarrow> string" where
  "dash_clause s = (if s = '''' then '''' else '' '' @ em_dash @ '' '' @ s)"

definition holdAssessmentLine :: "iassessment option \<Rightarrow> string" where
  "holdAssessmentLine x = (case x of None \<Rightarrow> ''''
     | Some a \<Rightarrow> if ia_not_cleared a
         then if ia_summary a \<noteq> '''' then ''could not be assessed '' @ em_dash @ '' '' @ ia_summary a
           else ''could not be assessed (held fail-safe)''
         else ia_band a @ '' risk ('' @ fmt_int (ia_score a) @ '')''
           @ (if assessmentTruncated a then dash_clause (''scored on partial content: the message exceeded the extraction limits, ''
               @ ''so part of it was never assessed, and such messages are always held'') else '''')
           @ dash_clause (notCheckedClause a) @ dash_clause (glossFactors (ia_factors a)))"

text \<open>A confidence to two decimals: the exact value rounded to nearest, ties to even.\<close>

definition fmt_confidence :: "rat \<Rightarrow> string" where
  "fmt_confidence r = (let q = quotient_of (\<bar>r\<bar> * 100); n = round_even (nat (fst q)) (nat (snd q))
     in (if r < 0 then ''-'' else '''') @ fmt_uint (n div 100) @ CHR ''.'' # fmt_uint (n div 10 mod 10) @ fmt_uint (n mod 10))"

definition classifier_part :: "finding \<Rightarrow> string" where
  "classifier_part f = offLabel (fi_factor f) @ (if fi_source f = SourceAttachment then '' in an attachment'' else '''')
     @ '' (label '' @ fi_label f @ '', confidence '' @ fmt_confidence (fi_confidence f) @ '')''"

definition classifierLine :: "iassessment option \<Rightarrow> string" where
  "classifierLine x = (case x of None \<Rightarrow> ''''
     | Some a \<Rightarrow> join ''; '' (map classifier_part (filter (\<lambda>f. fi_detector f = DetectorClassifier) (ia_findings a))))"

definition classifierOnly :: "iassessment option \<Rightarrow> string list" where
  "classifierOnly x = (case x of None \<Rightarrow> []
     | Some a \<Rightarrow> let pat = map fi_factor (filter (\<lambda>f. fi_detector f \<noteq> DetectorClassifier) (ia_findings a))
         in filter (\<lambda>c. c \<notin> set pat) (map fi_factor (filter (\<lambda>f. fi_detector f = DetectorClassifier) (ia_findings a))))"

section \<open>The matched text\<close>

definition omittedLine :: "string \<Rightarrow> string" where
  "omittedLine label = [newline] @ ''- '' @ label @ '': matched text omitted for space''"

definition unmatchedLine :: "string list \<Rightarrow> string \<Rightarrow> string" where
  "unmatchedLine cls f = [newline] @ ''- '' @ offLabel f
     @ (if f \<in> set cls then '': no matched text: only the classifier flagged this, and a classifier does not point at text''
       else '': matched text not available: the current rules no longer match this message'')"

definition spanChunk :: "card_lib \<Rightarrow> string \<Rightarrow> span list \<Rightarrow> bytes" where
  "spanChunk L f spans = concat (map (\<lambda>(source, t). [newline] @ ''- '' @ offLabel f @ '' ('' @ source @ ''):'' @ [newline]
     @ Fence (cl_fold L) ''matched text'' t) spans)"

text \<open>\<open>used\<close> is what is written so far; room is kept for a line of each factor to come.\<close>

fun evidence_lines :: "card_lib \<Rightarrow> string list \<Rightarrow> int \<Rightarrow> nat \<Rightarrow> evidence \<Rightarrow> bytes" where
  "evidence_lines L cls budget used [] = []"
| "evidence_lines L cls budget used ((f, spans) # ev) = (
     let reserve = length ev * utf16Len (omittedLine (offLabel f));
         chunk = (if spans = [] then unmatchedLine cls f else spanChunk L f spans);
         line = (if budget < int (used + utf16Len chunk + reserve) then omittedLine (offLabel f) else chunk)
     in line @ evidence_lines L cls budget (used + utf16Len line) ev)"

definition evidence_head :: bytes where
  "evidence_head = [newline, newline] @ ''matched text (re-checked now, quoted as inert text):''"

definition evidenceSection :: "card_lib \<Rightarrow> evidence \<Rightarrow> string list \<Rightarrow> int \<Rightarrow> bytes" where
  "evidenceSection L ev cls budget = (if ev = [] then [] else evidence_head @ evidence_lines L cls budget (utf16Len evidence_head) ev)"

section \<open>The body\<close>

definition undecodable_note :: bytes where
  "undecodable_note = ''(!) part of this message could not be decoded, so it was never scored '' @ em_dash
     @ '' the assessment above cannot account for it; treat it as incomplete.''"

definition no_text :: "bool \<Rightarrow> nat \<Rightarrow> bytes" where
  "no_text undecodable n = ''(!) no message text is shown because '' @ (if undecodable then ''its content could not be decoded''
       else ''it has no readable text part'') @ '' '' @ em_dash @ '' this is NOT an empty message. The raw source is '' @ fmt_uint n
     @ '' bytes; dump it with `darbaan holds show <id>` (add --text for the decoded body). ''
     @ ''Do not read the absence of text here as the message having no content.''"

definition extraction_capped :: bytes where
  "extraction_capped = [newline] @ ''[extraction limit reached '' @ em_dash @ '' the message carries more text than was scored]''"

definition no_content :: extraction where
  "no_content = \<lparr>mx_body = [], mx_body_parts = [], mx_attachments = [], mx_truncated = False, mx_undecodable = False\<rparr>"

definition extracted :: "card_lib \<Rightarrow> bytes \<Rightarrow> extraction \<times> bool" where
  "extracted L raw = (case mail_Extract (cl_mime L) DefaultLimits raw of Inl e \<Rightarrow> (no_content, True) | Inr c \<Rightarrow> (c, False))"

text \<open>The text that is fenced, for a budget that is what the notes have left.\<close>

definition shown_text :: "bytes \<Rightarrow> bool \<Rightarrow> int \<Rightarrow> bytes" where
  "shown_text t truncated budget = (if budget < int (utf16Len t) then truncateUTF16 t budget @ [newline] @ ''[truncated]'' else t)
     @ (if truncated then extraction_capped else [])"

definition body_note :: "card_lib \<Rightarrow> bytes \<Rightarrow> bytes" where
  "body_note L raw = (let (c, err) = extracted L raw in if err \<or> mx_undecodable c then [newline, newline] @ undecodable_note else [])"

definition body_left :: "card_lib \<Rightarrow> bytes \<Rightarrow> int \<Rightarrow> int" where
  "body_left L raw budget = budget - int (utf16Len (body_note L raw))
     - (if mx_truncated (fst (extracted L raw)) then int (utf16Len extraction_capped) else 0)"

definition decoded_text :: "card_lib \<Rightarrow> bytes \<Rightarrow> bytes" where
  "decoded_text L raw = trim_right_text (mx_body (fst (extracted L raw)))"

definition fencedBody :: "card_lib \<Rightarrow> bytes \<Rightarrow> int \<Rightarrow> bytes" where
  "fencedBody L raw budget = (if budget \<le> 0 \<or> raw = [] then []
     else if decoded_text L raw = [] then no_text (body_note L raw \<noteq> []) (length raw)
     else if body_left L raw budget \<le> 0 then drop 2 (body_note L raw)
     else Fence (cl_fold L) ''email body'' (shown_text (decoded_text L raw) (mx_truncated (fst (extracted L raw))) (body_left L raw budget))
       @ body_note L raw)"

section \<open>The card\<close>

definition telegramTextLimit :: int where "telegramTextLimit = 4096"

definition fenceOverhead :: int where "fenceOverhead = 80"

definition labelled :: "string \<Rightarrow> bytes \<Rightarrow> bytes" where
  "labelled label line = (if line = [] then [] else [newline] @ label @ clampField line)"

definition hold_header :: "imessage \<Rightarrow> bytes" where
  "hold_header m = ''Held inbound message '' @ em_dash @ '' expose to the agent?'' @ [newline] @ ''id: '' @ im_id m
     @ [newline] @ ''from: '' @ clampField (im_from m) @ [newline] @ ''to: '' @ clampField (im_to m)
     @ [newline] @ ''subject: '' @ clampField (displaySubject (im_subject m))
     @ labelled ''why: '' (holdAssessmentLine (im_assessment m))
     @ labelled ''flagged by the classifier: '' (classifierLine (im_assessment m))"

definition hold_fetch_failed :: "string \<Rightarrow> bytes" where
  "hold_fetch_failed i = [newline, newline] @ ''(!) body could NOT be fetched '' @ em_dash
     @ '' this is not an empty message. Retry with `darbaan holds show '' @ i
     @ ''`: if it shows the body, the failure was transient '' @ em_dash @ '' proceed on what it shows. ''
     @ ''If it reports the message is no longer held, the decision has already been made '' @ em_dash @ '' take no action. ''
     @ ''If it reports the message is held with no stored body, the body is genuinely unavailable '' @ em_dash
     @ '' decide from the metadata above knowing you have not seen it. ''
     @ ''If it fails any other way (cannot connect, permission denied, a server error), that is the tool or its configuration, not the message ''
     @ em_dash @ '' fix it and look again before deciding; do NOT approve unseen.''"

definition formatHoldWithEvidence :: "card_lib \<Rightarrow> imessage \<Rightarrow> bytes \<Rightarrow> bool \<Rightarrow> evidence option \<Rightarrow> bytes" where
  "formatHoldWithEvidence L m raw fetchFailed ev = (if fetchFailed then hold_header m @ hold_fetch_failed (im_id m)
     else let b = hold_header m @ (case ev of None \<Rightarrow> []
           | Some e \<Rightarrow> evidenceSection L e (classifierOnly (im_assessment m)) (telegramTextLimit - int (utf16Len (hold_header m)) - fenceOverhead))
       in if raw = [] then b
          else let body = fencedBody L raw (telegramTextLimit - int (utf16Len b) - fenceOverhead)
            in if body \<noteq> [] then b @ [newline, newline] @ body
               else if ev \<noteq> None then b @ [newline, newline] @ ''(body not shown: no room left after the matched text)''
               else b)"

text \<open>The whole decoded text, for the upload: the text, whether it is partial, and whether there is one to upload.\<close>

definition attachment_heading :: "tattachment \<Rightarrow> bytes" where
  "attachment_heading a = [newline, newline] @ ''----- attachment text: ''
     @ (if ta_filename a = '''' then ''(unnamed)'' else ta_filename a) @ '' -----'' @ [newline]"

definition heldFullText :: "card_lib \<Rightarrow> bytes \<Rightarrow> bytes \<times> bool \<times> bool" where
  "heldFullText L raw = (case mail_Extract (cl_mime L) DefaultLimits raw of
       Inl e \<Rightarrow> ([], False, False)
     | Inr c \<Rightarrow> let t = (if mx_truncated c then ''[TRUNCATED: this message exceeded the extraction limits, so the text below is NOT all of it]''
             @ [newline, newline] else []) @ mx_body c
           @ concat (map (\<lambda>a. attachment_heading a @ ta_text a) (filter (\<lambda>a. ta_text a \<noteq> []) (mx_attachments c)))
         in (t, mx_truncated c, fullBodyUploadable (length t)))"

section \<open>The other cards and the outcome lines\<close>

definition warning_sign :: bytes where "warning_sign = map char_of [0xE2, 0x9A, 0xA0, 0xEF, 0xB8, 0x8F :: nat]"

fun text_fields :: "bytes \<Rightarrow> bytes \<Rightarrow> bytes list" where
  "text_fields cur [] = (if cur = [] then [] else [cur])"
| "text_fields cur (c # s) = (if is_space c then (if cur = [] then [] else [cur]) @ text_fields [] s else text_fields (cur @ [c]) s)"

definition oneLine :: "string \<Rightarrow> string" where
  "oneLine s = join '' '' (text_fields [] s)"

definition failedSend :: "meta \<Rightarrow> bool" where
  "failedSend m \<longleftrightarrow> mt_status m = Approved \<and> mt_send_err m \<noteq> '''' \<and> \<not> mt_resend_in_progress m"

definition formatFailed :: "meta \<Rightarrow> bytes" where
  "formatFailed m = (let what = ''From: '' @ mt_from m @ [newline] @ ''To: '' @ join '', '' (mt_rcpt m) @ [newline]
         @ ''Subject: '' @ displaySubject (mt_subject m)
     in if mt_outcome_unknown m then warning_sign @ '' OUTCOME UNKNOWN '' @ em_dash @ '' message '' @ mt_id m @ [newline] @ what
         @ [newline, newline] @ ''The server got the whole message but gave no final reply, or Darbaan stopped mid re-send. ''
         @ ''It MAY ALREADY HAVE BEEN DELIVERED. No bounce was sent. Check with the recipient before re-sending.''
       else ''Send failed '' @ em_dash @ '' message '' @ mt_id m @ [newline] @ what @ [newline, newline]
         @ ''Error: '' @ truncateUTF16 (oneLine (mt_send_err m)) 300 @ [newline] @ ''It is approved and stays queued until re-sent.'')"

definition formatLatch :: "card_lib \<Rightarrow> reconcile_status \<Rightarrow> bytes" where
  "formatLatch L st = warning_sign @ '' Reconciliation held '' @ em_dash @ '' inbox '' @ cl_quote L (rt_inbox st) @ [newline]
     @ ''The safety cap suspended reconciliation: '' @ fmt_int (rt_held_count st) @ '' message(s) would be retracted ''
     @ ''(a possible source-side mass removal). Retraction is paused for this inbox until you release it '' @ em_dash
     @ '' nothing has been purged.'' @ [newline] @ ''Check the source, then run:  darbaan reconcile release '' @ rt_inbox st"

text \<open>The outcome of a decision: an error's text, or the service's answer.\<close>

definition decisionResult :: "string \<Rightarrow> string \<Rightarrow> string + wire_outcome \<Rightarrow> bytes" where
  "decisionResult verb i r = (case r of Inl e \<Rightarrow> verb @ '' failed ('' @ i @ ''): '' @ e
     | Inr oc \<Rightarrow> verb @ '' '' @ i @ '' '' @ em_dash @ '' '' @ wo_detail oc
         @ (if wo_warn oc \<noteq> '''' then '' [warning: '' @ wo_warn oc @ '']'' else ''''))"

definition holdResult :: "string \<Rightarrow> string \<Rightarrow> string option \<Rightarrow> bytes" where
  "holdResult verb i e = (case e of Some t \<Rightarrow> verb @ '' failed ('' @ i @ ''): '' @ t
     | None \<Rightarrow> if verb = ''Exposed'' then ''Exposed '' @ i @ '' '' @ em_dash @ '' now visible to the agent''
         else ''Dropped '' @ i @ '' '' @ em_dash @ '' stays hidden from the agent'')"

section \<open>The hold card fits\<close>

lemma labelled_units: "utf16Len (labelled label line) \<le> utf16Len label + 602"
proof -
  have "utf16Len (concat [[newline], label, clampField line]) \<le> utf16Len label + 602"
    by (rule utf16Len_parts [OF refl]) (use clamp_bound [of line] newline_units in simp)
  then show ?thesis by (simp add: labelled_def)
qed

lemma hold_header_units: "utf16Len (hold_header m) \<le> 3130 + utf16Len (im_id m)"
proof -
  have l: "utf16Len ''Held inbound message '' = 21" "utf16Len '' expose to the agent?'' = 21" "utf16Len ''id: '' = 4" "utf16Len ''from: '' = 6"
    "utf16Len ''to: '' = 4" "utf16Len ''subject: '' = 9" "utf16Len ''why: '' = 5" "utf16Len ''flagged by the classifier: '' = 27"
    by (simp_all add: utf16Len_ascii ascii_def)
  have c: "utf16Len (clampField (im_from m)) \<le> 601" "utf16Len (clampField (im_to m)) \<le> 601"
    "utf16Len (clampField (displaySubject (im_subject m))) \<le> 601" by (rule clamp_bound)+
  show ?thesis
    by (rule utf16Len_parts [of _ "[''Held inbound message '', em_dash, '' expose to the agent?'', [newline], ''id: '', im_id m, [newline],
        ''from: '', clampField (im_from m), [newline], ''to: '', clampField (im_to m), [newline], ''subject: '',
        clampField (displaySubject (im_subject m)), labelled ''why: '' (holdAssessmentLine (im_assessment m)),
        labelled ''flagged by the classifier: '' (classifierLine (im_assessment m))]"])
      (use l c dash_units newline_units labelled_units [of "''why: ''" "holdAssessmentLine (im_assessment m)"]
        labelled_units [of "''flagged by the classifier: ''" "classifierLine (im_assessment m)"] in \<open>simp_all add: hold_header_def\<close>)
qed

lemma hold_failed_units: "utf16Len (hold_fetch_failed i) \<le> 740 + utf16Len i"
proof -
  let ?a = "''(!) body could NOT be fetched ''" let ?b = "'' this is not an empty message. Retry with `darbaan holds show ''"
  let ?c = "''`: if it shows the body, the failure was transient ''" let ?d = "'' proceed on what it shows. ''"
  let ?e = "''If it reports the message is no longer held, the decision has already been made ''" let ?f = "'' take no action. ''"
  let ?g = "''If it reports the message is held with no stored body, the body is genuinely unavailable ''"
  let ?h = "'' decide from the metadata above knowing you have not seen it. ''"
  let ?i = "''If it fails any other way (cannot connect, permission denied, a server error), that is the tool or its configuration, not the message ''"
  let ?j = "'' fix it and look again before deciding; do NOT approve unseen.''"
  have "utf16Len ?a = 30" "utf16Len ?b = 62" "utf16Len ?c = 51" "utf16Len ?d = 27" "utf16Len ?e = 80" "utf16Len ?f = 17" "utf16Len ?g = 89"
    "utf16Len ?h = 62" "utf16Len ?i = 134" "utf16Len ?j = 62"
    by (simp_all add: utf16Len_ascii ascii_def)
  then show ?thesis
    by (intro utf16Len_parts [of _ "[[newline, newline], ?a, em_dash, ?b, i, ?c, em_dash, ?d, ?e, em_dash, ?f, ?g, em_dash, ?h, ?i, em_dash, ?j]"])
      (use dash_units newline_units in \<open>simp_all add: hold_fetch_failed_def\<close>)
qed

lemma no_text_units: "n < 10 ^ 19 \<Longrightarrow> utf16Len (no_text b n) \<le> 330"
proof -
  assume n: "n < 10 ^ 19"
  let ?a = "''(!) no message text is shown because ''" let ?b = "''its content could not be decoded''" let ?c = "''it has no readable text part''"
  let ?d = "'' this is NOT an empty message. The raw source is ''"
  let ?e = "'' bytes; dump it with `darbaan holds show <id>` (add --text for the decoded body). ''"
  let ?f = "''Do not read the absence of text here as the message having no content.''"
  have "utf16Len ?a = 37" "utf16Len ?b = 32" "utf16Len ?c = 28" "utf16Len ?d = 49" "utf16Len ?e = 82" "utf16Len ?f = 70" "utf16Len '' '' = 1"
    by (simp_all add: utf16Len_ascii ascii_def)
  then show ?thesis
    by (intro utf16Len_parts [of _ "[?a, if b then ?b else ?c, '' '', em_dash, ?d, fmt_uint n, ?e, ?f]"])
      (use dash_units newline_units fmt_uint_units [OF n] in \<open>simp_all add: no_text_def\<close>)
qed

lemma note_units: "utf16Len (body_note L raw) \<le> 150" "utf16Len (drop 2 (body_note L raw)) \<le> 150" "utf16Len extraction_capped \<le> 90"
proof -
  let ?a = "''(!) part of this message could not be decoded, so it was never scored ''"
  let ?b = "'' the assessment above cannot account for it; treat it as incomplete.''"
  let ?c = "''[extraction limit reached ''" let ?d = "'' the message carries more text than was scored]''"
  have l: "utf16Len ?a = 70" "utf16Len ?b = 68" "utf16Len ?c = 26" "utf16Len ?d = 47" by (simp_all add: utf16Len_ascii ascii_def)
  have u: "utf16Len undecodable_note \<le> 148"
    by (rule utf16Len_parts [of _ "[?a, em_dash, ?b]"]) (use l dash_units in \<open>simp_all add: undecodable_note_def\<close>)
  have "utf16Len (body_note L raw) \<le> 150 \<and> utf16Len (drop 2 (body_note L raw)) \<le> 150"
    using u utf16Len_append [of "[newline, newline]" undecodable_note] newline_units
    by (auto simp: body_note_def split: prod.splits)
  then show "utf16Len (body_note L raw) \<le> 150" "utf16Len (drop 2 (body_note L raw)) \<le> 150" by auto
  show "utf16Len extraction_capped \<le> 90"
    by (rule utf16Len_parts [of _ "[[newline], ?c, em_dash, ?d]"]) (use l dash_units newline_units in \<open>simp_all add: extraction_capped_def\<close>)
qed

lemma fence_units: "utf16Len (Fence E ''email body'' t) \<le> 56 + utf16Len (neutralizeMarkers E t)"
proof -
  have f: "fence_begin ''email body'' = ''[BEGIN UNTRUSTED email body]''" "fence_end ''email body'' = ''[END UNTRUSTED email body]''" by code_simp+
  have l: "utf16Len ''[BEGIN UNTRUSTED email body]'' = 28" "utf16Len ''[END UNTRUSTED email body]'' = 26" by (simp_all add: utf16Len_ascii ascii_def)
  show ?thesis
    by (rule utf16Len_parts [of _ "[fence_begin ''email body'', [newline], neutralizeMarkers E t, [newline], fence_end ''email body'']"])
      (use l f newline_units in \<open>simp_all add: Fence_def\<close>)
qed

lemma shown_units: "0 < left \<Longrightarrow> int (utf16Len (shown_text t b left)) \<le> left + 12 + (if b then int (utf16Len extraction_capped) else 0)"
proof -
  assume p: "0 < left"
  have l: "utf16Len ''[truncated]'' = 11" by (simp add: utf16Len_ascii ascii_def)
  have "utf16Len (concat [truncateUTF16 t left, [newline], ''[truncated]'', if b then extraction_capped else []])
      \<le> utf16Len (truncateUTF16 t left) + 12 + (if b then utf16Len extraction_capped else 0)"
    by (rule utf16Len_parts [OF refl]) (use l newline_units in simp)
  moreover have "int (utf16Len (truncateUTF16 t left)) \<le> left" using truncate_bound [of t left] p by simp
  ultimately show ?thesis using utf16Len_append [of t extraction_capped] by (auto simp: shown_text_def)
qed

definition hold_budget :: "imessage \<Rightarrow> int" where
  "hold_budget m = telegramTextLimit - int (utf16Len (hold_header m)) - fenceOverhead"

text \<open>The text that the card of a message quotes.\<close>

definition hold_shown :: "card_lib \<Rightarrow> imessage \<Rightarrow> bytes \<Rightarrow> bytes" where
  "hold_shown L m raw = shown_text (decoded_text L raw) (mx_truncated (fst (extracted L raw))) (body_left L raw (hold_budget m))"

text \<open>C0: the card of a held inbound message fits Telegram's limit of 4096 units, whatever the sender wrote, as long as it
  quotes no re-checked evidence and rewriting the fence markers in the quoted text does not lengthen it.\<close>

theorem hold_card_fits:
  assumes "utf16Len (im_id m) \<le> 20" "length raw < 2 ^ 63"
    "utf16Len (neutralizeMarkers (cl_fold L) (hold_shown L m raw)) \<le> utf16Len (hold_shown L m raw)"
  shows "utf16Len (formatHoldWithEvidence L m raw failed None) \<le> 4096"
proof -
  have r: "length raw < 10 ^ 19" using assms(2) by simp
  have h: "utf16Len (hold_header m) \<le> 3150" using hold_header_units [of m] assms(1) by simp
  have b: "utf16Len (hold_header m @ [newline, newline] @ x) \<le> utf16Len (hold_header m) + 2 + utf16Len x" for x
    by (rule utf16Len_parts [of _ "[hold_header m, [newline, newline], x]"]) (use newline_units in simp_all)
  have hb: "hold_budget m = 4016 - int (utf16Len (hold_header m))" by (simp add: hold_budget_def telegramTextLimit_def fenceOverhead_def)
  have fb: "int (utf16Len (fencedBody L raw (hold_budget m))) \<le> 4094 - int (utf16Len (hold_header m))" if raw: "raw \<noteq> []"
  proof (cases "decoded_text L raw = []")
    case True
    then have "fencedBody L raw (hold_budget m) = no_text (body_note L raw \<noteq> []) (length raw)"
      using raw h by (simp add: fencedBody_def hb)
    then show ?thesis using no_text_units [OF r, of "body_note L raw \<noteq> []"] h by simp
  next
    case False
    let ?c = "if mx_truncated (fst (extracted L raw)) then int (utf16Len extraction_capped) else 0"
    have left: "body_left L raw (hold_budget m) = 4016 - int (utf16Len (hold_header m)) - int (utf16Len (body_note L raw)) - ?c"
      by (simp add: body_left_def hb)
    have pos: "0 < body_left L raw (hold_budget m)" unfolding left using note_units(1) [of L raw] note_units(3) h by auto
    have f: "fencedBody L raw (hold_budget m) = Fence (cl_fold L) ''email body'' (hold_shown L m raw) @ body_note L raw"
      using False raw pos h by (simp add: fencedBody_def hold_shown_def hb)
    have "int (utf16Len (hold_shown L m raw)) \<le> body_left L raw (hold_budget m) + 12 + ?c"
      unfolding hold_shown_def using shown_units [OF pos] by simp
    moreover have "utf16Len (fencedBody L raw (hold_budget m)) \<le> 56 + utf16Len (hold_shown L m raw) + utf16Len (body_note L raw)"
      unfolding f using utf16Len_append [of "Fence (cl_fold L) ''email body'' (hold_shown L m raw)" "body_note L raw"]
        fence_units [of "cl_fold L" "hold_shown L m raw"] assms(3) by linarith
    ultimately show ?thesis unfolding left by linarith
  qed
  consider "failed" | "\<not> failed" "raw = [] \<or> fencedBody L raw (hold_budget m) = []"
    | "\<not> failed" "raw \<noteq> []" "fencedBody L raw (hold_budget m) \<noteq> []" by blast
  then show ?thesis
  proof cases
    case 1
    then show ?thesis using utf16Len_append [of "hold_header m" "hold_fetch_failed (im_id m)"] hold_failed_units [of "im_id m"] h assms(1)
      by (simp add: formatHoldWithEvidence_def)
  next
    case 2
    then show ?thesis using h by (auto simp: formatHoldWithEvidence_def Let_def hold_budget_def)
  next
    case 3
    then have "formatHoldWithEvidence L m raw failed None = hold_header m @ [newline, newline] @ fencedBody L raw (hold_budget m)"
      by (simp add: formatHoldWithEvidence_def Let_def hold_budget_def)
    then show ?thesis using b [of "fencedBody L raw (hold_budget m)"] fb [OF 3(2)] by simp
  qed
qed

definition sample_cards :: card_lib where
  "sample_cards = \<lparr>cl_mime = plain_mime, cl_addrs = (\<lambda>b k. None), cl_lower = to_lower, cl_quote = (\<lambda>s. s), cl_fold = plain_env\<rparr>"

definition sample_hold_card :: imessage where
  "sample_hold_card = imessage_zero\<lparr>im_id := ''7'', im_from := ''a@x''\<rparr>"

lemma sample_shown: "hold_shown sample_cards sample_hold_card ''pay me'' = ''pay me''"
proof -
  have x: "extracted sample_cards ''pay me'' = (\<lparr>mx_body = ''pay me'', mx_body_parts = [''pay me''], mx_attachments = [],
      mx_truncated = False, mx_undecodable = False\<rparr>, False)"
    using plain_extract [of "''pay me''"] by (simp add: extracted_def sample_cards_def trim_space_def is_space_def)
  have d: "decoded_text sample_cards ''pay me'' = ''pay me''" by (simp add: decoded_text_def x trim_right_text_def)
  have "utf16Len ''pay me'' = 6" "utf16Len ''7'' = 1" by (simp_all add: utf16Len_ascii ascii_def)
  then show ?thesis using hold_header_units [of sample_hold_card]
    by (simp add: hold_shown_def d x shown_text_def body_left_def body_note_def hold_budget_def telegramTextLimit_def fenceOverhead_def sample_hold_card_def)
qed

theorem hold_card_fits_witness: "utf16Len (formatHoldWithEvidence sample_cards sample_hold_card ''pay me'' False None) \<le> 4096"
proof (rule hold_card_fits)
  have "neutralizeMarkers plain_env ''pay me'' = ''pay me''" by (rule neutral_plain [OF plain_env_ok]) (simp_all add: ascii_def)
  then show "utf16Len (neutralizeMarkers (cl_fold sample_cards) (hold_shown sample_cards sample_hold_card ''pay me''))
    \<le> utf16Len (hold_shown sample_cards sample_hold_card ''pay me'')" unfolding sample_shown by (simp add: sample_cards_def)
qed (simp_all add: sample_hold_card_def utf16Len_ascii ascii_def)

end
