(* ===== verification/Telegram.thy ===== *)
theory Telegram
  imports Holdcard
begin

text \<open>Model of the approval client of \<open>internal/telegram\<close>: the polling loop that posts a card for each message awaiting
  the operator, and the handlers of the operator's taps and replies.

  Everything the client does to the world is an effect, appended to a log: a call of the admin API, a message to the chat. The
  answers are functions of the effect and of the log before it, so every behaviour of the network and of the service is
  an instance. Handlers run one at a time; the service is what makes concurrent decisions safe. The log lines are
  left out.\<close>

section \<open>Effects and state\<close>

type_synonym keyboard = "(string \<times> string) list list"

datatype tg_effect =
    EInboxes | EList | EShow string | EApprove string | EApproveAs string string | EReject string string bool | EReSend string bool
  | EHeldList | EHeldContent string | EHeldEvidence string | EExpose string | EDrop string | EReconcile
  | ESend int bytes "keyboard option" int
  | EPrompt int bytes
  | EDocument int string bytes string int
  | EAnswer string string bool
  | EEditText int int bytes
  | EEditKeyboard int int keyboard
  | EDelete int int

record reject_state =
  rj_id :: string
  rj_retryable :: bool
  rj_chat :: int
  rj_msg :: int
  rj_at :: time

record bot_state =
  bs_identities :: "(string \<times> string) list"
  bs_loaded :: bool
  bs_posted :: "string list"
  bs_holds :: "string list"
  bs_latches :: "string list"
  bs_failed :: "string list"
  bs_pending :: "(int \<times> reject_state) list"
  bs_log :: "tg_effect list"

text \<open>The world: the admin API through its client, and the chat. A message that was sent has a number.\<close>

record bot_world =
  bw_operator :: int
  bw_cards :: card_lib
  bw_inboxes :: "tg_effect list \<Rightarrow> client_err + (string \<times> string) list"
  bw_list :: "tg_effect list \<Rightarrow> client_err + meta list"
  bw_show :: "string \<Rightarrow> tg_effect list \<Rightarrow> client_err + bytes"
  bw_decide :: "tg_effect \<Rightarrow> tg_effect list \<Rightarrow> client_err + wire_outcome"
  bw_held :: "tg_effect list \<Rightarrow> client_err + imessage list"
  bw_content :: "string \<Rightarrow> tg_effect list \<Rightarrow> client_err + bytes"
  bw_evidence :: "string \<Rightarrow> tg_effect list \<Rightarrow> client_err + evidence"
  bw_hold :: "tg_effect \<Rightarrow> tg_effect list \<Rightarrow> client_err option"
  bw_latches :: "tg_effect list \<Rightarrow> client_err + reconcile_status list"
  bw_send :: "tg_effect \<Rightarrow> tg_effect list \<Rightarrow> int option"
  bw_document :: "tg_effect \<Rightarrow> tg_effect list \<Rightarrow> bool"
  bw_now :: "tg_effect list \<Rightarrow> time"
  bw_text :: "client_err \<Rightarrow> string"

definition emit :: "tg_effect \<Rightarrow> bot_state \<Rightarrow> bot_state" where
  "emit e s = s\<lparr>bs_log := bs_log s @ [e]\<rparr>"

definition bot_start :: bot_state where
  "bot_start = \<lparr>bs_identities = [], bs_loaded = False, bs_posted = [], bs_holds = [], bs_latches = [], bs_failed = [],
     bs_pending = [], bs_log = []\<rparr>"

section \<open>Buttons\<close>

definition cbApprove :: string where "cbApprove = ''approve:''"
definition cbRejectPerm :: string where "cbRejectPerm = ''reject_perm:''"
definition cbRejectRetry :: string where "cbRejectRetry = ''reject_retry:''"
definition cbExpose :: string where "cbExpose = ''expose:''"
definition cbDrop :: string where "cbDrop = ''drop:''"
definition cbHeldFull :: string where "cbHeldFull = ''heldfull:''"
definition cbChange :: string where "cbChange = ''change:''"
definition cbApproveAs :: string where "cbApproveAs = ''approve_as:''"
definition cbChangeBack :: string where "cbChangeBack = ''chg_back:''"
definition cbResend :: string where "cbResend = ''resend:''"
definition cbResendAck :: string where "cbResendAck = ''resend_ack:''"
definition cbResendBack :: string where "cbResendBack = ''resend_back:''"

definition back_label :: string where "back_label = map char_of [0xC2, 0xAB :: nat] @ '' Back''"

definition decisionKeyboard :: "bot_state \<Rightarrow> string \<Rightarrow> keyboard" where
  "decisionKeyboard s i = [[(''Approve'', cbApprove @ i)]]
     @ (if 2 \<le> length (bs_identities s) then [[(''Change sender'', cbChange @ i)]] else [])
     @ [[(''Reject (permanent)'', cbRejectPerm @ i), (''Reject (retryable)'', cbRejectRetry @ i)]]"

definition identityKeyboard :: "bot_state \<Rightarrow> string \<Rightarrow> keyboard" where
  "identityKeyboard s i = map (\<lambda>(name, identity). [(identity, cbApproveAs @ name @ '':'' @ i)]) (bs_identities s)
     @ [[(back_label, cbChangeBack @ i)]]"

definition holdKeyboard :: "string \<Rightarrow> keyboard" where
  "holdKeyboard i = [[(''Expose'', cbExpose @ i), (''Drop'', cbDrop @ i)], [(''Full message'', cbHeldFull @ i)]]"

definition failedKeyboard :: "string \<Rightarrow> keyboard" where
  "failedKeyboard i = [[(''Re-send'', cbResend @ i)]]"

definition confirmKeyboard :: "string \<Rightarrow> keyboard" where
  "confirmKeyboard i = [[(''Re-send anyway (may duplicate)'', cbResendAck @ i)], [(back_label, cbResendBack @ i)]]"

definition parseApproveAs :: "string \<Rightarrow> (string \<times> string) option" where
  "parseApproveAs data = (let rest = trim_prefix data cbApproveAs in
     case (before_last (CHR '':'') rest, after_last (CHR '':'') rest) of (Some a, Some b) \<Rightarrow> Some (a, b) | _ \<Rightarrow> None)"

section \<open>Sending\<close>

definition tg_send :: "bot_world \<Rightarrow> tg_effect \<Rightarrow> bot_state \<Rightarrow> int option \<times> bot_state" where
  "tg_send W e s = (bw_send W e (bs_log s), emit e s)"

definition send_document :: "bot_world \<Rightarrow> tg_effect \<Rightarrow> bot_state \<Rightarrow> bool \<times> bot_state" where
  "send_document W e s = (bw_document W e (bs_log s), emit e s)"

definition sendAttachments :: "bot_world \<Rightarrow> string \<Rightarrow> int \<Rightarrow> attachment list \<Rightarrow> bot_state \<Rightarrow> bot_state" where
  "sendAttachments W qid anchor as s = fold (\<lambda>a s. snd (send_document W (EDocument (bw_operator W) (gt_filename a) (gt_data a)
     (attachmentCaption qid (gt_filename a)) anchor) s)) (filter uploadable as) s"

definition sendFullBodyFailedNotice :: "bot_world \<Rightarrow> string \<Rightarrow> int \<Rightarrow> bot_state \<Rightarrow> bot_state" where
  "sendFullBodyFailedNotice W qid anchor s = snd (tg_send W (ESend (bw_operator W) (fullBodyFailedNotice qid) None anchor) s)"

definition sendFullBody :: "bot_world \<Rightarrow> string \<Rightarrow> int \<Rightarrow> bytes \<Rightarrow> bot_state \<Rightarrow> bot_state" where
  "sendFullBody W qid anchor body s = (if \<not> fullBodyUploadable (length body) then s
     else case send_document W (EDocument (bw_operator W) fullBodyFilename body (fullBodyCaption qid) anchor) s of
       (ok, s') \<Rightarrow> if ok then s' else sendFullBodyFailedNotice W qid anchor s')"

definition notify :: "bot_world \<Rightarrow> meta \<Rightarrow> bot_state \<Rightarrow> bool \<times> bot_state" where
  "notify W m s = (let fetched = (case bw_show W (mt_id m) (bs_log s) of Inl e \<Rightarrow> None | Inr b \<Rightarrow> Some b);
       s1 = emit (EShow (mt_id m)) s;
       n = new_notification (bw_cards W) m fetched; (t, off) = formatNotification n
     in case tg_send W (ESend (bw_operator W) t (Some (decisionKeyboard s1 (mt_id m))) 0) s1 of
         (None, s2) \<Rightarrow> (False, s2)
       | (Some anchor, s2) \<Rightarrow> (True, sendAttachments W (mt_id m) anchor (nt_attachments n)
           (if off then sendFullBody W (mt_id m) anchor (nt_body n) s2 else s2)))"

section \<open>Polling\<close>

definition ensureIdentities :: "bot_world \<Rightarrow> bot_state \<Rightarrow> bot_state" where
  "ensureIdentities W s = (if bs_loaded s then s else case bw_inboxes W (bs_log s) of
       Inl e \<Rightarrow> emit EInboxes s
     | Inr ids \<Rightarrow> (emit EInboxes s)\<lparr>bs_identities := ids, bs_loaded := True\<rparr>)"

definition mark :: "string \<Rightarrow> string list \<Rightarrow> string list" where
  "mark i l = (if i \<in> set l then l else l @ [i])"

definition prune :: "string list \<Rightarrow> string list \<Rightarrow> string list" where
  "prune keep l = filter (\<lambda>i. i \<in> set keep) l"

definition pending_ids :: "meta list \<Rightarrow> string list" where
  "pending_ids metas = map mt_id (filter (\<lambda>m. mt_status m = Pending) metas)"

definition failed_ids :: "meta list \<Rightarrow> string list" where
  "failed_ids metas = map mt_id (filter (\<lambda>m. failedSend m \<or> mt_resend_in_progress m) metas)"

definition poll_one :: "bot_world \<Rightarrow> meta \<Rightarrow> bot_state \<Rightarrow> bot_state" where
  "poll_one W m s = (if mt_status m \<noteq> Pending \<or> mt_id m \<in> set (bs_posted s) then s
     else case notify W m s of (ok, s') \<Rightarrow> if ok then s'\<lparr>bs_posted := mark (mt_id m) (bs_posted s')\<rparr> else s')"

definition failed_one :: "bot_world \<Rightarrow> meta \<Rightarrow> bot_state \<Rightarrow> bot_state" where
  "failed_one W m s = (if \<not> failedSend m \<or> mt_id m \<in> set (bs_failed s) then s
     else case tg_send W (ESend (bw_operator W) (formatFailed m) (Some (failedKeyboard (mt_id m))) 0) s of
       (None, s') \<Rightarrow> s' | (Some k, s') \<Rightarrow> s'\<lparr>bs_failed := mark (mt_id m) (bs_failed s')\<rparr>)"

definition pollFailed :: "bot_world \<Rightarrow> meta list \<Rightarrow> bot_state \<Rightarrow> bot_state" where
  "pollFailed W metas s = fold (failed_one W) metas (s\<lparr>bs_failed := prune (failed_ids metas) (bs_failed s)\<rparr>)"

definition poll :: "bot_world \<Rightarrow> bot_state \<Rightarrow> bot_state" where
  "poll W s = (let s1 = emit EList s in case bw_list W (bs_log s) of
       Inl e \<Rightarrow> s1
     | Inr metas \<Rightarrow> pollFailed W metas (fold (poll_one W) metas (s1\<lparr>bs_posted := prune (pending_ids metas) (bs_posted s1)\<rparr>)))"

definition notifyHold :: "bot_world \<Rightarrow> imessage \<Rightarrow> bot_state \<Rightarrow> bool \<times> bot_state" where
  "notifyHold W m s = (let c = bw_content W (im_id m) (bs_log s); s1 = emit (EHeldContent (im_id m)) s;
       failed = (case c of Inl e \<Rightarrow> True | Inr b \<Rightarrow> False); raw = (case c of Inl e \<Rightarrow> [] | Inr b \<Rightarrow> b);
       ask = (\<not> failed \<and> raw \<noteq> [] \<and> (case im_assessment m of None \<Rightarrow> False | Some a \<Rightarrow> ia_factors a \<noteq> []));
       ev = (if ask then case bw_evidence W (im_id m) (bs_log s1) of Inl e \<Rightarrow> None | Inr v \<Rightarrow> Some v else None);
       s2 = (if ask then emit (EHeldEvidence (im_id m)) s1 else s1)
     in case tg_send W (ESend (bw_operator W) (formatHoldWithEvidence (bw_cards W) m raw failed ev) (Some (holdKeyboard (im_id m))) 0) s2 of
       (r, s3) \<Rightarrow> (r \<noteq> None, s3))"

definition hold_one :: "bot_world \<Rightarrow> imessage \<Rightarrow> bot_state \<Rightarrow> bot_state" where
  "hold_one W m s = (if im_id m \<in> set (bs_holds s) then s
     else case notifyHold W m s of (ok, s') \<Rightarrow> if ok then s'\<lparr>bs_holds := mark (im_id m) (bs_holds s')\<rparr> else s')"

definition pollHolds :: "bot_world \<Rightarrow> bot_state \<Rightarrow> bot_state" where
  "pollHolds W s = (let s1 = emit EHeldList s in case bw_held W (bs_log s) of
       Inl e \<Rightarrow> s1
     | Inr held \<Rightarrow> fold (hold_one W) held (s1\<lparr>bs_holds := prune (map im_id held) (bs_holds s1)\<rparr>))"

definition latch_one :: "bot_world \<Rightarrow> reconcile_status \<Rightarrow> bot_state \<Rightarrow> bot_state" where
  "latch_one W st s = (if \<not> rt_suspended st \<or> rt_inbox st \<in> set (bs_latches s) then s
     else case tg_send W (ESend (bw_operator W) (formatLatch (bw_cards W) st) None 0) s of
       (None, s') \<Rightarrow> s' | (Some k, s') \<Rightarrow> s'\<lparr>bs_latches := mark (rt_inbox st) (bs_latches s')\<rparr>)"

definition pollReconcile :: "bot_world \<Rightarrow> bot_state \<Rightarrow> bot_state" where
  "pollReconcile W s = (let s1 = emit EReconcile s in case bw_latches W (bs_log s) of
       Inl e \<Rightarrow> s1
     | Inr sts \<Rightarrow> fold (latch_one W) sts (s1\<lparr>bs_latches := prune (map rt_inbox (filter rt_suspended sts)) (bs_latches s1)\<rparr>))"

text \<open>One cycle of \<open>pollLoop\<close>.\<close>

definition poll_cycle :: "bot_world \<Rightarrow> bot_state \<Rightarrow> bot_state" where
  "poll_cycle W s = pollReconcile W (pollHolds W (poll W (ensureIdentities W s)))"

section \<open>Taps and replies\<close>

text \<open>A tap on a button: its sender, its data, and the chat and number of the message it is under, when that is
  accessible. A reply: its sender, its chat, its text and the message it answers.\<close>

record callback =
  cq_id :: string
  cq_from :: int
  cq_data :: string
  cq_msg :: "(int \<times> int) option"

record reply =
  rp_from :: "int option"
  rp_chat :: int
  rp_text :: string
  rp_to :: int

datatype update = Callback callback | Reply reply | OtherUpdate

definition answer :: "callback \<Rightarrow> string \<Rightarrow> bool \<Rightarrow> bot_state \<Rightarrow> bot_state" where
  "answer cq t alert s = emit (EAnswer (cq_id cq) t alert) s"

definition denyCallback :: "callback \<Rightarrow> bot_state \<Rightarrow> bot_state" where
  "denyCallback cq s = answer cq ''Not authorized.'' True s"

definition editResult :: "callback \<Rightarrow> bytes \<Rightarrow> bot_state \<Rightarrow> bot_state" where
  "editResult cq t s = (case cq_msg cq of None \<Rightarrow> s | Some (chat, k) \<Rightarrow> emit (EEditText chat k t) s)"

definition edit_keyboard :: "callback \<Rightarrow> keyboard \<Rightarrow> bot_state \<Rightarrow> bot_state" where
  "edit_keyboard cq kb s = (case cq_msg cq of None \<Rightarrow> s | Some (chat, k) \<Rightarrow> emit (EEditKeyboard chat k kb) s)"

definition result_text :: "bot_world \<Rightarrow> client_err + 'a \<Rightarrow> string + 'a" where
  "result_text W r = (case r of Inl e \<Rightarrow> Inl (bw_text W e) | Inr x \<Rightarrow> Inr x)"

definition finishDecision :: "bot_world \<Rightarrow> callback \<Rightarrow> string \<Rightarrow> string \<Rightarrow> client_err + wire_outcome \<Rightarrow> bot_state \<Rightarrow> bot_state" where
  "finishDecision W cq verb i r s = editResult cq (decisionResult verb i (result_text W r)) (answer cq verb False s)"

definition statusOf :: "string \<Rightarrow> meta list \<Rightarrow> status option" where
  "statusOf i metas = map_option mt_status (find (\<lambda>m. mt_id m = i) metas)"

text \<open>The listing's answer about a message; \<open>None\<close> means go ahead.\<close>

definition pendingGuardResult :: "string \<Rightarrow> client_err + status option \<Rightarrow> string option" where
  "pendingGuardResult i r = (case r of Inl e \<Rightarrow> None
     | Inr (Some st) \<Rightarrow> if st = Pending then None else Some (''Message '' @ i @ '': already '' @ status_text st)
     | Inr None \<Rightarrow> Some (''Message '' @ i @ '': no longer in the queue''))"

definition guardPending :: "bot_world \<Rightarrow> callback \<Rightarrow> string \<Rightarrow> bot_state \<Rightarrow> bool \<times> bot_state" where
  "guardPending W cq i s = (let r = (case bw_list W (bs_log s) of Inl e \<Rightarrow> Inl e | Inr metas \<Rightarrow> Inr (statusOf i metas)); s1 = emit EList s
     in case pendingGuardResult i r of None \<Rightarrow> (True, s1) | Some t \<Rightarrow> (False, editResult cq t (answer cq t True s1)))"

definition decide_call :: "bot_world \<Rightarrow> tg_effect \<Rightarrow> bot_state \<Rightarrow> (client_err + wire_outcome) \<times> bot_state" where
  "decide_call W e s = (bw_decide W e (bs_log s), emit e s)"

definition tg_handleApprove :: "bot_world \<Rightarrow> callback \<Rightarrow> bot_state \<Rightarrow> bot_state" where
  "tg_handleApprove W cq s = (if cq_from cq \<noteq> bw_operator W then denyCallback cq s
     else let i = trim_prefix (cq_data cq) cbApprove in case guardPending W cq i s of
       (False, s1) \<Rightarrow> s1
     | (True, s1) \<Rightarrow> (case decide_call W (EApprove i) s1 of (r, s2) \<Rightarrow> finishDecision W cq ''Approved'' i r s2))"

definition handleChange :: "bot_world \<Rightarrow> callback \<Rightarrow> bot_state \<Rightarrow> bot_state" where
  "handleChange W cq s = (if cq_from cq \<noteq> bw_operator W then denyCallback cq s
     else let s1 = answer cq '''' False s in edit_keyboard cq (identityKeyboard s1 (trim_prefix (cq_data cq) cbChange)) s1)"

definition handleChangeBack :: "bot_world \<Rightarrow> callback \<Rightarrow> bot_state \<Rightarrow> bot_state" where
  "handleChangeBack W cq s = (if cq_from cq \<noteq> bw_operator W then denyCallback cq s
     else let s1 = answer cq '''' False s in edit_keyboard cq (decisionKeyboard s1 (trim_prefix (cq_data cq) cbChangeBack)) s1)"

definition tg_handleApproveAs :: "bot_world \<Rightarrow> callback \<Rightarrow> bot_state \<Rightarrow> bot_state" where
  "tg_handleApproveAs W cq s = (if cq_from cq \<noteq> bw_operator W then denyCallback cq s
     else case parseApproveAs (cq_data cq) of
       None \<Rightarrow> answer cq '''' False s
     | Some (inbox, i) \<Rightarrow> (case guardPending W cq i s of
         (False, s1) \<Rightarrow> s1
       | (True, s1) \<Rightarrow> (case decide_call W (EApproveAs i inbox) s1 of (r, s2) \<Rightarrow> finishDecision W cq ''Approved'' i r s2)))"

definition pendingTTL :: duration where "pendingTTL = 3600 * 1000000000"

definition prunePendingLocked :: "time \<Rightarrow> (int \<times> reject_state) list \<Rightarrow> (int \<times> reject_state) list" where
  "prunePendingLocked now l = filter (\<lambda>(k, st). \<not> pendingTTL < time_sub now (rj_at st)) l"

definition hourglass :: bytes where "hourglass = map char_of [0xE2, 0x8F, 0xB3 :: nat]"

definition prompt_text :: "bool \<Rightarrow> string \<Rightarrow> bytes" where
  "prompt_text retryable i = ''Reason for the '' @ (if retryable then ''retryable'' else ''permanent'') @ '' rejection of '' @ i
     @ ''? Reply to this message.''"

definition promptReason :: "bot_world \<Rightarrow> callback \<Rightarrow> string \<Rightarrow> bool \<Rightarrow> bot_state \<Rightarrow> bot_state" where
  "promptReason W cq prefix retryable s = (if cq_from cq \<noteq> bw_operator W then denyCallback cq s
     else case cq_msg cq of
       None \<Rightarrow> answer cq '''' False s
     | Some (chat, k) \<Rightarrow> let i = trim_prefix (cq_data cq) prefix in (case guardPending W cq i s of
         (False, s1) \<Rightarrow> s1
       | (True, s1) \<Rightarrow> (case tg_send W (EPrompt chat (prompt_text retryable i)) s1 of
           (None, s2) \<Rightarrow> answer cq ''Could not start the reason prompt.'' False s2
         | (Some prompt, s2) \<Rightarrow> let now = bw_now W (bs_log s2);
             st = \<lparr>rj_id = i, rj_retryable = retryable, rj_chat = chat, rj_msg = k, rj_at = now\<rparr>;
             s3 = s2\<lparr>bs_pending := AList.update prompt st (prunePendingLocked now (bs_pending s2))\<rparr>
           in editResult cq (hourglass @ '' Rejecting '' @ i @ '' '' @ em_dash @ '' awaiting your reason'') (answer cq ''Reason?'' False s3))))"

definition handleRejectPermanent :: "bot_world \<Rightarrow> callback \<Rightarrow> bot_state \<Rightarrow> bot_state" where
  "handleRejectPermanent W cq s = promptReason W cq cbRejectPerm False s"

definition handleRejectRetryable :: "bot_world \<Rightarrow> callback \<Rightarrow> bot_state \<Rightarrow> bot_state" where
  "handleRejectRetryable W cq s = promptReason W cq cbRejectRetry True s"

definition reply_reason :: "string \<Rightarrow> string" where
  "reply_reason t = (if trim_space t = '''' then ''(no reason given)'' else trim_space t)"

definition handleReasonReply :: "bot_world \<Rightarrow> reply \<Rightarrow> bot_state \<Rightarrow> bot_state" where
  "handleReasonReply W m s = (if rp_from m \<noteq> Some (bw_operator W) then s
     else case map_of (bs_pending s) (rp_to m) of
       None \<Rightarrow> s
     | Some st \<Rightarrow> (case decide_call W (EReject (rj_id st) (reply_reason (rp_text m)) (rj_retryable st))
           (s\<lparr>bs_pending := AList.delete (rp_to m) (bs_pending s)\<rparr>) of
         (r, s1) \<Rightarrow> emit (EDelete (rp_chat m) (rp_to m)) (emit (EEditText (rj_chat st) (rj_msg st)
           (decisionResult ''Rejected'' (rj_id st) (result_text W r))) s1)))"

definition handleHeldFull :: "bot_world \<Rightarrow> callback \<Rightarrow> bot_state \<Rightarrow> bot_state" where
  "handleHeldFull W cq s = (if cq_from cq \<noteq> bw_operator W then denyCallback cq s
     else let i = trim_prefix (cq_data cq) cbHeldFull; s1 = emit (EHeldContent i) s in
       case bw_content W i (bs_log s) of
         Inl CeNotHeld \<Rightarrow> answer cq ''No longer held: the decision has already been made.'' False s1
       | Inl e \<Rightarrow> answer cq ''Could not fetch the message. Try again.'' False s1
       | Inr raw \<Rightarrow> (case heldFullText (bw_cards W) raw of (t, truncated, ok) \<Rightarrow>
           if \<not> ok then answer cq ''No text to upload, or too large to upload.'' False s1
           else let s2 = sendFullBody W i (case cq_msg cq of None \<Rightarrow> 0 | Some (c, k) \<Rightarrow> k) t s1
             in answer cq (if truncated then ''Sent below, but TRUNCATED: the message exceeded the extraction limits, so this is not all of it.''
                 else ''Full message sent below.'') False s2))"

definition guardHeld :: "bot_world \<Rightarrow> callback \<Rightarrow> string \<Rightarrow> bot_state \<Rightarrow> bool \<times> bot_state" where
  "guardHeld W cq i s = (let s1 = emit EHeldList s; t = ''Message '' @ i @ '': already decided or gone'' in
     case bw_held W (bs_log s) of Inl e \<Rightarrow> (True, s1)
     | Inr held \<Rightarrow> if list_ex (\<lambda>m. im_id m = i) held then (True, s1) else (False, editResult cq t (answer cq t True s1)))"

definition hold_decision :: "bot_world \<Rightarrow> callback \<Rightarrow> string \<Rightarrow> string \<Rightarrow> (string \<Rightarrow> tg_effect) \<Rightarrow> bot_state \<Rightarrow> bot_state" where
  "hold_decision W cq prefix verb call s = (if cq_from cq \<noteq> bw_operator W then denyCallback cq s
     else let i = trim_prefix (cq_data cq) prefix in case guardHeld W cq i s of
       (False, s1) \<Rightarrow> s1
     | (True, s1) \<Rightarrow> let r = bw_hold W (call i) (bs_log s1); s2 = emit (call i) s1
         in editResult cq (holdResult verb i (map_option (bw_text W) r)) (answer cq verb False s2))"

definition tg_handleExpose :: "bot_world \<Rightarrow> callback \<Rightarrow> bot_state \<Rightarrow> bot_state" where
  "tg_handleExpose W cq s = hold_decision W cq cbExpose ''Exposed'' EExpose s"

definition tg_handleDrop :: "bot_world \<Rightarrow> callback \<Rightarrow> bot_state \<Rightarrow> bot_state" where
  "tg_handleDrop W cq s = hold_decision W cq cbDrop ''Dropped'' EDrop s"

definition askToConfirm :: "callback \<Rightarrow> string \<Rightarrow> bot_state \<Rightarrow> bot_state" where
  "askToConfirm cq i s = edit_keyboard cq (confirmKeyboard i)
     (answer cq ''It may already have been delivered. Confirm to re-send.'' True s)"

definition finishResend :: "bot_world \<Rightarrow> callback \<Rightarrow> string \<Rightarrow> client_err + wire_outcome \<Rightarrow> bot_state \<Rightarrow> bot_state" where
  "finishResend W cq i r s = (if r = Inl CeResendInProgress
     then answer cq ''A re-send of this message is already in progress.'' True s
     else let s1 = finishDecision W cq ''Re-sent'' i r s in s1\<lparr>bs_failed := removeAll i (bs_failed s1)\<rparr>)"

definition outcomeUnknown :: "bot_world \<Rightarrow> string \<Rightarrow> bot_state \<Rightarrow> bool \<times> bot_state" where
  "outcomeUnknown W i s = (case bw_list W (bs_log s) of Inl e \<Rightarrow> False
     | Inr metas \<Rightarrow> (case find (\<lambda>m. mt_id m = i) metas of None \<Rightarrow> False | Some m \<Rightarrow> mt_outcome_unknown m), emit EList s)"

definition tg_handleResend :: "bot_world \<Rightarrow> callback \<Rightarrow> bot_state \<Rightarrow> bot_state" where
  "tg_handleResend W cq s = (if cq_from cq \<noteq> bw_operator W then denyCallback cq s
     else let i = trim_prefix (cq_data cq) cbResend in case outcomeUnknown W i s of
       (True, s1) \<Rightarrow> askToConfirm cq i s1
     | (False, s1) \<Rightarrow> (case decide_call W (EReSend i False) s1 of (r, s2) \<Rightarrow>
         if r = Inl CeAckRequired then askToConfirm cq i s2 else finishResend W cq i r s2))"

definition handleResendAck :: "bot_world \<Rightarrow> callback \<Rightarrow> bot_state \<Rightarrow> bot_state" where
  "handleResendAck W cq s = (if cq_from cq \<noteq> bw_operator W then denyCallback cq s
     else let i = trim_prefix (cq_data cq) cbResendAck in case decide_call W (EReSend i True) s of
       (r, s1) \<Rightarrow> finishResend W cq i r s1)"

definition handleResendBack :: "bot_world \<Rightarrow> callback \<Rightarrow> bot_state \<Rightarrow> bot_state" where
  "handleResendBack W cq s = (if cq_from cq \<noteq> bw_operator W then denyCallback cq s
     else edit_keyboard cq (failedKeyboard (trim_prefix (cq_data cq) cbResendBack)) (answer cq '''' False s))"

text \<open>The registered handlers; no prefix begins with another, so at most one matches.\<close>

definition tap_handlers :: "(string \<times> (bot_world \<Rightarrow> callback \<Rightarrow> bot_state \<Rightarrow> bot_state)) list" where
  "tap_handlers = [(cbApprove, tg_handleApprove), (cbRejectPerm, handleRejectPermanent), (cbRejectRetry, handleRejectRetryable),
     (cbExpose, tg_handleExpose), (cbDrop, tg_handleDrop), (cbHeldFull, handleHeldFull), (cbApproveAs, tg_handleApproveAs),
     (cbChangeBack, handleChangeBack), (cbChange, handleChange), (cbResendAck, handleResendAck), (cbResendBack, handleResendBack),
     (cbResend, tg_handleResend)]"

definition handle_update :: "bot_world \<Rightarrow> update \<Rightarrow> bot_state \<Rightarrow> bot_state" where
  "handle_update W u s = (case u of
       Callback cq \<Rightarrow> (case find (\<lambda>(p, h). has_prefix (cq_data cq) p) tap_handlers of None \<Rightarrow> s | Some (p, h) \<Rightarrow> h W cq s)
     | Reply m \<Rightarrow> handleReasonReply W m s
     | OtherUpdate \<Rightarrow> s)"

text \<open>The runs of the client.\<close>

datatype bot_event = PollEvent | UpdateEvent update

definition bot_step :: "bot_world \<Rightarrow> bot_event \<Rightarrow> bot_state \<Rightarrow> bot_state" where
  "bot_step W ev s = (case ev of PollEvent \<Rightarrow> poll_cycle W s | UpdateEvent u \<Rightarrow> handle_update W u s)"

definition bot_run :: "bot_world \<Rightarrow> bot_event list \<Rightarrow> bot_state" where
  "bot_run W evs = fold (bot_step W) evs bot_start"

section \<open>Only the operator decides\<close>

fun deciding :: "tg_effect \<Rightarrow> bool" where
  "deciding (EApprove i) = True"
| "deciding (EApproveAs i n) = True"
| "deciding (EReject i r b) = True"
| "deciding (EReSend i a) = True"
| "deciding (EExpose i) = True"
| "deciding (EDrop i) = True"
| "deciding e = False"

fun from_operator :: "bot_world \<Rightarrow> bot_event \<Rightarrow> bool" where
  "from_operator W (UpdateEvent (Callback cq)) = (cq_from cq = bw_operator W)"
| "from_operator W (UpdateEvent (Reply m)) = (rp_from m = Some (bw_operator W))"
| "from_operator W e = False"

text \<open>Counting effects: what asks, shows and reads is quiet.\<close>

definition cnt :: "(tg_effect \<Rightarrow> bool) \<Rightarrow> bot_state \<Rightarrow> nat" where
  "cnt P s = length (filter P (bs_log s))"

definition quiet :: "(tg_effect \<Rightarrow> bool) \<Rightarrow> bool" where
  "quiet P \<longleftrightarrow> \<not> P EInboxes \<and> \<not> P EList \<and> (\<forall>i. \<not> P (EShow i)) \<and> \<not> P EHeldList \<and> (\<forall>i. \<not> P (EHeldContent i))
     \<and> (\<forall>i. \<not> P (EHeldEvidence i)) \<and> \<not> P EReconcile \<and> (\<forall>c t kb a. \<not> P (ESend c t kb a)) \<and> (\<forall>c n d t a. \<not> P (EDocument c n d t a))
     \<and> (\<forall>i t b. \<not> P (EAnswer i t b)) \<and> (\<forall>c k t. \<not> P (EEditText c k t)) \<and> (\<forall>c k kb. \<not> P (EEditKeyboard c k kb)) \<and> (\<forall>c k. \<not> P (EDelete c k))"

lemma quietD [simp]: "quiet P \<Longrightarrow> \<not> P EInboxes" "quiet P \<Longrightarrow> \<not> P EList" "quiet P \<Longrightarrow> \<not> P (EShow i)" "quiet P \<Longrightarrow> \<not> P EHeldList"
    "quiet P \<Longrightarrow> \<not> P (EHeldContent i)" "quiet P \<Longrightarrow> \<not> P (EHeldEvidence i)" "quiet P \<Longrightarrow> \<not> P EReconcile" "quiet P \<Longrightarrow> \<not> P (ESend c t kb a)"
    "quiet P \<Longrightarrow> \<not> P (EDocument c n d t a)" "quiet P \<Longrightarrow> \<not> P (EAnswer i t b)" "quiet P \<Longrightarrow> \<not> P (EEditText c k t)"
    "quiet P \<Longrightarrow> \<not> P (EEditKeyboard c k kb2)" "quiet P \<Longrightarrow> \<not> P (EDelete c k)"
  by (simp_all add: quiet_def)

lemma cnt_emit [simp]: "cnt P (emit e s) = cnt P s + (if P e then 1 else 0)"
  by (simp add: cnt_def emit_def)

lemma cnt_fields [simp]: "cnt P (s\<lparr>bs_posted := a\<rparr>) = cnt P s" "cnt P (s\<lparr>bs_holds := a\<rparr>) = cnt P s"
    "cnt P (s\<lparr>bs_latches := a\<rparr>) = cnt P s" "cnt P (s\<lparr>bs_failed := a\<rparr>) = cnt P s"
    "cnt P (s\<lparr>bs_pending := p\<rparr>) = cnt P s" "cnt P (s\<lparr>bs_identities := ids\<rparr>) = cnt P s" "cnt P (s\<lparr>bs_loaded := b\<rparr>) = cnt P s"
  by (simp_all add: cnt_def)

lemma cnt_small [simp]: "quiet P \<Longrightarrow> cnt P (answer cq t b s) = cnt P s" "quiet P \<Longrightarrow> cnt P (denyCallback cq s) = cnt P s"
    "quiet P \<Longrightarrow> cnt P (editResult cq r s) = cnt P s" "quiet P \<Longrightarrow> cnt P (edit_keyboard cq kb s) = cnt P s"
    "quiet P \<Longrightarrow> cnt P (finishDecision W cq v i x s) = cnt P s" "quiet P \<Longrightarrow> cnt P (askToConfirm cq i s) = cnt P s"
    "quiet P \<Longrightarrow> cnt P (finishResend W cq i x s) = cnt P s" "quiet P \<Longrightarrow> cnt P (sendFullBodyFailedNotice W i a s) = cnt P s"
  by (simp_all add: answer_def denyCallback_def editResult_def edit_keyboard_def finishDecision_def askToConfirm_def finishResend_def
      sendFullBodyFailedNotice_def tg_send_def Let_def split: option.splits)

lemma cnt_body [simp]: "quiet P \<Longrightarrow> cnt P (sendFullBody W i a b s) = cnt P s"
  by (simp add: sendFullBody_def send_document_def split: prod.splits)

lemma cnt_fold: "(\<And>x s. cnt P (f x s) = cnt P s) \<Longrightarrow> cnt P (fold f xs s) = cnt P s"
  by (induction xs arbitrary: s) simp_all

lemma cnt_attachments [simp]: "quiet P \<Longrightarrow> cnt P (sendAttachments W i a as s) = cnt P s"
  unfolding sendAttachments_def by (rule cnt_fold) (simp add: send_document_def)

lemma cnt_notify: "quiet P \<Longrightarrow> notify W m s = (ok, s') \<Longrightarrow> cnt P s' = cnt P s"
  by (auto simp: notify_def tg_send_def Let_def split: prod.splits option.splits sum.splits)

lemma cnt_notifyHold: "quiet P \<Longrightarrow> notifyHold W m s = (ok, s') \<Longrightarrow> cnt P s' = cnt P s"
  by (auto simp: notifyHold_def tg_send_def Let_def split: prod.splits)

lemma cnt_one [simp]: "quiet P \<Longrightarrow> cnt P (poll_one W m s) = cnt P s" "quiet P \<Longrightarrow> cnt P (failed_one W m s) = cnt P s"
    "quiet P \<Longrightarrow> cnt P (hold_one W h s) = cnt P s" "quiet P \<Longrightarrow> cnt P (latch_one W st s) = cnt P s"
  by (auto simp: poll_one_def failed_one_def hold_one_def latch_one_def tg_send_def cnt_notify cnt_notifyHold
      split: prod.splits option.splits)

lemma cnt_folds [simp]: "quiet P \<Longrightarrow> cnt P (fold (poll_one W) ms s) = cnt P s" "quiet P \<Longrightarrow> cnt P (fold (failed_one W) ms s) = cnt P s"
    "quiet P \<Longrightarrow> cnt P (fold (hold_one W) hs s) = cnt P s" "quiet P \<Longrightarrow> cnt P (fold (latch_one W) sts s) = cnt P s"
  by (simp_all add: cnt_fold)

lemma cnt_poll [simp]: "quiet P \<Longrightarrow> cnt P (poll_cycle W s) = cnt P s"
proof -
  assume q: "quiet P"
  have "cnt P (ensureIdentities W s) = cnt P s" for s using q by (simp add: ensureIdentities_def split: sum.splits)
  moreover have "cnt P (poll W s) = cnt P s" for s using q by (simp add: poll_def pollFailed_def Let_def split: sum.splits)
  moreover have "cnt P (pollHolds W s) = cnt P s" for s using q by (simp add: pollHolds_def Let_def split: sum.splits)
  moreover have "cnt P (pollReconcile W s) = cnt P s" for s using q by (simp add: pollReconcile_def Let_def split: sum.splits)
  ultimately show ?thesis using q by (simp add: poll_cycle_def)
qed

lemma cnt_guard: "quiet P \<Longrightarrow> guardPending W cq i s = (b, s') \<Longrightarrow> cnt P s' = cnt P s" "quiet P \<Longrightarrow> guardHeld W cq i s = (b, s') \<Longrightarrow> cnt P s' = cnt P s"
    "quiet P \<Longrightarrow> outcomeUnknown W i s = (b, s') \<Longrightarrow> cnt P s' = cnt P s"
  by (auto simp: guardPending_def guardHeld_def outcomeUnknown_def Let_def split: option.splits sum.splits if_splits)

definition decisions :: "bot_state \<Rightarrow> nat" where
  "decisions s = cnt deciding s"

lemma quiet_deciding [simp]: "quiet deciding"
  by (simp add: quiet_def)

definition at_most_one :: "bot_world \<Rightarrow> callback \<Rightarrow> bot_state \<Rightarrow> bot_state \<Rightarrow> bool" where
  "at_most_one W cq s s' \<longleftrightarrow> decisions s' \<le> decisions s + (if cq_from cq = bw_operator W then 1 else 0)"

lemma tap_approve: "at_most_one W cq s (tg_handleApprove W cq s)" "at_most_one W cq s (tg_handleApproveAs W cq s)"
  by (auto simp: at_most_one_def decisions_def tg_handleApprove_def tg_handleApproveAs_def decide_call_def Let_def decisions_def cnt_guard [OF quiet_deciding] split: prod.splits option.splits bool.splits)

lemma tap_change: "at_most_one W cq s (handleChange W cq s)" "at_most_one W cq s (handleChangeBack W cq s)"
    "at_most_one W cq s (handleResendBack W cq s)"
  by (simp_all add: at_most_one_def decisions_def handleChange_def handleChangeBack_def handleResendBack_def Let_def)

lemma tap_prompt: "at_most_one W cq s (promptReason W cq p b s)"
  by (auto simp: at_most_one_def decisions_def promptReason_def tg_send_def Let_def decisions_def cnt_guard [OF quiet_deciding] split: prod.splits option.splits bool.splits)

lemma tap_hold: "at_most_one W cq s (hold_decision W cq p v call s)"
  by (auto simp: at_most_one_def decisions_def hold_decision_def Let_def decisions_def cnt_guard [OF quiet_deciding] split: prod.splits bool.splits)

lemma tap_full: "at_most_one W cq s (handleHeldFull W cq s)"
  by (auto simp: at_most_one_def decisions_def handleHeldFull_def Let_def split: sum.splits client_err.splits prod.splits)

lemma tap_resend: "at_most_one W cq s (tg_handleResend W cq s)" "at_most_one W cq s (handleResendAck W cq s)"
  by (auto simp: at_most_one_def decisions_def tg_handleResend_def handleResendAck_def decide_call_def Let_def decisions_def cnt_guard [OF quiet_deciding] split: prod.splits bool.splits)

lemma tap_any: "(p, h) \<in> set tap_handlers \<Longrightarrow> at_most_one W cq s (h W cq s)"
  by (auto simp: tap_handlers_def handleRejectPermanent_def handleRejectRetryable_def tg_handleExpose_def tg_handleDrop_def
      tap_approve tap_change tap_prompt tap_hold tap_full tap_resend)

lemma decisions_update: "decisions (handle_update W u s) \<le> decisions s + (if from_operator W (UpdateEvent u) then 1 else 0)"
proof (cases u)
  case (Callback cq)
  show ?thesis
  proof (cases "find (\<lambda>(p, h). has_prefix (cq_data cq) p) tap_handlers")
    case (Some ph)
    obtain p h where ph: "ph = (p, h)" by fastforce
    have "(p, h) \<in> set tap_handlers" using Some unfolding ph by (auto simp: find_Some_iff in_set_conv_nth)
    then show ?thesis using tap_any [of p h W cq s] Some by (simp add: handle_update_def Callback ph at_most_one_def decisions_def)
  qed (simp add: handle_update_def Callback)
next
  case (Reply m)
  then show ?thesis by (auto simp: handle_update_def handleReasonReply_def decide_call_def decisions_def split: option.splits)
qed (simp add: handle_update_def)

lemma fold_le: "(\<And>x s. m (f x s) \<le> m s + c x) \<Longrightarrow> m (fold f xs s) \<le> (m s + sum_list (map c xs) :: nat)"
proof (induction xs arbitrary: s)
  case (Cons x xs)
  have "m (fold f xs (f x s)) \<le> m (f x s) + sum_list (map c xs)" using Cons.IH Cons.prems by blast
  then show ?case using Cons.prems [of x s] by simp
qed simp

lemma sum_filter: "sum_list (map (\<lambda>x. if P x then 1 else 0) xs) = (length (filter P xs) :: nat)"
  by (induction xs) simp_all

text \<open>C0: only the operator decides. However the chat, the service and the network behave, the client asks the service to
  approve, reject, re-send, expose or drop no more often than the operator has tapped a button or answered a prompt: what
  anyone else sends, and the polling, decide nothing.\<close>

theorem only_operator_decides:
  "length (filter deciding (bs_log (bot_run W evs))) \<le> length (filter (from_operator W) evs)"
proof -
  have "decisions (bot_step W ev s) \<le> decisions s + (if from_operator W ev then 1 else 0)" for ev s
    using cnt_poll [of deciding W s] decisions_update [of W _ s] by (cases ev) (auto simp: bot_step_def decisions_def)
  then have "decisions (bot_run W evs) \<le> decisions bot_start + length (filter (from_operator W) evs)"
    unfolding bot_run_def using fold_le [of decisions "bot_step W" "\<lambda>ev. if from_operator W ev then 1 else 0"] by (simp add: sum_filter)
  then show ?thesis by (simp add: decisions_def cnt_def bot_start_def)
qed

section \<open>A rejection is the answer to a prompt\<close>

definition is_reject :: "string \<Rightarrow> bool \<Rightarrow> tg_effect \<Rightarrow> bool" where
  "is_reject i b e \<longleftrightarrow> (case e of EReject j r c \<Rightarrow> j = i \<and> c = b | _ \<Rightarrow> False)"

definition is_prompt :: "string \<Rightarrow> bool \<Rightarrow> tg_effect \<Rightarrow> bool" where
  "is_prompt i b e \<longleftrightarrow> (case e of EPrompt c t \<Rightarrow> t = prompt_text b i | _ \<Rightarrow> False)"

lemma quiet_reject [simp]: "quiet (is_reject i b)" "quiet (is_prompt i b)"
  by (simp_all add: quiet_def is_reject_def is_prompt_def)

lemma reject_simps [simp]: "is_reject i b (EReject j r c) \<longleftrightarrow> j = i \<and> c = b" "\<not> is_reject i b (EPrompt x t)"
    "\<not> is_reject i b (EApprove j)" "\<not> is_reject i b (EApproveAs j n)" "\<not> is_reject i b (EReSend j a)" "\<not> is_reject i b (EExpose j)"
    "\<not> is_reject i b (EDrop j)" "\<not> is_prompt i b (EReject j r c)" "is_prompt i b (EPrompt x t) \<longleftrightarrow> t = prompt_text b i"
    "\<not> is_prompt i b (EApprove j)" "\<not> is_prompt i b (EApproveAs j n)" "\<not> is_prompt i b (EReSend j a)" "\<not> is_prompt i b (EExpose j)"
    "\<not> is_prompt i b (EDrop j)"
  by (simp_all add: is_reject_def is_prompt_def)

definition waits :: "string \<Rightarrow> bool \<Rightarrow> (int \<times> reject_state) list \<Rightarrow> nat" where
  "waits i b l = length (filter (\<lambda>(k, st). rj_id st = i \<and> rj_retryable st = b) l)"

definition balanced :: "bot_state \<Rightarrow> bool" where
  "balanced s \<longleftrightarrow> (\<forall>i b. cnt (is_reject i b) s + waits i b (bs_pending s) \<le> cnt (is_prompt i b) s)"

lemma pending_simps [simp]: "bs_pending (emit e s) = bs_pending s" "bs_pending (answer cq t a s) = bs_pending s"
    "bs_pending (denyCallback cq s) = bs_pending s" "bs_pending (editResult cq r s) = bs_pending s"
    "bs_pending (edit_keyboard cq kb s) = bs_pending s" "bs_pending (finishDecision W cq v i x s) = bs_pending s"
    "bs_pending (askToConfirm cq i s) = bs_pending s" "bs_pending (finishResend W cq i x s) = bs_pending s"
    "bs_pending (sendFullBodyFailedNotice W i n s) = bs_pending s"
  by (simp_all add: emit_def answer_def denyCallback_def editResult_def edit_keyboard_def finishDecision_def askToConfirm_def finishResend_def
      sendFullBodyFailedNotice_def tg_send_def Let_def split: option.splits)

lemma pending_body [simp]: "bs_pending (sendFullBody W i a b s) = bs_pending s"
  by (simp add: sendFullBody_def send_document_def split: prod.splits)

lemma pending_fold: "(\<And>x s. bs_pending (f x s) = bs_pending s) \<Longrightarrow> bs_pending (fold f xs s) = bs_pending s"
  by (induction xs arbitrary: s) simp_all

lemma pending_attachments [simp]: "bs_pending (sendAttachments W i a as s) = bs_pending s"
  unfolding sendAttachments_def by (rule pending_fold) (simp add: send_document_def)

lemma pending_one: "bs_pending (poll_one W m s) = bs_pending s" "bs_pending (failed_one W m s) = bs_pending s"
    "bs_pending (hold_one W h s) = bs_pending s" "bs_pending (latch_one W st s) = bs_pending s"
  by (auto simp: poll_one_def failed_one_def hold_one_def latch_one_def notify_def notifyHold_def tg_send_def Let_def split: prod.splits option.splits)

lemma pending_poll [simp]: "bs_pending (poll_cycle W s) = bs_pending s"
  by (simp add: poll_cycle_def ensureIdentities_def poll_def pollFailed_def pollHolds_def pollReconcile_def Let_def
      pending_fold [OF pending_one(1)] pending_fold [OF pending_one(2)] pending_fold [OF pending_one(3)] pending_fold [OF pending_one(4)]
      split: sum.splits)

lemma pending_guard: "guardPending W cq i s = (b, s') \<Longrightarrow> bs_pending s' = bs_pending s" "guardHeld W cq i s = (b, s') \<Longrightarrow> bs_pending s' = bs_pending s"
    "outcomeUnknown W i s = (b, s') \<Longrightarrow> bs_pending s' = bs_pending s"
  by (auto simp: guardPending_def guardHeld_def outcomeUnknown_def Let_def split: option.splits sum.splits if_splits)

lemma balanced_same: "balanced s \<Longrightarrow> (\<And>i b. cnt (is_reject i b) s' = cnt (is_reject i b) s) \<Longrightarrow> (\<And>i b. cnt (is_prompt i b) s' = cnt (is_prompt i b) s)
    \<Longrightarrow> bs_pending s' = bs_pending s \<Longrightarrow> balanced s'"
  by (simp add: balanced_def)

text \<open>A handler that neither prompts nor rejects.\<close>

definition neutral :: "bot_state \<Rightarrow> bot_state \<Rightarrow> bool" where
  "neutral s s' \<longleftrightarrow> bs_pending s' = bs_pending s \<and> (\<forall>i b. cnt (is_reject i b) s' = cnt (is_reject i b) s \<and> cnt (is_prompt i b) s' = cnt (is_prompt i b) s)"

lemma neutral_balanced: "neutral s s' \<Longrightarrow> balanced s \<Longrightarrow> balanced s'"
  using balanced_same [of s s'] by (simp add: neutral_def)

lemma neutral_guard: "guardPending W cq i s = (b, s') \<Longrightarrow> neutral s s'" "guardHeld W cq i s = (b, s') \<Longrightarrow> neutral s s'"
    "outcomeUnknown W i s = (b, s') \<Longrightarrow> neutral s s'"
  using cnt_guard [OF quiet_reject(1)] cnt_guard [OF quiet_reject(2)] pending_guard by (fastforce simp: neutral_def)+

lemmas neutral_auto = neutral_def decide_call_def Let_def cnt_guard [OF quiet_reject(1)] cnt_guard [OF quiet_reject(2)] pending_guard

lemma neutral_approve: "neutral s (tg_handleApprove W cq s)" "neutral s (tg_handleApproveAs W cq s)"
  by (auto simp: neutral_auto tg_handleApprove_def tg_handleApproveAs_def split: prod.splits option.splits bool.splits)

lemma neutral_keyboards: "neutral s (handleChange W cq s)" "neutral s (handleChangeBack W cq s)" "neutral s (handleResendBack W cq s)"
  by (auto simp: neutral_auto handleChange_def handleChangeBack_def handleResendBack_def)

lemma neutral_hold: "neutral s (hold_decision W cq p v EExpose s)" "neutral s (hold_decision W cq p v EDrop s)"
  by (auto simp: neutral_auto hold_decision_def split: prod.splits bool.splits)

lemma neutral_full: "neutral s (handleHeldFull W cq s)"
proof (cases "cq_from cq \<noteq> bw_operator W")
  case False
  let ?i = "trim_prefix (cq_data cq) cbHeldFull"
  show ?thesis
  proof (cases "bw_content W ?i (bs_log s)")
    case (Inl e)
    then show ?thesis using False by (cases e) (simp_all add: neutral_def handleHeldFull_def Let_def)
  next
    case (Inr raw)
    obtain t tr ok where h: "heldFullText (bw_cards W) raw = (t, tr, ok)" by (cases "heldFullText (bw_cards W) raw") auto
    show ?thesis using False Inr h by (simp add: neutral_def handleHeldFull_def Let_def)
  qed
qed (simp add: neutral_def handleHeldFull_def)

lemma neutral_resend: "neutral s (tg_handleResend W cq s)" "neutral s (handleResendAck W cq s)"
  by (auto simp: neutral_auto tg_handleResend_def handleResendAck_def split: prod.splits bool.splits)

lemmas neutral_taps = neutral_approve neutral_keyboards neutral_hold neutral_full neutral_resend

lemma waits_update: "waits i b (AList.update k st l) \<le> waits i b l + (if rj_id st = i \<and> rj_retryable st = b then 1 else 0)"
  by (induction l) (auto simp: waits_def)

lemma waits_filter: "waits i b (filter P l) \<le> waits i b l"
  by (induction l) (auto simp: waits_def)

lemma waits_prune: "waits i b (prunePendingLocked now l) \<le> waits i b l"
  unfolding prunePendingLocked_def by (rule waits_filter)

lemma waits_delete: "map_of l k = Some st \<Longrightarrow> waits i b (AList.delete k l) + (if rj_id st = i \<and> rj_retryable st = b then 1 else 0) \<le> waits i b l"
proof (induction l)
  case (Cons x l)
  have "waits i b (AList.delete k l) \<le> waits i b l" by (simp add: AList.delete_eq waits_filter)
  then show ?case using Cons by (cases x) (auto simp: waits_def split: if_splits)
qed simp

lemma balanced_prompt: "balanced s \<Longrightarrow> balanced (promptReason W cq p b s)"
proof -
  assume s: "balanced s"
  have add: "balanced (editResult cq t (answer cq a False ((emit (EPrompt chat (prompt_text b i)) s1)\<lparr>bs_pending :=
      AList.update k \<lparr>rj_id = i, rj_retryable = b, rj_chat = chat, rj_msg = n, rj_at = now\<rparr> (prunePendingLocked now (bs_pending s1))\<rparr>)))"
    if "balanced s1" for s1 t a chat i k n now
    unfolding balanced_def
  proof (intro allI)
    fix j c
    let ?st = "\<lparr>rj_id = i, rj_retryable = b, rj_chat = chat, rj_msg = n, rj_at = now\<rparr>"
    have "waits j c (AList.update k ?st (prunePendingLocked now (bs_pending s1))) \<le> waits j c (bs_pending s1) + (if i = j \<and> b = c then 1 else 0)"
      using waits_update [of j c k ?st "prunePendingLocked now (bs_pending s1)"] waits_prune [of j c now "bs_pending s1"] by (auto split: if_splits)
    moreover have "cnt (is_reject j c) s1 + waits j c (bs_pending s1) \<le> cnt (is_prompt j c) s1" using that by (simp add: balanced_def)
    ultimately show "cnt (is_reject j c) (editResult cq t (answer cq a False ((emit (EPrompt chat (prompt_text b i)) s1)\<lparr>bs_pending :=
        AList.update k ?st (prunePendingLocked now (bs_pending s1))\<rparr>)))
      + waits j c (bs_pending (editResult cq t (answer cq a False ((emit (EPrompt chat (prompt_text b i)) s1)\<lparr>bs_pending :=
        AList.update k ?st (prunePendingLocked now (bs_pending s1))\<rparr>))))
      \<le> cnt (is_prompt j c) (editResult cq t (answer cq a False ((emit (EPrompt chat (prompt_text b i)) s1)\<lparr>bs_pending :=
        AList.update k ?st (prunePendingLocked now (bs_pending s1))\<rparr>)))"
      by (auto split: if_splits)
  qed
  have fail: "balanced (answer cq a False (emit (EPrompt chat t) s1))" if "balanced s1" for s1 a chat t
    using that by (fastforce simp: balanced_def intro: le_SucI)
  show ?thesis
  proof (cases "cq_from cq \<noteq> bw_operator W \<or> cq_msg cq = None")
    case True
    then show ?thesis using s by (auto simp: promptReason_def balanced_def)
  next
    case False
    then obtain chat n where m: "cq_from cq = bw_operator W" "cq_msg cq = Some (chat, n)" by auto
    obtain ok s1 where g: "guardPending W cq (trim_prefix (cq_data cq) p) s = (ok, s1)" by fastforce
    have b1: "balanced s1" using neutral_balanced [OF neutral_guard(1) [OF g] s] .
    show ?thesis using b1 add [OF b1] fail [OF b1] by (simp add: promptReason_def m g tg_send_def Let_def split: bool.splits option.splits)
  qed
qed

lemma balanced_reply: "balanced s \<Longrightarrow> balanced (handleReasonReply W m s)"
proof (cases "rp_from m = Some (bw_operator W) \<and> map_of (bs_pending s) (rp_to m) \<noteq> None")
  case True
  assume s: "balanced s"
  obtain st where st: "map_of (bs_pending s) (rp_to m) = Some st" using True by auto
  show ?thesis unfolding balanced_def
  proof (intro allI)
    fix i b
    show "cnt (is_reject i b) (handleReasonReply W m s) + waits i b (bs_pending (handleReasonReply W m s)) \<le> cnt (is_prompt i b) (handleReasonReply W m s)"
      using s waits_delete [OF st, of i b] True by (auto simp: balanced_def handleReasonReply_def st decide_call_def elim!: allE [of _ i] allE [of _ b])
  qed
qed (auto simp: handleReasonReply_def split: option.splits)

lemma balanced_update: "balanced s \<Longrightarrow> balanced (handle_update W u s)"
proof (cases u)
  case (Callback cq)
  assume s: "balanced s"
  show ?thesis
  proof (cases "find (\<lambda>(p, h). has_prefix (cq_data cq) p) tap_handlers")
    case (Some ph)
    obtain p h where ph: "ph = (p, h)" by fastforce
    have "(p, h) \<in> set tap_handlers" using Some unfolding ph by (auto simp: find_Some_iff in_set_conv_nth)
    then have "balanced (h W cq s)"
      using neutral_balanced [OF _ s] balanced_prompt [OF s] neutral_taps
      by (auto simp: tap_handlers_def handleRejectPermanent_def handleRejectRetryable_def tg_handleExpose_def tg_handleDrop_def)
    then show ?thesis using Some by (simp add: handle_update_def Callback ph)
  qed (simp add: handle_update_def Callback s)
qed (simp_all add: handle_update_def balanced_reply)

text \<open>C0: a rejection is the answer to a prompt. A message is rejected, as permanent or as retryable, at most as often as the
  operator was asked for the reason of that very rejection of that very message: a reply decides once, and nothing else
  than a reply rejects.\<close>

theorem rejection_was_prompted:
  "length (filter (is_reject i b) (bs_log (bot_run W evs))) \<le> length (filter (is_prompt i b) (bs_log (bot_run W evs)))"
proof -
  have "balanced (bot_step W ev s)" if "balanced s" for ev s
    using that balanced_update balanced_same [OF that] by (cases ev) (auto simp: bot_step_def)
  then have "balanced (fold (bot_step W) evs s)" if "balanced s" for s
    using that by (induction evs arbitrary: s) simp_all
  moreover have "balanced bot_start" by (simp add: balanced_def bot_start_def cnt_def waits_def)
  ultimately have "balanced (bot_run W evs)" by (simp add: bot_run_def)
  then have "cnt (is_reject i b) (bot_run W evs) + waits i b (bs_pending (bot_run W evs)) \<le> cnt (is_prompt i b) (bot_run W evs)"
    by (simp add: balanced_def)
  then show ?thesis unfolding cnt_def by linarith
qed

section \<open>A button makes the decision it names\<close>

definition button_calls :: "(string \<times> string) list \<Rightarrow> string \<Rightarrow> (string \<times> tg_effect option) list" where
  "button_calls ids i = map (\<lambda>(name, identity). (cbApproveAs @ name @ '':'' @ i, Some (EApproveAs i name))) ids
     @ [(cbApprove @ i, Some (EApprove i)), (cbExpose @ i, Some (EExpose i)), (cbDrop @ i, Some (EDrop i)),
        (cbResend @ i, Some (EReSend i False)), (cbResendAck @ i, Some (EReSend i True)),
        (cbRejectPerm @ i, None), (cbRejectRetry @ i, None), (cbChange @ i, None), (cbChangeBack @ i, None),
        (cbHeldFull @ i, None), (cbResendBack @ i, None)]"

lemma buttons_listed:
  "(label, data) \<in> set (concat (decisionKeyboard s i @ identityKeyboard s i @ holdKeyboard i @ failedKeyboard i @ confirmKeyboard i))
   \<Longrightarrow> data \<in> fst ` set (button_calls (bs_identities s) i)"
  by (auto simp: decisionKeyboard_def identityKeyboard_def holdKeyboard_def failedKeyboard_def confirmKeyboard_def button_calls_def
      image_iff split: if_splits) force+

text \<open>The effects added, of which none decides but the one named.\<close>

definition only :: "tg_effect option \<Rightarrow> bot_state \<Rightarrow> bot_state \<Rightarrow> bool" where
  "only c s s' \<longleftrightarrow> (\<exists>es. bs_log s' = bs_log s @ es \<and> (\<forall>e \<in> set es. deciding e \<longrightarrow> c = Some e))"

lemma only_refl [simp]: "only c s s"
  by (simp add: only_def)

lemma only_emit: "only c s s' \<Longrightarrow> deciding e \<longrightarrow> c = Some e \<Longrightarrow> only c s (emit e s')"
  unfolding only_def by (elim exE, rule_tac x = "es @ [e]" in exI) (auto simp: emit_def)

lemma only_fields [simp]: "only c s (s'\<lparr>bs_failed := a\<rparr>) = only c s s'" "only c s (s'\<lparr>bs_pending := p\<rparr>) = only c s s'"
  by (simp_all add: only_def)

lemma only_small: "only c s s' \<Longrightarrow> only c s (answer cq t b s')" "only c s s' \<Longrightarrow> only c s (denyCallback cq s')"
    "only c s s' \<Longrightarrow> only c s (editResult cq r s')" "only c s s' \<Longrightarrow> only c s (edit_keyboard cq kb s')"
    "only c s s' \<Longrightarrow> only c s (finishDecision W cq v i x s')" "only c s s' \<Longrightarrow> only c s (askToConfirm cq i s')"
    "only c s s' \<Longrightarrow> only c s (finishResend W cq i x s')" "only c s s' \<Longrightarrow> only c s (sendFullBody W i a body s')"
  by (auto simp: answer_def denyCallback_def editResult_def edit_keyboard_def finishDecision_def askToConfirm_def finishResend_def
      sendFullBody_def send_document_def sendFullBodyFailedNotice_def tg_send_def Let_def only_emit split: option.splits prod.splits)

lemma only_guard: "guardPending W cq i s = (b, s') \<Longrightarrow> only c s s'" "guardHeld W cq i s = (b, s') \<Longrightarrow> only c s s'"
    "outcomeUnknown W i s = (b, s') \<Longrightarrow> only c s s'"
  by (auto simp: guardPending_def guardHeld_def outcomeUnknown_def Let_def only_emit only_small split: option.splits sum.splits if_splits)

lemmas only_auto = only_emit only_small only_guard

lemma only_approve: "only (Some (EApprove (trim_prefix (cq_data cq) cbApprove))) s (tg_handleApprove W cq s)"
  by (auto simp: tg_handleApprove_def decide_call_def Let_def only_auto split: prod.splits bool.splits)

lemma only_approveAs: "parseApproveAs (cq_data cq) = Some (inbox, i) \<Longrightarrow> only (Some (EApproveAs i inbox)) s (tg_handleApproveAs W cq s)"
  by (auto simp: tg_handleApproveAs_def decide_call_def Let_def only_auto split: prod.splits bool.splits)

lemma only_keyboards: "only c s (handleChange W cq s)" "only c s (handleChangeBack W cq s)" "only c s (handleResendBack W cq s)"
  by (auto simp: handleChange_def handleChangeBack_def handleResendBack_def Let_def only_auto)

lemma only_prompt: "only c s (promptReason W cq p b s)"
  by (auto simp: promptReason_def tg_send_def Let_def only_auto split: prod.splits bool.splits option.splits)

lemma only_hold: "only (Some (call (trim_prefix (cq_data cq) p))) s (hold_decision W cq p v call s)"
  by (auto simp: hold_decision_def Let_def only_auto split: prod.splits bool.splits)

lemma only_full: "only c s (handleHeldFull W cq s)"
proof (cases "cq_from cq \<noteq> bw_operator W")
  case False
  let ?i = "trim_prefix (cq_data cq) cbHeldFull"
  show ?thesis
  proof (cases "bw_content W ?i (bs_log s)")
    case (Inl e)
    then show ?thesis using False by (cases e) (simp_all add: handleHeldFull_def Let_def only_auto)
  next
    case (Inr raw)
    obtain t tr ok where h: "heldFullText (bw_cards W) raw = (t, tr, ok)" by (cases "heldFullText (bw_cards W) raw") auto
    show ?thesis using False Inr h by (simp add: handleHeldFull_def Let_def only_auto)
  qed
qed (simp add: handleHeldFull_def only_auto)

lemma only_resend: "only (Some (EReSend (trim_prefix (cq_data cq) cbResend) False)) s (tg_handleResend W cq s)"
    "only (Some (EReSend (trim_prefix (cq_data cq) cbResendAck) True)) s (handleResendAck W cq s)"
  by (auto simp: tg_handleResend_def handleResendAck_def decide_call_def Let_def only_auto split: prod.splits bool.splits)

lemma trim_prefix_append [simp]: "trim_prefix (p @ i) p = i"
  by (simp add: trim_prefix_def has_prefix_iff)

lemmas cb_defs = cbApprove_def cbRejectPerm_def cbRejectRetry_def cbExpose_def cbDrop_def cbHeldFull_def cbChange_def cbApproveAs_def
  cbChangeBack_def cbResend_def cbResendAck_def cbResendBack_def

lemma dispatch:
  "cq_data cq = cbApprove @ i \<Longrightarrow> handle_update W (Callback cq) s = tg_handleApprove W cq s"
  "cq_data cq = cbRejectPerm @ i \<Longrightarrow> handle_update W (Callback cq) s = handleRejectPermanent W cq s"
  "cq_data cq = cbRejectRetry @ i \<Longrightarrow> handle_update W (Callback cq) s = handleRejectRetryable W cq s"
  "cq_data cq = cbExpose @ i \<Longrightarrow> handle_update W (Callback cq) s = tg_handleExpose W cq s"
  "cq_data cq = cbDrop @ i \<Longrightarrow> handle_update W (Callback cq) s = tg_handleDrop W cq s"
  "cq_data cq = cbHeldFull @ i \<Longrightarrow> handle_update W (Callback cq) s = handleHeldFull W cq s"
  "cq_data cq = cbApproveAs @ i \<Longrightarrow> handle_update W (Callback cq) s = tg_handleApproveAs W cq s"
  "cq_data cq = cbChangeBack @ i \<Longrightarrow> handle_update W (Callback cq) s = handleChangeBack W cq s"
  "cq_data cq = cbChange @ i \<Longrightarrow> handle_update W (Callback cq) s = handleChange W cq s"
  "cq_data cq = cbResendAck @ i \<Longrightarrow> handle_update W (Callback cq) s = handleResendAck W cq s"
  "cq_data cq = cbResendBack @ i \<Longrightarrow> handle_update W (Callback cq) s = handleResendBack W cq s"
  "cq_data cq = cbResend @ i \<Longrightarrow> handle_update W (Callback cq) s = tg_handleResend W cq s"
  by (simp_all add: handle_update_def tap_handlers_def cb_defs)

lemma parse_approveAs: "CHR '':'' \<notin> set i \<Longrightarrow> parseApproveAs (cbApproveAs @ name @ '':'' @ i) = Some (name, i)"
proof -
  assume i: "CHR '':'' \<notin> set i"
  have "takeWhile (\<lambda>x. x \<noteq> CHR '':'') (rev i @ CHR '':'' # rev name) = rev i" "dropWhile (\<lambda>x. x \<noteq> CHR '':'') (rev i @ CHR '':'' # rev name) = CHR '':'' # rev name"
    using i by (induction i rule: rev_induct) auto
  then show ?thesis by (simp add: parseApproveAs_def Let_def after_last_def before_last_def)
qed

text \<open>C0: a button makes the decision it names. Whatever the state of the client and of the service, a tap on any button of any
  card of a message asks the service for nothing but the one decision of that button about that message, and none for the
  buttons that open a menu, a prompt or a document. The picker's button decides with the inbox it is labelled for, whatever
  characters the inbox's name has.\<close>

theorem button_decides_its_own:
  assumes "(data, call) \<in> set (button_calls ids i)" "CHR '':'' \<notin> set i" "cq_data cq = data"
  shows "\<exists>es. bs_log (handle_update W (Callback cq) s) = bs_log s @ es \<and> set (filter deciding es) \<subseteq> set_option call"
proof -
  consider name where "data = cbApproveAs @ name @ '':'' @ i" "call = Some (EApproveAs i name)"
    | "data = cbApprove @ i" "call = Some (EApprove i)" | "data = cbExpose @ i" "call = Some (EExpose i)" | "data = cbDrop @ i" "call = Some (EDrop i)"
    | "data = cbResend @ i" "call = Some (EReSend i False)" | "data = cbResendAck @ i" "call = Some (EReSend i True)"
    | "data = cbRejectPerm @ i" | "data = cbRejectRetry @ i" | "data = cbChange @ i" | "data = cbChangeBack @ i"
    | "data = cbHeldFull @ i" | "data = cbResendBack @ i"
    using assms(1) by (auto simp: button_calls_def)
  then have "only call s (handle_update W (Callback cq) s)"
  proof cases
    case (1 name)
    have p: "parseApproveAs (cq_data cq) = Some (name, i)" unfolding assms(3) 1(1) by (rule parse_approveAs [OF assms(2)])
    show ?thesis unfolding dispatch(7) [OF trans [OF assms(3) 1(1)]] 1(2) by (rule only_approveAs [OF p])
  next
    case 2
    show ?thesis using only_approve [of cq s W] assms(3) 2 dispatch(1) [OF trans [OF assms(3) 2(1)]] by simp
  next
    case 3
    show ?thesis using only_hold [of EExpose cq cbExpose s W] assms(3) 3 dispatch(4) [OF trans [OF assms(3) 3(1)]] by (simp add: tg_handleExpose_def)
  next
    case 4
    show ?thesis using only_hold [of EDrop cq cbDrop s W] assms(3) 4 dispatch(5) [OF trans [OF assms(3) 4(1)]] by (simp add: tg_handleDrop_def)
  next
    case 5
    show ?thesis using only_resend(1) [of cq s W] assms(3) 5 dispatch(12) [OF trans [OF assms(3) 5(1)]] by simp
  next
    case 6
    show ?thesis using only_resend(2) [of cq s W] assms(3) 6 dispatch(10) [OF trans [OF assms(3) 6(1)]] by simp
  qed (simp_all add: dispatch [OF trans [OF assms(3)]] handleRejectPermanent_def handleRejectRetryable_def only_prompt only_keyboards only_full)
  then show ?thesis by (auto simp: only_def)
qed

section \<open>A card is posted once\<close>

definition approve_card :: "string \<Rightarrow> tg_effect \<Rightarrow> bool" where
  "approve_card i e \<longleftrightarrow> (case e of ESend c t (Some kb) a \<Rightarrow> (''Approve'', cbApprove @ i) \<in> set (concat kb) | _ \<Rightarrow> False)"

definition emits :: "(tg_effect \<Rightarrow> bool) \<Rightarrow> bot_state \<Rightarrow> bot_state \<Rightarrow> bool" where
  "emits P s s' \<longleftrightarrow> (\<exists>es. bs_log s' = bs_log s @ es \<and> list_all P es) \<and> bs_posted s' = bs_posted s"

lemma emits_refl [simp]: "emits P s s"
  by (simp add: emits_def)

lemma emits_trans: "emits P s t \<Longrightarrow> emits P t u \<Longrightarrow> emits P s u"
  by (auto simp: emits_def)

lemma emits_emit: "P e \<Longrightarrow> emits P s (emit e s)"
  by (simp add: emits_def emit_def)

lemma emits_fold: "(\<And>x s. emits P s (f x s)) \<Longrightarrow> emits P s (fold f xs s)"
proof (induction xs arbitrary: s)
  case (Cons x xs)
  then show ?case using emits_trans [of P s "f x s" "fold f xs (f x s)"] by simp
qed simp

definition no_card :: "tg_effect \<Rightarrow> bool" where
  "no_card e \<longleftrightarrow> (\<forall>i. \<not> approve_card i e)"

lemma no_card_simps [simp]: "no_card EInboxes" "no_card EList" "no_card (EShow i)" "no_card (EDocument c n d t a)" "no_card (ESend c t None a)"
    "no_card (ESend c t (Some (failedKeyboard i)) a)"
  by (simp_all add: no_card_def approve_card_def failedKeyboard_def)

lemma approve_card_decision: "approve_card j (ESend c t (Some (decisionKeyboard s i)) a) \<longleftrightarrow> j = i"
  by (auto simp: approve_card_def decisionKeyboard_def)

lemma emits_body: "emits no_card s (sendFullBody W i a b s)"
  by (auto simp: sendFullBody_def send_document_def sendFullBodyFailedNotice_def tg_send_def
      intro: emits_emit emits_trans [OF emits_emit emits_emit])

lemma emits_attachments: "emits no_card s (sendAttachments W i a as s)"
  unfolding sendAttachments_def by (rule emits_fold) (simp add: send_document_def emits_emit)

lemma notify_log:
  assumes "notify W m s = (ok, s')"
  shows "\<exists>e es. bs_log s' = bs_log s @ EShow (mt_id m) # e # es \<and> (\<forall>j. approve_card j e \<longleftrightarrow> j = mt_id m) \<and> list_all no_card es
    \<and> (ok \<longleftrightarrow> bw_send W e (bs_log s @ [EShow (mt_id m)]) \<noteq> None) \<and> bs_posted s' = bs_posted s"
proof -
  let ?s1 = "emit (EShow (mt_id m)) s"
  let ?fetched = "case bw_show W (mt_id m) (bs_log s) of Inl e \<Rightarrow> None | Inr b \<Rightarrow> Some b"
  let ?n = "new_notification (bw_cards W) m ?fetched"
  obtain t off where t: "formatNotification ?n = (t, off)" by fastforce
  let ?e = "ESend (bw_operator W) t (Some (decisionKeyboard ?s1 (mt_id m))) 0"
  have c: "\<forall>j. approve_card j ?e \<longleftrightarrow> j = mt_id m" using approve_card_decision by blast
  have l1: "bs_log ?s1 = bs_log s @ [EShow (mt_id m)]" by (simp add: emit_def)
  show ?thesis
  proof (cases "bw_send W ?e (bs_log ?s1)")
    case None
    then have "ok = False" "s' = emit ?e ?s1" using assms by (auto simp: notify_def Let_def t tg_send_def)
    then show ?thesis using c None unfolding l1 by (intro exI [of _ ?e] exI [of _ "[]"]) (simp add: emit_def)
  next
    case (Some anchor)
    let ?s2 = "emit ?e ?s1"
    let ?s3 = "if off then sendFullBody W (mt_id m) anchor (nt_body ?n) ?s2 else ?s2"
    have ok: "ok = True" "s' = sendAttachments W (mt_id m) anchor (nt_attachments ?n) ?s3"
      using assms Some by (auto simp: notify_def Let_def t tg_send_def)
    have "emits no_card ?s2 s'" unfolding ok(2) using emits_trans [OF _ emits_attachments] emits_body by (cases off) auto
    then obtain es where "bs_log s' = bs_log ?s2 @ es" "list_all no_card es" "bs_posted s' = bs_posted ?s2" by (auto simp: emits_def)
    then show ?thesis using c Some ok(1) unfolding l1 by (intro exI [of _ ?e] exI [of _ es]) (simp add: emit_def)
  qed
qed

lemma no_card_filter: "list_all no_card es \<Longrightarrow> filter (approve_card i) es = []"
  by (induction es) (auto simp: no_card_def)

text \<open>What one message of the listing does to the cards of the message \<open>i\<close>.\<close>

lemma poll_other: "mt_id m \<noteq> i \<or> mt_status m \<noteq> Pending \<or> i \<in> set (bs_posted s) \<Longrightarrow>
    cnt (approve_card i) (poll_one W m s) = cnt (approve_card i) s \<and> (i \<in> set (bs_posted (poll_one W m s)) \<longleftrightarrow> i \<in> set (bs_posted s))"
proof -
  assume a: "mt_id m \<noteq> i \<or> mt_status m \<noteq> Pending \<or> i \<in> set (bs_posted s)"
  show ?thesis
  proof (cases "mt_status m \<noteq> Pending \<or> mt_id m \<in> set (bs_posted s)")
    case False
    obtain ok s' where n: "notify W m s = (ok, s')" by fastforce
    obtain e es where "bs_log s' = bs_log s @ EShow (mt_id m) # e # es" "\<forall>j. approve_card j e \<longleftrightarrow> j = mt_id m" "list_all no_card es"
      "bs_posted s' = bs_posted s" using notify_log [OF n] by blast
    then show ?thesis using a False no_card_filter [of es i] by (auto simp: poll_one_def n cnt_def mark_def approve_card_def)
  qed (auto simp: poll_one_def)
qed

lemma poll_others: "\<forall>m \<in> set ms. mt_id m \<noteq> i \<or> mt_status m \<noteq> Pending \<or> i \<in> set (bs_posted s) \<Longrightarrow>
    cnt (approve_card i) (fold (poll_one W) ms s) = cnt (approve_card i) s \<and> (i \<in> set (bs_posted (fold (poll_one W) ms s)) \<longleftrightarrow> i \<in> set (bs_posted s))"
proof (induction ms arbitrary: s)
  case (Cons m ms)
  have h: "cnt (approve_card i) (poll_one W m s) = cnt (approve_card i) s \<and> (i \<in> set (bs_posted (poll_one W m s)) \<longleftrightarrow> i \<in> set (bs_posted s))"
    by (rule poll_other) (use Cons.prems in auto)
  then show ?case using Cons.IH [of "poll_one W m s"] Cons.prems by auto
qed simp

lemma poll_log_prefix: "\<exists>es. bs_log (poll_one W m s) = bs_log s @ es" "\<exists>es. bs_log (failed_one W m s) = bs_log s @ es"
proof -
  obtain ok s' where n: "notify W m s = (ok, s')" by fastforce
  show "\<exists>es. bs_log (poll_one W m s) = bs_log s @ es" using notify_log [OF n] by (auto simp: poll_one_def n)
  show "\<exists>es. bs_log (failed_one W m s) = bs_log s @ es" by (auto simp: failed_one_def tg_send_def emit_def split: option.splits)
qed

lemma fold_log_prefix: "(\<And>x s. \<exists>es. bs_log (f x s) = bs_log s @ es) \<Longrightarrow> \<exists>es. bs_log (fold f xs s) = bs_log s @ es"
proof (induction xs arbitrary: s)
  case (Cons x xs)
  then obtain es where "bs_log (f x s) = bs_log s @ es" by blast
  moreover obtain es' where "bs_log (fold f xs (f x s)) = bs_log (f x s) @ es'" using Cons by blast
  ultimately show ?case by simp
qed simp

lemma failed_cards: "cnt (approve_card i) (pollFailed W ms s) = cnt (approve_card i) s \<and> bs_posted (pollFailed W ms s) = bs_posted s
    \<and> (\<exists>es. bs_log (pollFailed W ms s) = bs_log s @ es)"
proof -
  have "emits no_card s (failed_one W m s)" for m s
    by (auto simp: failed_one_def tg_send_def emits_def emit_def split: option.splits)
  then have "emits no_card (s\<lparr>bs_failed := prune (failed_ids ms) (bs_failed s)\<rparr>) (pollFailed W ms s)"
    unfolding pollFailed_def by (rule emits_fold)
  then obtain es where "bs_log (pollFailed W ms s) = bs_log s @ es" "list_all no_card es" "bs_posted (pollFailed W ms s) = bs_posted s"
    by (auto simp: emits_def)
  then show ?thesis by (simp add: cnt_def no_card_filter)
qed

text \<open>C0: each message that awaits the operator gets one card. A poll that lists a pending message sends no second card for
  it when it has one, and remembers it; otherwise it sends exactly one, and remembers it exactly when the send was accepted,
  so that a refused card is sent again by the next poll.\<close>

theorem poll_posts_once:
  assumes "bw_list W (bs_log s) = Inr metas" "distinct (map mt_id metas)" "m \<in> set metas" "mt_status m = Pending"
  defines "i \<equiv> mt_id m" and "s' \<equiv> poll W s"
  shows "if i \<in> set (bs_posted s) then cnt (approve_card i) s' = cnt (approve_card i) s \<and> i \<in> set (bs_posted s')
    else cnt (approve_card i) s' = cnt (approve_card i) s + 1
      \<and> (\<exists>l e r. bs_log s' = l @ e # r \<and> approve_card i e \<and> (i \<in> set (bs_posted s') \<longleftrightarrow> bw_send W e l \<noteq> None))"
proof -
  let ?s0 = "(emit EList s)\<lparr>bs_posted := prune (pending_ids metas) (bs_posted (emit EList s))\<rparr>"
  let ?s1 = "fold (poll_one W) metas ?s0"
  have p: "s' = pollFailed W metas ?s1" using assms(1) by (simp add: s'_def poll_def Let_def)
  have c0: "cnt (approve_card i) ?s0 = cnt (approve_card i) s" by (simp add: approve_card_def)
  have m0: "i \<in> set (bs_posted ?s0) \<longleftrightarrow> i \<in> set (bs_posted s)"
    using assms(3,4) by (auto simp: prune_def pending_ids_def i_def emit_def)
  note f = failed_cards [of i W metas ?s1, folded p]
  show ?thesis
  proof (cases "i \<in> set (bs_posted s)")
    case True
    then have "cnt (approve_card i) ?s1 = cnt (approve_card i) ?s0 \<and> (i \<in> set (bs_posted ?s1) \<longleftrightarrow> i \<in> set (bs_posted ?s0))"
      by (intro poll_others) (use m0 in blast)
    then show ?thesis using True f c0 m0 by simp
  next
    case False
    obtain pre post where split: "metas = pre @ m # post" using split_list [OF assms(3)] by blast
    have ids: "\<forall>x \<in> set pre. mt_id x \<noteq> i" "\<forall>x \<in> set post. mt_id x \<noteq> i" using assms(2) by (auto simp: split i_def image_iff)
    let ?a = "fold (poll_one W) pre ?s0" let ?b = "poll_one W m ?a"
    have a: "cnt (approve_card i) ?a = cnt (approve_card i) ?s0 \<and> (i \<in> set (bs_posted ?a) \<longleftrightarrow> i \<in> set (bs_posted ?s0))"
      by (rule poll_others) (use ids in blast)
    have b: "cnt (approve_card i) ?s1 = cnt (approve_card i) ?b \<and> (i \<in> set (bs_posted ?s1) \<longleftrightarrow> i \<in> set (bs_posted ?b))"
      using poll_others [of post i ?b W] ids by (simp add: split)
    obtain ok n where n: "notify W m ?a = (ok, n)" by fastforce
    obtain e es where e: "bs_log n = bs_log ?a @ EShow i # e # es" "\<forall>j. approve_card j e \<longleftrightarrow> j = i" "list_all no_card es"
      "ok \<longleftrightarrow> bw_send W e (bs_log ?a @ [EShow i]) \<noteq> None" "bs_posted n = bs_posted ?a" using notify_log [OF n] unfolding i_def by blast
    have na: "i \<notin> set (bs_posted ?a)" using a m0 False by simp
    have b': "?b = (if ok then n\<lparr>bs_posted := mark i (bs_posted n)\<rparr> else n)" using na assms(4) n by (simp add: poll_one_def i_def)
    have cb: "cnt (approve_card i) ?b = cnt (approve_card i) ?a + 1" using e(1,2) no_card_filter [OF e(3), of i] unfolding b' by (auto simp: cnt_def approve_card_def)
    have mb: "i \<in> set (bs_posted ?b) \<longleftrightarrow> ok" using na e(5) unfolding b' by (auto simp: mark_def)
    have lb: "bs_log ?b = (bs_log ?a @ [EShow i]) @ e # es" using e(1) unfolding b' by simp
    obtain r1 where "bs_log ?s1 = bs_log ?b @ r1" using fold_log_prefix [of "poll_one W" post ?b, OF poll_log_prefix(1)] by (auto simp: split)
    moreover obtain r2 where "bs_log s' = bs_log ?s1 @ r2" using f by blast
    ultimately have "bs_log s' = (bs_log ?a @ [EShow i]) @ e # (es @ r1 @ r2)" using lb by simp
    moreover have "i \<in> set (bs_posted s') \<longleftrightarrow> bw_send W e (bs_log ?a @ [EShow i]) \<noteq> None" using f b mb e(4) by simp
    moreover have "approve_card i e" using e(2) by simp
    moreover have "cnt (approve_card i) s' = cnt (approve_card i) s + 1" using f b cb a c0 by simp
    ultimately have "cnt (approve_card i) s' = cnt (approve_card i) s + 1
      \<and> (\<exists>l e r. bs_log s' = l @ e # r \<and> approve_card i e \<and> (i \<in> set (bs_posted s') \<longleftrightarrow> bw_send W e l \<noteq> None))" by blast
    then show ?thesis using False by (simp only: if_False)
  qed
qed

section \<open>An example\<close>

definition sample_meta :: meta where
  "sample_meta = \<lparr>mt_id = ''7'', mt_agent = ''bot'', mt_inbox = ''work'', mt_from = ''a@x'', mt_rcpt = [''b@y''], mt_subject = ''hi'',
     mt_size = 12, mt_received_at = 1, mt_status = Pending, mt_send_err = '''', mt_outcome_unknown = False, mt_resend_in_progress = False\<rparr>"

definition sample_world :: bot_world where
  "sample_world = \<lparr>bw_operator = 42, bw_cards = sample_cards, bw_inboxes = (\<lambda>l. Inl CeTransport), bw_list = (\<lambda>l. Inr [sample_meta]),
     bw_show = (\<lambda>i l. Inr ''pay me''), bw_decide = (\<lambda>e l. Inl CeTransport), bw_held = (\<lambda>l. Inr []), bw_content = (\<lambda>i l. Inl CeNotHeld),
     bw_evidence = (\<lambda>i l. Inl CeTransport), bw_hold = (\<lambda>e l. None), bw_latches = (\<lambda>l. Inl CeTransport), bw_send = (\<lambda>e l. Some 5),
     bw_document = (\<lambda>e l. True), bw_now = (\<lambda>l. 1), bw_text = (\<lambda>e. ''error'')\<rparr>"

definition sample_tap :: callback where
  "sample_tap = \<lparr>cq_id = ''c'', cq_from = 42, cq_data = ''approve_as:a:b:7'', cq_msg = Some (42, 5)\<rparr>"

theorem button_decides_its_own_witness:
  "\<exists>es. bs_log (handle_update sample_world (Callback sample_tap) bot_start) = bs_log bot_start @ es
    \<and> set (filter deciding es) \<subseteq> set_option (Some (EApproveAs ''7'' ''a:b''))"
  by (rule button_decides_its_own [of "''approve_as:a:b:7''" _ "[(''a:b'', ''me@x'')]" "''7''"])
    (simp_all add: button_calls_def cbApproveAs_def sample_tap_def)

theorem poll_posts_once_witness:
  "cnt (approve_card ''7'') (poll sample_world bot_start) = cnt (approve_card ''7'') bot_start + 1"
  using poll_posts_once [of sample_world bot_start "[sample_meta]" sample_meta]
  by (simp add: sample_world_def sample_meta_def bot_start_def)

end
