(* ===== verification/Spec2Isabelle.thy ===== *)
theory Spec2Isabelle
  imports Sluice Approver Opidentity Screener Agentcfg Admincfg Delivery Holds Imapfetch Smtpface Ondemand Classifier Synchealth Telegram
begin

text \<open>Verification library of darbaan, a mail gate between agents and their mail accounts.

  The program. An agent submits mail over SMTP; nothing it submits leaves before an approval. A submission
  is trapped in the outbound queue (\<open>internal/sluice\<close>); an operator, through the admin service
  (\<open>internal/admin\<close>), runs the approval chain (\<open>internal/approver\<close>, \<open>internal/policy\<close>) on it, and an approved
  message goes to the upstream server (\<open>internal/backend\<close>), a refused one comes back as a bounce
  (\<open>internal/bounce\<close>). The one way around is the list of operator identities (\<open>internal/opidentity\<close>). Incoming
  mail is synced into a local mailbox (\<open>internal/inbound\<close>), sanitized and stamped (\<open>internal/provenance\<close>,
  \<open>internal/inboxcfg\<close>), scored (\<open>internal/assessor\<close>, \<open>internal/riskscore\<close>, \<open>internal/screener\<close>), filtered
  (\<open>internal/filter\<close>) and guarded against forged bounces (\<open>internal/bounceguard\<close>). Every decision is written to
  a hash-chained log (\<open>internal/audit\<close>). Agents and operators hold grants (\<open>internal/agentcfg\<close>,
  \<open>internal/admincfg\<close>).

  Theories.
  \<^item> \<open>Prelude\<close>: bytes, decimal and big-endian codes, lists; \<open>Seqkey\<close>: record keys; \<open>Bucket\<close>: the database
    bucket, the locale of a key/value store and the locales \<open>machine\<close>, \<open>machine_rel\<close> of runs of operations,
    which every stateful component interprets; \<open>Blobstore\<close>: the content directory.
  \<^item> \<open>AuditLog\<close>: appending, verifying, paging of the log; verification accepts exactly the chained logs.
  \<^item> \<open>Sluice\<close>: the outbound queue, every operation with its failures, the state machine of a message as a
    step relation, the invariant of the store and its preservation by all operations, crashes included.
  \<^item> \<open>Approver\<close>: router, chain, manual approver. \<open>Opidentity\<close>: the bypass list.
  \<^item> \<open>Backend\<close>: the SMTP conversation and the classification of its failures. \<open>Bounce\<close>: the report.
  \<^item> \<open>Service\<close>: the admin service over the queue, the mailbox and the senders; a run of any calls from the empty
    mailroom hands over only what was approved. \<open>Delivery\<close>: concurrent calls as a step relation with the
    deliveries in flight; re-sends.
  \<^item> \<open>Provenance\<close>, \<open>Inboxcfg\<close>, \<open>Inbound\<close>: sanitizing and stamping, their configuration, the mailbox.
  \<^item> \<open>Riskscore\<close>, \<open>Assessor\<close>, \<open>Screener\<close>: detection and score. \<open>Mailrec\<close>, \<open>Mailfilter\<close>, \<open>Bounceguard\<close>: filters.
  \<^item> \<open>Utf8\<close>, \<open>Classifier\<close>: decoding of UTF-8, and the detector that sends a text to a classification endpoint window
    by window: where it may send, that its windows leave no gap, and that it always answers.
  \<^item> \<open>Agentcfg\<close>, \<open>Admincfg\<close>: credentials, grants, scopes, the gate of the admin interface.
  \<^item> \<open>Smtpface\<close>: the submission face (\<open>internal/listener/smtp.go\<close>) as sessions and the connections the library
    allows; what it hands to the queue is within the agent's grants, and what it accepts is in the queue.
  \<^item> \<open>Imapview\<close>, \<open>Imapfetch\<close>: the read face (\<open>internal/listener/imap.go\<close>), first the mailboxes an agent sees and what a
    SELECT shows, then FETCH, STORE and SEARCH with the resolution of content behind its gates. \<open>Holds\<close>: the
    operator's side, the held queue and the audit listing, and how the two sides agree.
  \<^item> \<open>Xgmlabels\<close>: the dialogue that writes Gmail labels. \<open>Upstream\<close>: cursors and latches, fetching one body on
    demand, writing labels. \<open>Imapsync\<close>: the pull and its cursor, the retraction of what left the source with its
    safety cap, as a refinement of an operation on the list of messages. \<open>Ondemand\<close>: the pacing of pulls among any
    number of callers, as a step relation over the two critical sections.

  Conventions. Strings and bytes are character lists, times integers in nanoseconds, Go's \<open>int\<close> an integer
  with the wrap-around written out where it can happen, \<open>uint64\<close> and \<open>uint32\<close> words. A Go error is a value of a
  datatype in a sum. Code outside the repository (the header parser and writer, MIME codecs, address and
  time parsers, YAML decoding, SHA-256 and JSON, the network) is an argument; where a theorem needs a law of
  it, the law is a named hypothesis with a concrete instance in the witness. A call of a store takes an \<open>io\<close>
  record that says which of its writes fail; a crash is a reopening of the store. Go maps are association
  lists.

  Bounds. Sequence numbers are 64-bit words; theorems on runs assume fewer than 2^64 operations, which keeps
  the counter from wrapping. The fixpoint loop of the banner has the fuel of the code, proved enough.\<close>

end
